(* ===== verification/Prelude.thy ===== *)
theory Prelude
  imports Main "HOL-Library.Word"
begin

text \<open>
  The vocabulary the components share: the machine types of the C++ code as words, the
  little-endian value of a list of words (the limbs of a big integer, the bytes of a
  serialised integer), and the collections of rewrite rules the component proofs use.
\<close>

unbundle bit_operations_syntax

subsection \<open>Machine types\<close>

type_synonym byte = "8 word"
type_synonym u16 = "16 word"
type_synonym u32 = "32 word"
type_synonym u64 = "64 word"

text \<open>A byte string, \<^verbatim>\<open>std::vector<unsigned char>\<close> in the code.\<close>

type_synonym bytes = "byte list"

named_theorems val_simps \<open>value of limb and byte lists\<close>
named_theorems len_simps \<open>lengths of the lists the operations return\<close>

subsection \<open>Results that may fail\<close>

text \<open>A computation of the code that may throw: \<open>Inl\<close> the exception, \<open>Inr\<close> the value.\<close>

definition rbind :: "'e + 'a \<Rightarrow> ('a \<Rightarrow> 'e + 'b) \<Rightarrow> 'e + 'b" where
  "rbind r f = (case r of Inl e \<Rightarrow> Inl e | Inr x \<Rightarrow> f x)"

lemma rbind_simps [simp]: "rbind (Inl e) f = Inl e" "rbind (Inr x) f = f x"
  by (simp_all add: rbind_def)

lemma rbind_eq_Inr: "rbind r f = Inr y \<longleftrightarrow> (\<exists>x. r = Inr x \<and> f x = Inr y)"
  by (cases r) auto

lemma rbind_eq_Inl: "rbind r f = Inl e \<longleftrightarrow> r = Inl e \<or> (\<exists>x. r = Inr x \<and> f x = Inl e)"
  by (cases r) (auto simp: rbind_simps)

lemma rbind_eq_sym:
  "Inr y = rbind r f \<longleftrightarrow> (\<exists>x. r = Inr x \<and> f x = Inr y)"
  "Inl e = rbind r f \<longleftrightarrow> r = Inl e \<or> (\<exists>x. r = Inr x \<and> f x = Inl e)"
  by (cases r; auto)+

lemmas rbind_iffs = rbind_eq_Inr rbind_eq_Inl rbind_eq_sym

lemma rbind_assoc: "rbind (rbind r f) g = rbind r (\<lambda>x. rbind (f x) g)"
  by (cases r) auto

lemma rbind_cong [fundef_cong]:
  "r = r' \<Longrightarrow> (\<And>x. r' = Inr x \<Longrightarrow> f x = f' x) \<Longrightarrow> rbind r f = rbind r' f'"
  by (cases r') auto

subsection \<open>Unsigned values of words\<close>

lemma unat_lt_byte: "unat (x :: byte) < 256"
  using unsigned_less [of x, where ?'a = nat] by simp
lemma unat_lt_u16: "unat (x :: u16) < 65536"
  using unsigned_less [of x, where ?'a = nat] by simp
lemma unat_lt_u32: "unat (x :: u32) < 4294967296"
  using unsigned_less [of x, where ?'a = nat] by simp
lemma unat_lt_u64: "unat (x :: u64) < 18446744073709551616"
  using unsigned_less [of x, where ?'a = nat] by simp

lemma unat_drop_bit: "unat (drop_bit k (n :: 'a::len word)) = unat n div 2 ^ k"
  by (metis drop_bit_eq_div take_bit_nat_eq_self unsigned_drop_bit_eq unsigned_less)
lemma unat_push_bit: "unat (push_bit k (n :: 'a::len word)) = (unat n * 2 ^ k) mod 2 ^ LENGTH('a)"
  by (simp only: unsigned_push_bit_eq push_bit_eq_mult [where ?'a = nat] take_bit_eq_mod [where ?'a = nat])
lemma unat_ucast_mod: "unat (ucast (n :: 'a::len word) :: 'b::len word) = unat n mod 2 ^ LENGTH('b)"
  by (simp add: unsigned_ucast_eq take_bit_eq_mod)
lemma unat_ucast_up: "LENGTH('a) \<le> LENGTH('b) \<Longrightarrow> unat (ucast (n :: 'a::len word) :: 'b::len word) = unat n"
  by (simp add: unat_ucast_mod) (metis mod_less order_less_le_trans power_increasing one_le_numeral unsigned_less)

lemma unat_and_mask: "unat (n AND mask k :: 'a::len word) = unat n mod 2 ^ k"
  by (simp only: take_bit_eq_mask [symmetric] unsigned_take_bit_eq take_bit_eq_mod [where ?'a = nat])

lemma bit_top_iff:
  assumes "unat (x :: 'a::len word) < 2 ^ Suc k"
  shows "bit x k \<longleftrightarrow> 2 ^ k \<le> unat x"
proof -
  have less: "unat x div 2 ^ k < 2" using assms by (simp add: less_mult_imp_div_less)
  have "bit (unat x) k \<longleftrightarrow> unat x div 2 ^ k = 1"
    using less by (auto simp: bit_iff_odd less_2_cases_iff)
  also have "\<dots> \<longleftrightarrow> unat x div 2 ^ k \<noteq> 0" using less by linarith
  also have "\<dots> \<longleftrightarrow> 2 ^ k \<le> unat x" by (simp add: div_eq_0_iff not_less)
  finally show ?thesis by (metis bit_unsigned_iff bit_imp_possible_bit possible_bit_nat)
qed

lemma nat_or_disjoint: "a < 2 ^ k \<Longrightarrow> a OR 2 ^ k * b = a + 2 ^ k * (b :: nat)"
proof (rule disjunctive_add [symmetric])
  fix m
  assume a: "a < 2 ^ k"
  then have "a = take_bit k a" by (simp add: take_bit_nat_eq_self)
  then have "bit a m \<Longrightarrow> m < k" by (metis bit_take_bit_iff)
  moreover have "bit (2 ^ k * b) m \<Longrightarrow> k \<le> m"
    by (metis bit_push_bit_iff mult.commute push_bit_eq_mult)
  ultimately show "\<not> bit a m \<or> \<not> bit (2 ^ k * b) m" by auto
qed

lemma limb_carry_step:
  fixes n r M B :: nat
  assumes "0 < B"
  shows "n mod B + B * ((n div B + r) mod M) = (n + B * r) mod (B * M)"
proof -
  have "(n + B * r) mod (B * M) = B * ((n + B * r) div B mod M) + (n + B * r) mod B"
    by (rule mod_mult2_eq)
  with assms show ?thesis by (simp add: add.commute)
qed

subsection \<open>The little-endian value of a list of words\<close>

fun wval :: "'a::len word list \<Rightarrow> nat" where
  "wval [] = 0"
| "wval (x # xs) = unat x + 2 ^ LENGTH('a) * wval xs"

fun wdigits :: "nat \<Rightarrow> nat \<Rightarrow> 'a::len word list" where
  "wdigits 0 v = []"
| "wdigits (Suc k) v = (of_nat v :: 'a word) # wdigits k (v div 2 ^ LENGTH('a))"

lemma length_wdigits [simp, len_simps]: "length (wdigits k v) = k"
  by (induction k arbitrary: v) auto

lemma wval_bound: "wval (xs :: 'a::len word list) < 2 ^ (LENGTH('a) * length xs)"
proof (induction xs)
  case Nil
  then show ?case by simp
next
  case (Cons x xs)
  have "unat x < 2 ^ LENGTH('a)" by (rule unsigned_less)
  moreover have "2 ^ LENGTH('a) * wval xs + 2 ^ LENGTH('a) \<le> 2 ^ LENGTH('a) * 2 ^ (LENGTH('a) * length xs)"
    using Cons by (metis Suc_leI mult_Suc_right mult_le_mono2 add.commute)
  ultimately have "unat x + 2 ^ LENGTH('a) * wval xs < 2 ^ LENGTH('a) * 2 ^ (LENGTH('a) * length xs)"
    by linarith
  then show ?case by (simp add: power_add)
qed

lemma wval_append [val_simps]:
  "wval (xs @ ys) = wval xs + 2 ^ (LENGTH('a) * length xs) * wval (ys :: 'a::len word list)"
  by (induction xs) (auto simp: power_add algebra_simps)

lemma wval_replicate_0 [simp, val_simps]: "wval (replicate n 0) = 0"
  by (induction n) auto

lemma wval_wdigits [val_simps]: "wval (wdigits k v :: 'a::len word list) = v mod 2 ^ (LENGTH('a) * k)"
proof (induction k arbitrary: v)
  case 0
  then show ?case by simp
next
  case (Suc k)
  have "v mod (2 ^ LENGTH('a) * 2 ^ (LENGTH('a) * k)) =
      2 ^ LENGTH('a) * (v div 2 ^ LENGTH('a) mod 2 ^ (LENGTH('a) * k)) + v mod 2 ^ LENGTH('a)"
    by (rule mod_mult2_eq)
  then show ?case using Suc by (simp add: unat_of_nat power_add)
qed

lemma wdigits_wval [simp]: "wdigits (length xs) (wval xs) = (xs :: 'a::len word list)"
proof (induction xs)
  case Nil
  then show ?case by simp
next
  case (Cons x xs)
  have "(unat x + 2 ^ LENGTH('a) * wval xs) div 2 ^ LENGTH('a) = wval xs"
    using unsigned_less [of x] by simp
  with Cons show ?case by simp
qed

lemma wval_inject:
  fixes xs ys :: "'a::len word list"
  assumes "length xs = length ys" and "wval xs = wval ys"
  shows "xs = ys"
  by (metis assms wdigits_wval)

lemma wval_eq_0_iff: "wval xs = 0 \<longleftrightarrow> (\<forall>x\<in>set xs. x = 0)"
  by (induction xs) (auto simp: unat_eq_0)

lemma wval_take_drop:
  fixes xs :: "'a::len word list"
  assumes "k \<le> length xs"
  shows "wval xs = wval (take k xs) + 2 ^ (LENGTH('a) * k) * wval (drop k xs)"
  using wval_append [of "take k xs" "drop k xs"] assms by simp

lemma wval_update:
  fixes xs :: "'a::len word list"
  assumes "k < length xs"
  shows "wval (xs[k := y]) + 2 ^ (LENGTH('a) * k) * unat (xs ! k) =
    wval xs + 2 ^ (LENGTH('a) * k) * unat y"
  using assms
proof (induction xs arbitrary: k)
  case Nil
  then show ?case by simp
next
  case (Cons x xs)
  show ?case
  proof (cases k)
    case 0
    then show ?thesis by simp
  next
    case (Suc j)
    with Cons have "wval (xs[j := y]) + 2 ^ (LENGTH('a) * j) * unat (xs ! j) =
        wval xs + 2 ^ (LENGTH('a) * j) * unat y"
      by simp
    then have "2 ^ LENGTH('a) * (wval (xs[j := y]) + 2 ^ (LENGTH('a) * j) * unat (xs ! j)) =
        2 ^ LENGTH('a) * (wval xs + 2 ^ (LENGTH('a) * j) * unat y)"
      by simp
    with Suc show ?thesis by (simp add: power_add algebra_simps)
  qed
qed

lemma wval_u32: "wval (x # xs :: u32 list) = unat x + 2 ^ 32 * wval xs"
  by simp

text \<open>The bits of the value are the bits of the words, in order.\<close>

lemma bit_wval:
  fixes xs :: "'a::len word list"
  shows "bit (wval xs) n \<longleftrightarrow> n div LENGTH('a) < length xs \<and> bit (xs ! (n div LENGTH('a))) (n mod LENGTH('a))"
proof (induction xs arbitrary: n)
  case Nil
  then show ?case by simp
next
  case (Cons x xs)
  let ?L = "LENGTH('a)"
  have disj: "bit (unat x + 2 ^ ?L * wval xs) n \<longleftrightarrow>
      (if n < ?L then bit (unat x) n else bit (wval xs) (n - ?L))"
  proof -
    have "unat x = take_bit ?L (unat x)"
      by (metis take_bit_nat_eq_self unsigned_less)
    then have "unat x + 2 ^ ?L * wval xs = push_bit ?L (wval xs) OR take_bit ?L (unat x)"
      by (metis add.commute concat_bit_def mult.commute push_bit_eq_mult
            disjunctive_add [of "push_bit ?L (wval xs)" "take_bit ?L (unat x)"]
            bit_push_bit_iff bit_take_bit_iff not_le)
    then show ?thesis
      by (auto simp: bit_or_iff bit_push_bit_iff bit_take_bit_iff)
  qed
  show ?case
  proof (cases "n < ?L")
    case True
    with disj show ?thesis by (simp add: bit_unsigned_iff)
  next
    case False
    then have "n div ?L = Suc ((n - ?L) div ?L)" and "n mod ?L = (n - ?L) mod ?L"
      by (simp_all add: le_div_geq le_mod_geq not_less)
    with False disj Cons show ?thesis by simp
  qed
qed

end
