(* ===== verification/Base_Uint.thy ===== *)
theory Base_Uint
  imports Prelude
begin

text \<open>
  The fixed-width big integers of \<^verbatim>\<open>uint256.h\<close> and \<^verbatim>\<open>uint256.cpp\<close>
  (\<^verbatim>\<open>base_uint<BITS>\<close>). A value is the array \<^verbatim>\<open>pn\<close> of \<^verbatim>\<open>WIDTH\<close> 32-bit
  limbs, least significant first; here it is the list of those limbs, and the width is
  its length. The operations are the loops of the code, limb by limb, with their 64-bit
  intermediate values; the lemmas show what they compute on the number the limbs stand
  for, modulo \<open>2 ^ (32 * WIDTH)\<close>.
\<close>

type_synonym base_uint = "u32 list"

subsection \<open>Construction and bitwise operators\<close>

text \<open>\<^verbatim>\<open>base_uint()\<close>, \<^verbatim>\<open>SetNull\<close>: all limbs zero.\<close>

definition bu_zero :: "nat \<Rightarrow> base_uint" where
  "bu_zero W = replicate W 0"

text \<open>\<^verbatim>\<open>base_uint(uint64_t b)\<close>: the low two limbs, the others zero.\<close>

definition bu_of_u64 :: "nat \<Rightarrow> u64 \<Rightarrow> base_uint" where
  "bu_of_u64 W b = ucast b # ucast (drop_bit 32 b) # replicate (W - 2) 0"

fun bu_is_null :: "base_uint \<Rightarrow> bool" where
  "bu_is_null [] = True"
| "bu_is_null (x # xs) = (if x \<noteq> 0 then False else bu_is_null xs)"

definition bu_not :: "base_uint \<Rightarrow> base_uint" where
  "bu_not a = map (\<lambda>x. NOT x) a"

definition bu_xor :: "base_uint \<Rightarrow> base_uint \<Rightarrow> base_uint" where
  "bu_xor a b = map2 (\<lambda>x y. x XOR y) a b"

definition bu_and :: "base_uint \<Rightarrow> base_uint \<Rightarrow> base_uint" where
  "bu_and a b = map2 (\<lambda>x y. x AND y) a b"

definition bu_or :: "base_uint \<Rightarrow> base_uint \<Rightarrow> base_uint" where
  "bu_or a b = map2 (\<lambda>x y. x OR y) a b"

subsection \<open>Addition, increment, negation, subtraction\<close>

text \<open>\<^verbatim>\<open>operator+=\<close>: the carry runs through the limbs.\<close>

fun bu_add_loop :: "u64 \<Rightarrow> base_uint \<Rightarrow> base_uint \<Rightarrow> base_uint" where
  "bu_add_loop carry (x # xs) (y # ys) =
     (let n = carry + ucast x + ucast y
      in ucast (n AND 0xffffffff) # bu_add_loop (drop_bit 32 n) xs ys)"
| "bu_add_loop carry _ _ = []"

definition bu_add :: "base_uint \<Rightarrow> base_uint \<Rightarrow> base_uint" where
  "bu_add a b = bu_add_loop 0 a b"

text \<open>\<^verbatim>\<open>operator++\<close>: stop at the first limb that does not wrap to zero.\<close>

fun bu_inc :: "base_uint \<Rightarrow> base_uint" where
  "bu_inc [] = []"
| "bu_inc (x # xs) = (let x' = x + 1 in if x' = 0 then x' # bu_inc xs else x' # xs)"

text \<open>\<^verbatim>\<open>operator--\<close>: stop at the first limb that does not wrap to all ones.\<close>

fun bu_dec :: "base_uint \<Rightarrow> base_uint" where
  "bu_dec [] = []"
| "bu_dec (x # xs) = (let x' = x - 1 in if x' = - 1 then x' # bu_dec xs else x' # xs)"

definition bu_neg :: "base_uint \<Rightarrow> base_uint" where
  "bu_neg a = bu_inc (bu_not a)"

definition bu_sub :: "base_uint \<Rightarrow> base_uint \<Rightarrow> base_uint" where
  "bu_sub a b = bu_add a (bu_neg b)"

subsection \<open>Comparison and size\<close>

text \<open>\<^verbatim>\<open>CompareTo\<close>: from the most significant limb, the first that differs decides.\<close>

fun bu_compare_loop :: "base_uint \<Rightarrow> base_uint \<Rightarrow> int" where
  "bu_compare_loop (x # xs) (y # ys) =
     (if x < y then -1 else if x > y then 1 else bu_compare_loop xs ys)"
| "bu_compare_loop _ _ = 0"

definition bu_compare :: "base_uint \<Rightarrow> base_uint \<Rightarrow> int" where
  "bu_compare a b = bu_compare_loop (rev a) (rev b)"

text \<open>\<^verbatim>\<open>EqualTo\<close>: the limbs above the second are zero, the low two are \<^verbatim>\<open>b\<close>.\<close>

fun bu_equal_u64 :: "base_uint \<Rightarrow> u64 \<Rightarrow> bool" where
  "bu_equal_u64 (p0 # p1 # ps) b =
     (if \<exists>p\<in>set ps. p \<noteq> 0 then False
      else if (ucast p1 :: u64) \<noteq> drop_bit 32 b then False
      else if (ucast p0 :: u64) \<noteq> b AND 0xffffffff then False
      else True)"
| "bu_equal_u64 _ b = False"

text \<open>
  \<^verbatim>\<open>bits()\<close>: the position of the highest set bit plus one. The inner loop looks for
  the highest set bit of a limb from bit 31 down to bit 1, bit 0 is the fall-through.
\<close>

fun bu_limb_bits :: "nat \<Rightarrow> u32 \<Rightarrow> nat" where
  "bu_limb_bits 0 x = 1"
| "bu_limb_bits (Suc k) x = (if bit x (Suc k) then Suc (Suc k) else bu_limb_bits k x)"

fun bu_bits_loop :: "base_uint \<Rightarrow> nat" where
  "bu_bits_loop [] = 0"
| "bu_bits_loop (x # xs) = (if x \<noteq> 0 then 32 * length xs + bu_limb_bits 31 x else bu_bits_loop xs)"

definition bu_bits :: "base_uint \<Rightarrow> nat" where
  "bu_bits a = bu_bits_loop (rev a)"

text \<open>\<^verbatim>\<open>GetLow64\<close>.\<close>

fun bu_low64 :: "base_uint \<Rightarrow> u64" where
  "bu_low64 (p0 # p1 # ps) = ucast p0 OR push_bit 32 (ucast p1)"
| "bu_low64 _ = 0"

subsection \<open>Shifts\<close>

text \<open>
  \<^verbatim>\<open>operator<<=\<close>: the result starts at zero; each limb of the copy \<^verbatim>\<open>a\<close> goes into the
  two limbs its bits land in. \<open>k\<close> is the number of whole limbs, \<open>s\<close> the bits left.
\<close>

definition bu_shl_step :: "base_uint \<Rightarrow> nat \<Rightarrow> nat \<Rightarrow> nat \<Rightarrow> base_uint \<Rightarrow> base_uint" where
  "bu_shl_step a k s i pn =
     (let pn = (if i + k + 1 < length a \<and> s \<noteq> 0
                then pn[i + k + 1 := pn ! (i + k + 1) OR drop_bit (32 - s) (a ! i)] else pn)
      in (if i + k < length a then pn[i + k := pn ! (i + k) OR push_bit s (a ! i)] else pn))"

definition bu_shl :: "base_uint \<Rightarrow> nat \<Rightarrow> base_uint" where
  "bu_shl a shift = fold (bu_shl_step a (shift div 32) (shift mod 32)) [0..<length a] (bu_zero (length a))"

definition bu_shr_step :: "base_uint \<Rightarrow> nat \<Rightarrow> nat \<Rightarrow> nat \<Rightarrow> base_uint \<Rightarrow> base_uint" where
  "bu_shr_step a k s i pn =
     (let pn = (if k + 1 \<le> i \<and> s \<noteq> 0
                then pn[i - k - 1 := pn ! (i - k - 1) OR push_bit (32 - s) (a ! i)] else pn)
      in (if k \<le> i then pn[i - k := pn ! (i - k) OR drop_bit s (a ! i)] else pn))"

definition bu_shr :: "base_uint \<Rightarrow> nat \<Rightarrow> base_uint" where
  "bu_shr a shift = fold (bu_shr_step a (shift div 32) (shift mod 32)) [0..<length a] (bu_zero (length a))"

subsection \<open>Multiplication\<close>

text \<open>\<^verbatim>\<open>operator*=(uint32_t)\<close>.\<close>

fun bu_mul32_loop :: "u64 \<Rightarrow> u32 \<Rightarrow> base_uint \<Rightarrow> base_uint" where
  "bu_mul32_loop carry b32 [] = []"
| "bu_mul32_loop carry b32 (x # xs) =
     (let n = carry + ucast b32 * ucast x
      in ucast (n AND 0xffffffff) # bu_mul32_loop (drop_bit 32 n) b32 xs)"

definition bu_mul32 :: "base_uint \<Rightarrow> u32 \<Rightarrow> base_uint" where
  "bu_mul32 a b32 = bu_mul32_loop 0 b32 a"

text \<open>
  \<^verbatim>\<open>operator*=(const base_uint&)\<close>, for an argument that is a different object: the
  inner loop adds limb \<open>j\<close> of the copy times \<^verbatim>\<open>b\<close> to the limbs from \<open>j\<close> on, and
  stops at the last limb.
\<close>

fun bu_mul_row :: "u64 \<Rightarrow> u32 \<Rightarrow> base_uint \<Rightarrow> base_uint \<Rightarrow> base_uint" where
  "bu_mul_row carry aj (p # ps) (y # ys) =
     (let n = carry + ucast p + ucast aj * ucast y
      in ucast (n AND 0xffffffff) # bu_mul_row (drop_bit 32 n) aj ps ys)"
| "bu_mul_row carry aj _ _ = []"

definition bu_mul :: "base_uint \<Rightarrow> base_uint \<Rightarrow> base_uint" where
  "bu_mul a b = fold (\<lambda>j pn. take j pn @ bu_mul_row 0 (a ! j) (drop j pn) b)
     [0..<length a] (bu_zero (length a))"

text \<open>
  The same code where the argument is the object itself (\<^verbatim>\<open>x *= x\<close>): \<^verbatim>\<open>*this = 0\<close>
  has cleared \<^verbatim>\<open>b\<close> too, and every later read of \<^verbatim>\<open>b.pn\<close> sees the limbs being written.
\<close>

fun bu_mul_self_row :: "u64 \<Rightarrow> u32 \<Rightarrow> nat \<Rightarrow> nat list \<Rightarrow> base_uint \<Rightarrow> base_uint" where
  "bu_mul_self_row carry aj j [] pn = pn"
| "bu_mul_self_row carry aj j (i # is) pn =
     (let n = carry + ucast (pn ! (i + j)) + ucast aj * ucast (pn ! i)
      in bu_mul_self_row (drop_bit 32 n) aj j is (pn[i + j := ucast (n AND 0xffffffff)]))"

definition bu_mul_self :: "base_uint \<Rightarrow> base_uint" where
  "bu_mul_self a = fold (\<lambda>j pn. bu_mul_self_row 0 (a ! j) j [0..<length a - j] pn)
     [0..<length a] (bu_zero (length a))"

subsection \<open>Division\<close>

datatype uint_error = Division_by_zero | Wrong_vector_size

text \<open>
  \<^verbatim>\<open>operator/=\<close>: shift-and-subtract. The loop's \<^verbatim>\<open>shift\<close> runs down to zero inclusive, so
  the recursion counts \<open>Suc shift\<close> steps.
\<close>

fun bu_div_loop :: "nat \<Rightarrow> base_uint \<Rightarrow> base_uint \<Rightarrow> base_uint \<Rightarrow> base_uint" where
  "bu_div_loop 0 num dv q = q"
| "bu_div_loop (Suc shift) num dv q =
     (let (num, q) =
        (if bu_compare num dv \<ge> 0
         then (bu_sub num dv, q[shift div 32 := q ! (shift div 32) OR push_bit (shift mod 32) 1])
         else (num, q))
      in bu_div_loop shift num (bu_shr dv 1) q)"

definition bu_div :: "base_uint \<Rightarrow> base_uint \<Rightarrow> uint_error + base_uint" where
  "bu_div a b =
     (let num_bits = bu_bits a; div_bits = bu_bits b
      in if div_bits = 0 then Inl Division_by_zero
         else if div_bits > num_bits then Inr (bu_zero (length a))
         else let shift = num_bits - div_bits
              in Inr (bu_div_loop (Suc shift) a (bu_shl b shift) (bu_zero (length a))))"

subsection \<open>What the operations compute\<close>

lemma unat_low_limb: "unat (ucast (n AND 0xffffffff :: u64) :: u32) = unat n mod 2 ^ 32"
proof -
  have "(0xffffffff :: u64) = mask 32" by (simp add: mask_eq_exp_minus_1)
  then have "n AND 0xffffffff = n AND mask 32" by simp
  then show ?thesis by (simp only: unat_ucast_mod unat_and_mask) simp
qed

lemma unat_add3_64:
  assumes "unat c < 2 ^ 32"
  shows "unat ((c :: u64) + ucast (x :: u32) + ucast (y :: u32)) = unat c + unat x + unat y"
  using assms unat_lt_u32 [of x] unat_lt_u32 [of y]
  by (simp add: unat_word_ariths unat_ucast_up)

lemma bu_add_loop_val:
  assumes "length xs = length ys" and "unat c < 2 ^ 32"
  shows "wval (bu_add_loop c xs ys) = (unat c + wval xs + wval ys) mod 2 ^ (32 * length xs)"
  using assms
proof (induction c xs ys rule: bu_add_loop.induct)
  case (1 c x xs y ys)
  let ?n = "c + ucast x + ucast y"
  have n: "unat ?n = unat c + unat x + unat y" using "1.prems"(2) by (rule unat_add3_64)
  have "unat (drop_bit 32 ?n) < 2 ^ 32"
    unfolding unat_drop_bit n using "1.prems"(2) unat_lt_u32 [of x] unat_lt_u32 [of y] by simp
  with 1 have IH: "wval (bu_add_loop (drop_bit 32 ?n) xs ys) =
      (unat ?n div 2 ^ 32 + (wval xs + wval ys)) mod 2 ^ (32 * length xs)"
    by (simp add: add.assoc unat_drop_bit)
  have "wval (bu_add_loop c (x # xs) (y # ys)) =
      unat ?n mod 2 ^ 32 + 2 ^ 32 * ((unat ?n div 2 ^ 32 + (wval xs + wval ys)) mod 2 ^ (32 * length xs))"
    by (simp only: bu_add_loop.simps Let_def wval.simps unat_low_limb IH) simp
  also have "\<dots> = (unat ?n + 2 ^ 32 * (wval xs + wval ys)) mod (2 ^ 32 * 2 ^ (32 * length xs))"
    by (rule limb_carry_step) simp
  finally show ?case
    unfolding n wval_u32 by (simp only: length_Cons mult_Suc_right mult_Suc power_add distrib_left distrib_right ac_simps)
qed simp_all
lemma length_bu_add_loop: "length xs = length ys \<Longrightarrow> length (bu_add_loop c xs ys) = length xs"
  by (induction c xs ys rule: bu_add_loop.induct) (simp_all add: Let_def)

lemma length_bu_inc: "length (bu_inc xs) = length xs"
  by (induction xs) (simp_all add: Let_def)

lemma length_bu_dec: "length (bu_dec xs) = length xs"
  by (induction xs) (simp_all add: Let_def)

lemma length_bu_ops [simp, len_simps]:
  "length (bu_zero W) = W"
  "length (bu_not a) = length a"
  "length (bu_inc a) = length a"
  "length (bu_dec a) = length a"
  "length (bu_neg a) = length a"
  "length a = length b \<Longrightarrow> length (bu_add a b) = length b"
  "length a = length b \<Longrightarrow> length (bu_sub a b) = length b"
  "length a = length b \<Longrightarrow> length (bu_xor a b) = length b"
  "length a = length b \<Longrightarrow> length (bu_and a b) = length b"
  "length a = length b \<Longrightarrow> length (bu_or a b) = length b"
  by (simp_all add: bu_zero_def bu_not_def length_bu_inc length_bu_dec bu_neg_def bu_add_def
      bu_sub_def bu_xor_def bu_and_def bu_or_def length_bu_add_loop)

lemma length_bu_of_u64 [simp, len_simps]: "2 \<le> W \<Longrightarrow> length (bu_of_u64 W b) = W"
  by (simp add: bu_of_u64_def)

lemma bu_zero_val [val_simps]: "wval (bu_zero W) = 0"
  by (simp add: bu_zero_def)

lemma bu_of_u64_val [val_simps]: "wval (bu_of_u64 W b) = unat b"
  using unat_lt_u64 [of b]
  by (simp add: bu_of_u64_def unat_ucast_mod unat_drop_bit)

lemma bu_add_val [val_simps]:
  "length a = length b \<Longrightarrow> wval (bu_add a b) = (wval a + wval b) mod 2 ^ (32 * length b)"
  by (simp add: bu_add_def bu_add_loop_val)

lemma unat_max_u32: "unat (- 1 :: u32) = 2 ^ 32 - 1"
  by (simp add: unsigned_minus_1_eq_mask mask_eq_exp_minus_1)

lemma bu_inc_val [val_simps]: "wval (bu_inc xs) = (wval xs + 1) mod 2 ^ (32 * length xs)"
proof (induction xs)
  case Nil
  then show ?case by simp
next
  case (Cons x xs)
  have bound: "wval xs < 2 ^ (32 * length xs)" using wval_bound [of xs] by simp
  show ?case
  proof (cases "x + 1 = 0")
    case True
    then have x: "unat x + 1 = 2 ^ 32"
      by (simp add: eq_neg_iff_add_eq_0 [symmetric] unat_max_u32)
    have "wval (bu_inc (x # xs)) = 2 ^ 32 * ((wval xs + 1) mod 2 ^ (32 * length xs))"
      using True Cons by (simp add: Let_def)
    also have "\<dots> = (2 ^ 32 * (wval xs + 1)) mod (2 ^ 32 * 2 ^ (32 * length xs))"
      by (rule mult_mod_right)
    also have "2 ^ 32 * (wval xs + 1) = wval (x # xs) + 1"
      unfolding wval_u32 using x by simp
    finally show ?thesis by (simp only: length_Cons mult_Suc_right power_add)
  next
    case False
    then have "unat (x + 1) = unat x + 1"
      using unat_lt_u32 [of x] by (simp add: unatSuc add.commute)
    with False have inc: "wval (bu_inc (x # xs)) = wval (x # xs) + 1"
      by (simp add: Let_def)
    have "wval (bu_inc (x # xs)) < 2 ^ (32 * length (x # xs))"
      using wval_bound [of "bu_inc (x # xs)"] by (simp add: length_bu_inc del: wval.simps bu_inc.simps)
    with inc show ?thesis by simp
  qed
qed

lemma unat_not_u32: "unat (NOT x :: u32) = 2 ^ 32 - 1 - unat x"
proof -
  have "NOT x = - 1 - x" by (simp add: not_eq_complement)
  moreover have "x \<le> - 1" by simp
  ultimately have "unat (NOT x) = unat (- 1 :: u32) - unat x" by (simp add: unat_sub)
  then show ?thesis by (simp add: unat_max_u32)
qed

lemma bu_not_val': "wval (bu_not xs) + wval xs = 2 ^ (32 * length xs) - 1"
proof (induction xs)
  case Nil
  then show ?case by (simp add: bu_not_def)
next
  case (Cons x xs)
  have x: "unat (NOT x) + unat x + 1 = 2 ^ 32"
    using unat_lt_u32 [of x] by (simp add: unat_not_u32)
  have "wval (bu_not xs) + wval xs + 1 = 2 ^ (32 * length xs)" using Cons by simp
  then have "2 ^ 32 * (wval (bu_not xs) + wval xs + 1) = 2 ^ 32 * 2 ^ (32 * length xs)" by simp
  moreover have "wval (bu_not (x # xs)) + wval (x # xs) + 1 =
      2 ^ 32 * (wval (bu_not xs) + wval xs + 1)"
    using x by (simp add: bu_not_def)
  ultimately show ?case by (simp add: power_add)
qed


lemma bu_not_val [val_simps]: "wval (bu_not xs) = 2 ^ (32 * length xs) - 1 - wval xs"
  using bu_not_val' [of xs] by simp

lemma bu_dec_val [val_simps]: 
  "wval (bu_dec xs) = (wval xs + (2 ^ (32 * length xs) - 1)) mod 2 ^ (32 * length xs)"
proof -
  have inv: "bu_inc (bu_dec ys) = ys" for ys
    by (induction ys) (auto simp: Let_def)
  have dec_inc: "bu_dec (bu_inc ys) = ys" for ys
    by (induction ys) (auto simp: Let_def eq_neg_iff_add_eq_0 [symmetric])
  let ?M = "2 ^ (32 * length xs) :: nat"
  have "wval xs = (wval (bu_dec xs) + 1) mod ?M"
    using bu_inc_val [of "bu_dec xs"] by (simp add: inv length_bu_dec)
  then have "(wval xs + (?M - 1)) mod ?M = (wval (bu_dec xs) + 1 + (?M - 1)) mod ?M"
    by (metis mod_add_left_eq)
  also have "\<dots> = wval (bu_dec xs) mod ?M" by simp
  also have "\<dots> = wval (bu_dec xs)" using wval_bound [of "bu_dec xs"] by (simp add: length_bu_dec)
  finally show ?thesis by simp
qed

lemma bu_neg_val [val_simps]:
  "wval (bu_neg xs) = (2 ^ (32 * length xs) - wval xs) mod 2 ^ (32 * length xs)"
proof -
  have "wval xs < 2 ^ (32 * length xs)" using wval_bound [of xs] by simp
  then have "2 ^ (32 * length xs) - 1 - wval xs + 1 = 2 ^ (32 * length xs) - wval xs" by simp
  then show ?thesis by (simp only: bu_neg_def bu_inc_val length_bu_ops bu_not_val)
qed

lemma bu_sub_val [val_simps]:
  assumes "length a = length b"
  shows "wval (bu_sub a b) = (wval a + (2 ^ (32 * length b) - wval b)) mod 2 ^ (32 * length b)"
  using assms by (simp add: bu_sub_def bu_add_val bu_neg_val mod_add_right_eq)

lemma bu_sub_val_int:
  assumes "length a = length b"
  shows "int (wval (bu_sub a b)) = (int (wval a) - int (wval b)) mod 2 ^ (32 * length b)"
proof -
  have l: "wval b \<le> 2 ^ (32 * length b)" using wval_bound [of b] by (simp add: less_imp_le)
  have "int (wval (bu_sub a b)) = (int (wval a) + (2 ^ (32 * length b) - int (wval b))) mod 2 ^ (32 * length b)"
    unfolding bu_sub_val [OF assms] using l by (simp add: zmod_int of_nat_diff diff_add_eq add_diff_eq)
  also have "\<dots> = (int (wval a) - int (wval b) + 2 ^ (32 * length b)) mod 2 ^ (32 * length b)"
    by (simp add: algebra_simps)
  also have "\<dots> = (int (wval a) - int (wval b)) mod 2 ^ (32 * length b)" by (rule mod_add_self2)
  finally show ?thesis .
qed

lemma bu_sub_val_le:
  assumes "length a = length b" and "wval b \<le> wval a"
  shows "wval (bu_sub a b) = wval a - wval b"
proof -
  let ?M = "2 ^ (32 * length b) :: nat"
  have b: "wval a < ?M" "wval b < ?M" using wval_bound [of a] wval_bound [of b] assms by simp_all
  then have "wval a + (?M - wval b) = wval a - wval b + ?M" using assms by simp
  then have "wval (bu_sub a b) = (wval a - wval b + ?M) mod ?M" using assms(1) by (simp only: bu_sub_val)
  also have "\<dots> = wval a - wval b" using b by simp
  finally show ?thesis .
qed

lemma bu_compare_loop_val:
  assumes "length xs = length ys"
  shows "bu_compare_loop xs ys =
    (if wval (rev xs) < wval (rev ys) then -1 else if wval (rev xs) > wval (rev ys) then 1 else 0)"
  using assms
proof (induction xs ys rule: bu_compare_loop.induct)
  case (1 x xs y ys)
  let ?M = "2 ^ (32 * length ys) :: nat"
  have bx: "wval (rev xs) < ?M" and byy: "wval (rev ys) < ?M"
    using wval_bound [of "rev xs"] wval_bound [of "rev ys"] 1 by simp_all
  have vx: "wval (rev (x # xs)) = wval (rev xs) + ?M * unat x"
    and vy: "wval (rev (y # ys)) = wval (rev ys) + ?M * unat y"
    using 1 by (simp_all add: wval_append)
  have less: "p + ?M * i < q + ?M * j" if "i < j" "p < ?M" for p q i j :: nat
  proof -
    have "p + ?M * i < ?M * Suc i" using that by simp
    also have "\<dots> \<le> ?M * j" using that by (intro mult_le_mono2) simp
    finally show ?thesis by simp
  qed
  consider "unat x < unat y" | "unat y < unat x" | "x = y" 
    by (metis linorder_neqE_nat unsigned_word_eqI)
  then show ?case
  proof cases
    case 1
    with less [OF 1 bx, of "wval (rev ys)"] show ?thesis
      unfolding vx vy by (simp add: word_less_nat_alt)
  next
    case 2
    with less [OF 2 byy, of "wval (rev xs)"] show ?thesis
      unfolding vx vy by (simp add: word_less_nat_alt)
  next
    case 3
    with 1 show ?thesis unfolding vx vy by simp
  qed
qed simp_all

lemma bu_compare_val:
  "length a = length b \<Longrightarrow> bu_compare a b = (if wval a < wval b then -1 else if wval a > wval b then 1 else 0)"
  by (simp add: bu_compare_def bu_compare_loop_val)

lemma bu_is_null_val: "bu_is_null a \<longleftrightarrow> wval a = 0"
  by (induction a) (auto simp: unat_eq_0)

subsection \<open>Shifts\<close>

lemma length_fold_shl: "length (fold (bu_shl_step a k s) is pn) = length pn"
  by (induction "is" arbitrary: pn) (simp_all add: bu_shl_step_def Let_def)

lemma length_fold_shr: "length (fold (bu_shr_step a k s) is pn) = length pn"
  by (induction "is" arbitrary: pn) (simp_all add: bu_shr_step_def Let_def)

lemma length_bu_shl [simp, len_simps]: "length (bu_shl a n) = length a"
  by (simp add: bu_shl_def length_fold_shl)

lemma length_bu_shr [simp, len_simps]: "length (bu_shr a n) = length a"
  by (simp add: bu_shr_def length_fold_shr)

lemma nth_fold_shl:
  assumes "p < length a" and "j \<le> length a"
  shows "fold (bu_shl_step a k s) [0..<j] (bu_zero (length a)) ! p =
    (if k \<le> p \<and> p - k < j then push_bit s (a ! (p - k)) else 0) OR
    (if s \<noteq> 0 \<and> k + 1 \<le> p \<and> p - k - 1 < j then drop_bit (32 - s) (a ! (p - k - 1)) else 0)"
  using assms
proof (induction j)
  case 0
  then show ?case by (simp add: bu_zero_def)
next
  case (Suc j)
  let ?pn = "fold (bu_shl_step a k s) [0..<j] (bu_zero (length a))"
  have len: "length ?pn = length a" by (simp add: length_fold_shl)
  have IH: "?pn ! p = (if k \<le> p \<and> p - k < j then push_bit s (a ! (p - k)) else 0) OR
    (if s \<noteq> 0 \<and> k + 1 \<le> p \<and> p - k - 1 < j then drop_bit (32 - s) (a ! (p - k - 1)) else 0)"
    using Suc by simp
  have "fold (bu_shl_step a k s) [0..<Suc j] (bu_zero (length a)) ! p = bu_shl_step a k s j ?pn ! p"
    by simp
  also have "\<dots> = (if p = j + k then push_bit s (a ! j) else 0) OR
      (if p = j + k + 1 \<and> s \<noteq> 0 then drop_bit (32 - s) (a ! j) else 0) OR ?pn ! p"
    using Suc.prems len by (auto simp: bu_shl_step_def Let_def nth_list_update ac_simps)
  finally show ?case
    unfolding IH by (auto simp: ac_simps less_Suc_eq)
qed

lemma nth_bu_shl:
  assumes "p < length a"
  shows "bu_shl a n ! p =
    (if n div 32 \<le> p then push_bit (n mod 32) (a ! (p - n div 32)) else 0) OR
    (if n mod 32 \<noteq> 0 \<and> n div 32 + 1 \<le> p
     then drop_bit (32 - n mod 32) (a ! (p - n div 32 - 1)) else 0)"
  unfolding bu_shl_def nth_fold_shl [OF assms order_refl] using assms by auto

lemma nth_shr_step:
  assumes "length pn = length a" and "p < length a" and "j < length a"
  shows "bu_shr_step a k s j pn ! p =
    (if j = p + k then drop_bit s (a ! j) else 0) OR
    (if j = p + k + 1 \<and> s \<noteq> 0 then push_bit (32 - s) (a ! j) else 0) OR pn ! p"
proof -
  consider "j < k" | "j = k" | d where "j = k + 1 + d"
    by (metis Suc_eq_plus1 less_iff_Suc_add linorder_neqE_nat add_Suc_right add_Suc)
  then show ?thesis
    by cases (use assms in \<open>auto simp: bu_shr_step_def Let_def nth_list_update ac_simps\<close>)
qed

lemma nth_fold_shr:
  assumes "p < length a" and "j \<le> length a"
  shows "fold (bu_shr_step a k s) [0..<j] (bu_zero (length a)) ! p =
    (if p + k < j then drop_bit s (a ! (p + k)) else 0) OR
    (if s \<noteq> 0 \<and> p + k + 1 < j then push_bit (32 - s) (a ! (p + k + 1)) else 0)"
  using assms
proof (induction j)
  case 0
  then show ?case by (simp add: bu_zero_def)
next
  case (Suc j)
  let ?pn = "fold (bu_shr_step a k s) [0..<j] (bu_zero (length a))"
  have len: "length ?pn = length a" by (simp add: length_fold_shr)
  have IH: "?pn ! p = (if p + k < j then drop_bit s (a ! (p + k)) else 0) OR
    (if s \<noteq> 0 \<and> p + k + 1 < j then push_bit (32 - s) (a ! (p + k + 1)) else 0)"
    using Suc by simp
  have "fold (bu_shr_step a k s) [0..<Suc j] (bu_zero (length a)) ! p = bu_shr_step a k s j ?pn ! p"
    by simp
  also have "\<dots> = (if j = p + k then drop_bit s (a ! j) else 0) OR
      (if j = p + k + 1 \<and> s \<noteq> 0 then push_bit (32 - s) (a ! j) else 0) OR ?pn ! p"
    using Suc.prems len by (intro nth_shr_step) auto
  finally show ?case
    unfolding IH by (cases "j = p + k + 1") (auto simp: ac_simps less_Suc_eq)
qed

lemma nth_bu_shr:
  assumes "p < length a"
  shows "bu_shr a n ! p =
    (if p + n div 32 < length a then drop_bit (n mod 32) (a ! (p + n div 32)) else 0) OR
    (if n mod 32 \<noteq> 0 \<and> p + n div 32 + 1 < length a
     then push_bit (32 - n mod 32) (a ! (p + n div 32 + 1)) else 0)"
  unfolding bu_shr_def nth_fold_shr [OF assms order_refl] by simp

lemma bit_wval_u32: "bit (wval (xs :: u32 list)) n \<longleftrightarrow> n div 32 < length xs \<and> bit (xs ! (n div 32)) (n mod 32)"
  using bit_wval [of xs n] by simp

lemma bit_shl_wval:
  "bit (wval (bu_shl a n)) m \<longleftrightarrow> m < 32 * length a \<and> n \<le> m \<and> bit (wval a) (m - n)"
proof -
  define p q k s where "p = m div 32" and "q = m mod 32" and "k = n div 32" and "s = n mod 32"
  have m: "m = 32 * p + q" and q: "q < 32" and n: "n = 32 * k + s" and s: "s < 32"
    by (simp_all add: p_def q_def k_def s_def)
  show ?thesis
  proof (cases "p < length a")
    case False
    then show ?thesis by (simp add: bit_wval_u32 p_def [symmetric]) (simp add: m)
  next
    case True
    have l: "bit (wval (bu_shl a n)) m \<longleftrightarrow>
        (k \<le> p \<and> s \<le> q \<and> bit (a ! (p - k)) (q - s)) \<or>
        (s \<noteq> 0 \<and> k + 1 \<le> p \<and> bit (a ! (p - k - 1)) (32 - s + q))"
      using True q by (auto simp: bit_wval_u32 nth_bu_shl bit_or_iff bit_push_bit_iff bit_drop_bit_eq
          p_def [symmetric] q_def [symmetric] k_def [symmetric] s_def [symmetric])
    show ?thesis
    proof (cases "s \<le> q")
      case s_le: True
      have hi: "\<not> bit (a ! (p - k - 1)) (32 - s + q)"
        using s_le s bit_imp_le_length [of "a ! (p - k - 1)" "32 - s + q"] by auto
      have "n \<le> m \<longleftrightarrow> k \<le> p" using s_le q s by (auto simp: m n)
      moreover have "(m - n) div 32 = p - k" "(m - n) mod 32 = q - s" if "k \<le> p"
      proof -
        have "m - n = 32 * (p - k) + (q - s)" using that s_le by (simp add: m n)
        with q show "(m - n) div 32 = p - k" "(m - n) mod 32 = q - s" by simp_all
      qed
      ultimately show ?thesis
        using l hi s_le True q by (auto simp: bit_wval_u32 m)
    next
      case s_gt: False
      have "n \<le> m \<longleftrightarrow> k + 1 \<le> p" using s_gt q s by (auto simp: m n)
      moreover have "(m - n) div 32 = p - k - 1" "(m - n) mod 32 = 32 - s + q" if "k + 1 \<le> p"
      proof -
        have "m - n = 32 * (p - k - 1) + (32 - s + q)" using that s_gt s by (simp add: m n)
        moreover have "32 - s + q < 32" using s_gt s by simp
        ultimately show "(m - n) div 32 = p - k - 1" "(m - n) mod 32 = 32 - s + q" by simp_all
      qed
      ultimately show ?thesis
        using l s_gt True q by (auto simp: bit_wval_u32 m)
    qed
  qed
qed

lemma bu_shl_val [val_simps]: "wval (bu_shl a n) = (wval a * 2 ^ n) mod 2 ^ (32 * length a)"
  by (rule bit_eqI)
    (auto simp: bit_shl_wval take_bit_eq_mod [symmetric] push_bit_eq_mult [symmetric] bit_take_bit_iff bit_push_bit_iff)

lemma bit_shr_wval: "bit (wval (bu_shr a n)) m \<longleftrightarrow> bit (wval a) (m + n)"
proof -
  define p q k s where "p = m div 32" and "q = m mod 32" and "k = n div 32" and "s = n mod 32"
  have m: "m = 32 * p + q" and q: "q < 32" and n: "n = 32 * k + s" and s: "s < 32"
    by (simp_all add: p_def q_def k_def s_def)
  show ?thesis
  proof (cases "p < length a")
    case False
    have "p \<le> (m + n) div 32" by (simp add: p_def div_le_mono)
    with False show ?thesis by (auto simp: bit_wval_u32 p_def [symmetric])
  next
    case True
    have l: "bit (wval (bu_shr a n)) m \<longleftrightarrow>
        (p + k < length a \<and> bit (a ! (p + k)) (s + q)) \<or>
        (s \<noteq> 0 \<and> p + k + 1 < length a \<and> 32 - s \<le> q \<and> bit (a ! (p + k + 1)) (q - (32 - s)))"
      using True q by (auto simp: bit_wval_u32 nth_bu_shr bit_or_iff bit_push_bit_iff bit_drop_bit_eq
          p_def [symmetric] q_def [symmetric] k_def [symmetric] s_def [symmetric])
    show ?thesis
    proof (cases "s + q < 32")
      case lo: True
      define r where "r = p + k"
      have "m + n = 32 * r + (s + q)" by (simp add: m n r_def)
      with lo have "(m + n) div 32 = r" "(m + n) mod 32 = s + q" by simp_all
      then have "(m + n) div 32 = p + k" "(m + n) mod 32 = s + q" by (simp_all add: r_def)
      with l lo show ?thesis by (auto simp: bit_wval_u32)
    next
      case hi: False
      define r where "r = p + k + 1"
      have "m + n = 32 * r + (s + q - 32)" using hi by (simp add: m n r_def)
      moreover have "s + q - 32 < 32" using s q by simp
      ultimately have "(m + n) div 32 = r" "(m + n) mod 32 = s + q - 32" by simp_all
      then have d: "(m + n) div 32 = p + k + 1" "(m + n) mod 32 = s + q - 32" by (simp_all add: r_def)
      have "\<not> bit (a ! (p + k)) (s + q)"
        using hi bit_imp_le_length [of "a ! (p + k)" "s + q"] by auto
      moreover have "32 - s \<le> q" "q - (32 - s) = s + q - 32" "s \<noteq> 0" using hi s q by auto
      ultimately show ?thesis using l d by (simp add: bit_wval_u32)
    qed
  qed
qed

lemma bu_shr_val [val_simps]: "wval (bu_shr a n) = wval a div 2 ^ n"
  by (rule bit_eqI) (simp add: bit_shr_wval drop_bit_eq_div [symmetric] bit_drop_bit_eq add.commute)

subsection \<open>Multiplication\<close>

lemma length_bu_mul32_loop: "length (bu_mul32_loop c b xs) = length xs"
  by (induction c b xs rule: bu_mul32_loop.induct) (simp_all add: Let_def)

lemma unat_mul_acc_64:
  assumes "unat c < 2 ^ 32" and "p < 2 ^ 32"
  shows "unat c + p + unat (x :: u32) * unat (y :: u32) < 2 ^ 64"
proof -
  have "unat x \<le> 2 ^ 32 - 1" "unat y \<le> 2 ^ 32 - 1"
    using unat_lt_u32 [of x] unat_lt_u32 [of y] by simp_all
  then have "unat x * unat y \<le> (2 ^ 32 - 1) * (2 ^ 32 - 1)" by (rule mult_le_mono)
  with assms show ?thesis by simp
qed

lemma unat_mul_acc:
  assumes "unat c < 2 ^ 32"
  shows "unat (c + ucast p + ucast x * ucast y :: u64) = unat c + unat (p :: u32) + unat (x :: u32) * unat (y :: u32)"
proof -
  have b: "unat c + unat p + unat x * unat y < 2 ^ 64"
    using assms unat_lt_u32 [of p] by (intro unat_mul_acc_64) simp_all
  have "unat (ucast x * ucast y :: u64) = unat x * unat y"
    using b by (simp add: unat_word_ariths unat_ucast_up)
  with b show ?thesis by (simp add: unat_word_ariths unat_ucast_up)
qed

lemma acc_div_less: "n < (2 :: nat) ^ 64 \<Longrightarrow> n div 2 ^ 32 < 2 ^ 32"
  by (simp add: less_mult_imp_div_less)

lemma bu_mul_row_val:
  assumes "length ps \<le> length ys" and "unat c < 2 ^ 32"
  shows "length (bu_mul_row c aj ps ys) = length ps \<and>
    wval (bu_mul_row c aj ps ys) = (unat c + wval ps + unat aj * wval ys) mod 2 ^ (32 * length ps)"
  using assms
proof (induction c aj ps ys rule: bu_mul_row.induct)
  case (1 c aj p ps y ys)
  let ?n = "c + ucast p + ucast aj * ucast y"
  have n: "unat ?n = unat c + unat p + unat aj * unat y" using "1.prems"(2) by (rule unat_mul_acc)
  have "unat (drop_bit 32 ?n) < 2 ^ 32"
    unfolding unat_drop_bit by (rule acc_div_less) (use unat_lt_u64 [of ?n] in simp)
  with 1 have IH: "length (bu_mul_row (drop_bit 32 ?n) aj ps ys) = length ps"
    "wval (bu_mul_row (drop_bit 32 ?n) aj ps ys) =
      (unat ?n div 2 ^ 32 + (wval ps + unat aj * wval ys)) mod 2 ^ (32 * length ps)"
    by (simp_all add: add.assoc unat_drop_bit)
  have "wval (bu_mul_row c aj (p # ps) (y # ys)) =
      unat ?n mod 2 ^ 32 + 2 ^ 32 * ((unat ?n div 2 ^ 32 + (wval ps + unat aj * wval ys)) mod 2 ^ (32 * length ps))"
    by (simp only: bu_mul_row.simps Let_def wval.simps unat_low_limb IH) simp
  also have "\<dots> = (unat ?n + 2 ^ 32 * (wval ps + unat aj * wval ys)) mod (2 ^ 32 * 2 ^ (32 * length ps))"
    by (rule limb_carry_step) simp
  finally have "wval (bu_mul_row c aj (p # ps) (y # ys)) =
      (unat c + wval (p # ps) + unat aj * wval (y # ys)) mod 2 ^ (32 * length (p # ps))"
    unfolding n wval_u32
    by (simp only: length_Cons mult_Suc_right mult_Suc power_add distrib_left distrib_right ac_simps)
  with IH(1) show ?case by (simp add: Let_def)
qed auto

lemma bu_mul32_loop_val:
  assumes "unat c < 2 ^ 32"
  shows "wval (bu_mul32_loop c b xs) = (unat c + unat b * wval xs) mod 2 ^ (32 * length xs)"
proof -
  have "bu_mul32_loop c b xs = bu_mul_row c b (bu_zero (length xs)) xs"
    by (induction xs arbitrary: c) (simp_all add: bu_zero_def Let_def)
  then show ?thesis
    using bu_mul_row_val [of "bu_zero (length xs)" xs c b] assms by (simp add: bu_zero_val)
qed

lemma length_bu_mul32 [simp, len_simps]: "length (bu_mul32 a b) = length a"
  by (simp add: bu_mul32_def length_bu_mul32_loop)

lemma bu_mul32_val [val_simps]: "wval (bu_mul32 a b) = (wval a * unat b) mod 2 ^ (32 * length a)"
  by (simp add: bu_mul32_def bu_mul32_loop_val mult.commute)

lemma mod_pow_split:
  fixes u v :: nat
  shows "(u + B ^ j * (v mod B ^ k)) mod B ^ (j + k) = (u + B ^ j * v) mod B ^ (j + k)"
  by (simp only: power_add mult_mod_right mod_add_right_eq)

lemma bu_mul_step:
  fixes a b pn :: base_uint
  assumes "length pn = W" and "length b = W" and "j < W"
  shows "length (take j pn @ bu_mul_row 0 x (drop j pn) b) = W"
    and "wval (take j pn @ bu_mul_row 0 x (drop j pn) b) =
      (wval pn + 2 ^ (32 * j) * (unat x * wval b)) mod 2 ^ (32 * W)"
proof -
  have r: "length (bu_mul_row 0 x (drop j pn) b) = W - j"
    "wval (bu_mul_row 0 x (drop j pn) b) = (wval (drop j pn) + unat x * wval b) mod 2 ^ (32 * (W - j))"
    using bu_mul_row_val [of "drop j pn" b 0 x] assms by simp_all
  then show len: "length (take j pn @ bu_mul_row 0 x (drop j pn) b) = W" using assms by simp
  have W: "32 * j + 32 * (W - j) = 32 * W" using assms by simp
  have "wval (take j pn @ bu_mul_row 0 x (drop j pn) b) =
      wval (take j pn) + 2 ^ (32 * j) * ((wval (drop j pn) + unat x * wval b) mod 2 ^ (32 * (W - j)))"
    using r assms by (simp add: wval_append)
  moreover have "\<dots> < 2 ^ (32 * W)"
    unfolding calculation [symmetric]
    using wval_bound [of "take j pn @ bu_mul_row 0 x (drop j pn) b"] unfolding len by simp
  ultimately have "wval (take j pn @ bu_mul_row 0 x (drop j pn) b) =
      (wval (take j pn) + 2 ^ (32 * j) * ((wval (drop j pn) + unat x * wval b) mod 2 ^ (32 * (W - j)))) mod 2 ^ (32 * W)"
    by simp
  also have "\<dots> = (wval (take j pn) + 2 ^ (32 * j) * (wval (drop j pn) + unat x * wval b)) mod 2 ^ (32 * W)"
    using mod_pow_split [of "wval (take j pn)" 2 "32 * j" _ "32 * (W - j)"] by (simp only: W)
  also have "wval (take j pn) + 2 ^ (32 * j) * (wval (drop j pn) + unat x * wval b) =
      wval pn + 2 ^ (32 * j) * (unat x * wval b)"
    using wval_take_drop [of j pn] assms by (simp add: distrib_left)
  finally show "wval (take j pn @ bu_mul_row 0 x (drop j pn) b) =
      (wval pn + 2 ^ (32 * j) * (unat x * wval b)) mod 2 ^ (32 * W)" .
qed

lemma bu_mul_loop_val:
  fixes a b :: base_uint
  assumes "length a = length b" and "j \<le> length a"
  defines "r \<equiv> fold (\<lambda>j pn. take j pn @ bu_mul_row 0 (a ! j) (drop j pn) b) [0..<j] (bu_zero (length a))"
  shows "length r = length a \<and> wval r = (wval (take j a) * wval b) mod 2 ^ (32 * length a)"
  using assms(2) unfolding r_def
proof (induction j)
  case 0
  then show ?case by (simp add: bu_zero_val)
next
  case (Suc j)
  let ?r = "fold (\<lambda>j pn. take j pn @ bu_mul_row 0 (a ! j) (drop j pn) b) [0..<j] (bu_zero (length a))"
  have IH: "length ?r = length a" "wval ?r = (wval (take j a) * wval b) mod 2 ^ (32 * length a)"
    using Suc by simp_all
  have j: "j < length a" using Suc.prems by simp
  have ta: "wval (take (Suc j) a) = wval (take j a) + 2 ^ (32 * j) * unat (a ! j)"
    using j by (simp add: take_Suc_conv_app_nth wval_append)
  have "wval (take j ?r @ bu_mul_row 0 (a ! j) (drop j ?r) b) =
      (wval ?r + 2 ^ (32 * j) * (unat (a ! j) * wval b)) mod 2 ^ (32 * length a)"
    by (rule bu_mul_step(2) [OF IH(1) assms(1) [symmetric] j])
  also have "\<dots> = (wval (take (Suc j) a) * wval b) mod 2 ^ (32 * length a)"
    unfolding IH(2) ta by (simp only: mod_add_left_eq distrib_right mult.assoc)
  finally have "wval (take j ?r @ bu_mul_row 0 (a ! j) (drop j ?r) b) =
      (wval (take (Suc j) a) * wval b) mod 2 ^ (32 * length a)" .
  with bu_mul_step(1) [OF IH(1) assms(1) [symmetric] j, of "a ! j"] show ?case
    by (simp only: upt_Suc_append fold_append fold_simps comp_def zero_le simp_thms)
qed

lemma length_bu_mul [simp, len_simps]: "length a = length b \<Longrightarrow> length (bu_mul a b) = length b"
  using bu_mul_loop_val [of a b "length a"] by (simp add: bu_mul_def)

lemma bu_mul_val [val_simps]:
  "length a = length b \<Longrightarrow> wval (bu_mul a b) = (wval a * wval b) mod 2 ^ (32 * length b)"
  using bu_mul_loop_val [of a b "length a"] by (simp add: bu_mul_def)

text \<open>Multiplying an object by itself gives zero.\<close>

lemma replicate_update_same: "(replicate n x)[i := x] = replicate n x"
  by (metis list_update_beyond list_update_id not_le nth_replicate length_replicate)

lemma bu_mul_self_row_zero:
  assumes "\<forall>i\<in>set is. i + j < W"
  shows "bu_mul_self_row 0 x j is (replicate W 0) = replicate W 0"
  using assms by (induction "is") (simp_all add: Let_def replicate_update_same)

lemma bu_mul_self_zero: "bu_mul_self a = bu_zero (length a)"
proof -
  have "fold (\<lambda>j pn. bu_mul_self_row 0 (a ! j) j [0..<length a - j] pn) js (bu_zero (length a)) =
      bu_zero (length a)" for js
  proof (induction js)
    case (Cons j js)
    have "\<forall>i\<in>set [0..<length a - j]. i + j < length a" by auto
    from bu_mul_self_row_zero [OF this] Cons show ?case by (simp add: bu_zero_def)
  qed simp
  then show ?thesis by (simp add: bu_mul_self_def)
qed

subsection \<open>Bit length and division\<close>

lemma bu_limb_bits_bound:
  assumes "x \<noteq> 0" and "unat x < 2 ^ Suc k"
  shows "unat x < 2 ^ bu_limb_bits k x \<and> 2 ^ (bu_limb_bits k x - 1) \<le> unat x \<and> 1 \<le> bu_limb_bits k x"
  using assms
proof (induction k)
  case 0
  then have "unat x \<noteq> 0" by (simp add: unat_eq_0)
  with 0 show ?case by simp
next
  case (Suc k)
  have bit: "bit x (Suc k) \<longleftrightarrow> 2 ^ Suc k \<le> unat x"
    by (rule bit_top_iff [OF Suc.prems(2)])
  show ?case
  proof (cases "bit x (Suc k)")
    case True
    with bit Suc.prems show ?thesis by simp
  next
    case False
    with bit have "unat x < 2 ^ Suc k" by simp
    with Suc False show ?thesis by simp
  qed
qed

lemma bu_bits_loop_bound:
  "wval (rev xs) < 2 ^ bu_bits_loop xs \<and>
   (if wval (rev xs) = 0 then bu_bits_loop xs = 0
    else 0 < bu_bits_loop xs \<and> 2 ^ (bu_bits_loop xs - 1) \<le> wval (rev xs))"
proof (induction xs)
  case Nil
  then show ?case by simp
next
  case (Cons x xs)
  have v: "wval (rev (x # xs)) = wval (rev xs) + 2 ^ (32 * length xs) * unat x"
    by (simp add: wval_append)
  have b: "wval (rev xs) < 2 ^ (32 * length xs)" using wval_bound [of "rev xs"] by simp
  show ?case
  proof (cases "x = 0")
    case True
    with Cons show ?thesis unfolding v by (auto split: if_splits)
  next
    case False
    let ?n = "bu_limb_bits 31 x" and ?M = "2 ^ (32 * length xs) :: nat"
    have n: "unat x < 2 ^ ?n" "2 ^ (?n - 1) \<le> unat x" "1 \<le> ?n"
      using bu_limb_bits_bound [of x 31] False unat_lt_u32 [of x] by simp_all
    have "wval (rev xs) + ?M * unat x < ?M * Suc (unat x)" using b by simp
    also have "\<dots> \<le> ?M * 2 ^ ?n" using n by (intro mult_le_mono2) simp
    finally have hi: "wval (rev xs) + ?M * unat x < 2 ^ (32 * length xs + ?n)" by (simp only: power_add)
    have "?M * 2 ^ (?n - 1) \<le> ?M * unat x" using n by simp
    then have lo: "2 ^ (32 * length xs + ?n - 1) \<le> wval (rev xs) + ?M * unat x"
      using n(3) by (simp add: power_add [symmetric])
    have "unat x \<noteq> 0" using False by (simp add: unat_eq_0)
    with hi lo n(3) False show ?thesis unfolding v by simp
  qed
qed

lemma bu_bits_less: "wval a < 2 ^ bu_bits a"
  using bu_bits_loop_bound [of "rev a"] by (simp add: bu_bits_def)

lemma bu_bits_ge: "wval a \<noteq> 0 \<Longrightarrow> 2 ^ (bu_bits a - 1) \<le> wval a"
  using bu_bits_loop_bound [of "rev a"] by (simp add: bu_bits_def)

lemma bu_bits_eq_0: "bu_bits a = 0 \<longleftrightarrow> wval a = 0"
  using bu_bits_loop_bound [of "rev a"] by (auto simp: bu_bits_def split: if_splits)

lemma bu_bits_unique:
  assumes "2 ^ (n - 1) \<le> wval a" and "wval a < 2 ^ n" and "wval a \<noteq> 0"
  shows "bu_bits a = n"
proof -
  have "2 ^ (bu_bits a - 1) < (2 :: nat) ^ n"
    using bu_bits_ge [OF assms(3)] assms(2) by linarith
  then have "bu_bits a - 1 < n" by simp
  moreover have "2 ^ (n - 1) < (2 :: nat) ^ bu_bits a"
    using bu_bits_less [of a] assms(1) by linarith
  then have "n - 1 < bu_bits a" by simp
  moreover have "n \<noteq> 0" using assms(2,3) by (cases n) auto
  ultimately show ?thesis by linarith
qed

lemma bu_bits_le: "bu_bits a \<le> 32 * length a"
proof (cases "wval a = 0")
  case True
  then show ?thesis by (simp add: bu_bits_eq_0 [THEN iffD2])
next
  case False
  have "2 ^ (bu_bits a - 1) < (2 :: nat) ^ (32 * length a)"
    by (rule le_less_trans [OF bu_bits_ge [OF False]]) (use wval_bound [of a] in simp)
  then show ?thesis by simp
qed

lemma wval_set_bit:
  assumes "n < 32 * length (q :: base_uint)" and "2 ^ Suc n dvd wval q"
  shows "wval (q[n div 32 := q ! (n div 32) OR push_bit (n mod 32) 1]) = wval q + 2 ^ n"
proof -
  let ?q' = "q[n div 32 := q ! (n div 32) OR push_bit (n mod 32) 1]"
  have d: "n div 32 < length q" using assms(1) by linarith
  have "wval ?q' = wval q OR 2 ^ n"
  proof (rule bit_eqI)
    fix m
    have "m div 32 = n div 32 \<and> m mod 32 = n mod 32 \<longleftrightarrow> m = n"
      by (metis div_mult_mod_eq)
    then show "bit (wval ?q') m \<longleftrightarrow> bit (wval q OR 2 ^ n) m"
      using d by (auto simp: bit_wval_u32 nth_list_update bit_or_iff bit_push_bit_iff bit_exp_iff bit_1_iff)
  qed
  also have "wval q OR 2 ^ n = wval q + 2 ^ n"
  proof (rule disjunctive_add [symmetric])
    fix m
    have "\<not> bit (wval q) n"
    proof -
      from assms(2) obtain k where "wval q = 2 ^ Suc n * k" by (elim dvdE)
      then have "wval q div 2 ^ n = 2 * k" by simp
      then show ?thesis by (simp add: bit_iff_odd)
    qed
    then show "\<not> bit (wval q) m \<or> \<not> bit (2 ^ n :: nat) m" by (auto simp: bit_exp_iff)
  qed
  finally show ?thesis .
qed


lemma length_bu_div_loop: "length num = length dv \<Longrightarrow> length (bu_div_loop n num dv q) = length q"
  by (induction n num dv q rule: bu_div_loop.induct) (simp_all add: Let_def split: if_splits)

lemma bu_div_loop_val:
  assumes "length num = length q" and "length dv = length q" and "n \<le> 32 * length q"
    and "2 * wval dv = 2 ^ n * B" and "wval num < 2 ^ n * B" and "2 ^ n dvd wval q" and "0 < B"
  shows "wval (bu_div_loop n num dv q) = wval q + wval num div B"
  using assms
proof (induction n num dv q rule: bu_div_loop.induct)
  case (1 num dv q)
  then show ?case by simp
next
  case (2 n num dv q)
  have dv: "wval dv = 2 ^ n * B" using "2.prems"(4) by simp
  have shr: "2 * wval (bu_shr dv 1) = 2 ^ n * B" if "n \<noteq> 0"
    using that dv by (cases n) (simp_all add: bu_shr_val)
  have cmp: "bu_compare num dv \<ge> 0 \<longleftrightarrow> wval dv \<le> wval num"
    using "2.prems"(1,2) by (simp add: bu_compare_val)
  define num' where "num' = (if bu_compare num dv \<ge> 0 then bu_sub num dv else num)"
  define q' where "q' = (if bu_compare num dv \<ge> 0
      then q[n div 32 := q ! (n div 32) OR push_bit (n mod 32) 1] else q)"
  have step: "bu_div_loop (Suc n) num dv q = bu_div_loop n num' (bu_shr dv 1) q'"
    by (simp add: num'_def q'_def)
  have len: "length num' = length q'" "length (bu_shr dv 1) = length q'" "n \<le> 32 * length q'"
    using "2.prems" by (simp_all add: num'_def q'_def)
  have nv: "wval num = (if wval dv \<le> wval num then 2 ^ n * B else 0) + wval num'"
    using "2.prems"(1,2) cmp by (simp add: num'_def bu_sub_val_le dv)
  have qv: "wval q' = (if wval dv \<le> wval num then 2 ^ n else 0) + wval q"
    using "2.prems"(3,6) cmp wval_set_bit [of n q] by (simp add: q'_def)
  have num'_less: "wval num' < 2 ^ n * B"
    using nv "2.prems"(5) dv by (simp add: mult.commute split: if_splits)
  have dvd: "2 ^ n dvd wval q'"
    unfolding qv using dvd_trans [OF le_imp_power_dvd "2.prems"(6), of n] by simp
  have pair: "(num', q') = (if bu_compare num dv \<ge> 0
      then (bu_sub num dv, q[n div 32 := q ! (n div 32) OR push_bit (n mod 32) 1]) else (num, q))"
    unfolding num'_def q'_def by simp
  have "wval (bu_div_loop n num' (bu_shr dv 1) q') = wval q' + wval num' div B"
  proof (cases n)
    case 0
    with num'_less show ?thesis by simp
  next
    case (Suc k)
    show ?thesis
      by (rule "2.IH" [OF refl pair len shr num'_less dvd "2.prems"(7)]) (simp add: Suc)
  qed
  also have "\<dots> = wval q + wval num div B"
  proof (cases "wval dv \<le> wval num")
    case True
    then have "wval num div B = 2 ^ n + wval num' div B"
      using nv "2.prems"(7) by (simp only: if_True div_mult_self3)
    with True qv show ?thesis by simp
  qed (use nv qv in simp)
  finally show ?case unfolding step .
qed

lemma bu_div_val:
  assumes "length a = length b" and "wval b \<noteq> 0"
  shows "\<exists>q. bu_div a b = Inr q \<and> length q = length a \<and> wval q = wval a div wval b"
proof (cases "bu_bits b > bu_bits a")
  case True
  have "wval a < 2 ^ bu_bits a" by (rule bu_bits_less)
  also have "(2 :: nat) ^ bu_bits a \<le> 2 ^ (bu_bits b - 1)" using True by (intro power_increasing) auto
  also have "\<dots> \<le> wval b" by (rule bu_bits_ge [OF assms(2)])
  finally have "wval a div wval b = 0" by simp
  with True assms(2) show ?thesis by (simp add: bu_div_def bu_bits_eq_0 bu_zero_val)
next
  case False
  let ?n = "bu_bits a - bu_bits b"
  have nz: "bu_bits b \<noteq> 0" using assms(2) by (simp add: bu_bits_eq_0)
  have eq: "bu_div a b = Inr (bu_div_loop (Suc ?n) a (bu_shl b ?n) (bu_zero (length a)))"
    using False nz by (simp add: bu_div_def Let_def)
  have le: "bu_bits a \<le> 32 * length a" by (rule bu_bits_le)
  have "wval b * 2 ^ ?n < 2 ^ bu_bits b * 2 ^ ?n" using bu_bits_less [of b] by simp
  also have "\<dots> = 2 ^ bu_bits a" using False by (simp add: power_add [symmetric])
  also have "\<dots> \<le> 2 ^ (32 * length a)" using le by (intro power_increasing) auto
  finally have dv: "wval (bu_shl b ?n) = wval b * 2 ^ ?n"
    using assms(1) by (simp add: bu_shl_val)
  have "2 ^ (bu_bits b - 1) * 2 ^ Suc ?n = (2 :: nat) ^ bu_bits a"
    using False nz by (simp only: power_add [symmetric]) simp
  then have "wval a < 2 ^ (bu_bits b - 1) * 2 ^ Suc ?n" using bu_bits_less [of a] by simp
  also have "\<dots> \<le> wval b * 2 ^ Suc ?n" using bu_bits_ge [OF assms(2)] by (intro mult_le_mono1)
  finally have less: "wval a < 2 ^ Suc ?n * wval b" by (simp add: mult.commute)
  have n: "Suc ?n \<le> 32 * length a" using le nz False by linarith
  have "wval (bu_div_loop (Suc ?n) a (bu_shl b ?n) (bu_zero (length a))) = wval (bu_zero (length a)) + wval a div wval b"
    by (rule bu_div_loop_val) (use assms n less dv in \<open>simp_all add: bu_zero_val\<close>)
  then show ?thesis
    using assms(1) eq by (simp add: length_bu_div_loop bu_zero_val del: bu_div_loop.simps)
qed

lemma bu_div_by_zero: "wval b = 0 \<Longrightarrow> bu_div a b = Inl Division_by_zero"
  by (simp add: bu_div_def bu_bits_eq_0 [THEN iffD2])

end
