(* ===== verification/Uint256.thy ===== *)
theory Uint256
  imports Base_Uint
begin

text \<open>
  The class \<^verbatim>\<open>uint256\<close>: the compact encoding of difficulty targets, the hexadecimal
  text form, and the salted hash of the coin cache (\<^verbatim>\<open>SetCompact\<close>, \<^verbatim>\<open>GetCompact\<close>,
  \<^verbatim>\<open>GetHex\<close>, \<^verbatim>\<open>SetHex\<close>, \<^verbatim>\<open>GetHash\<close> of \<^verbatim>\<open>uint256.cpp\<close>), over the
  limbs of \<open>Base_Uint\<close>.
\<close>

abbreviation is_uint256 :: "base_uint \<Rightarrow> bool" where
  "is_uint256 a \<equiv> length a = 8"

subsection \<open>The compact encoding\<close>

text \<open>\<^verbatim>\<open>SetCompact\<close>: the value, \<^verbatim>\<open>*pfNegative\<close> and \<^verbatim>\<open>*pfOverflow\<close>.\<close>

definition set_compact :: "u32 \<Rightarrow> base_uint \<times> bool \<times> bool" where
  "set_compact nCompact =
     (let nSize = unat (drop_bit 24 nCompact);
          nWord = nCompact AND 0x007fffff;
          nWord' = (if nSize \<le> 3 then drop_bit (8 * (3 - nSize)) nWord else nWord);
          value = (if nSize \<le> 3 then bu_of_u64 8 (ucast nWord')
                   else bu_shl (bu_of_u64 8 (ucast nWord')) (8 * (nSize - 3)));
          negative = (nWord' \<noteq> 0 \<and> nCompact AND 0x00800000 \<noteq> 0);
          overflow = (nWord' \<noteq> 0 \<and> (nSize > 34 \<or> (nWord' > 0xff \<and> nSize > 33) \<or>
                        (nWord' > 0xffff \<and> nSize > 32)))
      in (value, negative, overflow))"

text \<open>\<^verbatim>\<open>GetCompact\<close>; a failed \<^verbatim>\<open>assert\<close> is \<open>None\<close>.\<close>

definition get_compact :: "base_uint \<Rightarrow> bool \<Rightarrow> u32 option" where
  "get_compact a fNegative =
     (let nSize = (bu_bits a + 7) div 8;
          nCompact = (if nSize \<le> 3 then ucast (push_bit (8 * (3 - nSize)) (bu_low64 a))
                      else ucast (bu_low64 (bu_shr a (8 * (nSize - 3)))));
          (nCompact, nSize) = (if nCompact AND 0x00800000 \<noteq> (0 :: u32)
                               then (drop_bit 8 nCompact, nSize + 1) else (nCompact, nSize))
      in if nCompact AND NOT 0x007fffff \<noteq> 0 then None
         else if \<not> nSize < 256 then None
         else let nCompact = nCompact OR push_bit 24 (of_nat nSize)
              in Some (nCompact OR (if fNegative \<and> nCompact AND 0x007fffff \<noteq> 0 then 0x00800000 else 0)))"

subsection \<open>The compact format on numbers\<close>

text \<open>
  What the format means, on natural numbers: an exponent (a number of bytes) and a
  mantissa below \<open>2 ^ 23\<close>; the top bit of the 24-bit mantissa is the sign, so a
  mantissa that would set it moves up by one byte.
\<close>

fun nbytes :: "nat \<Rightarrow> nat" where
  "nbytes v = (if v = 0 then 0 else Suc (nbytes (v div 256)))"

declare nbytes.simps [simp del]

definition compact_encode :: "nat \<Rightarrow> nat \<times> nat" where
  "compact_encode v =
     (let n = nbytes v; m = (if n \<le> 3 then v * 256 ^ (3 - n) else v div 256 ^ (n - 3))
      in if 2 ^ 23 \<le> m then (n + 1, m div 256) else (n, m))"

definition compact_decode :: "nat \<times> nat \<Rightarrow> nat" where
  "compact_decode = (\<lambda>(n, m). if n \<le> 3 then m div 256 ^ (3 - n) else m * 256 ^ (n - 3))"

lemma nbytes_0 [simp]: "nbytes 0 = 0" and nbytes_pos: "v \<noteq> 0 \<Longrightarrow> nbytes v = Suc (nbytes (v div 256))"
  by (simp_all add: nbytes.simps)

lemma nbytes_bounds: "v < 256 ^ nbytes v \<and> (v \<noteq> 0 \<longrightarrow> 256 ^ (nbytes v - 1) \<le> v \<and> 0 < nbytes v)"
proof (induction v rule: nbytes.induct)
  case (1 v)
  show ?case
  proof (cases "v = 0")
    case False
    with 1 have IH: "v div 256 < 256 ^ nbytes (v div 256)"
      "v div 256 \<noteq> 0 \<longrightarrow> 256 ^ (nbytes (v div 256) - 1) \<le> v div 256 \<and> 0 < nbytes (v div 256)" by auto
    have "v < 256 * 256 ^ nbytes (v div 256)"
      using IH(1) by (metis div_less_iff_less_mult mult.commute zero_less_numeral)
    moreover have "256 ^ nbytes (v div 256) \<le> v"
    proof (cases "v div 256 = 0")
      case True
      with False show ?thesis by simp
    next
      case nz: False
      then have "256 * 256 ^ (nbytes (v div 256) - 1) \<le> 256 * (v div 256)" using IH by simp
      also have "\<dots> \<le> v" by simp
      also have "256 * 256 ^ (nbytes (v div 256) - 1) = (256 :: nat) ^ nbytes (v div 256)"
        using nz IH(2) by (simp add: power_eq_if)
      finally show ?thesis .
    qed
    ultimately show ?thesis using False by (simp add: nbytes_pos)
  qed simp
qed

lemma nbytes_less: "v < 256 ^ nbytes v" and nbytes_ge: "v \<noteq> 0 \<Longrightarrow> 256 ^ (nbytes v - 1) \<le> v"
  using nbytes_bounds by auto

lemma nbytes_unique:
  assumes "v \<noteq> 0" and "256 ^ (n - 1) \<le> v" and "v < 256 ^ n"
  shows "nbytes v = n"
proof -
  have "(256 :: nat) ^ (nbytes v - 1) < 256 ^ n" using nbytes_ge [OF assms(1)] assms(3) by linarith
  then have "nbytes v - 1 < n" by simp
  moreover have "(256 :: nat) ^ (n - 1) < 256 ^ nbytes v" using nbytes_less [of v] assms(2) by linarith
  then have "n - 1 < nbytes v" by simp
  moreover have "n \<noteq> 0" using assms(1,3) by (cases n) auto
  ultimately show ?thesis by linarith
qed

lemma nbytes_le: "v < 256 ^ k \<Longrightarrow> nbytes v \<le> k"
proof (cases "v = 0")
  case False
  assume "v < 256 ^ k"
  with nbytes_ge [OF False] have "(256 :: nat) ^ (nbytes v - 1) < 256 ^ k" by linarith
  then show ?thesis by simp
qed simp

lemma bits_nbytes: "(bu_bits a + 7) div 8 = nbytes (wval a)"
proof (cases "wval a = 0")
  case True
  then show ?thesis by (simp add: bu_bits_eq_0 [THEN iffD2])
next
  case False
  let ?n = "(bu_bits a + 7) div 8"
  have b: "bu_bits a \<noteq> 0" using False by (simp add: bu_bits_eq_0)
  have pow: "(256 :: nat) ^ k = 2 ^ (8 * k)" for k by (simp add: power_mult)
  have le: "bu_bits a \<le> 8 * ?n" and ge: "8 * (?n - 1) \<le> bu_bits a - 1" using b by presburger+
  have "wval a < 2 ^ (8 * ?n)"
    using bu_bits_less [of a] power_increasing [OF le, of "2 :: nat"] by linarith
  moreover have "2 ^ (8 * (?n - 1)) \<le> wval a"
    using bu_bits_ge [OF False] power_increasing [OF ge, of "2 :: nat"] by linarith
  ultimately show ?thesis
    using nbytes_unique [OF False, of ?n] pow by simp
qed

definition compact_mantissa :: "nat \<Rightarrow> nat" where
  "compact_mantissa v = (if nbytes v \<le> 3 then v * 256 ^ (3 - nbytes v) else v div 256 ^ (nbytes v - 3))"

lemma compact_mantissa_less: "compact_mantissa v < 2 ^ 24"
proof (cases "nbytes v \<le> 3")
  case True
  have "v * 256 ^ (3 - nbytes v) < 256 ^ nbytes v * 256 ^ (3 - nbytes v)" using nbytes_less [of v] by simp
  also have "\<dots> = 256 ^ 3" using True by (simp only: power_add [symmetric]) simp
  finally show ?thesis using True by (simp add: compact_mantissa_def)
next
  case False
  have "v < 256 ^ 3 * 256 ^ (nbytes v - 3)"
    using nbytes_less [of v] False by (simp only: power_add [symmetric]) simp
  with False show ?thesis by (simp add: compact_mantissa_def less_mult_imp_div_less)
qed

lemma compact_mantissa_ge: "v \<noteq> 0 \<Longrightarrow> 2 ^ 16 \<le> compact_mantissa v"
proof (cases "nbytes v \<le> 3")
  case True
  assume v: "v \<noteq> 0"
  have n: "nbytes v - 1 + (3 - nbytes v) = 2" using True v by (simp add: nbytes_pos)
  have "256 ^ (nbytes v - 1) * 256 ^ (3 - nbytes v) \<le> v * 256 ^ (3 - nbytes v)" using nbytes_ge [OF v] by simp
  then have "256 ^ 2 \<le> v * 256 ^ (3 - nbytes v)" by (simp only: power_add [symmetric] n)
  with True show ?thesis by (simp add: compact_mantissa_def)
next
  case False
  assume v: "v \<noteq> 0"
  have n: "2 + (nbytes v - 3) = nbytes v - 1" using False by simp
  have "256 ^ 2 * 256 ^ (nbytes v - 3) \<le> v" using nbytes_ge [OF v] by (simp only: power_add [symmetric] n)
  then have "256 ^ 2 \<le> v div 256 ^ (nbytes v - 3)" by (simp only: less_eq_div_iff_mult_less_eq zero_less_power zero_less_numeral)
  with False show ?thesis by (simp add: compact_mantissa_def)
qed

lemma compact_encode_eq:
  "compact_encode v = (if 2 ^ 23 \<le> compact_mantissa v then (nbytes v + 1, compact_mantissa v div 256)
     else (nbytes v, compact_mantissa v))"
  by (simp add: compact_encode_def compact_mantissa_def Let_def)

lemma compact_encode_mantissa_less: "snd (compact_encode v) < 2 ^ 23"
  using compact_mantissa_less [of v] by (simp add: compact_encode_eq less_mult_imp_div_less)

text \<open>Decoding an encoding drops the bytes below the mantissa and nothing else.\<close>

definition compact_drop :: "nat \<Rightarrow> nat" where
  "compact_drop v = fst (compact_encode v) - 3"

lemma compact_decode_encode: "compact_decode (compact_encode v) = v div 256 ^ compact_drop v * 256 ^ compact_drop v"
proof (cases "2 ^ 23 \<le> compact_mantissa v")
  case False
  then show ?thesis by (simp add: compact_encode_eq compact_decode_def compact_drop_def compact_mantissa_def)
next
  case True
  have *: "v div 256 ^ k div 256 = v div 256 ^ Suc k" for k
    by (simp add: div_mult2_eq [symmetric] mult.commute)
  consider "nbytes v \<le> 2" | "nbytes v = 3" | "nbytes v > 3" by linarith
  then show ?thesis
  proof cases
    case 1
    then have "v * 256 ^ (3 - nbytes v) div 256 = v * 256 ^ (2 - nbytes v)"
      by (simp add: numeral_3_eq_3 numeral_2_eq_2 Suc_diff_le)
    with 1 True show ?thesis
      by (simp add: compact_encode_eq compact_decode_def compact_drop_def compact_mantissa_def numeral_3_eq_3 numeral_2_eq_2)
  next
    case 2
    with True show ?thesis by (simp add: compact_encode_eq compact_decode_def compact_drop_def compact_mantissa_def)
  next
    case 3
    then have "nbytes v + 1 - 3 = Suc (nbytes v - 3)" by simp
    with 3 True * show ?thesis
      by (simp add: compact_encode_eq compact_decode_def compact_drop_def compact_mantissa_def)
  qed
qed

lemma compact_decode_encode_le: "compact_decode (compact_encode v) \<le> v"
  by (simp add: compact_decode_encode)

lemma compact_drop_0 [simp]: "compact_drop 0 = 0"
  by (simp add: compact_drop_def compact_encode_def)

lemma compact_decode_encode_precision:
  "(v - compact_decode (compact_encode v)) * 2 ^ 15 \<le> compact_decode (compact_encode v)"
proof (cases "compact_drop v = 0")
  case True
  then show ?thesis by (simp add: compact_decode_encode)
next
  case False
  let ?k = "compact_drop v"
  have v: "v \<noteq> 0" using False by (metis compact_drop_0)
  have m: "2 ^ 15 \<le> snd (compact_encode v)"
    using compact_mantissa_ge [OF v] by (auto simp: compact_encode_eq less_eq_div_iff_mult_less_eq)
  have "compact_decode (compact_encode v) = snd (compact_encode v) * 256 ^ ?k"
    using False by (simp add: compact_decode_def compact_drop_def case_prod_unfold)
  with m have lo: "2 ^ 15 * 256 ^ ?k \<le> compact_decode (compact_encode v)" by simp
  have "v - compact_decode (compact_encode v) = v mod 256 ^ ?k"
    by (simp add: compact_decode_encode minus_div_mult_eq_mod)
  then have "v - compact_decode (compact_encode v) \<le> 256 ^ ?k" by simp
  then have "(v - compact_decode (compact_encode v)) * 2 ^ 15 \<le> 256 ^ ?k * 2 ^ 15" by (rule mult_le_mono1)
  with lo show ?thesis by (simp add: mult.commute)
qed

lemma div_mult_div_pow:
  fixes v :: nat
  assumes "i \<le> j"
  shows "v div 256 ^ i * 256 ^ i div 256 ^ j = v div 256 ^ j"
proof -
  have j: "(256 :: nat) ^ j = 256 ^ i * 256 ^ (j - i)" using assms by (simp add: power_add [symmetric])
  show ?thesis unfolding j by (simp add: div_mult2_eq)
qed

lemma compact_encode_decode_encode: "compact_encode (compact_decode (compact_encode v)) = compact_encode v"
proof (cases "compact_drop v = 0")
  case True
  then show ?thesis by (simp add: compact_decode_encode)
next
  case False
  let ?k = "compact_drop v" and ?n = "nbytes v"
  let ?t = "v div 256 ^ ?k * 256 ^ ?k"
  have v: "v \<noteq> 0" using False by (metis compact_drop_0)
  have k: "?k \<le> ?n - 1" "?k \<le> Suc (?n - 3)"
    using v by (auto simp: compact_drop_def compact_encode_eq nbytes_pos)
  have t: "?t \<le> v" by simp
  have ge: "256 ^ (?n - 1) \<le> ?t"
  proof -
    have n1: "256 ^ (?n - 1) = 256 ^ (?n - 1 - ?k) * (256 :: nat) ^ ?k"
      using k by (simp only: power_add [symmetric]) simp
    have "256 ^ (?n - 1 - ?k) * 256 ^ ?k \<le> v" using nbytes_ge [OF v] unfolding n1 .
    then have "256 ^ (?n - 1 - ?k) \<le> v div 256 ^ ?k" by (simp add: less_eq_div_iff_mult_less_eq)
    then show ?thesis unfolding n1 by (rule mult_le_mono1)
  qed
  have "?t \<noteq> 0" using ge by (metis le_zero_eq power_not_zero zero_neq_numeral)
  moreover have "?t < 256 ^ ?n" using t nbytes_less [of v] by (rule le_less_trans)
  ultimately have n: "nbytes ?t = ?n" using ge by (intro nbytes_unique)
  show ?thesis
  proof (cases "2 ^ 23 \<le> compact_mantissa v")
    case sign: True
    have e3: "?k = ?n + 1 - 3" using sign by (simp add: compact_drop_def compact_encode_eq)
    with False have big: "?n \<ge> 3" by linarith
    with e3 have kn: "?k = Suc (?n - 3)" by linarith
    have mt: "compact_mantissa w = w div 256 ^ (?n - 3)" if "nbytes w = ?n" for w
      using big that by (cases "?n = 3") (auto simp: compact_mantissa_def)
    have d: "w div 256 ^ (?n - 3) div 256 = w div 256 ^ ?k" for w :: nat
      by (simp add: kn div_mult2_eq [symmetric] mult.commute)
    have top: "compact_mantissa ?t div 256 = compact_mantissa v div 256"
      unfolding mt [OF n] mt [OF refl] d by (rule div_mult_div_pow) simp
    have "2 ^ 15 \<le> compact_mantissa v div 256" using sign by (simp add: less_eq_div_iff_mult_less_eq)
    then have "2 ^ 15 \<le> compact_mantissa ?t div 256" unfolding top .
    then have "2 ^ 23 \<le> compact_mantissa ?t" by (simp add: less_eq_div_iff_mult_less_eq)
    with sign top n show ?thesis unfolding compact_decode_encode by (simp add: compact_encode_eq)
  next
    case sign: False
    with False have kn: "?k = ?n - 3" "\<not> ?n \<le> 3" by (auto simp: compact_drop_def compact_encode_eq)
    then have "compact_mantissa ?t = compact_mantissa v"
      using n div_mult_div_pow [of "?n - 3" "?n - 3" v] by (simp add: compact_mantissa_def)
    with n show ?thesis unfolding compact_decode_encode by (simp add: compact_encode_eq)
  qed
qed

subsection \<open>The word operations implement the format\<close>

lemma set_compact_parts:
  fixes c :: u32
  assumes "unat c = n * 2 ^ 24 + m" and "m < 2 ^ 23"
  shows "unat (drop_bit 24 c) = n" and "unat (c AND 0x007fffff) = m" and "c AND 0x00800000 = 0"
proof -
  show "unat (drop_bit 24 c) = n" using assms by (simp add: unat_drop_bit)
  have mask: "(0x007fffff :: u32) = mask 23" by (simp add: mask_eq_exp_minus_1)
  have "unat (c AND mask 23) = unat c mod 2 ^ 23" by (rule unat_and_mask)
  also have "\<dots> = m"
  proof -
    have "unat c = m + 2 ^ 23 * (2 * n)" using assms(1) by simp
    then show ?thesis by (simp only: mod_mult_self2 mod_less [OF assms(2)])
  qed
  finally show "unat (c AND 0x007fffff) = m" unfolding mask .
  have e: "(0x00800000 :: u32) = 2 ^ 23" by simp
  have "\<not> bit (unat c) 23"
  proof -
    have "unat c div 2 ^ 23 = 2 * n" using assms by simp
    then show ?thesis by (simp add: bit_iff_odd)
  qed
  then have "\<not> bit c 23" by (simp add: bit_unsigned_iff)
  then show "c AND 0x00800000 = 0" unfolding e and_exp_eq_0_iff_not_bit .
qed

lemma low64_val: "length a \<ge> 2 \<Longrightarrow> wval a < 2 ^ 64 \<Longrightarrow> unat (bu_low64 a) = wval a"
proof -
  assume l: "length a \<ge> 2" and v: "wval a < 2 ^ 64"
  obtain p0 p1 ps where a: "a = p0 # p1 # ps" using l by (metis Suc_le_length_iff numeral_2_eq_2)
  have "wval a = unat p0 + 2 ^ 32 * unat p1 + 2 ^ 64 * wval ps" by (simp add: a)
  with v have ps: "wval ps = 0" by simp
  have "unat (push_bit 32 (ucast p1) :: u64) = 2 ^ 32 * unat p1"
    using unat_lt_u32 [of p1] unfolding unat_push_bit by (simp add: unat_ucast_up)
  then have "unat (bu_low64 a) = unat p0 OR 2 ^ 32 * unat p1"
    by (simp add: a unsigned_or_eq unat_ucast_up)
  also have "\<dots> = unat p0 + 2 ^ 32 * unat p1" by (rule nat_or_disjoint) (use unat_lt_u32 [of p0] in simp)
  finally show ?thesis using ps by (simp add: a)
qed

lemma set_compact_val:
  assumes "unat c = n * 2 ^ 24 + m" and "m < 2 ^ 23"
  shows "wval (fst (set_compact c)) = compact_decode (n, m) mod 2 ^ 256"
    and "length (fst (set_compact c)) = 8"
    and "\<not> fst (snd (set_compact c))"
    and "m * 256 ^ (n - 3) < 2 ^ 256 \<Longrightarrow> n \<le> 33 \<Longrightarrow> \<not> snd (snd (set_compact c))"
proof -
  note p = set_compact_parts [OF assms]
  have w: "wval (bu_of_u64 8 (ucast w)) = unat w" for w :: u32
    by (simp add: bu_of_u64_val unat_ucast_up)
  have bound: "m div 256 ^ k < 2 ^ 256" for k
    using assms(2) by (intro le_less_trans [OF div_le_dividend]) simp
  show "length (fst (set_compact c)) = 8"
    by (simp add: set_compact_def Let_def)
  show "\<not> fst (snd (set_compact c))"
    using p by (simp add: set_compact_def Let_def)
  have pow: "2 ^ (8 * k) = (256 :: nat) ^ k" for k by (simp add: power_mult)
  show "wval (fst (set_compact c)) = compact_decode (n, m) mod 2 ^ 256"
    using p bound by (simp add: set_compact_def Let_def w bu_shl_val compact_decode_def unat_drop_bit pow del: drop_bit_and)
  show "\<not> snd (snd (set_compact c))" if "m * 256 ^ (n - 3) < 2 ^ 256" "n \<le> 33"
  proof (cases "n \<le> 32")
    case True
    with p show ?thesis by (simp add: set_compact_def Let_def)
  next
    case False
    with that have n: "n = 33" by simp
    have "m * 256 ^ 30 < 256 ^ 2 * 256 ^ 30" using that(1) by (simp add: n)
    then have "m < 256 ^ 2" by simp
    with p n have "\<not> c AND 0x007fffff > 0xffff" by (simp add: word_less_nat_alt)
    with p n show ?thesis by (simp add: set_compact_def Let_def)
  qed
qed


lemma bit23_iff: "unat (x :: u32) < 2 ^ 24 \<Longrightarrow> x AND 0x00800000 \<noteq> 0 \<longleftrightarrow> 2 ^ 23 \<le> unat x"
proof -
  assume "unat x < 2 ^ 24"
  then have "bit x 23 \<longleftrightarrow> 2 ^ 23 \<le> unat x" by (intro bit_top_iff) simp
  moreover have "(0x00800000 :: u32) = 2 ^ 23" by simp
  ultimately show ?thesis by (simp only: and_exp_eq_0_iff_not_bit) simp
qed

lemma and_not_mask23: "unat (x :: u32) < 2 ^ 23 \<Longrightarrow> x AND NOT 0x007fffff = 0"
proof -
  assume x: "unat x < 2 ^ 23"
  have "unat (x AND mask 23) = unat x" using x by (simp only: unat_and_mask mod_less)
  then have "x = x AND mask 23" by (metis unsigned_word_eqI)
  then have "x AND NOT (mask 23) = 0"
    by (metis and.assoc and.commute bit.conj_cancel_right bit.conj_zero_right)
  then show ?thesis by (simp add: mask_eq_exp_minus_1)
qed

lemma get_compact_mantissa:
  assumes "length a = 8"
  shows "unat (if nbytes (wval a) \<le> 3 then ucast (push_bit (8 * (3 - nbytes (wval a))) (bu_low64 a))
      else ucast (bu_low64 (bu_shr a (8 * (nbytes (wval a) - 3)))) :: u32) = compact_mantissa (wval a)"
proof -
  let ?v = "wval a" and ?n = "nbytes (wval a)"
  have pow: "2 ^ (8 * k) = (256 :: nat) ^ k" for k by (simp add: power_mult)
  have m: "compact_mantissa ?v < 2 ^ 24" by (rule compact_mantissa_less)
  show ?thesis
  proof (cases "?n \<le> 3")
    case True
    have "?v < 256 ^ 3" using nbytes_less [of ?v] power_increasing [OF True, of "256 :: nat"] by linarith
    then have "unat (bu_low64 a) = ?v" using assms by (intro low64_val) simp_all
    then have "unat (ucast (push_bit (8 * (3 - ?n)) (bu_low64 a)) :: u32) = ?v * 256 ^ (3 - ?n) mod 2 ^ 64 mod 2 ^ 32"
      by (simp only: unat_ucast_mod unat_push_bit pow) simp
    also have "\<dots> = ?v * 256 ^ (3 - ?n)"
      using m True by (simp add: compact_mantissa_def)
    finally show ?thesis using True by (simp add: compact_mantissa_def)
  next
    case False
    have v: "wval (bu_shr a (8 * (?n - 3))) = compact_mantissa ?v"
      using False by (simp add: bu_shr_val pow compact_mantissa_def)
    then have "unat (bu_low64 (bu_shr a (8 * (?n - 3)))) = compact_mantissa ?v"
      using assms m low64_val [of "bu_shr a (8 * (?n - 3))"] by simp
    with False m show ?thesis by (simp add: unat_ucast_mod)
  qed
qed

lemma get_compact_val:
  assumes "length a = 8" and "compact_encode (wval a) = (n, m)"
  obtains c where "get_compact a False = Some c" and "unat c = n * 2 ^ 24 + m"
proof -
  let ?v = "wval a"
  define x where "x = (if nbytes ?v \<le> 3 then ucast (push_bit (8 * (3 - nbytes ?v)) (bu_low64 a))
      else ucast (bu_low64 (bu_shr a (8 * (nbytes ?v - 3)))) :: u32)"
  define y where "y = (if x AND 0x00800000 \<noteq> 0 then drop_bit 8 x else x)"
  have x: "unat x = compact_mantissa ?v" unfolding x_def by (rule get_compact_mantissa [OF assms(1)])
  have sgn: "x AND 0x00800000 \<noteq> 0 \<longleftrightarrow> 2 ^ 23 \<le> compact_mantissa ?v"
    using bit23_iff [of x] x compact_mantissa_less [of ?v] by simp
  have nn: "n = (if x AND 0x00800000 \<noteq> 0 then nbytes ?v + 1 else nbytes ?v)"
    and ym: "unat y = m"
    using assms(2) sgn x by (auto simp: compact_encode_eq y_def unat_drop_bit split: if_splits)
  have m: "m < 2 ^ 23" using compact_encode_mantissa_less [of ?v] assms(2) by simp
  have "?v < 256 ^ 32" using wval_bound [of a] assms(1) by simp
  then have "nbytes ?v \<le> 32" by (rule nbytes_le)
  with nn have n: "n \<le> 33" by simp
  have y0: "y AND NOT 0x007fffff = 0" using m ym and_not_mask23 [of y] by simp
  have c: "unat (y OR push_bit 24 (of_nat n)) = n * 2 ^ 24 + m"
  proof -
    have "unat (push_bit 24 (of_nat n) :: u32) = 2 ^ 24 * n"
      unfolding unat_push_bit using n by (simp add: unat_of_nat)
    then have "unat (y OR push_bit 24 (of_nat n)) = m OR 2 ^ 24 * n"
      by (simp add: unsigned_or_eq ym)
    also have "\<dots> = m + 2 ^ 24 * n" by (rule nat_or_disjoint) (use m in simp)
    finally show ?thesis by simp
  qed
  have "get_compact a False = (if y AND NOT 0x007fffff \<noteq> 0 then None else if \<not> n < 256 then None
      else Some (y OR push_bit 24 (of_nat n)))"
    unfolding get_compact_def bits_nbytes Let_def x_def [symmetric] y_def nn
    by (simp split del: if_split) simp
  then have "get_compact a False = Some (y OR push_bit 24 (of_nat n))" using y0 n by simp
  with c that show ?thesis by blast
qed

text \<open>Encoding a target and decoding it again.\<close>

lemma compact_encode_exponent:
  assumes "v < 2 ^ 256" shows "fst (compact_encode v) \<le> 33"
proof -
  have "v < 256 ^ 32" using assms by simp
  from nbytes_le [OF this] show ?thesis by (simp add: compact_encode_eq)
qed

lemma get_compact_set_compact:
  assumes "length a = 8"
  shows "\<exists>c b. get_compact a False = Some c \<and> set_compact c = (b, False, False) \<and> length b = 8 \<and>
    wval b \<le> wval a \<and> (wval a - wval b) * 2 ^ 15 \<le> wval b \<and> get_compact b False = Some c"
proof -
  obtain n m where e: "compact_encode (wval a) = (n, m)" by fastforce
  have v: "wval a < 2 ^ 256" using wval_bound [of a] assms by simp
  have m: "m < 2 ^ 23" using compact_encode_mantissa_less [of "wval a"] e by simp
  have n: "n \<le> 33" using compact_encode_exponent [OF v] e by simp
  obtain c where c: "get_compact a False = Some c" "unat c = n * 2 ^ 24 + m"
    using get_compact_val [OF assms e] by blast
  define b where "b = fst (set_compact c)"
  have d: "compact_decode (n, m) \<le> wval a" using compact_decode_encode_le [of "wval a"] e by simp
  have "m * 256 ^ (n - 3) < 2 ^ 256"
  proof (cases "n \<le> 3")
    case False
    then show ?thesis using d v by (simp add: compact_decode_def)
  qed (use m in simp)
  note s = set_compact_val [OF c(2) m] and o = this
  have b: "wval b = compact_decode (n, m)" "length b = 8" using s(1,2) d v by (simp_all add: b_def)
  have sc: "set_compact c = (b, False, False)"
    using s(3,4) o n by (cases "set_compact c") (simp add: b_def)
  have eb: "compact_encode (wval b) = (n, m)"
    using compact_encode_decode_encode [of "wval a"] e b by simp
  obtain c' where c': "get_compact b False = Some c'" "unat c' = n * 2 ^ 24 + m"
    using get_compact_val [OF b(2) eb] by blast
  then have "c' = c" using c(2) by (intro unsigned_word_eqI [where ?'a = nat]) simp
  moreover have "(wval a - wval b) * 2 ^ 15 \<le> wval b"
    using compact_decode_encode_precision [of "wval a"] e b by simp
  ultimately show ?thesis using c(1) sc b d c'(1) by auto
qed

subsection \<open>Text form\<close>

text \<open>\<^verbatim>\<open>HexDigit\<close>: the table \<^verbatim>\<open>p_util_hexdigit\<close>.\<close>

definition hex_digit :: "char \<Rightarrow> int" where
  "hex_digit c =
     (let n = (of_char c :: nat)
      in if 48 \<le> n \<and> n \<le> 57 then int n - 48
         else if 65 \<le> n \<and> n \<le> 70 then int n - 55
         else if 97 \<le> n \<and> n \<le> 102 then int n - 87
         else - 1)"

text \<open>\<^verbatim>\<open>isspace\<close> in the C locale.\<close>

definition is_space :: "char \<Rightarrow> bool" where
  "is_space c = (let n = (of_char c :: nat) in n = 32 \<or> (9 \<le> n \<and> n \<le> 13))"

text \<open>The bytes of the limb array in memory, on the little-endian hosts the code is built for.\<close>

fun bu_bytes :: "base_uint \<Rightarrow> bytes" where
  "bu_bytes [] = []"
| "bu_bytes (x # xs) = wdigits 4 (unat x) @ bu_bytes xs"

fun bu_of_bytes :: "bytes \<Rightarrow> base_uint" where
  "bu_of_bytes (b0 # b1 # b2 # b3 # bs) = of_nat (wval [b0, b1, b2, b3]) # bu_of_bytes bs"
| "bu_of_bytes _ = []"

text \<open>\<^verbatim>\<open>GetHex\<close>: \<^verbatim>\<open>%02x\<close> of each byte, the most significant first.\<close>

definition hex_char :: "nat \<Rightarrow> char" where
  "hex_char n = char_of (if n < 10 then 48 + n else 87 + n)"

definition get_hex :: "base_uint \<Rightarrow> string" where
  "get_hex a = concat (map (\<lambda>b. [hex_char (unat b div 16), hex_char (unat b mod 16)]) (rev (bu_bytes a)))"

text \<open>
  \<^verbatim>\<open>SetHex\<close>: skip spaces and an optional \<^verbatim>\<open>0x\<close>, take the hexadecimal digits, and
  fill the bytes from the last digit backwards; digits beyond the width are dropped.
\<close>

definition skip_0x :: "string \<Rightarrow> string" where
  "skip_0x s = (case s of c0 # c1 # cs \<Rightarrow>
       if c0 = CHR ''0'' \<and> (c1 = CHR ''x'' \<or> c1 = CHR ''X'') then cs else s
     | _ \<Rightarrow> s)"

fun set_hex_fill :: "nat \<Rightarrow> string \<Rightarrow> bytes" where
  "set_hex_fill 0 ds = []"
| "set_hex_fill (Suc k) [] = 0 # set_hex_fill k []"
| "set_hex_fill (Suc k) [d] = of_int (hex_digit d) # set_hex_fill k []"
| "set_hex_fill (Suc k) (d0 # d1 # ds) =
     (of_int (hex_digit d0) OR push_bit 4 (of_int (hex_digit d1))) # set_hex_fill k ds"

definition set_hex :: "nat \<Rightarrow> string \<Rightarrow> base_uint" where
  "set_hex W psz =
     (let digits = takeWhile (\<lambda>c. hex_digit c \<noteq> - 1) (skip_0x (dropWhile is_space psz))
      in bu_of_bytes (set_hex_fill (4 * W) (rev digits)))"

text \<open>\<^verbatim>\<open>base_uint(const std::vector<unsigned char>&)\<close>.\<close>

definition bu_of_vector :: "nat \<Rightarrow> bytes \<Rightarrow> uint_error + base_uint" where
  "bu_of_vector W vch = (if length vch \<noteq> 4 * W then Inl Wrong_vector_size else Inr (bu_of_bytes vch))"

lemma length_bu_bytes [simp, len_simps]: "length (bu_bytes a) = 4 * length a"
  by (induction a) auto

lemma bu_bytes_val [val_simps]: "wval (bu_bytes a) = wval a"
proof (induction a)
  case (Cons x xs)
  have "wval (wdigits 4 (unat x) :: bytes) = unat x"
    using unat_lt_u32 [of x] by (simp only: wval_wdigits) simp
  with Cons show ?case by (simp add: wval_append)
qed simp

lemma length_bu_of_bytes: "length bs = 4 * k \<Longrightarrow> length (bu_of_bytes bs) = k"
  by (induction bs arbitrary: k rule: bu_of_bytes.induct) (auto, case_tac k, auto)

lemma wval4_less: "wval [b0, b1, b2, b3 :: byte] < 2 ^ 32"
  using wval_bound [of "[b0, b1, b2, b3]"] by simp

lemma bu_of_bytes_val:
  assumes "length bs = 4 * k"
  shows "wval (bu_of_bytes bs) = wval bs"
  using assms
proof (induction bs arbitrary: k rule: bu_of_bytes.induct)
  case (1 b0 b1 b2 b3 bs)
  then obtain j where "length bs = 4 * j" by (cases k) auto
  with 1 have "wval (bu_of_bytes bs) = wval bs" by blast
  moreover have "unat (of_nat (wval [b0, b1, b2, b3]) :: u32) = wval [b0, b1, b2, b3]"
    using wval4_less [of b0 b1 b2 b3] by (simp only: unat_of_nat) simp
  ultimately show ?case by simp
qed (auto, presburger+)

lemma bu_of_bytes_bu_bytes: "bu_of_bytes (bu_bytes a) = a"
  by (rule wval_inject)
    (simp_all add: length_bu_of_bytes bu_of_bytes_val [of _ "length a"] bu_bytes_val)

lemma hex_digit_hex_char: "n < 16 \<Longrightarrow> hex_digit (hex_char n) = int n"
  by (simp add: hex_digit_def hex_char_def Let_def)

lemma hex_char_not_space: "n < 16 \<Longrightarrow> \<not> is_space (hex_char n)"
  by (simp add: is_space_def hex_char_def Let_def)

lemma hex_char_not_x: "n < 16 \<Longrightarrow> hex_char n \<noteq> CHR ''x'' \<and> hex_char n \<noteq> CHR ''X''"
  by (auto simp: hex_digit_hex_char dest!: arg_cong [where f = hex_digit]) (simp_all add: hex_digit_def)

lemma set_hex_fill_hex:
  "set_hex_fill (length bs) (concat (map (\<lambda>b. [hex_char (unat b mod 16), hex_char (unat b div 16)]) bs)) = bs"
proof (induction bs)
  case (Cons b bs)
  have q: "unat b div 16 < 16" using unat_lt_byte [of b] by simp
  have "unat (of_nat (unat b mod 16) OR push_bit 4 (of_nat (unat b div 16)) :: byte) = unat b"
  proof -
    have "unat (push_bit 4 (of_nat (unat b div 16)) :: byte) = 2 ^ 4 * (unat b div 16)"
      unfolding unat_push_bit using q by (simp add: unat_of_nat)
    then have "unat (of_nat (unat b mod 16) OR push_bit 4 (of_nat (unat b div 16)) :: byte) =
        unat b mod 16 OR 2 ^ 4 * (unat b div 16)"
      by (simp only: unsigned_or_eq) (simp add: unat_of_nat)
    also have "\<dots> = unat b mod 16 + 2 ^ 4 * (unat b div 16)" by (rule nat_or_disjoint) simp
    also have "\<dots> = unat b" by simp
    finally show ?thesis .
  qed
  then have "of_nat (unat b mod 16) OR push_bit 4 (of_nat (unat b div 16)) = b" by (rule unsigned_word_eqI)
  with Cons q show ?case by (simp add: hex_digit_hex_char del: push_bit_numeral)
qed simp

lemma takeWhile_hex:
  "takeWhile (\<lambda>c. hex_digit c \<noteq> - 1) (get_hex a) = get_hex a"
proof -
  have "hex_digit (hex_char (unat (b :: byte) div 16)) \<noteq> - 1" "hex_digit (hex_char (unat b mod 16)) \<noteq> - 1" for b
    using unat_lt_byte [of b] by (simp_all add: hex_digit_hex_char)
  then show ?thesis by (subst takeWhile_eq_all_conv) (auto simp: get_hex_def)
qed

lemma get_hex_prefix:
  assumes "a \<noteq> []"
  obtains i j cs where "get_hex a = hex_char i # hex_char j # cs" and "i < 16" and "j < 16"
proof -
  have "rev (bu_bytes a) \<noteq> []" using assms by (metis length_0_conv length_bu_bytes length_rev mult_is_0 zero_neq_numeral)
  then obtain b bs where b: "rev (bu_bytes a) = b # bs" by (cases "rev (bu_bytes a)") auto
  have "unat b div 16 < 16" using unat_lt_byte [of b] by simp
  with that [of "unat b div 16" "unat b mod 16"] b show ?thesis by (simp add: get_hex_def)
qed

lemma set_hex_get_hex: "set_hex (length a) (get_hex a) = a"
proof (cases "a = []")
  case True
  then show ?thesis by (simp add: set_hex_def)
next
  case False
  from get_hex_prefix [OF this] obtain i j cs where p: "get_hex a = hex_char i # hex_char j # cs" "i < 16" "j < 16" .
  then have "skip_0x (dropWhile is_space (get_hex a)) = get_hex a"
    by (simp add: skip_0x_def hex_char_not_space hex_char_not_x)
  moreover have "rev (get_hex a) = concat (map (\<lambda>b. [hex_char (unat b mod 16), hex_char (unat b div 16)]) (bu_bytes a))"
    by (simp add: get_hex_def rev_concat rev_map comp_def)
  ultimately show ?thesis
    using set_hex_fill_hex [of "bu_bytes a"]
    by (simp add: set_hex_def takeWhile_hex bu_of_bytes_bu_bytes)
qed

subsection \<open>The salted hash\<close>

text \<open>
  \<^verbatim>\<open>HashMix\<close> and \<^verbatim>\<open>HashFinal\<close> update three words in place; the state is the
  triple, one binding per assignment.
\<close>

definition rotl :: "nat \<Rightarrow> u32 \<Rightarrow> u32" where
  "rotl k x = push_bit k x OR drop_bit (32 - k) x"

definition hash_mix :: "u32 \<times> u32 \<times> u32 \<Rightarrow> u32 \<times> u32 \<times> u32" where
  "hash_mix = (\<lambda>(a, b, c).
     let a = a - c; a = a XOR rotl 4 c; c = c + b;
         b = b - a; b = b XOR rotl 6 a; a = a + c;
         c = c - b; c = c XOR rotl 8 b; b = b + a;
         a = a - c; a = a XOR rotl 16 c; c = c + b;
         b = b - a; b = b XOR rotl 19 a; a = a + c;
         c = c - b; c = c XOR rotl 4 b; b = b + a
     in (a, b, c))"

definition hash_final :: "u32 \<times> u32 \<times> u32 \<Rightarrow> u32 \<times> u32 \<times> u32" where
  "hash_final = (\<lambda>(a, b, c).
     let c = c XOR b; c = c - rotl 14 b;
         a = a XOR c; a = a - rotl 11 c;
         b = b XOR a; b = b - rotl 25 a;
         c = c XOR b; c = c - rotl 16 b;
         a = a XOR c; a = a - rotl 4 c;
         b = b XOR a; b = b - rotl 14 a;
         c = c XOR b; c = c - rotl 24 b
     in (a, b, c))"

text \<open>\<^verbatim>\<open>GetHash(salt)\<close>, for values of eight limbs.\<close>

definition get_hash :: "base_uint \<Rightarrow> base_uint \<Rightarrow> u64" where
  "get_hash pn salt =
     (let i = 0xdeadbeef + push_bit 2 8 :: u32;
          (a, b, c) = hash_mix (i + (pn ! 0 XOR salt ! 0), i + (pn ! 1 XOR salt ! 1), i + (pn ! 2 XOR salt ! 2));
          (a, b, c) = hash_mix (a + (pn ! 3 XOR salt ! 3), b + (pn ! 4 XOR salt ! 4), c + (pn ! 5 XOR salt ! 5));
          (a, b, c) = hash_final (a + (pn ! 6 XOR salt ! 6), b + (pn ! 7 XOR salt ! 7), c)
      in push_bit 32 (ucast b) OR ucast c)"

text \<open>Both mixing steps lose no information: each has an inverse.\<close>

definition hash_unmix :: "u32 \<times> u32 \<times> u32 \<Rightarrow> u32 \<times> u32 \<times> u32" where
  "hash_unmix = (\<lambda>(a, b, c).
     let b = b - a; c = c XOR rotl 4 b; c = c + b;
         a = a - c; b = b XOR rotl 19 a; b = b + a;
         c = c - b; a = a XOR rotl 16 c; a = a + c;
         b = b - a; c = c XOR rotl 8 b; c = c + b;
         a = a - c; b = b XOR rotl 6 a; b = b + a;
         c = c - b; a = a XOR rotl 4 c; a = a + c
     in (a, b, c))"

definition hash_unfinal :: "u32 \<times> u32 \<times> u32 \<Rightarrow> u32 \<times> u32 \<times> u32" where
  "hash_unfinal = (\<lambda>(a, b, c).
     let c = c + rotl 24 b; c = c XOR b;
         b = b + rotl 14 a; b = b XOR a;
         a = a + rotl 4 c; a = a XOR c;
         c = c + rotl 16 b; c = c XOR b;
         b = b + rotl 25 a; b = b XOR a;
         a = a + rotl 11 c; a = a XOR c;
         c = c + rotl 14 b; c = c XOR b
     in (a, b, c))"

lemma xor_cancel: "(x XOR y) XOR y = (x :: 'a::len word)"
  by (simp add: xor.assoc)

lemma hash_unmix_mix: "hash_unmix (hash_mix s) = s"
  by (cases s) (simp only: hash_mix_def hash_unmix_def Let_def case_prod_conv xor_cancel
      diff_add_cancel add_diff_cancel_right')

lemma hash_unfinal_final: "hash_unfinal (hash_final s) = s"
  by (cases s) (simp only: hash_final_def hash_unfinal_def Let_def case_prod_conv xor_cancel
      diff_add_cancel add_diff_cancel_right')

end
