(* ===== verification/Serialize.thy ===== *)
theory Serialize
  imports Prelude
begin

text \<open>
  The wire format of \<^verbatim>\<open>serialize.h\<close>: integers in memory order, compact sizes,
  variable-length integers, byte strings and vectors. Writing is a function to the bytes
  written; reading takes the bytes left in the stream and returns the value with the
  rest, or the exception the code throws. The locale \<open>codec\<close> is the contract between the
  two that every serialisable type keeps; the vector and pair combinators preserve it.
\<close>

subsection \<open>Streams\<close>

datatype io_error = End_of_data | Non_canonical_size | Size_too_large | String_limit

text \<open>\<^verbatim>\<open>CDataStream::read\<close>.\<close>

definition read_bytes :: "nat \<Rightarrow> bytes \<Rightarrow> io_error + bytes \<times> bytes" where
  "read_bytes n s = (if length s < n then Inl End_of_data else Inr (take n s, drop n s))"

text \<open>\<^verbatim>\<open>WRITEDATA\<close> and \<^verbatim>\<open>READDATA\<close> of an integer: its bytes, least significant first.\<close>

definition ser_word :: "'a::len word \<Rightarrow> bytes" where
  "ser_word w = wdigits (LENGTH('a) div 8) (unat w)"

definition unser_word :: "bytes \<Rightarrow> io_error + 'a::len word \<times> bytes" where
  "unser_word s = rbind (read_bytes (LENGTH('a) div 8) s) (\<lambda>(b, s). Inr (of_nat (wval b), s))"

subsection \<open>Compact sizes\<close>

definition MAX_SIZE :: u64 where
  "MAX_SIZE = 0x02000000"

definition GetSizeOfCompactSize :: "u64 \<Rightarrow> nat" where
  "GetSizeOfCompactSize nSize =
     (if nSize < 253 then 1
      else if nSize \<le> 0xffff then 1 + 2
      else if nSize \<le> 0xffffffff then 1 + 4
      else 1 + 8)"

definition WriteCompactSize :: "u64 \<Rightarrow> bytes" where
  "WriteCompactSize nSize =
     (if nSize < 253 then ser_word (ucast nSize :: byte)
      else if nSize \<le> 0xffff then ser_word (253 :: byte) @ ser_word (ucast nSize :: u16)
      else if nSize \<le> 0xffffffff then ser_word (254 :: byte) @ ser_word (ucast nSize :: u32)
      else ser_word (255 :: byte) @ ser_word nSize)"

definition ReadCompactSize :: "bytes \<Rightarrow> io_error + u64 \<times> bytes" where
  "ReadCompactSize s =
     rbind (unser_word s) (\<lambda>(chSize :: byte, s).
     rbind (if chSize < 253 then Inr (ucast chSize, s)
            else if chSize = 253 then
              rbind (unser_word s) (\<lambda>(xSize :: u16, s).
                if (ucast xSize :: u64) < 253 then Inl Non_canonical_size else Inr (ucast xSize, s))
            else if chSize = 254 then
              rbind (unser_word s) (\<lambda>(xSize :: u32, s).
                if (ucast xSize :: u64) < 0x10000 then Inl Non_canonical_size else Inr (ucast xSize, s))
            else
              rbind (unser_word s) (\<lambda>(xSize :: u64, s).
                if xSize < 0x100000000 then Inl Non_canonical_size else Inr (xSize, s)))
       (\<lambda>(nSizeRet, s). if nSizeRet > MAX_SIZE then Inl Size_too_large else Inr (nSizeRet, s)))"

subsection \<open>Variable-length integers\<close>

text \<open>
  \<^verbatim>\<open>GetSizeOfVarInt\<close>, \<^verbatim>\<open>WriteVarInt\<close> and \<^verbatim>\<open>ReadVarInt\<close> for an unsigned
  integer type. \<open>varint_tmp\<close> is the array \<^verbatim>\<open>tmp\<close> from index \<open>len\<close> on, which the
  code writes out backwards.
\<close>

function varint_tmp :: "nat \<Rightarrow> 'a::len word \<Rightarrow> bytes" where
  "varint_tmp len n =
     (ucast (n AND 0x7F) OR (if len \<noteq> 0 then 0x80 else 0x00)) #
     (if unat n \<le> 0x7F then [] else varint_tmp (len + 1) (drop_bit 7 n - 1))"
  by pat_completeness auto

function GetSizeOfVarInt :: "'a::len word \<Rightarrow> nat" where
  "GetSizeOfVarInt n = (if unat n \<le> 0x7F then 1 else Suc (GetSizeOfVarInt (drop_bit 7 n - 1)))"
  by pat_completeness auto

lemma varint_next:
  assumes "\<not> unat (n :: 'a::len word) \<le> 0x7F"
  shows "unat (drop_bit 7 n - 1) = unat n div 128 - 1" and "unat (drop_bit 7 n - 1) < unat n"
proof -
  have d: "unat (drop_bit 7 n) = unat n div 128" by (simp add: unat_drop_bit)
  then have "1 \<le> unat (drop_bit 7 n)" using assms by simp
  then have "1 \<le> drop_bit 7 n" by (simp add: word_le_nat_alt unsigned_1)
  then show "unat (drop_bit 7 n - 1) = unat n div 128 - 1" using d by (simp add: unat_sub)
  then show "unat (drop_bit 7 n - 1) < unat n" using assms by simp
qed

termination varint_tmp
  by (relation "measure (\<lambda>(len, n). unat n)") (simp_all add: varint_next)

termination GetSizeOfVarInt
  by (relation "measure unat") (simp_all add: varint_next)

declare varint_tmp.simps [simp del] GetSizeOfVarInt.simps [simp del]

definition WriteVarInt :: "'a::len word \<Rightarrow> bytes" where
  "WriteVarInt n = rev (varint_tmp 0 n)"

fun read_varint_loop :: "'a::len word \<Rightarrow> bytes \<Rightarrow> io_error + 'a word \<times> bytes" where
  "read_varint_loop n [] = Inl End_of_data"
| "read_varint_loop n (chData # s) =
     (let n = push_bit 7 n OR ucast (chData AND 0x7F)
      in if chData AND 0x80 \<noteq> 0 then read_varint_loop (n + 1) s else Inr (n, s))"

definition ReadVarInt :: "bytes \<Rightarrow> io_error + 'a::len word \<times> bytes" where
  "ReadVarInt s = read_varint_loop 0 s"

text \<open>
  \<^verbatim>\<open>WriteVarInt<Stream, int>\<close>: for a signed type the comparison \<^verbatim>\<open>n <= 0x7F\<close> is
  signed, so a negative value stops after its low seven bits; a non-negative one is
  written as the unsigned value.
\<close>

definition WriteVarInt_int :: "u32 \<Rightarrow> bytes" where
  "WriteVarInt_int n = (if sint n < 0 then [ucast (n AND 0x7F)] else WriteVarInt n)"

definition GetSizeOfVarInt_int :: "u32 \<Rightarrow> nat" where
  "GetSizeOfVarInt_int n = (if sint n < 0 then 1 else GetSizeOfVarInt n)"

subsection \<open>Byte strings and vectors\<close>

text \<open>\<^verbatim>\<open>Serialize\<close> of a \<^verbatim>\<open>vector<unsigned char>\<close> or a \<^verbatim>\<open>CScript\<close>.\<close>

definition ser_bytes :: "bytes \<Rightarrow> bytes" where
  "ser_bytes v = WriteCompactSize (of_nat (length v)) @ v"

definition size_bytes :: "bytes \<Rightarrow> nat" where
  "size_bytes v = GetSizeOfCompactSize (of_nat (length v)) + length v"

text \<open>Reading back goes block by block, so that a bogus size cannot exhaust memory.\<close>

function read_blocks :: "nat \<Rightarrow> bytes \<Rightarrow> bytes \<Rightarrow> io_error + bytes \<times> bytes" where
  "read_blocks n v s =
     (if n = 0 then Inr (v, s)
      else let blk = min n 5000000
           in rbind (read_bytes blk s) (\<lambda>(b, s). read_blocks (n - blk) (v @ b) s))"
  by pat_completeness auto
termination by (relation "measure (\<lambda>(n, v, s). n)") auto

declare read_blocks.simps [simp del]

definition unser_bytes :: "bytes \<Rightarrow> io_error + bytes \<times> bytes" where
  "unser_bytes s = rbind (ReadCompactSize s) (\<lambda>(nSize, s). read_blocks (unat nSize) [] s)"

text \<open>\<^verbatim>\<open>LimitedString<Limit>\<close>.\<close>

definition unser_limited_string :: "nat \<Rightarrow> bytes \<Rightarrow> io_error + bytes \<times> bytes" where
  "unser_limited_string Limit s =
     rbind (ReadCompactSize s) (\<lambda>(size, s).
       if unat size > Limit then Inl String_limit else read_bytes (unat size) s)"

definition ser_vector :: "('a \<Rightarrow> bytes) \<Rightarrow> 'a list \<Rightarrow> bytes" where
  "ser_vector ser v = WriteCompactSize (of_nat (length v)) @ concat (map ser v)"

definition size_vector :: "('a \<Rightarrow> nat) \<Rightarrow> 'a list \<Rightarrow> nat" where
  "size_vector sz v = GetSizeOfCompactSize (of_nat (length v)) + sum_list (map sz v)"

text \<open>
  The elements are read one after the other (\<^verbatim>\<open>resize\<close> in steps of \<^verbatim>\<open>nMid\<close> only
  grows the storage).
\<close>

fun unser_elems :: "(bytes \<Rightarrow> io_error + 'a \<times> bytes) \<Rightarrow> nat \<Rightarrow> bytes \<Rightarrow> io_error + 'a list \<times> bytes" where
  "unser_elems unser 0 s = Inr ([], s)"
| "unser_elems unser (Suc n) s =
     rbind (unser s) (\<lambda>(x, s). rbind (unser_elems unser n s) (\<lambda>(xs, s). Inr (x # xs, s)))"

definition unser_vector :: "(bytes \<Rightarrow> io_error + 'a \<times> bytes) \<Rightarrow> bytes \<Rightarrow> io_error + 'a list \<times> bytes" where
  "unser_vector unser s = rbind (ReadCompactSize s) (\<lambda>(nSize, s). unser_elems unser (unat nSize) s)"

definition ser_pair :: "('a \<Rightarrow> bytes) \<Rightarrow> ('b \<Rightarrow> bytes) \<Rightarrow> 'a \<times> 'b \<Rightarrow> bytes" where
  "ser_pair ser1 ser2 = (\<lambda>(x, y). ser1 x @ ser2 y)"

definition unser_pair :: "(bytes \<Rightarrow> io_error + 'a \<times> bytes) \<Rightarrow> (bytes \<Rightarrow> io_error + 'b \<times> bytes) \<Rightarrow>
    bytes \<Rightarrow> io_error + ('a \<times> 'b) \<times> bytes" where
  "unser_pair unser1 unser2 s =
     rbind (unser1 s) (\<lambda>(x, s). rbind (unser2 s) (\<lambda>(y, s). Inr ((x, y), s)))"

subsection \<open>Sizes, and the contract between writing and reading\<close>

lemma read_bytes_append [simp]: "length b = n \<Longrightarrow> read_bytes n (b @ s) = Inr (b, s)"
  by (simp add: read_bytes_def)

lemma length_ser_word [simp, len_simps]: "length (ser_word (w :: 'a::len word)) = LENGTH('a) div 8"
  by (simp add: ser_word_def)

locale codec =
  fixes ser :: "'a \<Rightarrow> bytes"
    and unser :: "bytes \<Rightarrow> io_error + 'a \<times> bytes"
    and valid :: "'a \<Rightarrow> bool"
  assumes unser_ser: "valid x \<Longrightarrow> unser (ser x @ s) = Inr (x, s)"
begin

text \<open>What is written can be cut off a stream in one way only.\<close>

lemma ser_prefix_free:
  assumes "valid x" and "valid y" and "ser x @ s = ser y @ t"
  shows "x = y \<and> s = t"
proof -
  have "(Inr (x, s) :: io_error + 'a \<times> bytes) = Inr (y, t)"
    by (rule trans [OF unser_ser [OF assms(1), symmetric]]) (simp only: assms(3) unser_ser [OF assms(2)])
  then show ?thesis by simp
qed

lemma ser_inject: "valid x \<Longrightarrow> valid y \<Longrightarrow> ser x = ser y \<longleftrightarrow> x = y"
  using ser_prefix_free [of x y "[]" "[]"] by auto

lemma unser_elems_concat:
  "list_all valid xs \<Longrightarrow> unser_elems unser (length xs) (concat (map ser xs) @ s) = Inr (xs, s)"
  by (induction xs) (simp_all add: unser_ser)

end

lemma ser_word_codec:
  assumes "8 dvd LENGTH('a)"
  shows "codec (ser_word :: 'a::len word \<Rightarrow> bytes) unser_word (\<lambda>_. True)"
proof
  fix w :: "'a word" and s
  have "8 * (LENGTH('a) div 8) = LENGTH('a)" using assms by simp
  then have "wval (wdigits (LENGTH('a) div 8) (unat w) :: bytes) = unat w"
    unfolding wval_wdigits by simp
  then show "unser_word (ser_word w @ s) = Inr (w, s)"
    by (simp add: unser_word_def) (simp add: ser_word_def)
qed

interpretation w8: codec "ser_word :: byte \<Rightarrow> bytes" unser_word "\<lambda>_. True"
  by (rule ser_word_codec) simp
interpretation w16: codec "ser_word :: u16 \<Rightarrow> bytes" unser_word "\<lambda>_. True"
  by (rule ser_word_codec) simp
interpretation w32: codec "ser_word :: u32 \<Rightarrow> bytes" unser_word "\<lambda>_. True"
  by (rule ser_word_codec) simp
interpretation w64: codec "ser_word :: u64 \<Rightarrow> bytes" unser_word "\<lambda>_. True"
  by (rule ser_word_codec) simp

lemmas unser_ser_word [simp] =
  w8.unser_ser [OF TrueI] w16.unser_ser [OF TrueI] w32.unser_ser [OF TrueI] w64.unser_ser [OF TrueI]

lemma ucast_ucast_back:
  assumes "unat n < 2 ^ LENGTH('b)"
  shows "ucast (ucast (n :: 'a::len word) :: 'b::len word) = n"
  using assms by (intro unsigned_word_eqI [where ?'a = nat]) (simp add: unat_ucast_mod)

lemma ReadCompactSize_WriteCompactSize:
  assumes "n \<le> MAX_SIZE"
  shows "ReadCompactSize (WriteCompactSize n @ s) = Inr (n, s)"
proof -
  have u: "unat n \<le> 0x02000000" using assms by (simp add: MAX_SIZE_def word_le_nat_alt)
  consider "unat n < 253" | "253 \<le> unat n" "unat n \<le> 0xffff" | "0xffff < unat n" by linarith
  then show ?thesis
  proof cases
    case 1
    then have "(ucast n :: byte) < 253" "n < 253"
      by (simp_all add: word_less_nat_alt unat_ucast_mod)
    moreover have "ucast (ucast n :: byte) = n" using 1 by (intro ucast_ucast_back) simp
    ultimately show ?thesis using assms by (simp add: WriteCompactSize_def ReadCompactSize_def)
  next
    case 2
    then have "\<not> n < 253" "n \<le> 0xffff" by (simp_all add: word_less_nat_alt word_le_nat_alt)
    moreover have "ucast (ucast n :: u16) = n" using 2 by (intro ucast_ucast_back) simp
    ultimately show ?thesis using assms by (simp add: WriteCompactSize_def ReadCompactSize_def)
  next
    case 3
    with u have "\<not> n < 253" "\<not> n \<le> 0xffff" "n \<le> 0xffffffff" "\<not> n < 0x10000"
      by (simp_all add: word_less_nat_alt word_le_nat_alt)
    moreover have "ucast (ucast n :: u32) = n" using u by (intro ucast_ucast_back) simp
    ultimately show ?thesis using assms by (simp add: WriteCompactSize_def ReadCompactSize_def)
  qed
qed

interpretation compact_size: codec WriteCompactSize ReadCompactSize "\<lambda>n. n \<le> MAX_SIZE"
  by unfold_locales (rule ReadCompactSize_WriteCompactSize)

lemma length_WriteCompactSize [simp, len_simps]: "length (WriteCompactSize n) = GetSizeOfCompactSize n"
  by (simp add: WriteCompactSize_def GetSizeOfCompactSize_def)

text \<open>A size that is read was written by \<^verbatim>\<open>WriteCompactSize\<close>: no other encoding is accepted.\<close>

lemma unser_word_Inr:
  assumes "unser_word s = Inr (w :: 'a::len word, t)" and "8 dvd LENGTH('a)"
  shows "s = ser_word w @ t"
proof -
  have l: "LENGTH('a) div 8 \<le> length s" and t: "t = drop (LENGTH('a) div 8) s"
    and w: "w = of_nat (wval (take (LENGTH('a) div 8) s))"
    using assms(1) by (auto simp: unser_word_def read_bytes_def rbind_eq_Inr split: if_splits)
  let ?b = "take (LENGTH('a) div 8) s"
  have len: "length ?b = LENGTH('a) div 8" using l by simp
  have "wval ?b < 2 ^ LENGTH('a)"
    using wval_bound [of ?b] assms(2) len by simp
  then have "unat w = wval ?b" unfolding w by (simp add: unat_of_nat)
  then have "ser_word w = ?b" using len wdigits_wval [of ?b] by (simp add: ser_word_def)
  then show ?thesis unfolding t by simp
qed

lemma ReadCompactSize_Inr:
  assumes "ReadCompactSize s = Inr (n, t)"
  shows "s = WriteCompactSize n @ t \<and> n \<le> MAX_SIZE"
proof -
  obtain ch s1 where ch: "unser_word s = Inr (ch :: byte, s1)"
    using assms by (auto simp: ReadCompactSize_def rbind_eq_Inr)
  have s: "s = ser_word ch @ s1" by (rule unser_word_Inr [OF ch]) simp
  have le: "n \<le> MAX_SIZE"
    using assms by (auto simp: ReadCompactSize_def rbind_eq_Inr split: if_splits)
  consider "ch < 253" | "ch = 253" | "ch = 254" | "\<not> ch < 253" "ch \<noteq> 253" "ch \<noteq> 254" by blast
  then show ?thesis
  proof cases
    case 1
    then have "n = ucast ch" "t = s1"
      using assms ch by (auto simp: ReadCompactSize_def split: if_splits)
    moreover have "(ucast ch :: u64) < 253" using 1 by (simp add: word_less_nat_alt unat_ucast_up)
    moreover have "ucast (ucast ch :: u64) = ch" by (rule ucast_ucast_back) (use unat_lt_byte [of ch] in simp)
    ultimately show ?thesis using s le by (simp add: WriteCompactSize_def)
  next
    case 2
    then obtain x where x: "unser_word s1 = Inr (x :: u16, t)" "\<not> (ucast x :: u64) < 253" "n = ucast x"
      using assms ch by (auto simp: ReadCompactSize_def rbind_eq_Inr split: if_splits)
    have "s1 = ser_word x @ t" by (rule unser_word_Inr [OF x(1)]) simp
    moreover have "(ucast x :: u64) \<le> 0xffff"
      using unat_lt_u16 [of x] by (simp add: word_le_nat_alt unat_ucast_up)
    moreover have "ucast (ucast x :: u64) = x" by (rule ucast_ucast_back) (use unat_lt_u16 [of x] in simp)
    ultimately show ?thesis using s le x 2 by (simp add: WriteCompactSize_def)
  next
    case 3
    then obtain x where x: "unser_word s1 = Inr (x :: u32, t)" "\<not> (ucast x :: u64) < 0x10000" "n = ucast x"
      using assms ch by (auto simp: ReadCompactSize_def rbind_eq_Inr split: if_splits)
    have "s1 = ser_word x @ t" by (rule unser_word_Inr [OF x(1)]) simp
    moreover have "(ucast x :: u64) \<le> 0xffffffff" "\<not> (ucast x :: u64) < 253" "\<not> (ucast x :: u64) \<le> 0xffff"
      using unat_lt_u32 [of x] x(2) by (simp_all add: word_le_nat_alt word_less_nat_alt unat_ucast_up)
    moreover have "ucast (ucast x :: u64) = x" by (rule ucast_ucast_back) (use unat_lt_u32 [of x] in simp)
    ultimately show ?thesis using s le x 3 by (simp add: WriteCompactSize_def)
  next
    case 4
    then have "\<not> n < 0x100000000"
      using assms ch by (auto simp: ReadCompactSize_def rbind_eq_Inr split: if_splits)
    with le show ?thesis by (simp add: MAX_SIZE_def word_less_nat_alt word_le_nat_alt)
  qed
qed

subsection \<open>Variable-length integers\<close>

lemma byte_low7:
  assumes "8 \<le> LENGTH('a)"
  shows "unat (ucast ((n :: 'a::len word) AND 0x7F) :: byte) = unat n mod 128"
proof -
  have "(0x7F :: 'a word) = mask 7" by (simp add: mask_eq_exp_minus_1)
  then have "unat (n AND 0x7F) = unat n mod 2 ^ 7" by (simp only: unat_and_mask)
  then show ?thesis by (simp add: unat_ucast_mod)
qed

lemma byte_and_7F: "unat (b AND 0x7F :: byte) = unat b mod 128"
proof -
  have "(0x7F :: byte) = mask 7" by (simp add: mask_eq_exp_minus_1)
  then show ?thesis using unat_and_mask [of b 7] by simp
qed

lemma byte_and_80: "b AND 0x80 \<noteq> (0 :: byte) \<longleftrightarrow> 128 \<le> unat b"
proof -
  have "bit b 7 \<longleftrightarrow> 2 ^ 7 \<le> unat b" by (rule bit_top_iff) (use unat_lt_byte [of b] in simp)
  moreover have "(0x80 :: byte) = 2 ^ 7" by simp
  ultimately show ?thesis by (simp only: and_exp_eq_0_iff_not_bit) simp
qed

text \<open>One digit of the encoding: the low seven bits, and 128 when another digit follows.\<close>

lemma varint_digit:
  assumes "8 \<le> LENGTH('a)"
  shows "unat (ucast ((n :: 'a::len word) AND 0x7F) OR (if more then 0x80 else 0x00) :: byte) =
    unat n mod 128 + (if more then 128 else 0)"
proof -
  have "unat n mod 128 OR 2 ^ 7 * 1 = unat n mod 128 + 2 ^ 7 * (1 :: nat)"
    by (rule nat_or_disjoint) simp
  then show ?thesis by (simp add: unsigned_or_eq byte_low7 [OF assms])
qed

lemma shift7_or:
  assumes "8 \<le> LENGTH('a)" and "k = unat b mod 128" and "unat n * 128 + k < 2 ^ LENGTH('a)"
  shows "unat (push_bit 7 (n :: 'a::len word) OR ucast (b AND 0x7F :: byte)) = unat n * 128 + k"
proof -
  have "unat (push_bit 7 n) = unat n * 2 ^ 7"
    unfolding unat_push_bit using assms(3) by simp
  moreover have "unat (ucast (b AND 0x7F) :: 'a word) = k"
    using assms(1) by (simp add: unat_ucast_up byte_and_7F assms(2))
  ultimately have "unat (push_bit 7 n OR ucast (b AND 0x7F)) = k OR 2 ^ 7 * unat n"
    by (simp only: unsigned_or_eq or.commute mult.commute)
  also have "\<dots> = k + 2 ^ 7 * unat n" by (rule nat_or_disjoint) (simp add: assms(2))
  finally show ?thesis by simp
qed

lemma unat_plus1: "unat n + 1 < 2 ^ LENGTH('a) \<Longrightarrow> unat (n + 1 :: 'a::len word) = unat n + 1"
  by (simp add: unat_word_ariths unsigned_1)

lemma read_varint_tmp:
  fixes k :: "'a::len word"
  assumes len: "8 \<le> LENGTH('a)" and "unat k + 1 < 2 ^ LENGTH('a)"
  shows "read_varint_loop 0 (rev (varint_tmp (Suc l) k) @ s) = read_varint_loop (k + 1) s"
  using assms(2)
proof (induction "Suc l" k arbitrary: l s rule: varint_tmp.induct)
  case (1 k)
  let ?d = "ucast (k AND 0x7F) OR 0x80 :: byte"
  have d: "unat ?d = unat k mod 128 + 128" using varint_digit [OF len, of k True] by simp
  then have more: "?d AND 0x80 \<noteq> 0" by (simp add: byte_and_80)
  have dm: "unat ?d mod 128 = unat k mod 128" unfolding d by simp
  show ?case
  proof (cases "unat k \<le> 0x7F")
    case True
    have "unat (push_bit 7 (0 :: 'a word) OR ucast (?d AND 0x7F)) = unat k"
      using shift7_or [OF len refl, of "0 :: 'a word" ?d] dm True "1.prems" by simp
    then have "push_bit 7 0 OR ucast (?d AND 0x7F) = k" by (rule unsigned_word_eqI)
    with True more show ?thesis by (simp add: varint_tmp.simps [of "Suc l" k])
  next
    case False
    let ?q = "drop_bit 7 k - 1"
    have q: "unat ?q = unat k div 128 - 1" "unat ?q < unat k" using varint_next [OF False] by simp_all
    have q1: "unat (drop_bit 7 k) = unat k div 128" by (simp add: unat_drop_bit)
    have "unat (push_bit 7 (drop_bit 7 k) OR ucast (?d AND 0x7F)) = unat (drop_bit 7 k) * 128 + unat k mod 128"
      by (rule shift7_or [OF len]) (use dm q1 "1.prems" in simp_all)
    then have "push_bit 7 (drop_bit 7 k) OR ucast (?d AND 0x7F) = k"
      unfolding q1 by (intro unsigned_word_eqI [where ?'a = nat]) simp
    moreover have "read_varint_loop 0 (rev (varint_tmp (Suc (Suc l)) ?q) @ ?d # s) =
        read_varint_loop (?q + 1) (?d # s)"
      using "1.hyps" [OF False, of "Suc l" "?d # s"] q "1.prems" by simp
    ultimately show ?thesis using False more by (simp add: varint_tmp.simps [of "Suc l" k])
  qed
qed

lemma ReadVarInt_WriteVarInt:
  assumes len: "8 \<le> LENGTH('a)"
  shows "ReadVarInt (WriteVarInt (n :: 'a::len word) @ s) = Inr (n, s)"
proof -
  let ?d = "ucast (n AND 0x7F) :: byte"
  have d: "unat ?d = unat n mod 128" by (rule byte_low7 [OF len])
  then have "\<not> 128 \<le> unat ?d" by simp
  then have last: "?d AND 0x80 = 0" using byte_and_80 [of ?d] by blast
  show ?thesis
  proof (cases "unat n \<le> 0x7F")
    case True
    have "unat (push_bit 7 (0 :: 'a word) OR ucast (?d AND 0x7F)) = unat n"
      using shift7_or [OF len refl, of "0 :: 'a word" ?d] d True unsigned_less [of n, where ?'a = nat] by simp
    then have "push_bit 7 0 OR ucast (?d AND 0x7F) = n" by (rule unsigned_word_eqI)
    with True last show ?thesis
      by (simp add: ReadVarInt_def WriteVarInt_def varint_tmp.simps [of 0 n])
  next
    case False
    let ?q = "drop_bit 7 n - 1"
    have q: "unat ?q = unat n div 128 - 1" "unat ?q < unat n" using varint_next [OF False] by simp_all
    have n: "unat n < 2 ^ LENGTH('a)" by (rule unsigned_less)
    have q1: "unat (drop_bit 7 n) = unat n div 128" by (simp add: unat_drop_bit)
    have "unat (push_bit 7 (drop_bit 7 n) OR ucast (?d AND 0x7F)) = unat (drop_bit 7 n) * 128 + unat n mod 128"
      by (rule shift7_or [OF len]) (use d q1 n in simp_all)
    then have "push_bit 7 (drop_bit 7 n) OR ucast (?d AND 0x7F) = n"
      unfolding q1 by (intro unsigned_word_eqI [where ?'a = nat]) simp
    moreover have "read_varint_loop 0 (rev (varint_tmp (Suc 0) ?q) @ ?d # s) = read_varint_loop (?q + 1) (?d # s)"
      by (rule read_varint_tmp [OF len]) (use q(2) n in linarith)
    ultimately show ?thesis using False last
      by (simp add: ReadVarInt_def WriteVarInt_def varint_tmp.simps [of 0 n])
  qed
qed

interpretation varint32: codec "WriteVarInt :: u32 \<Rightarrow> bytes" ReadVarInt "\<lambda>_. True"
  by unfold_locales (simp add: ReadVarInt_WriteVarInt)
interpretation varint64: codec "WriteVarInt :: u64 \<Rightarrow> bytes" ReadVarInt "\<lambda>_. True"
  by unfold_locales (simp add: ReadVarInt_WriteVarInt)
interpretation varint_int: codec WriteVarInt_int ReadVarInt "\<lambda>n. 0 \<le> sint n"
  by unfold_locales (simp add: WriteVarInt_int_def ReadVarInt_WriteVarInt)

lemma length_varint_tmp: "length (varint_tmp len n) = GetSizeOfVarInt n"
  by (induction len n rule: varint_tmp.induct)
    (simp add: varint_tmp.simps [of len for len] GetSizeOfVarInt.simps)

lemma length_WriteVarInt [simp, len_simps]: "length (WriteVarInt n) = GetSizeOfVarInt n"
  by (simp add: WriteVarInt_def length_varint_tmp)

lemma length_WriteVarInt_int [simp, len_simps]: "length (WriteVarInt_int n) = GetSizeOfVarInt_int n"
  by (simp add: WriteVarInt_int_def GetSizeOfVarInt_int_def)

text \<open>The array \<^verbatim>\<open>tmp\<close> of \<^verbatim>\<open>(sizeof(n) * 8 + 6) / 7\<close> bytes is long enough.\<close>

lemma GetSizeOfVarInt_bound: "unat n < 2 ^ (7 * k) \<Longrightarrow> 0 < k \<Longrightarrow> GetSizeOfVarInt n \<le> k"
proof (induction n arbitrary: k rule: GetSizeOfVarInt.induct)
  case (1 n)
  show ?case
  proof (cases "unat n \<le> 0x7F")
    case True
    with 1 show ?thesis by (simp add: GetSizeOfVarInt.simps)
  next
    case False
    then obtain j where j: "k = Suc j" "0 < j" using 1 by (cases k; cases "k - 1") auto
    have "unat n < 2 ^ (7 * j) * 128" using "1.prems"(1) j by (simp add: power_add)
    then have "unat n div 128 < 2 ^ (7 * j)" by (simp add: less_mult_imp_div_less)
    then have "unat (drop_bit 7 n - 1) < 2 ^ (7 * j)" using varint_next(1) [OF False] by simp
    from "1.IH" [OF False this j(2)] False j show ?thesis by (simp add: GetSizeOfVarInt.simps [of n])
  qed
qed

lemma varint_tmp_bound: "length (varint_tmp 0 (n :: 'a::len word)) \<le> (LENGTH('a) + 6) div 7"
proof -
  let ?k = "(LENGTH('a) + 6) div 7"
  have "unat n < 2 ^ LENGTH('a)" by (rule unsigned_less)
  also have "\<dots> \<le> (2 :: nat) ^ (7 * ?k)" by (intro power_increasing) auto
  finally have "GetSizeOfVarInt n \<le> ?k" by (rule GetSizeOfVarInt_bound) (simp add: div_greater_zero_iff Suc_le_eq)
  then show ?thesis by (simp add: length_varint_tmp)
qed

subsection \<open>Byte strings and vectors\<close>

text \<open>Reading in blocks is reading at once, unless the stream ends.\<close>

lemma read_blocks_eq: "n \<le> length s \<Longrightarrow> read_blocks n v s = Inr (v @ take n s, drop n s)"
proof (induction n v s rule: read_blocks.induct)
  case (1 n v s)
  show ?case
  proof (cases "n = 0")
    case True
    then show ?thesis by (simp add: read_blocks.simps)
  next
    case False
    let ?b = "min n 5000000"
    have r: "read_bytes ?b s = Inr (take ?b s, drop ?b s)" using "1.prems" by (simp add: read_bytes_def)
    have "read_blocks (n - ?b) (v @ take ?b s) (drop ?b s) =
        Inr ((v @ take ?b s) @ take (n - ?b) (drop ?b s), drop (n - ?b) (drop ?b s))"
      using "1.IH" [OF False refl r refl] "1.prems" by simp
    moreover have "take ?b s @ take (n - ?b) (drop ?b s) = take n s"
      by (metis le_add_diff_inverse min.cobounded1 take_add)
    moreover have "drop (n - ?b) (drop ?b s) = drop n s" by simp
    ultimately show ?thesis using False r by (simp add: read_blocks.simps [of n])
  qed
qed

lemma read_blocks_short: "length s < n \<Longrightarrow> read_blocks n v s = Inl End_of_data"
proof (induction n v s rule: read_blocks.induct)
  case (1 n v s)
  let ?b = "min n 5000000"
  have n: "n \<noteq> 0" using "1.prems" by simp
  show ?case
  proof (cases "length s < ?b")
    case True
    with n show ?thesis by (simp add: read_blocks.simps [of n] read_bytes_def)
  next
    case False
    then have r: "read_bytes ?b s = Inr (take ?b s, drop ?b s)" by (simp add: read_bytes_def)
    have "read_blocks (n - ?b) (v @ take ?b s) (drop ?b s) = Inl End_of_data"
      using "1.IH" [OF n refl r refl] "1.prems" False by simp
    with n r show ?thesis by (simp add: read_blocks.simps [of n])
  qed
qed

definition small :: "'a list \<Rightarrow> bool" where
  "small v \<longleftrightarrow> length v \<le> 0x02000000"

lemma small_size:
  assumes "small v"
  shows "(of_nat (length v) :: u64) \<le> MAX_SIZE" and "unat (of_nat (length v) :: u64) = length v"
  using assms by (simp_all add: small_def MAX_SIZE_def word_le_nat_alt unat_of_nat)

interpretation bytes: codec ser_bytes unser_bytes small
proof
  fix v s :: bytes
  assume "small v"
  then show "unser_bytes (ser_bytes v @ s) = Inr (v, s)"
    by (simp add: unser_bytes_def ser_bytes_def compact_size.unser_ser small_size read_blocks_eq)
qed

lemma length_ser_bytes [simp, len_simps]: "length (ser_bytes v) = size_bytes v"
  by (simp add: ser_bytes_def size_bytes_def)

context codec begin

lemma vector_codec: "codec (ser_vector ser) (unser_vector unser) (\<lambda>v. small v \<and> list_all valid v)"
proof
  fix v s
  assume "small v \<and> list_all valid v"
  then show "unser_vector unser (ser_vector ser v @ s) = Inr (v, s)"
    by (simp add: unser_vector_def ser_vector_def compact_size.unser_ser small_size unser_elems_concat)
qed

end

lemma pair_codec:
  assumes "codec ser1 unser1 valid1" and "codec ser2 unser2 valid2"
  shows "codec (ser_pair ser1 ser2) (unser_pair unser1 unser2) (\<lambda>(x, y). valid1 x \<and> valid2 y)"
  by unfold_locales
    (auto simp: ser_pair_def unser_pair_def codec.unser_ser [OF assms(1)] codec.unser_ser [OF assms(2)])

lemma length_ser_vector [len_simps]:
  "(\<And>x. x \<in> set v \<Longrightarrow> length (ser x) = sz x) \<Longrightarrow> length (ser_vector ser v) = size_vector sz v"
  by (induction v) (simp_all add: ser_vector_def size_vector_def length_concat comp_def)

end
