(* ===== verification/Script.thy ===== *)
theory Script
  imports Prelude
begin

text \<open>
  Serialised scripts, \<^verbatim>\<open>script/script.h\<close> and \<^verbatim>\<open>script/script.cpp\<close>: the opcodes, the
  script numbers (\<^verbatim>\<open>CScriptNum\<close>), building a script by pushing onto its end, reading it
  back one operation at a time (\<^verbatim>\<open>GetOp2\<close>), and the scans over it. A \<^verbatim>\<open>CScript\<close> is
  its bytes; an iterator \<^verbatim>\<open>pc\<close> into a script is the list of the bytes from it to the
  end.
\<close>

type_synonym script = bytes

subsection \<open>Opcodes\<close>

text \<open>
  The enumeration \<^verbatim>\<open>opcodetype\<close>. The code casts any byte of a script to it, so its type
  is the byte and the constants are names of bytes.
\<close>

type_synonym opcodetype = byte

abbreviation (input) OP_0 :: opcodetype where "OP_0 \<equiv> 0x00"
abbreviation (input) OP_FALSE :: opcodetype where "OP_FALSE \<equiv> OP_0"
abbreviation (input) OP_PUSHDATA1 :: opcodetype where "OP_PUSHDATA1 \<equiv> 0x4c"
abbreviation (input) OP_PUSHDATA2 :: opcodetype where "OP_PUSHDATA2 \<equiv> 0x4d"
abbreviation (input) OP_PUSHDATA4 :: opcodetype where "OP_PUSHDATA4 \<equiv> 0x4e"
abbreviation (input) OP_1NEGATE :: opcodetype where "OP_1NEGATE \<equiv> 0x4f"
abbreviation (input) OP_RESERVED :: opcodetype where "OP_RESERVED \<equiv> 0x50"
abbreviation (input) OP_1 :: opcodetype where "OP_1 \<equiv> 0x51"
abbreviation (input) OP_TRUE :: opcodetype where "OP_TRUE \<equiv> OP_1"
abbreviation (input) OP_2 :: opcodetype where "OP_2 \<equiv> 0x52"
abbreviation (input) OP_3 :: opcodetype where "OP_3 \<equiv> 0x53"
abbreviation (input) OP_4 :: opcodetype where "OP_4 \<equiv> 0x54"
abbreviation (input) OP_5 :: opcodetype where "OP_5 \<equiv> 0x55"
abbreviation (input) OP_6 :: opcodetype where "OP_6 \<equiv> 0x56"
abbreviation (input) OP_7 :: opcodetype where "OP_7 \<equiv> 0x57"
abbreviation (input) OP_8 :: opcodetype where "OP_8 \<equiv> 0x58"
abbreviation (input) OP_9 :: opcodetype where "OP_9 \<equiv> 0x59"
abbreviation (input) OP_10 :: opcodetype where "OP_10 \<equiv> 0x5a"
abbreviation (input) OP_11 :: opcodetype where "OP_11 \<equiv> 0x5b"
abbreviation (input) OP_12 :: opcodetype where "OP_12 \<equiv> 0x5c"
abbreviation (input) OP_13 :: opcodetype where "OP_13 \<equiv> 0x5d"
abbreviation (input) OP_14 :: opcodetype where "OP_14 \<equiv> 0x5e"
abbreviation (input) OP_15 :: opcodetype where "OP_15 \<equiv> 0x5f"
abbreviation (input) OP_16 :: opcodetype where "OP_16 \<equiv> 0x60"
abbreviation (input) OP_NOP :: opcodetype where "OP_NOP \<equiv> 0x61"
abbreviation (input) OP_VER :: opcodetype where "OP_VER \<equiv> 0x62"
abbreviation (input) OP_IF :: opcodetype where "OP_IF \<equiv> 0x63"
abbreviation (input) OP_NOTIF :: opcodetype where "OP_NOTIF \<equiv> 0x64"
abbreviation (input) OP_VERIF :: opcodetype where "OP_VERIF \<equiv> 0x65"
abbreviation (input) OP_VERNOTIF :: opcodetype where "OP_VERNOTIF \<equiv> 0x66"
abbreviation (input) OP_ELSE :: opcodetype where "OP_ELSE \<equiv> 0x67"
abbreviation (input) OP_ENDIF :: opcodetype where "OP_ENDIF \<equiv> 0x68"
abbreviation (input) OP_VERIFY :: opcodetype where "OP_VERIFY \<equiv> 0x69"
abbreviation (input) OP_RETURN :: opcodetype where "OP_RETURN \<equiv> 0x6a"
abbreviation (input) OP_TOALTSTACK :: opcodetype where "OP_TOALTSTACK \<equiv> 0x6b"
abbreviation (input) OP_FROMALTSTACK :: opcodetype where "OP_FROMALTSTACK \<equiv> 0x6c"
abbreviation (input) OP_2DROP :: opcodetype where "OP_2DROP \<equiv> 0x6d"
abbreviation (input) OP_2DUP :: opcodetype where "OP_2DUP \<equiv> 0x6e"
abbreviation (input) OP_3DUP :: opcodetype where "OP_3DUP \<equiv> 0x6f"
abbreviation (input) OP_2OVER :: opcodetype where "OP_2OVER \<equiv> 0x70"
abbreviation (input) OP_2ROT :: opcodetype where "OP_2ROT \<equiv> 0x71"
abbreviation (input) OP_2SWAP :: opcodetype where "OP_2SWAP \<equiv> 0x72"
abbreviation (input) OP_IFDUP :: opcodetype where "OP_IFDUP \<equiv> 0x73"
abbreviation (input) OP_DEPTH :: opcodetype where "OP_DEPTH \<equiv> 0x74"
abbreviation (input) OP_DROP :: opcodetype where "OP_DROP \<equiv> 0x75"
abbreviation (input) OP_DUP :: opcodetype where "OP_DUP \<equiv> 0x76"
abbreviation (input) OP_NIP :: opcodetype where "OP_NIP \<equiv> 0x77"
abbreviation (input) OP_OVER :: opcodetype where "OP_OVER \<equiv> 0x78"
abbreviation (input) OP_PICK :: opcodetype where "OP_PICK \<equiv> 0x79"
abbreviation (input) OP_ROLL :: opcodetype where "OP_ROLL \<equiv> 0x7a"
abbreviation (input) OP_ROT :: opcodetype where "OP_ROT \<equiv> 0x7b"
abbreviation (input) OP_SWAP :: opcodetype where "OP_SWAP \<equiv> 0x7c"
abbreviation (input) OP_TUCK :: opcodetype where "OP_TUCK \<equiv> 0x7d"
abbreviation (input) OP_CAT :: opcodetype where "OP_CAT \<equiv> 0x7e"
abbreviation (input) OP_SUBSTR :: opcodetype where "OP_SUBSTR \<equiv> 0x7f"
abbreviation (input) OP_LEFT :: opcodetype where "OP_LEFT \<equiv> 0x80"
abbreviation (input) OP_RIGHT :: opcodetype where "OP_RIGHT \<equiv> 0x81"
abbreviation (input) OP_SIZE :: opcodetype where "OP_SIZE \<equiv> 0x82"
abbreviation (input) OP_INVERT :: opcodetype where "OP_INVERT \<equiv> 0x83"
abbreviation (input) OP_AND :: opcodetype where "OP_AND \<equiv> 0x84"
abbreviation (input) OP_OR :: opcodetype where "OP_OR \<equiv> 0x85"
abbreviation (input) OP_XOR :: opcodetype where "OP_XOR \<equiv> 0x86"
abbreviation (input) OP_EQUAL :: opcodetype where "OP_EQUAL \<equiv> 0x87"
abbreviation (input) OP_EQUALVERIFY :: opcodetype where "OP_EQUALVERIFY \<equiv> 0x88"
abbreviation (input) OP_RESERVED1 :: opcodetype where "OP_RESERVED1 \<equiv> 0x89"
abbreviation (input) OP_RESERVED2 :: opcodetype where "OP_RESERVED2 \<equiv> 0x8a"
abbreviation (input) OP_1ADD :: opcodetype where "OP_1ADD \<equiv> 0x8b"
abbreviation (input) OP_1SUB :: opcodetype where "OP_1SUB \<equiv> 0x8c"
abbreviation (input) OP_2MUL :: opcodetype where "OP_2MUL \<equiv> 0x8d"
abbreviation (input) OP_2DIV :: opcodetype where "OP_2DIV \<equiv> 0x8e"
abbreviation (input) OP_NEGATE :: opcodetype where "OP_NEGATE \<equiv> 0x8f"
abbreviation (input) OP_ABS :: opcodetype where "OP_ABS \<equiv> 0x90"
abbreviation (input) OP_NOT :: opcodetype where "OP_NOT \<equiv> 0x91"
abbreviation (input) OP_0NOTEQUAL :: opcodetype where "OP_0NOTEQUAL \<equiv> 0x92"
abbreviation (input) OP_ADD :: opcodetype where "OP_ADD \<equiv> 0x93"
abbreviation (input) OP_SUB :: opcodetype where "OP_SUB \<equiv> 0x94"
abbreviation (input) OP_MUL :: opcodetype where "OP_MUL \<equiv> 0x95"
abbreviation (input) OP_DIV :: opcodetype where "OP_DIV \<equiv> 0x96"
abbreviation (input) OP_MOD :: opcodetype where "OP_MOD \<equiv> 0x97"
abbreviation (input) OP_LSHIFT :: opcodetype where "OP_LSHIFT \<equiv> 0x98"
abbreviation (input) OP_RSHIFT :: opcodetype where "OP_RSHIFT \<equiv> 0x99"
abbreviation (input) OP_BOOLAND :: opcodetype where "OP_BOOLAND \<equiv> 0x9a"
abbreviation (input) OP_BOOLOR :: opcodetype where "OP_BOOLOR \<equiv> 0x9b"
abbreviation (input) OP_NUMEQUAL :: opcodetype where "OP_NUMEQUAL \<equiv> 0x9c"
abbreviation (input) OP_NUMEQUALVERIFY :: opcodetype where "OP_NUMEQUALVERIFY \<equiv> 0x9d"
abbreviation (input) OP_NUMNOTEQUAL :: opcodetype where "OP_NUMNOTEQUAL \<equiv> 0x9e"
abbreviation (input) OP_LESSTHAN :: opcodetype where "OP_LESSTHAN \<equiv> 0x9f"
abbreviation (input) OP_GREATERTHAN :: opcodetype where "OP_GREATERTHAN \<equiv> 0xa0"
abbreviation (input) OP_LESSTHANOREQUAL :: opcodetype where "OP_LESSTHANOREQUAL \<equiv> 0xa1"
abbreviation (input) OP_GREATERTHANOREQUAL :: opcodetype where "OP_GREATERTHANOREQUAL \<equiv> 0xa2"
abbreviation (input) OP_MIN :: opcodetype where "OP_MIN \<equiv> 0xa3"
abbreviation (input) OP_MAX :: opcodetype where "OP_MAX \<equiv> 0xa4"
abbreviation (input) OP_WITHIN :: opcodetype where "OP_WITHIN \<equiv> 0xa5"
abbreviation (input) OP_RIPEMD160 :: opcodetype where "OP_RIPEMD160 \<equiv> 0xa6"
abbreviation (input) OP_SHA1 :: opcodetype where "OP_SHA1 \<equiv> 0xa7"
abbreviation (input) OP_SHA256 :: opcodetype where "OP_SHA256 \<equiv> 0xa8"
abbreviation (input) OP_HASH160 :: opcodetype where "OP_HASH160 \<equiv> 0xa9"
abbreviation (input) OP_HASH256 :: opcodetype where "OP_HASH256 \<equiv> 0xaa"
abbreviation (input) OP_CODESEPARATOR :: opcodetype where "OP_CODESEPARATOR \<equiv> 0xab"
abbreviation (input) OP_CHECKSIG :: opcodetype where "OP_CHECKSIG \<equiv> 0xac"
abbreviation (input) OP_CHECKSIGVERIFY :: opcodetype where "OP_CHECKSIGVERIFY \<equiv> 0xad"
abbreviation (input) OP_CHECKMULTISIG :: opcodetype where "OP_CHECKMULTISIG \<equiv> 0xae"
abbreviation (input) OP_CHECKMULTISIGVERIFY :: opcodetype where "OP_CHECKMULTISIGVERIFY \<equiv> 0xaf"
abbreviation (input) OP_NOP1 :: opcodetype where "OP_NOP1 \<equiv> 0xb0"
abbreviation (input) OP_NOP2 :: opcodetype where "OP_NOP2 \<equiv> 0xb1"
abbreviation (input) OP_NOP3 :: opcodetype where "OP_NOP3 \<equiv> 0xb2"
abbreviation (input) OP_NOP4 :: opcodetype where "OP_NOP4 \<equiv> 0xb3"
abbreviation (input) OP_NOP5 :: opcodetype where "OP_NOP5 \<equiv> 0xb4"
abbreviation (input) OP_NOP6 :: opcodetype where "OP_NOP6 \<equiv> 0xb5"
abbreviation (input) OP_NOP7 :: opcodetype where "OP_NOP7 \<equiv> 0xb6"
abbreviation (input) OP_NOP8 :: opcodetype where "OP_NOP8 \<equiv> 0xb7"
abbreviation (input) OP_NOP9 :: opcodetype where "OP_NOP9 \<equiv> 0xb8"
abbreviation (input) OP_NOP10 :: opcodetype where "OP_NOP10 \<equiv> 0xb9"
abbreviation (input) OP_SMALLINTEGER :: opcodetype where "OP_SMALLINTEGER \<equiv> 0xfa"
abbreviation (input) OP_PUBKEYS :: opcodetype where "OP_PUBKEYS \<equiv> 0xfb"
abbreviation (input) OP_PUBKEYHASH :: opcodetype where "OP_PUBKEYHASH \<equiv> 0xfd"
abbreviation (input) OP_PUBKEY :: opcodetype where "OP_PUBKEY \<equiv> 0xfe"
abbreviation (input) OP_INVALIDOPCODE :: opcodetype where "OP_INVALIDOPCODE \<equiv> 0xff"
definition MAX_SCRIPT_ELEMENT_SIZE :: nat where
  "MAX_SCRIPT_ELEMENT_SIZE = 520"

subsection \<open>Script numbers\<close>

text \<open>
  \<^verbatim>\<open>CScriptNum\<close> holds an \<^verbatim>\<open>int64_t\<close>, read here as an integer. The constructor from
  bytes throws \<^verbatim>\<open>scriptnum_error\<close>.
\<close>

datatype scriptnum_error = Number_overflow | Non_minimal_number

definition nMaxNumSize :: nat where
  "nMaxNumSize = 4"

definition set_vch :: "bytes \<Rightarrow> int" where
  "set_vch vch =
     (if vch = [] then 0
      else let result = fold (\<lambda>i r. r OR push_bit (8 * i) (ucast (vch ! i))) [0..<length vch] (0 :: u64)
           in if last vch AND 0x80 \<noteq> 0
              then - sint (result AND NOT (push_bit (8 * (length vch - 1)) 0x80))
              else sint result)"

definition CScriptNum_of :: "bytes \<Rightarrow> bool \<Rightarrow> scriptnum_error + int" where
  "CScriptNum_of vch fRequireMinimal =
     (if length vch > nMaxNumSize then Inl Number_overflow
      else if fRequireMinimal \<and> length vch > 0 \<and> last vch AND 0x7f = 0 \<and>
              (length vch \<le> 1 \<or> vch ! (length vch - 2) AND 0x80 = 0)
           then Inl Non_minimal_number
      else Inr (set_vch vch))"

text \<open>\<^verbatim>\<open>serialize\<close>: the bytes of the absolute value, then room for the sign.\<close>

function abs_bytes :: "nat \<Rightarrow> bytes" where
  "abs_bytes absvalue =
     (if absvalue = 0 then [] else of_nat absvalue # abs_bytes (absvalue div 256))"
  by pat_completeness auto
termination by (relation "measure id") auto

declare abs_bytes.simps [simp del]

definition scriptnum_serialize :: "int \<Rightarrow> bytes" where
  "scriptnum_serialize value =
     (if value = 0 then []
      else let neg = value < 0;
               result = abs_bytes (nat \<bar>value\<bar>)
           in if last result AND 0x80 \<noteq> 0 then result @ [if neg then 0x80 else 0]
              else if neg then butlast result @ [last result OR 0x80]
              else result)"

definition scriptnum_getint :: "int \<Rightarrow> int" where
  "scriptnum_getint v =
     (if v > 2147483647 then 2147483647 else if v < -2147483648 then -2147483648 else v)"

text \<open>
  The arithmetic with its \<^verbatim>\<open>assert\<close>s: \<open>None\<close> is the aborted process. The plain
  \<^verbatim>\<open>operator+\<close> and \<^verbatim>\<open>operator-\<close> have no assertion.
\<close>

definition int64_max :: int where "int64_max = 2 ^ 63 - 1"
definition int64_min :: int where "int64_min = - (2 ^ 63)"

definition scriptnum_negate :: "int \<Rightarrow> int option" where
  "scriptnum_negate v = (if v \<noteq> int64_min then Some (- v) else None)"

definition scriptnum_add_assign :: "int \<Rightarrow> int \<Rightarrow> int option" where
  "scriptnum_add_assign v rhs =
     (if rhs = 0 \<or> (rhs > 0 \<and> v \<le> int64_max - rhs) \<or> (rhs < 0 \<and> v \<ge> int64_min - rhs)
      then Some (v + rhs) else None)"

definition scriptnum_sub_assign :: "int \<Rightarrow> int \<Rightarrow> int option" where
  "scriptnum_sub_assign v rhs =
     (if rhs = 0 \<or> (rhs > 0 \<and> v \<ge> int64_min + rhs) \<or> (rhs < 0 \<and> v \<le> int64_max + rhs)
      then Some (v - rhs) else None)"

subsection \<open>Building scripts\<close>

text \<open>\<^verbatim>\<open>operator<<\<close> of a byte vector: the shortest length prefix, then the data.\<close>

definition push_data :: "bytes \<Rightarrow> script" where
  "push_data b =
     (if length b < 0x4c then of_nat (length b) # b
      else if length b \<le> 0xff then OP_PUSHDATA1 # of_nat (length b) # b
      else if length b \<le> 0xffff then OP_PUSHDATA2 # wdigits 2 (length b) @ b
      else OP_PUSHDATA4 # wdigits 4 (length b) @ b)"

definition push_int64 :: "int \<Rightarrow> script" where
  "push_int64 n =
     (if n = -1 \<or> (n \<ge> 1 \<and> n \<le> 16) then [of_int (n + (uint OP_1 - 1))]
      else if n = 0 then [OP_0]
      else push_data (scriptnum_serialize n))"

definition DecodeOP_N :: "opcodetype \<Rightarrow> int option" where
  "DecodeOP_N opcode =
     (if opcode = OP_0 then Some 0
      else if opcode \<ge> OP_1 \<and> opcode \<le> OP_16 then Some (uint opcode - (uint OP_1 - 1))
      else None)"

definition EncodeOP_N :: "int \<Rightarrow> opcodetype option" where
  "EncodeOP_N n =
     (if n \<ge> 0 \<and> n \<le> 16 then (if n = 0 then Some OP_0 else Some (of_int (uint OP_1 + n - 1))) else None)"

subsection \<open>Reading scripts\<close>

text \<open>
  \<^verbatim>\<open>GetOp2\<close>: success, the opcode, the data pushed, and the iterator after the
  operation. A failure returns \<^verbatim>\<open>OP_INVALIDOPCODE\<close> and no data, with the iterator where
  the read stopped.
\<close>

definition get_op_data :: "opcodetype \<Rightarrow> nat \<Rightarrow> bytes \<Rightarrow> bool \<times> opcodetype \<times> bytes \<times> bytes" where
  "get_op_data opcode nSize pc =
     (if length pc < nSize then (False, OP_INVALIDOPCODE, [], pc)
      else (True, opcode, take nSize pc, drop nSize pc))"

fun GetOp2 :: "bytes \<Rightarrow> bool \<times> opcodetype \<times> bytes \<times> bytes" where
  "GetOp2 [] = (False, OP_INVALIDOPCODE, [], [])"
| "GetOp2 (opcode # pc) =
     (if opcode \<le> OP_PUSHDATA4 then
        (if opcode < OP_PUSHDATA1 then get_op_data opcode (unat opcode) pc
         else if opcode = OP_PUSHDATA1 then
           (if length pc < 1 then (False, OP_INVALIDOPCODE, [], pc)
            else get_op_data opcode (wval (take 1 pc)) (drop 1 pc))
         else if opcode = OP_PUSHDATA2 then
           (if length pc < 2 then (False, OP_INVALIDOPCODE, [], pc)
            else get_op_data opcode (wval (take 2 pc)) (drop 2 pc))
         else
           (if length pc < 4 then (False, OP_INVALIDOPCODE, [], pc)
            else get_op_data opcode (wval (take 4 pc)) (drop 4 pc)))
      else (True, opcode, [], pc))"

lemma GetOp2_shorter: "pc \<noteq> [] \<Longrightarrow> GetOp2 pc = (ok, opcode, data, pc') \<Longrightarrow> length pc' < length pc"
  by (cases pc) (auto simp: get_op_data_def split: if_splits)

subsection \<open>Scans\<close>

text \<open>\<^verbatim>\<open>FindAndDelete\<close>: the remaining script and the number of deletions.\<close>

function delete_here :: "bytes \<Rightarrow> bytes \<Rightarrow> bytes \<times> nat" where
  "delete_here b pc =
     (if b \<noteq> [] \<and> length pc \<ge> length b \<and> take (length b) pc = b
      then (let r = delete_here b (drop (length b) pc) in (fst r, Suc (snd r)))
      else (pc, 0))"
  by pat_completeness auto
termination
  by (relation "measure (\<lambda>(b, pc). length pc)") (auto simp flip: length_greater_0_conv)

declare delete_here.simps [simp del]

lemma delete_here_shorter: "length (fst (delete_here b pc)) \<le> length pc"
proof (induction b pc rule: delete_here.induct)
  case (1 b pc)
  then show ?case by (subst delete_here.simps) (auto simp: Let_def)
qed

function find_and_delete_loop :: "bytes \<Rightarrow> bytes \<Rightarrow> bytes \<times> nat" where
  "find_and_delete_loop b pc =
     (let d = delete_here b pc; pc1 = fst d
      in case GetOp2 pc1 of (ok, opcode, data, pc') \<Rightarrow>
           if ok
           then (let r = find_and_delete_loop b pc'
                 in (take (length pc1 - length pc') pc1 @ fst r, snd d + snd r))
           else d)"
  by pat_completeness auto
termination
proof (relation "measure (\<lambda>(b, pc). length pc)", goal_cases)
  case (2 b pc d pc1 ok g opcode g2 data pc')
  then have g: "GetOp2 pc1 = (True, opcode, data, pc')" by simp
  then have "pc1 \<noteq> []" by (cases pc1) auto
  with g have "length pc' < length pc1" using GetOp2_shorter by blast
  moreover have "length pc1 \<le> length pc" using 2(1,2) delete_here_shorter by simp
  ultimately show ?case by simp
qed simp

declare find_and_delete_loop.simps [simp del]

definition FindAndDelete :: "script \<Rightarrow> script \<Rightarrow> script \<times> nat" where
  "FindAndDelete s b = (if b = [] then (s, 0) else find_and_delete_loop b s)"


text \<open>
  The scans that only read. Each stops at the end of the script or, where the code tests
  it, at a read failure; \<open>GetOp2_progress\<close> is the measure of all of them.
\<close>

lemma GetOp2_progress:
  "pc \<noteq> [] \<Longrightarrow> (ok, opcode, data, pc') = GetOp2 pc \<Longrightarrow> length pc' < length pc"
  using GetOp2_shorter by metis

function Find_op :: "opcodetype \<Rightarrow> script \<Rightarrow> nat" where
  "Find_op op pc =
     (if pc = [] then 0
      else case GetOp2 pc of (ok, opcode, data, pc') \<Rightarrow>
             if ok then (if opcode = op then 1 else 0) + Find_op op pc' else 0)"
  by pat_completeness auto
termination by (relation "measure (\<lambda>(op, pc). length pc)") (auto dest: GetOp2_progress)

function sigop_loop :: "bool \<Rightarrow> opcodetype \<Rightarrow> u32 \<Rightarrow> bytes \<Rightarrow> u32" where
  "sigop_loop fAccurate lastOpcode n pc =
     (if pc = [] then n
      else case GetOp2 pc of (ok, opcode, data, pc') \<Rightarrow>
             if \<not> ok then n
             else sigop_loop fAccurate opcode
                    (if opcode = OP_CHECKSIG \<or> opcode = OP_CHECKSIGVERIFY then n + 1
                     else if opcode = OP_CHECKMULTISIG \<or> opcode = OP_CHECKMULTISIGVERIFY then
                       (if fAccurate \<and> lastOpcode \<ge> OP_1 \<and> lastOpcode \<le> OP_16
                        then n + of_int (the (DecodeOP_N lastOpcode)) else n + 20)
                     else n) pc')"
  by pat_completeness auto
termination by (relation "measure (\<lambda>(_, _, _, pc). length pc)") (auto dest: GetOp2_progress)

definition GetSigOpCount :: "script \<Rightarrow> bool \<Rightarrow> u32" where
  "GetSigOpCount s fAccurate = sigop_loop fAccurate OP_INVALIDOPCODE 0 s"

definition IsPayToScriptHash :: "script \<Rightarrow> bool" where
  "IsPayToScriptHash s \<longleftrightarrow>
     length s = 23 \<and> s ! 0 = OP_HASH160 \<and> s ! 1 = 0x14 \<and> s ! 22 = OP_EQUAL"

function last_push_loop :: "bytes \<Rightarrow> bytes \<Rightarrow> bytes option" where
  "last_push_loop data pc =
     (if pc = [] then Some data
      else case GetOp2 pc of (ok, opcode, data', pc') \<Rightarrow>
             if \<not> ok then None else if opcode > OP_16 then None else last_push_loop data' pc')"
  by pat_completeness auto
termination by (relation "measure (\<lambda>(_, pc). length pc)") (auto dest: GetOp2_progress)

definition GetSigOpCount_sig :: "script \<Rightarrow> script \<Rightarrow> u32" where
  "GetSigOpCount_sig s scriptSig =
     (if \<not> IsPayToScriptHash s then GetSigOpCount s True
      else case last_push_loop [] scriptSig of None \<Rightarrow> 0
           | Some data \<Rightarrow> GetSigOpCount data True)"

function normal_payment_loop :: "nat \<Rightarrow> bytes \<Rightarrow> bool" where
  "normal_payment_loop i pc =
     (if pc = [] then True
      else case GetOp2 pc of (ok, opcode, data, pc') \<Rightarrow>
             if i = 0 \<and> opcode \<noteq> OP_DUP then False
             else if i = 1 \<and> opcode \<noteq> OP_HASH160 then False
             else if i = 3 \<and> opcode \<noteq> OP_EQUALVERIFY then False
             else if i = 4 \<and> opcode \<noteq> OP_CHECKSIG then False
             else if i = 5 then False
             else normal_payment_loop (Suc i) pc')"
  by pat_completeness auto
termination by (relation "measure (\<lambda>(_, pc). length pc)") (auto dest: GetOp2_progress)

definition IsNormalPaymentScript :: "script \<Rightarrow> bool" where
  "IsNormalPaymentScript s \<longleftrightarrow> (if length s \<noteq> 25 then False else normal_payment_loop 0 s)"

function IsPushOnly :: "script \<Rightarrow> bool" where
  "IsPushOnly pc =
     (if pc = [] then True
      else case GetOp2 pc of (ok, opcode, data, pc') \<Rightarrow>
             if \<not> ok then False else if opcode > OP_16 then False else IsPushOnly pc')"
  by pat_completeness auto
termination by (relation "measure length") (auto dest: GetOp2_progress)

declare Find_op.simps [simp del] sigop_loop.simps [simp del] last_push_loop.simps [simp del]
  normal_payment_loop.simps [simp del] IsPushOnly.simps [simp del]

definition IsUnspendable :: "script \<Rightarrow> bool" where
  "IsUnspendable s \<longleftrightarrow> length s > 0 \<and> s ! 0 = OP_RETURN"

subsection \<open>Script numbers: sign and magnitude\<close>

lemma byte_sign_iff: "(x :: byte) AND 0x80 \<noteq> 0 \<longleftrightarrow> 128 \<le> unat x"
proof -
  have "x AND 0x80 = 0 \<longleftrightarrow> \<not> bit x 7"
    using and_exp_eq_0_iff_not_bit [of x 7] by simp
  moreover have "bit x 7 \<longleftrightarrow> 2 ^ 7 \<le> unat x"
    using bit_top_iff [of x 7] unat_lt_byte [of x] by simp
  ultimately show ?thesis by simp
qed

lemma byte_magnitude: "unat ((x :: byte) AND 0x7f) = unat x mod 128"
  using unat_and_mask [of x 7] by (simp add: mask_eq_exp_minus_1)

lemma byte_magnitude_0_iff: "(x :: byte) AND 0x7f = 0 \<longleftrightarrow> unat x mod 128 = 0"
  by (metis byte_magnitude unat_eq_0)

lemma set_vch_loop:
  fixes vch :: bytes
  assumes "k \<le> length vch" "k \<le> 8"
  shows "unat (fold (\<lambda>i r. r OR push_bit (8 * i) (ucast (vch ! i))) [0..<k] (0 :: u64)) =
         wval (take k vch)"
  using assms
proof (induction k)
  case (Suc k)
  let ?f = "fold (\<lambda>i r. r OR push_bit (8 * i) (ucast (vch ! i))) [0..<k] (0 :: u64)"
  have IH: "unat ?f = wval (take k vch)" using Suc by simp
  have lt: "wval (take k vch) < 2 ^ (8 * k)" using wval_bound [of "take k vch"] Suc.prems by simp
  have "unat (vch ! k) * 2 ^ (8 * k) < 2 ^ 8 * 2 ^ (8 * k)" using unat_lt_byte [of "vch ! k"] by simp
  also have "\<dots> = 2 ^ (8 * Suc k)" by (simp add: power_add)
  also have "\<dots> \<le> 2 ^ 64" using Suc.prems by (intro power_increasing) auto
  finally have p: "unat (push_bit (8 * k) (ucast (vch ! k) :: u64)) = 2 ^ (8 * k) * unat (vch ! k)"
    by (simp add: unat_push_bit unat_ucast_up mult.commute)
  have "unat (fold (\<lambda>i r. r OR push_bit (8 * i) (ucast (vch ! i))) [0..<Suc k] (0 :: u64)) =
        unat ?f OR unat (push_bit (8 * k) (ucast (vch ! k) :: u64))" by (simp add: unsigned_or_eq)
  also have "\<dots> = wval (take k vch) + 2 ^ (8 * k) * unat (vch ! k)"
    unfolding IH p by (rule nat_or_disjoint [OF lt])
  also have "\<dots> = wval (take (Suc k) vch)"
    using Suc.prems by (simp add: take_Suc_conv_app_nth wval_append)
  finally show ?case .
qed simp

definition sm_magnitude :: "bytes \<Rightarrow> nat" where
  "sm_magnitude vch = wval (butlast vch) + 256 ^ (length vch - 1) * (unat (last vch) mod 128)"

lemma wval_sm:
  assumes "vch \<noteq> []"
  shows "wval vch = sm_magnitude vch + (if 128 \<le> unat (last vch) then 2 ^ (8 * length vch - 1) else 0)"
proof -
  have "wval vch = wval (butlast vch @ [last vch])" using assms by simp
  then have w: "wval vch = wval (butlast vch) + 2 ^ (8 * (length vch - 1)) * unat (last vch)"
    by (simp only: wval_append) simp
  have e: "(256::nat) ^ (length vch - 1) = 2 ^ (8 * (length vch - 1))" by (simp add: power_mult)
  have e2: "(2::nat) ^ (8 * length vch - 1) = 2 ^ (8 * (length vch - 1)) * 128"
  proof -
    have "8 * length vch - 1 = 8 * (length vch - 1) + 7" using assms by (cases vch) auto
    then show ?thesis by (simp only: power_add) simp
  qed
  have m: "unat (last vch) = unat (last vch) mod 128 + (if 128 \<le> unat (last vch) then 128 else 0)"
  proof -
    have "n = n mod 128 + (if 128 \<le> n then 128 else 0)" if "n < 256" for n :: nat
      using that by (cases "128 \<le> n") (simp_all add: le_mod_geq)
    then show ?thesis using unat_lt_byte by blast
  qed
  show ?thesis unfolding sm_magnitude_def w e
    by (subst m) (simp only: e2 distrib_left add.assoc, simp)
qed

lemma sm_magnitude_less: "vch \<noteq> [] \<Longrightarrow> sm_magnitude vch < 2 ^ (8 * length vch - 1)"
proof -
  assume n: "vch \<noteq> []"
  let ?B = "256 ^ (length vch - 1) :: nat"
  have "wval (butlast vch) < ?B" using wval_bound [of "butlast vch"] by (simp add: power_mult)
  moreover have "?B * (unat (last vch) mod 128) \<le> ?B * 127" by (intro mult_left_mono) auto
  moreover have "8 * length vch - 1 = 8 * (length vch - 1) + 7" using n by (cases vch) auto
  then have "(2::nat) ^ (8 * length vch - 1) = ?B * 128" by (simp only: power_add) (simp add: power_mult)
  ultimately show ?thesis unfolding sm_magnitude_def by linarith
qed

lemma sint_small:
  assumes "unat (w :: u64) < 2 ^ 63" shows "sint w = int (unat w)"
proof -
  have "int (unat w) < int (2 ^ 63)" using assms by (simp only: of_nat_less_iff)
  then have u: "uint w < 2 ^ 63" by (simp only: of_nat_power of_nat_numeral flip: uint_nat)
  have "0 \<le> uint w" by simp
  then have "- (2 ^ 63) \<le> uint w" by (rule order_trans [rotated]) simp
  then have "signed_take_bit 63 (uint w) = uint w" using u by (intro signed_take_bit_int_eq_self)
  then show ?thesis by (simp add: sint_uint flip: uint_nat)
qed

lemma set_vch_val:
  assumes "vch \<noteq> []" "length vch \<le> 7"
  shows "set_vch vch = (if 128 \<le> unat (last vch) then - int (sm_magnitude vch) else int (sm_magnitude vch))"
proof -
  let ?k = "8 * length vch - 1"
  define r where "r = fold (\<lambda>i r. r OR push_bit (8 * i) (ucast (vch ! i))) [0..<length vch] (0 :: u64)"
  have r: "unat r = wval vch" using set_vch_loop [of "length vch" vch] assms by (simp add: r_def)
  have kk: "(2::nat) ^ ?k \<le> 2 ^ 55" using assms by (intro power_increasing) auto
  then have sm: "sm_magnitude vch < 2 ^ 63" using sm_magnitude_less [OF assms(1)] by simp
  have s: "set_vch vch = (if 128 \<le> unat (last vch)
      then - sint (r AND NOT (push_bit (8 * (length vch - 1)) 0x80)) else sint r)"
    using assms(1) by (simp only: set_vch_def Let_def byte_sign_iff if_False flip: r_def)
  show ?thesis
  proof (cases "128 \<le> unat (last vch)")
    case False
    then have "unat r = sm_magnitude vch" using r wval_sm [OF assms(1)] by simp
    then show ?thesis unfolding s using False sm sint_small [of r] by simp
  next
    case True
    have k: "?k = 8 * (length vch - 1) + 7" using assms by (cases vch) auto
    have u: "unat r = sm_magnitude vch + 2 ^ ?k" using r wval_sm [OF assms(1)] True by simp
    have "drop_bit ?k (unat r) = 1"
      using sm_magnitude_less [OF assms(1)] unfolding u drop_bit_eq_div
      by (subst div_add_self2) auto
    then have "bit (unat r) ?k" by (metis bit_iff_odd_drop_bit odd_one)
    then have b: "bit r ?k" by (simp add: bit_unsigned_iff)
    have p: "push_bit (8 * (length vch - 1)) 0x80 = (push_bit ?k 1 :: u64)"
    proof -
      have "0x80 = (push_bit 7 1 :: u64)" by simp
      then show ?thesis unfolding k by (simp only: push_bit_push_bit)
    qed
    have n: "r AND NOT (push_bit ?k 1) = r - 2 ^ ?k"
      using unset_bit_eq [of ?k r] b by (simp only: unset_bit_eq_and_not of_bool_eq if_True mult_1)
    have "unat (2 ^ ?k :: u64) = 2 ^ ?k"
      using unat_push_bit [of ?k "1 :: u64"] kk by (simp add: push_bit_of_1)
    then have "unat (r - 2 ^ ?k) = sm_magnitude vch"
      using u by (subst unat_sub) (simp_all add: word_le_nat_alt)
    then show ?thesis unfolding s p n using True sm sint_small [of "r - 2 ^ ?k"] by simp
  qed
qed

lemma pow256: "(256::nat) ^ k = 2 ^ (8 * k)"
  by (simp add: power_mult)

lemma abs_bytes_val: "wval (abs_bytes n) = n"
  by (induction n rule: abs_bytes.induct) (subst abs_bytes.simps, simp add: unat_of_nat)

lemma abs_bytes_Nil_iff: "abs_bytes n = [] \<longleftrightarrow> n = 0"
  by (subst abs_bytes.simps) simp

lemma abs_bytes_last: "n \<noteq> 0 \<Longrightarrow> last (abs_bytes n) \<noteq> 0"
proof (induction n rule: abs_bytes.induct)
  case (1 n)
  have "of_nat n \<noteq> (0 :: byte)" if "n < 256"
    using that 1(2) by (simp add: of_nat_eq_0_iff word_of_nat_eq_0_iff) (meson dvd_imp_le not_le zero_less_iff_neq_zero)
  then show ?case using 1 by (subst abs_bytes.simps) (auto simp: abs_bytes_Nil_iff)
qed

lemma abs_bytes_unique: "bs = [] \<or> last bs \<noteq> 0 \<Longrightarrow> abs_bytes (wval bs) = bs"
proof (induction bs)
  case Nil
  show ?case by (subst abs_bytes.simps) simp
next
  case (Cons b bs)
  have b: "unat b < 256" by (rule unat_lt_byte)
  have w: "wval (b # bs) mod 256 = unat b" "wval (b # bs) div 256 = wval bs" using b by simp_all
  have "bs = [] \<Longrightarrow> b \<noteq> 0" using Cons.prems by simp
  moreover have "bs \<noteq> [] \<Longrightarrow> wval bs \<noteq> 0"
  proof -
    assume n: "bs \<noteq> []"
    have "abs_bytes (wval bs) = bs" using Cons n by simp
    then show ?thesis using n abs_bytes_Nil_iff by metis
  qed
  ultimately have nz: "wval (b # bs) \<noteq> 0" by (cases "bs = []") (auto simp: unat_eq_0)
  have "of_nat (wval (b # bs)) = b"
    unfolding word_unat_eq_iff unat_of_nat using w(1) by simp
  moreover have "abs_bytes (wval bs) = bs" using Cons by (cases "bs = []") auto
  ultimately show ?case using nz w(2) by (subst abs_bytes.simps) simp
qed

lemma abs_bytes_length:
  assumes "n < 256 ^ k" shows "length (abs_bytes n) \<le> k"
proof (rule ccontr)
  assume *: "\<not> ?thesis"
  then have ne: "abs_bytes n \<noteq> []" by auto
  then have "last (abs_bytes n) \<noteq> 0" using abs_bytes_last abs_bytes_Nil_iff by blast
  then have l: "1 \<le> unat (last (abs_bytes n))" by (simp add: unat_gt_0 Suc_leI)
  have "n = wval (butlast (abs_bytes n) @ [last (abs_bytes n)])" using ne by (simp add: abs_bytes_val)
  also have "\<dots> \<ge> 2 ^ (8 * (length (abs_bytes n) - 1)) * unat (last (abs_bytes n))"
    by (simp only: wval_append) simp
  finally have "2 ^ (8 * (length (abs_bytes n) - 1)) \<le> n" using l
    by (metis le_trans mult.right_neutral mult_le_mono2)
  moreover have "(256::nat) ^ k \<le> 2 ^ (8 * (length (abs_bytes n) - 1))"
    unfolding pow256 using * by (intro power_increasing) auto
  ultimately show False using assms by simp
qed

lemma abs_bytes_last_range:
  "n \<noteq> 0 \<Longrightarrow> 128 \<le> unat (last (abs_bytes n)) \<Longrightarrow> n < 128 * 256 ^ k \<Longrightarrow> length (abs_bytes n) \<le> k"
proof (rule ccontr)
  assume nz: "n \<noteq> 0" and l: "128 \<le> unat (last (abs_bytes n))" and n: "n < 128 * 256 ^ k"
    and *: "\<not> length (abs_bytes n) \<le> k"
  have ne: "abs_bytes n \<noteq> []" using nz by (simp add: abs_bytes_Nil_iff)
  have "n = wval (butlast (abs_bytes n) @ [last (abs_bytes n)])" using ne by (simp add: abs_bytes_val)
  also have "\<dots> \<ge> 2 ^ (8 * (length (abs_bytes n) - 1)) * unat (last (abs_bytes n))"
    by (simp only: wval_append) simp
  finally have "2 ^ (8 * (length (abs_bytes n) - 1)) * 128 \<le> n" using l
    by (meson le_trans mult_le_mono2)
  moreover have "(256::nat) ^ k \<le> 2 ^ (8 * (length (abs_bytes n) - 1))"
    unfolding pow256 using * by (intro power_increasing) auto
  ultimately show False using n by linarith
qed

lemma unat_or_sign: "unat (x :: byte) < 128 \<Longrightarrow> unat (x OR 0x80) = unat x + 128"
  using nat_or_disjoint [of "unat x" 7 1] by (simp add: unsigned_or_eq)

theorem CScriptNum_serialize:
  assumes "\<bar>v\<bar> < 2 ^ 31"
  shows "CScriptNum_of (scriptnum_serialize v) True = Inr v"
proof (cases "v = 0")
  case True
  then show ?thesis by (simp add: scriptnum_serialize_def CScriptNum_of_def nMaxNumSize_def set_vch_def)
next
  case False
  define n where "n = nat \<bar>v\<bar>"
  define r where "r = abs_bytes n"
  have n: "n \<noteq> 0" "n < 2 ^ 31" using False assms by (auto simp: n_def)
  have r: "r \<noteq> []" "last r \<noteq> 0" "wval r = n"
    using n by (auto simp: r_def abs_bytes_Nil_iff abs_bytes_last abs_bytes_val)
  have len: "length r \<le> 4" using n abs_bytes_length [of n 4] by (simp add: r_def)
  have ab: "nat \<bar>v\<bar> = n" "r = abs_bytes n" by (simp_all add: n_def r_def)
  show ?thesis
  proof (cases "128 \<le> unat (last r)")
    case True
    have l3: "length r \<le> 3" using abs_bytes_last_range [of n 3] n True by (simp add: r_def)
    define s where "s = (if v < 0 then 0x80 else 0 :: byte)"
    have ser: "scriptnum_serialize v = r @ [s]"
      using False True by (simp add: scriptnum_serialize_def Let_def ab byte_sign_iff s_def flip: ab(2))
    have m: "sm_magnitude (r @ [s]) = n" by (simp add: sm_magnitude_def r s_def)
    have sv: "set_vch (r @ [s]) = v"
      using l3 by (subst set_vch_val) (simp_all add: m, auto simp: s_def n_def)
    have "(r @ [s]) ! (length (r @ [s]) - 2) = last r"
      using r(1) by (simp add: nth_append last_conv_nth)
    then show ?thesis using True l3 r(1) sv unfolding ser
      by (simp add: CScriptNum_of_def nMaxNumSize_def byte_sign_iff not_le)
  next
    case lt: False
    define b where "b = (if v < 0 then butlast r @ [last r OR 0x80] else r)"
    have ser: "scriptnum_serialize v = b"
      using False lt by (simp add: scriptnum_serialize_def Let_def ab byte_sign_iff b_def flip: ab(2))
    have lb: "length b = length r" "b \<noteq> []" "butlast b = butlast r" using r(1) by (auto simp: b_def)
    have last: "unat (last b) = unat (last r) + (if v < 0 then 128 else 0)"
      using lt unat_or_sign [of "last r"] by (simp add: b_def)
    have nz: "unat (last r) \<noteq> 0" using r(2) by (simp add: unat_eq_0)
    have "unat (last b) mod 128 = unat (last r) mod 128" by (simp add: last)
    then have "sm_magnitude b = sm_magnitude r" by (simp add: sm_magnitude_def lb)
    also have "\<dots> = n" using wval_sm [OF r(1)] lt r(3) by simp
    finally have sv: "set_vch b = v"
      using lb len lt by (subst set_vch_val) (auto simp: last n_def)
    have "unat (last b) mod 128 \<noteq> 0" using last lt nz by auto
    then have "last b AND 0x7f \<noteq> 0" by (simp add: byte_magnitude_0_iff)
    then show ?thesis using sv len lb unfolding ser
      by (simp add: CScriptNum_of_def nMaxNumSize_def)
  qed
qed

lemma serialize_signed:
  assumes "v = (if neg then - int m else int m)" "m \<noteq> 0"
  shows "scriptnum_serialize v =
    (let r = abs_bytes m in
     if last r AND 0x80 \<noteq> 0 then r @ [if neg then 0x80 else 0]
     else if neg then butlast r @ [last r OR 0x80] else r)"
proof -
  have "nat \<bar>v\<bar> = m" "v < 0 \<longleftrightarrow> neg" "v \<noteq> 0" using assms by auto
  then show ?thesis by (simp only: scriptnum_serialize_def if_False Let_def)
qed

lemma mod_128_cases: "(n::nat) mod 128 = 0 \<Longrightarrow> n < 256 \<Longrightarrow> n = 0 \<or> n = 128"
  by presburger

lemma serialize_canonical_padded:
  assumes ne: "b \<noteq> []" and v: "v = (if neg then - int m else int m)"
    and m: "m = sm_magnitude b" and neg: "neg \<longleftrightarrow> 128 \<le> unat (last b)"
    and True: "unat (last b) mod 128 = 0"
    and two: "length b > 1" "b ! (length b - 2) AND 0x80 \<noteq> 0"
  shows "scriptnum_serialize v = b"
proof -
  let ?r = "butlast b"
  have rne: "?r \<noteq> []" using two by (cases b) auto
  have lr: "last ?r = b ! (length b - 2)"
  proof -
    have i: "length ?r - 1 = length b - 2" "length b - 2 < length ?r" using two by simp_all
    then show ?thesis unfolding last_conv_nth [OF rne] by (simp only: nth_butlast)
  qed
  have mr: "m = wval ?r" using True by (simp add: m sm_magnitude_def)
  have big: "128 \<le> unat (last ?r)" using two(2) by (simp add: lr byte_sign_iff)
  have "last ?r \<noteq> 0"
  proof
    assume "last ?r = 0"
    with big show False by simp
  qed
  then have ab: "abs_bytes m = ?r" unfolding mr using abs_bytes_unique by blast
  then have nz: "m \<noteq> 0" using rne abs_bytes_Nil_iff by metis
  have "unat (last b) = (if neg then 128 else 0)"
    using True unat_lt_byte [of "last b"] mod_128_cases [of "unat (last b)"] by (auto simp: neg)
  then have "unat (last b) = unat (if neg then 0x80 else 0 :: byte)" by simp
  then have lb: "last b = (if neg then 0x80 else 0)" by (rule unsigned_word_eqI)
  have "scriptnum_serialize v = ?r @ [last b]"
    unfolding serialize_signed [OF v nz] ab using big by (simp add: byte_sign_iff lb)
  then show ?thesis using ne by simp
qed

lemma serialize_canonical_unpadded:
  assumes ne: "b \<noteq> []" and v: "v = (if neg then - int m else int m)"
    and m: "m = sm_magnitude b" and neg: "neg \<longleftrightarrow> 128 \<le> unat (last b)"
    and False: "unat (last b) mod 128 \<noteq> 0"
  shows "scriptnum_serialize v = b"
proof -
  let ?l = "last b AND 0x7f"
  let ?r = "butlast b @ [?l]"
  have l: "unat ?l = unat (last b) mod 128" by (rule byte_magnitude)
  have lz: "?l \<noteq> 0" using False l by auto
  have "wval ?r = m" by (simp add: wval_append l m sm_magnitude_def power_mult)
  then have ab: "abs_bytes m = ?r" using abs_bytes_unique [of ?r] lz by simp
  then have nz: "m \<noteq> 0" by (metis abs_bytes_Nil_iff snoc_eq_iff_butlast)
  have small: "\<not> 128 \<le> unat ?l" by (simp add: l not_le)
  have "?l = last b" if "\<not> neg"
  proof -
    have "unat ?l = unat (last b)" using that l by (simp add: neg)
    then show ?thesis by (rule unsigned_word_eqI)
  qed
  moreover have "?l OR 0x80 = last b" if neg
  proof -
    have "unat (?l OR 0x80) = unat (last b) mod 128 + 128"
      using unat_or_sign [of ?l] small l by simp
    also have "\<dots> = unat (last b)" using that unat_lt_byte [of "last b"] by (simp add: neg le_mod_geq)
    finally show ?thesis by (rule unsigned_word_eqI)
  qed
  ultimately have "scriptnum_serialize v = butlast b @ [last b]"
    unfolding serialize_signed [OF v nz] ab using small by (simp add: byte_sign_iff Let_def)
  then show ?thesis using ne by simp
qed

theorem CScriptNum_canonical:
  assumes "CScriptNum_of b True = Inr v"
  shows "scriptnum_serialize v = b"
proof (cases "b = []")
  case True
  then show ?thesis using assms
    by (simp add: scriptnum_serialize_def CScriptNum_of_def nMaxNumSize_def set_vch_def)
next
  case ne: False
  have len: "length b \<le> 4" and v: "v = set_vch b"
    and min: "unat (last b) mod 128 = 0 \<Longrightarrow> length b > 1 \<and> b ! (length b - 2) AND 0x80 \<noteq> 0"
    using assms ne
    by (auto simp: CScriptNum_of_def nMaxNumSize_def byte_magnitude_0_iff split: if_splits)
  have "v = (if 128 \<le> unat (last b) then - int (sm_magnitude b) else int (sm_magnitude b))"
    unfolding v using ne len by (subst set_vch_val) auto
  then show ?thesis
    using serialize_canonical_padded [OF ne] serialize_canonical_unpadded [OF ne] min by blast
qed

lemma scriptnum_bound:
  assumes "length b \<le> 4" shows "\<bar>set_vch b\<bar> < 2 ^ 31"
proof (cases "b = []")
  case False
  have "(2::nat) ^ (8 * length b - 1) \<le> 2 ^ 31" using assms by (intro power_increasing) auto
  then have "sm_magnitude b < 2 ^ 31" using sm_magnitude_less [OF False] by simp
  then show ?thesis using assms False by (simp add: set_vch_val)
qed (simp add: set_vch_def)

lemma CScriptNum_of_bound: "CScriptNum_of b m = Inr v \<Longrightarrow> \<bar>v\<bar> < 2 ^ 31"
  using scriptnum_bound [of b] by (auto simp: CScriptNum_of_def nMaxNumSize_def split: if_splits)

lemma scriptnum_serialize_length:
  assumes "\<bar>v\<bar> < 256 ^ k" shows "length (scriptnum_serialize v) \<le> Suc k"
proof -
  have "nat \<bar>v\<bar> < 256 ^ k" using assms by (simp add: nat_less_iff)
  then show ?thesis using abs_bytes_length [of "nat \<bar>v\<bar>" k]
    by (auto simp: scriptnum_serialize_def Let_def)
qed

subsection \<open>Operations as chunks of the script\<close>

text \<open>A successful read depends only on the bytes it consumes.\<close>

lemma get_op_data_frame:
  "get_op_data opcode n pc = (True, opc, data, pc') \<longleftrightarrow>
   opc = opcode \<and> pc = data @ pc' \<and> length data = n"
  by (auto simp: get_op_data_def)

lemma pushdata_cases: "(op :: byte) < 0x4c \<or> op = 0x4c \<or> op = 0x4d \<or> op = 0x4e \<or> 0x4e < op"
  unfolding word_less_nat_alt word_unat_eq_iff by simp arith

lemma GetOp2_frame:
  assumes "GetOp2 pc = (True, opcode, data, pc')"
  shows "\<exists>c. c \<noteq> [] \<and> hd c = opcode \<and> pc = c @ pc' \<and> (\<forall>s. GetOp2 (c @ s) = (True, opcode, data, s))"
proof (cases pc)
  case Nil
  then show ?thesis using assms by simp
next
  case (Cons op r)
  have *: "\<exists>c. c \<noteq> [] \<and> hd c = opcode \<and> pc = c @ pc' \<and> (\<forall>s. GetOp2 (c @ s) = (True, opcode, data, s))"
    if "length r \<ge> k" "get_op_data op (wval (take k r)) (drop k r) = (True, opcode, data, pc')"
      "\<And>s. GetOp2 (op # take k r @ s) = get_op_data op (wval (take k r)) s" for k
  proof (intro exI [of _ "op # take k r @ data"] conjI allI)
    show "pc = (op # take k r @ data) @ pc'" using that Cons append_take_drop_id [of k r]
      by (auto simp: get_op_data_frame)
    show "GetOp2 ((op # take k r @ data) @ s) = (True, opcode, data, s)" for s
      using that by (auto simp: get_op_data_frame)
  qed (use that in \<open>auto simp: get_op_data_frame\<close>)
  consider "op < 0x4c" | "op = 0x4c" | "op = 0x4d" | "op = 0x4e" | "op > 0x4e"
    using pushdata_cases by blast
  then show ?thesis
  proof cases
    case 1
    then have le: "op \<le> 0x4e" by (simp add: word_less_nat_alt word_le_nat_alt)
    then have d: "get_op_data op (unat op) r = (True, opcode, data, pc')"
      using assms Cons 1 by simp
    show ?thesis
      using d 1 le Cons by (intro exI [of _ "op # data"]) (auto simp: get_op_data_frame)
  next
    case 2
    then show ?thesis using assms Cons * [of 1] by (auto simp: Suc_le_eq split: if_splits)
  next
    case 3
    then show ?thesis using assms Cons * [of 2] by (auto split: if_splits)
  next
    case 4
    then show ?thesis using assms Cons * [of 4] by (auto split: if_splits)
  next
    case 5
    then have "\<not> op \<le> 0x4e" by simp
    then show ?thesis using assms Cons by (auto intro!: exI [of _ "[op]"])
  qed
qed

lemma GetOp2_push_data:
  assumes "length b < 2 ^ 32"
  shows "\<exists>op. GetOp2 (push_data b @ s) = (True, op, b, s) \<and> op \<le> OP_PUSHDATA4"
proof -
  have u8: "n < 256 \<Longrightarrow> unat (of_nat n :: byte) = n" for n by (simp add: unat_of_nat)
  consider "length b < 0x4c" | "length b \<ge> 0x4c" "length b \<le> 0xff"
    | "length b > 0xff" "length b \<le> 0xffff" | "length b > 0xffff" by linarith
  then show ?thesis
  proof cases
    case 1
    then have "unat (of_nat (length b) :: byte) = length b" by (intro u8) simp
    then show ?thesis using 1
      by (simp add: push_data_def get_op_data_def word_less_nat_alt word_le_nat_alt)
  next
    case 2
    then have "unat (of_nat (length b) :: byte) = length b" by (intro u8) simp
    then show ?thesis using 2 by (simp add: push_data_def get_op_data_def)
  next
    case 3
    then have "wval (wdigits 2 (length b) :: bytes) = length b" by (subst wval_wdigits) simp
    then show ?thesis using 3 by (simp add: push_data_def get_op_data_def length_wdigits)
  next
    case 4
    then have "wval (wdigits 4 (length b) :: bytes) = length b" using assms by (subst wval_wdigits) simp
    then show ?thesis using 4 by (simp add: push_data_def get_op_data_def length_wdigits)
  qed
qed

text \<open>The complete operations at the front of a script, and what is left of it.\<close>

function chunks :: "script \<Rightarrow> bytes list \<times> bytes" where
  "chunks pc =
     (if pc = [] then ([], [])
      else case GetOp2 pc of (ok, opcode, data, pc') \<Rightarrow>
             if ok then (let r = chunks pc' in (take (length pc - length pc') pc # fst r, snd r))
             else ([], pc))"
  by pat_completeness auto
termination by (relation "measure length") (auto dest: GetOp2_progress)

declare chunks.simps [simp del]

definition single_op :: "bytes \<Rightarrow> bool" where
  "single_op c \<longleftrightarrow> fst (GetOp2 c) \<and> snd (snd (snd (GetOp2 c))) = []"

lemma single_opE:
  assumes "single_op c"
  obtains opcode data where "c \<noteq> []" "\<And>s. GetOp2 (c @ s) = (True, opcode, data, s)"
proof -
  obtain op d where "GetOp2 c = (True, op, d, [])"
    using assms by (cases "GetOp2 c") (auto simp: single_op_def)
  from GetOp2_frame [OF this] that show ?thesis by auto
qed

lemma chunks_Nil: "chunks [] = ([], [])"
  by (subst chunks.simps) simp

lemma chunks_op:
  assumes "single_op c"
  shows "chunks (c @ s) = (c # fst (chunks s), snd (chunks s))"
proof -
  obtain op d where "c \<noteq> []" "GetOp2 (c @ s) = (True, op, d, s)"
    using assms by (elim single_opE) blast
  then show ?thesis by (subst chunks.simps) (simp add: Let_def)
qed

lemma chunks_stop: "\<not> fst (GetOp2 s) \<Longrightarrow> chunks s = ([], s)"
  by (subst chunks.simps) (auto split: prod.splits)

lemma script_op_cases:
  obtains (op) c r where "s = c @ r" "single_op c" "c \<noteq> []" | (stop) "\<not> fst (GetOp2 s)"
proof (cases "fst (GetOp2 s)")
  case True
  then obtain op d r where "GetOp2 s = (True, op, d, r)" by (cases "GetOp2 s") auto
  from GetOp2_frame [OF this] obtain c where
    "c \<noteq> []" "s = c @ r" "\<forall>t. GetOp2 (c @ t) = (True, op, d, t)" by blast
  moreover from this have "GetOp2 c = (True, op, d, [])" by (metis append_Nil2)
  ultimately show ?thesis using op by (simp add: single_op_def)
qed (rule stop)

lemma script_op_induct [case_names op stop]:
  assumes "\<And>c s. single_op c \<Longrightarrow> c \<noteq> [] \<Longrightarrow> P s \<Longrightarrow> P (c @ s)"
    and "\<And>s. \<not> fst (GetOp2 s) \<Longrightarrow> P s"
  shows "P s"
proof (induction "length s" arbitrary: s rule: less_induct)
  case less
  show ?case
    by (cases s rule: script_op_cases) (use assms less in auto)
qed

lemma chunks_concat: "concat (fst (chunks s)) @ snd (chunks s) = s"
  by (induction s rule: script_op_induct) (simp_all add: chunks_op chunks_stop)

lemma single_op_prefix:
  assumes "single_op b" "single_op c" "b @ s = c @ t"
  shows "b = c \<and> s = t"
  using assms by (elim single_opE) (metis append_same_eq prod.inject)

lemma delete_here_op:
  assumes "single_op b" "single_op c"
  shows "delete_here b (c @ s) =
    (if c = b then (fst (delete_here b s), Suc (snd (delete_here b s))) else (c @ s, 0))"
proof (cases "c = b")
  case True
  then show ?thesis using assms by (subst delete_here.simps) (auto simp: single_op_def Let_def)
next
  case False
  have "take (length b) (c @ s) \<noteq> b"
  proof
    assume "take (length b) (c @ s) = b"
    then have "b @ drop (length b) (c @ s) = c @ s" by (metis append_take_drop_id)
    then show False using single_op_prefix assms False by blast
  qed
  then show ?thesis using False by (subst delete_here.simps) simp
qed

lemma delete_here_stop:
  assumes "single_op b" "\<not> fst (GetOp2 s)"
  shows "delete_here b s = (s, 0)"
proof -
  have "take (length b) s \<noteq> b"
  proof
    assume "take (length b) s = b"
    then have "s = b @ drop (length b) s" by (metis append_take_drop_id)
    then show False using assms by (metis single_opE fst_conv)
  qed
  then show ?thesis by (subst delete_here.simps) simp
qed

theorem FindAndDelete_chunks:
  assumes "single_op b"
  shows "FindAndDelete s b =
    (concat (filter (\<lambda>c. c \<noteq> b) (fst (chunks s))) @ snd (chunks s),
     count_list (fst (chunks s)) b)"
proof -
  have ne: "b \<noteq> []" using assms by (auto simp: single_op_def)
  have "find_and_delete_loop b s =
    (concat (filter (\<lambda>c. c \<noteq> b) (fst (chunks s))) @ snd (chunks s), count_list (fst (chunks s)) b)"
  proof (induction s rule: script_op_induct)
    case (stop s)
    then show ?case
      by (subst find_and_delete_loop.simps)
        (auto simp: delete_here_stop [OF assms stop] chunks_stop Let_def split: prod.splits)
  next
    case (op c s)
    show ?case
    proof (cases "c = b")
      case True
      have "find_and_delete_loop b (b @ s) =
        (fst (find_and_delete_loop b s), Suc (snd (find_and_delete_loop b s)))"
        using delete_here_op [OF assms assms, of s]
        by (subst (1 2 3) find_and_delete_loop.simps) (auto simp: Let_def split: prod.splits)
      then show ?thesis using True op by (simp add: chunks_op)
    next
      case False
      obtain opc d where "GetOp2 (c @ s) = (True, opc, d, s)" using op(1) by (elim single_opE) blast
      then show ?thesis using False op delete_here_op [OF assms op(1), of s]
        by (subst find_and_delete_loop.simps) (simp add: Let_def chunks_op)
    qed
  qed
  then show ?thesis using ne by (simp add: FindAndDelete_def)
qed

subsection \<open>Counting signature operations\<close>

text \<open>The count as a function of the opcodes alone.\<close>

definition sigop_weight :: "bool \<Rightarrow> opcodetype \<Rightarrow> opcodetype \<Rightarrow> nat" where
  "sigop_weight acc lastop opcode =
     (if opcode = OP_CHECKSIG \<or> opcode = OP_CHECKSIGVERIFY then 1
      else if opcode = OP_CHECKMULTISIG \<or> opcode = OP_CHECKMULTISIGVERIFY then
        (if acc \<and> lastop \<ge> OP_1 \<and> lastop \<le> OP_16 then unat lastop - 80 else 20)
      else 0)"

fun sigops_of :: "bool \<Rightarrow> opcodetype \<Rightarrow> opcodetype list \<Rightarrow> nat" where
  "sigops_of acc lastop [] = 0"
| "sigops_of acc lastop (opcode # ops) = sigop_weight acc lastop opcode + sigops_of acc opcode ops"

lemma sigop_weight_le: "sigop_weight acc l opcode \<le> sigop_weight False l' opcode"
proof -
  have "l \<le> OP_16 \<Longrightarrow> unat l - 80 \<le> 20" by (simp add: word_le_nat_alt)
  then show ?thesis
    by (cases "opcode = OP_CHECKSIG \<or> opcode = OP_CHECKSIGVERIFY";
        cases "opcode = OP_CHECKMULTISIG \<or> opcode = OP_CHECKMULTISIGVERIFY")
      (simp_all add: sigop_weight_def)
qed

lemma sigop_weight_20: "sigop_weight acc l opcode \<le> 20"
  by (rule order_trans [OF sigop_weight_le [of _ _ _ l]]) (simp add: sigop_weight_def)

lemma sigops_of_le: "sigops_of acc l ops \<le> sigops_of False l' ops"
proof (induction ops arbitrary: l l')
  case (Cons opcode ops)
  show ?case
    using add_mono [OF sigop_weight_le [of acc l opcode l'] Cons.IH [of opcode opcode]] by simp
qed simp

lemma sigops_of_bound: "sigops_of acc l ops \<le> 20 * length ops"
proof (induction ops arbitrary: l)
  case (Cons opcode ops)
  show ?case using Cons.IH [of opcode] sigop_weight_20 [of acc l opcode] by simp
qed simp

lemma of_int_DecodeOP_N:
  assumes "l \<ge> OP_1" "l \<le> OP_16"
  shows "(of_int (the (DecodeOP_N l)) :: u32) = of_nat (unat l - 80)"
proof -
  have "l \<noteq> 0" "80 \<le> unat l" using assms by (auto simp: word_le_nat_alt)
  then have "the (DecodeOP_N l) = int (unat l - 80)"
    using assms by (simp add: DecodeOP_N_def of_nat_diff flip: uint_nat)
  then show ?thesis by simp
qed

lemma sigop_loop_op:
  assumes "single_op c"
  shows "sigop_loop acc l n (c @ s) = sigop_loop acc (hd c) (n + of_nat (sigop_weight acc l (hd c))) s"
proof -
  obtain op d where "GetOp2 c = (True, op, d, [])"
    using assms by (cases "GetOp2 c") (auto simp: single_op_def)
  from GetOp2_frame [OF this] have "c \<noteq> []" "GetOp2 (c @ s) = (True, hd c, d, s)" by auto
  then show ?thesis
    by (subst sigop_loop.simps) (simp add: sigop_weight_def of_int_DecodeOP_N)
qed

lemma sigop_loop_val: "sigop_loop acc l n s = n + of_nat (sigops_of acc l (map hd (fst (chunks s))))"
proof (induction s arbitrary: l n rule: script_op_induct)
  case (op c s)
  then show ?case by (simp add: sigop_loop_op chunks_op)
next
  case (stop s)
  then show ?case
    by (subst sigop_loop.simps) (auto simp: chunks_stop split: prod.splits)
qed

lemma chunks_length: "length (fst (chunks s)) \<le> length s"
proof (induction s rule: script_op_induct)
  case (op c s)
  then have "Suc 0 \<le> length c" by (cases c) auto
  with op show ?case by (simp add: chunks_op)
qed (simp add: chunks_stop)

lemma GetSigOpCount_val:
  assumes "20 * length s < 2 ^ 32"
  shows "unat (GetSigOpCount s acc) = sigops_of acc OP_INVALIDOPCODE (map hd (fst (chunks s)))"
proof -
  have "sigops_of acc OP_INVALIDOPCODE (map hd (fst (chunks s))) \<le> 20 * length s"
    using sigops_of_bound [of acc "OP_INVALIDOPCODE" "map hd (fst (chunks s))"] chunks_length [of s] by simp
  then show ?thesis using assms by (simp add: GetSigOpCount_def sigop_loop_val unat_of_nat)
qed

lemma GetSigOpCount_accurate_le:
  "20 * length s < 2 ^ 32 \<Longrightarrow> GetSigOpCount s True \<le> GetSigOpCount s False"
  by (simp add: word_le_nat_alt GetSigOpCount_val sigops_of_le)

subsection \<open>Templates\<close>

lemma single_op_byte: "op > OP_PUSHDATA4 \<Longrightarrow> single_op [op]"
  by (auto simp: single_op_def not_less)

lemma single_op_push_data: "length b < 2 ^ 32 \<Longrightarrow> single_op (push_data b)"
  using GetOp2_push_data [of b "[]"] by (auto simp: single_op_def)

lemma IsPayToScriptHash_iff:
  "IsPayToScriptHash s \<longleftrightarrow> (\<exists>h. length h = 20 \<and> s = OP_HASH160 # push_data h @ [OP_EQUAL])"
proof
  assume p: "IsPayToScriptHash s"
  then have l: "length s = 23" "s ! 0 = OP_HASH160" "s ! 1 = 0x14" "s ! 22 = OP_EQUAL"
    by (auto simp: IsPayToScriptHash_def)
  let ?h = "take 20 (drop 2 s)"
  have "s = s ! 0 # s ! 1 # ?h @ [s ! 22]"
  proof (rule nth_equalityI)
    show "length s = length (s ! 0 # s ! 1 # ?h @ [s ! 22])" using l by simp
  next
    fix i assume "i < length s"
    then have "i = 0 \<or> i = 1 \<or> (\<exists>j<20. i = Suc (Suc j)) \<or> i = 22" using l(1) by presburger
    then consider "i = 0" | "i = 1" | j where "i = Suc (Suc j)" "j < 20" | "i = 22" by blast
    then show "s ! i = (s ! 0 # s ! 1 # ?h @ [s ! 22]) ! i"
      using l by cases (simp_all add: nth_Cons' nth_append)
  qed
  moreover have "length ?h = 20" using l by simp
  ultimately have "s = OP_HASH160 # push_data ?h @ [OP_EQUAL]"
    using l by (simp add: push_data_def)
  then show "\<exists>h. length h = 20 \<and> s = OP_HASH160 # push_data h @ [OP_EQUAL]"
    using \<open>length ?h = 20\<close> by blast
next
  assume "\<exists>h. length h = 20 \<and> s = OP_HASH160 # push_data h @ [OP_EQUAL]"
  then show "IsPayToScriptHash s"
    by (auto simp: IsPayToScriptHash_def push_data_def nth_append)
qed

lemma IsPushOnly_op: "single_op c \<Longrightarrow> IsPushOnly (c @ s) \<longleftrightarrow> hd c \<le> OP_16 \<and> IsPushOnly s"
proof -
  assume "single_op c"
  then obtain op d where "GetOp2 c = (True, op, d, [])"
    by (cases "GetOp2 c") (auto simp: single_op_def)
  from GetOp2_frame [OF this] have "c \<noteq> []" "GetOp2 (c @ s) = (True, hd c, d, s)" by auto
  then show ?thesis by (subst IsPushOnly.simps) auto
qed

lemma IsPushOnly_chunks:
  "IsPushOnly s \<longleftrightarrow> snd (chunks s) = [] \<and> (\<forall>c \<in> set (fst (chunks s)). hd c \<le> OP_16)"
proof (induction s rule: script_op_induct)
  case (stop s)
  then show ?case by (subst IsPushOnly.simps) (auto simp: chunks_stop split: prod.splits)
qed (auto simp: IsPushOnly_op chunks_op)

definition pay_to_pubkey_hash :: "bytes \<Rightarrow> script" where
  "pay_to_pubkey_hash h = [OP_DUP, OP_HASH160] @ push_data h @ [OP_EQUALVERIFY, OP_CHECKSIG]"

lemma IsNormalPaymentScript_p2pkh:
  assumes "length h = 20" shows "IsNormalPaymentScript (pay_to_pubkey_hash h)"
proof -
  obtain op where g: "GetOp2 (push_data h @ [OP_EQUALVERIFY, OP_CHECKSIG]) =
    (True, op, h, [OP_EQUALVERIFY, OP_CHECKSIG])"
    using GetOp2_push_data [of h "[OP_EQUALVERIFY, OP_CHECKSIG]"] assms by auto
  have "normal_payment_loop (Suc (Suc 0)) (push_data h @ [OP_EQUALVERIFY, OP_CHECKSIG])"
    by (subst normal_payment_loop.simps, simp add: g, subst normal_payment_loop.simps, simp,
        subst normal_payment_loop.simps, simp, subst normal_payment_loop.simps, simp)
  moreover have "length (pay_to_pubkey_hash h) = 25"
    using assms by (simp add: pay_to_pubkey_hash_def push_data_def)
  ultimately show ?thesis
    unfolding IsNormalPaymentScript_def pay_to_pubkey_hash_def
    by (simp, subst normal_payment_loop.simps, simp, subst normal_payment_loop.simps, simp)
qed

end
