(* ===== verification/Transaction.thy ===== *)
theory Transaction
  imports Uint256 Serialize Script
begin

text \<open>
  Transactions and amounts: \<^verbatim>\<open>primitives/transaction.h\<close>, \<^verbatim>\<open>primitives/transaction.cpp\<close>,
  \<^verbatim>\<open>amount.h\<close>, \<^verbatim>\<open>amount.cpp\<close>. A \<^verbatim>\<open>uint256\<close> is its eight limbs, a \<^verbatim>\<open>CAmount\<close> the
  integer its \<^verbatim>\<open>int64_t\<close> holds, and an \<^verbatim>\<open>int32_t\<close> that is only stored and serialised
  its 32 bits. The cached hash of a \<^verbatim>\<open>CTransaction\<close> is computed, by a hash function that
  is an argument. \<^verbatim>\<open>prevPubKey\<close> and \<^verbatim>\<open>nRounds\<close>, which are neither serialised nor read by
  the modelled code, are left out.
\<close>

type_synonym uint256 = base_uint

definition int64_of :: "u64 \<Rightarrow> int" where "int64_of w = sint w"
definition wrap64 :: "int \<Rightarrow> int" where "wrap64 v = sint (word_of_int v :: u64)"

definition int64_range :: "int \<Rightarrow> bool" where
  "int64_range v \<longleftrightarrow> - (2 ^ 63) \<le> v \<and> v < 2 ^ 63"

subsection \<open>Amounts and fee rates\<close>

definition COIN :: int where "COIN = 100000000"
definition CENT :: int where "CENT = 1000000"

datatype CFeeRate = CFeeRate (nSatoshisPerK: int)

text \<open>
  In both functions the size is unsigned, so the product is multiplied and divided as an
  unsigned 64-bit number.
\<close>

definition CFeeRate_paid :: "int \<Rightarrow> u64 \<Rightarrow> CFeeRate" where
  "CFeeRate_paid nFeePaid nSize =
     (if nSize > 0 then CFeeRate (int64_of (word_of_int (nFeePaid * 1000) div nSize)) else CFeeRate 0)"

definition GetFee :: "CFeeRate \<Rightarrow> u64 \<Rightarrow> int" where
  "GetFee r nSize =
     (let nFee = int64_of (word_of_int (nSatoshisPerK r) * nSize div 1000)
      in if nFee = 0 \<and> nSatoshisPerK r > 0 then nSatoshisPerK r else nFee)"

definition GetFeePerK :: "CFeeRate \<Rightarrow> int" where
  "GetFeePerK r = GetFee r 1000"

instantiation CFeeRate :: linorder
begin

definition less_CFeeRate :: "CFeeRate \<Rightarrow> CFeeRate \<Rightarrow> bool" where
  "less_CFeeRate a b \<longleftrightarrow> nSatoshisPerK a < nSatoshisPerK b"

definition less_eq_CFeeRate :: "CFeeRate \<Rightarrow> CFeeRate \<Rightarrow> bool" where
  "less_eq_CFeeRate a b \<longleftrightarrow> nSatoshisPerK a \<le> nSatoshisPerK b"

instance
  by standard (auto simp: less_CFeeRate_def less_eq_CFeeRate_def CFeeRate.expand)

end

subsection \<open>Transactions\<close>

record COutPoint =
  op_hash :: uint256
  op_n :: u32

record CTxIn =
  prevout :: COutPoint
  scriptSig :: script
  nSequence :: u32

record CTxOut =
  nValue :: int
  scriptPubKey :: script

record CTransaction =
  tx_nVersion :: u32
  vin :: "CTxIn list"
  vout :: "CTxOut list"
  nLockTime :: u32

definition COutPoint_null :: COutPoint where
  "COutPoint_null = \<lparr>op_hash = bu_zero 8, op_n = -1\<rparr>"

definition COutPoint_IsNull :: "COutPoint \<Rightarrow> bool" where
  "COutPoint_IsNull p \<longleftrightarrow> bu_is_null (op_hash p) \<and> op_n p = -1"

definition COutPoint_less :: "COutPoint \<Rightarrow> COutPoint \<Rightarrow> bool" where
  "COutPoint_less a b \<longleftrightarrow>
     bu_compare (op_hash a) (op_hash b) < 0 \<or> (op_hash a = op_hash b \<and> op_n a < op_n b)"

definition CTxIn_IsFinal :: "CTxIn \<Rightarrow> bool" where
  "CTxIn_IsFinal i \<longleftrightarrow> nSequence i = 0xffffffff"

definition CTxOut_SetNull :: CTxOut where
  "CTxOut_SetNull = \<lparr>nValue = -1, scriptPubKey = []\<rparr>"

definition CTxOut_IsNull :: "CTxOut \<Rightarrow> bool" where
  "CTxOut_IsNull out \<longleftrightarrow> nValue out = -1"

definition CTxOut_IsEmpty :: "CTxOut \<Rightarrow> bool" where
  "CTxOut_IsEmpty out \<longleftrightarrow> nValue out = 0 \<and> scriptPubKey out = []"

definition CTransaction_IsNull :: "CTransaction \<Rightarrow> bool" where
  "CTransaction_IsNull tx \<longleftrightarrow> vin tx = [] \<and> vout tx = []"

definition IsCoinBase :: "CTransaction \<Rightarrow> bool" where
  "IsCoinBase tx \<longleftrightarrow> length (vin tx) = 1 \<and> COutPoint_IsNull (prevout (vin tx ! 0))"

definition IsCoinStake :: "CTransaction \<Rightarrow> bool" where
  "IsCoinStake tx \<longleftrightarrow> length (vin tx) > 0 \<and> \<not> COutPoint_IsNull (prevout (vin tx ! 0)) \<and>
     length (vout tx) \<ge> 2 \<and> CTxOut_IsEmpty (vout tx ! 0)"

definition IsMasternodeReward :: "COutPoint \<Rightarrow> CTransaction \<Rightarrow> bool" where
  "IsMasternodeReward p tx \<longleftrightarrow>
     (if \<not> IsCoinStake tx then False
      else unat (op_n p) = length (vout tx) - 1 \<and>
           scriptPubKey (vout tx ! 1) \<noteq> scriptPubKey (vout tx ! unat (op_n p)))"

text \<open>\<^verbatim>\<open>GetValueOut\<close>: the exception is one of two.\<close>

datatype value_error = Value_negative | Value_wraps

fun value_out_loop :: "int \<Rightarrow> CTxOut list \<Rightarrow> value_error + int" where
  "value_out_loop nValueOut [] = Inr nValueOut"
| "value_out_loop nValueOut (it # outs) =
     (if nValue it < 0 then Inl Value_negative
      else if wrap64 (nValueOut + nValue it) < nValueOut then Inl Value_wraps
      else value_out_loop (wrap64 (nValueOut + nValue it)) outs)"

definition GetValueOut :: "CTransaction \<Rightarrow> value_error + int" where
  "GetValueOut tx = value_out_loop 0 (vout tx)"

subsection \<open>Serialisation\<close>

definition ser_uint256 :: "uint256 \<Rightarrow> bytes" where "ser_uint256 h = bu_bytes h"

definition unser_uint256 :: "bytes \<Rightarrow> io_error + uint256 \<times> bytes" where
  "unser_uint256 s = rbind (read_bytes 32 s) (\<lambda>(b, s). Inr (bu_of_bytes b, s))"

definition ser_outpoint :: "COutPoint \<Rightarrow> bytes" where
  "ser_outpoint p = ser_uint256 (op_hash p) @ ser_word (op_n p)"

definition unser_outpoint :: "bytes \<Rightarrow> io_error + COutPoint \<times> bytes" where
  "unser_outpoint s =
     rbind (unser_uint256 s) (\<lambda>(h, s).
     rbind (unser_word s) (\<lambda>(n, s). Inr (\<lparr>op_hash = h, op_n = n\<rparr>, s)))"

definition ser_amount :: "int \<Rightarrow> bytes" where
  "ser_amount v = ser_word (word_of_int v :: u64)"

definition unser_amount :: "bytes \<Rightarrow> io_error + int \<times> bytes" where
  "unser_amount s = rbind (unser_word s) (\<lambda>(w, s). Inr (int64_of w, s))"

definition ser_txin :: "CTxIn \<Rightarrow> bytes" where
  "ser_txin i = ser_outpoint (prevout i) @ ser_bytes (scriptSig i) @ ser_word (nSequence i)"

definition unser_txin :: "bytes \<Rightarrow> io_error + CTxIn \<times> bytes" where
  "unser_txin s =
     rbind (unser_outpoint s) (\<lambda>(p, s).
     rbind (unser_bytes s) (\<lambda>(sc, s).
     rbind (unser_word s) (\<lambda>(q, s). Inr (\<lparr>prevout = p, scriptSig = sc, nSequence = q\<rparr>, s))))"

definition ser_txout :: "CTxOut \<Rightarrow> bytes" where
  "ser_txout out = ser_amount (nValue out) @ ser_bytes (scriptPubKey out)"

definition unser_txout :: "bytes \<Rightarrow> io_error + CTxOut \<times> bytes" where
  "unser_txout s =
     rbind (unser_amount s) (\<lambda>(v, s).
     rbind (unser_bytes s) (\<lambda>(sc, s). Inr (\<lparr>nValue = v, scriptPubKey = sc\<rparr>, s)))"

definition ser_tx :: "CTransaction \<Rightarrow> bytes" where
  "ser_tx tx = ser_word (tx_nVersion tx) @ ser_vector ser_txin (vin tx) @
     ser_vector ser_txout (vout tx) @ ser_word (nLockTime tx)"

definition unser_tx :: "bytes \<Rightarrow> io_error + CTransaction \<times> bytes" where
  "unser_tx s =
     rbind (unser_word s) (\<lambda>(ver, s).
     rbind (unser_vector unser_txin s) (\<lambda>(ins, s).
     rbind (unser_vector unser_txout s) (\<lambda>(outs, s).
     rbind (unser_word s) (\<lambda>(lock, s).
       Inr (\<lparr>tx_nVersion = ver, vin = ins, vout = outs, nLockTime = lock\<rparr>, s)))))"

definition size_txout :: "CTxOut \<Rightarrow> nat" where
  "size_txout out = 8 + size_bytes (scriptPubKey out)"

definition size_txin :: "CTxIn \<Rightarrow> nat" where
  "size_txin i = 36 + size_bytes (scriptSig i) + 4"

definition size_tx :: "CTransaction \<Rightarrow> nat" where
  "size_tx tx = 4 + size_vector size_txin (vin tx) + size_vector size_txout (vout tx) + 4"

definition IsDust :: "CFeeRate \<Rightarrow> CTxOut \<Rightarrow> bool" where
  "IsDust minRelayTxFee out \<longleftrightarrow>
     nValue out < 3 * GetFee minRelayTxFee (of_nat (size_txout out) + 148)"

fun modified_size_loop :: "u32 \<Rightarrow> CTxIn list \<Rightarrow> u32" where
  "modified_size_loop nTxSize [] = nTxSize"
| "modified_size_loop nTxSize (it # ins) =
     (let offset = 41 + min 110 (of_nat (length (scriptSig it)))
      in modified_size_loop (if nTxSize > offset then nTxSize - offset else nTxSize) ins)"

definition CalculateModifiedSize :: "CTransaction \<Rightarrow> u32 \<Rightarrow> u32" where
  "CalculateModifiedSize tx nTxSize =
     modified_size_loop (if nTxSize = 0 then of_nat (size_tx tx) else nTxSize) (vin tx)"

text \<open>The hash of a transaction, for the hash function of \<^verbatim>\<open>SerializeHash\<close>.\<close>

definition tx_GetHash :: "(bytes \<Rightarrow> bytes) \<Rightarrow> CTransaction \<Rightarrow> uint256" where
  "tx_GetHash Hash tx = bu_of_bytes (Hash (ser_tx tx))"

subsection \<open>Round trips\<close>

definition valid_outpoint :: "COutPoint \<Rightarrow> bool" where
  "valid_outpoint p \<longleftrightarrow> is_uint256 (op_hash p)"

definition valid_txin :: "CTxIn \<Rightarrow> bool" where
  "valid_txin i \<longleftrightarrow> valid_outpoint (prevout i) \<and> small (scriptSig i)"

definition valid_txout :: "CTxOut \<Rightarrow> bool" where
  "valid_txout out \<longleftrightarrow> int64_range (nValue out) \<and> small (scriptPubKey out)"

definition valid_tx :: "CTransaction \<Rightarrow> bool" where
  "valid_tx tx \<longleftrightarrow> small (vin tx) \<and> list_all valid_txin (vin tx) \<and>
     small (vout tx) \<and> list_all valid_txout (vout tx)"

lemma int64_of_word_of_int: "int64_range v \<Longrightarrow> int64_of (word_of_int v) = v"
  unfolding int64_of_def int64_range_def
  by (simp add: signed_of_int signed_take_bit_int_eq_self)

lemma wrap64_id: "int64_range v \<Longrightarrow> wrap64 v = v"
  using int64_of_word_of_int by (simp add: wrap64_def int64_of_def)

interpretation uint256: codec ser_uint256 unser_uint256 is_uint256
  by unfold_locales (simp add: ser_uint256_def unser_uint256_def bu_of_bytes_bu_bytes)

interpretation outpoint: codec ser_outpoint unser_outpoint valid_outpoint
  by unfold_locales
    (simp add: ser_outpoint_def unser_outpoint_def valid_outpoint_def uint256.unser_ser)

interpretation amount: codec ser_amount unser_amount int64_range
  by unfold_locales (simp add: ser_amount_def unser_amount_def int64_of_word_of_int)

interpretation txin: codec ser_txin unser_txin valid_txin
  by unfold_locales
    (simp add: ser_txin_def unser_txin_def valid_txin_def outpoint.unser_ser bytes.unser_ser)

interpretation txout: codec ser_txout unser_txout valid_txout
  by unfold_locales
    (simp add: ser_txout_def unser_txout_def valid_txout_def amount.unser_ser bytes.unser_ser)

interpretation txins: codec "ser_vector ser_txin" "unser_vector unser_txin"
  "\<lambda>v. small v \<and> list_all valid_txin v"
  by (rule txin.vector_codec)

interpretation txouts: codec "ser_vector ser_txout" "unser_vector unser_txout"
  "\<lambda>v. small v \<and> list_all valid_txout v"
  by (rule txout.vector_codec)

interpretation tx: codec ser_tx unser_tx valid_tx
  by unfold_locales
    (simp add: ser_tx_def unser_tx_def valid_tx_def txins.unser_ser txouts.unser_ser)

lemma size_txin_ok: "valid_txin i \<Longrightarrow> length (ser_txin i) = size_txin i"
  by (simp add: ser_txin_def size_txin_def ser_outpoint_def ser_uint256_def valid_txin_def valid_outpoint_def
      length_bu_bytes)

lemma size_txout_ok: "length (ser_txout out) = size_txout out"
  by (simp add: ser_txout_def size_txout_def ser_amount_def)

lemma size_tx_ok:
  assumes "valid_tx tx" shows "length (ser_tx tx) = size_tx tx"
proof -
  have "length (ser_vector ser_txin (vin tx)) = size_vector size_txin (vin tx)"
    using assms by (intro length_ser_vector size_txin_ok) (auto simp: valid_tx_def list_all_iff)
  moreover have "length (ser_vector ser_txout (vout tx)) = size_vector size_txout (vout tx)"
    by (intro length_ser_vector size_txout_ok)
  ultimately show ?thesis by (simp add: ser_tx_def size_tx_def)
qed

subsection \<open>The value of the outputs\<close>

lemma wrap64_over:
  assumes "2 ^ 63 \<le> v" "v < 2 ^ 64" shows "wrap64 v = v - 2 ^ 64"
proof -
  have "wrap64 v = wrap64 (v - 2 ^ 64)"
    unfolding wrap64_def by (rule arg_cong [where f = sint]) (simp add: word_of_int_eq_iff take_bit_eq_mod mod_diff_eq)
  also have "\<dots> = v - 2 ^ 64" using assms by (intro wrap64_id) (simp add: int64_range_def)
  finally show ?thesis .
qed

definition output_sum :: "CTxOut list \<Rightarrow> int" where
  "output_sum outs = sum_list (map nValue outs)"

lemma output_sum_simps [simp]:
  "output_sum [] = 0" "output_sum (x # xs) = nValue x + output_sum xs"
  "output_sum (xs @ ys) = output_sum xs + output_sum ys"
  by (simp_all add: output_sum_def)

lemma output_sum_nonneg: "\<forall>x \<in> set outs. 0 \<le> nValue x \<Longrightarrow> 0 \<le> output_sum outs"
  by (induction outs) auto

lemma value_out_loop_Inr:
  assumes "\<forall>x \<in> set outs. int64_range (nValue x)" "0 \<le> acc" "acc < 2 ^ 63"
  shows "value_out_loop acc outs = Inr t \<longleftrightarrow>
    (\<forall>x \<in> set outs. 0 \<le> nValue x) \<and> acc + output_sum outs < 2 ^ 63 \<and> t = acc + output_sum outs"
  using assms
proof (induction outs arbitrary: acc)
  case (Cons x xs)
  show ?case
  proof (cases "0 \<le> nValue x")
    case nonneg: True
    show ?thesis
    proof (cases "acc + nValue x < 2 ^ 63")
      case True
      then have "wrap64 (acc + nValue x) = acc + nValue x"
        using Cons.prems nonneg by (intro wrap64_id) (simp add: int64_range_def)
      then show ?thesis using Cons nonneg True by (auto simp: algebra_simps)
    next
      case False
      have "nValue x < 2 ^ 63" using Cons.prems by (simp add: int64_range_def)
      then have "wrap64 (acc + nValue x) = acc + nValue x - 2 ^ 64"
        using False Cons.prems by (intro wrap64_over) auto
      moreover have "\<forall>x \<in> set xs. 0 \<le> nValue x \<Longrightarrow> \<not> acc + output_sum (x # xs) < 2 ^ 63"
        using False output_sum_nonneg [of xs] by simp
      ultimately show ?thesis using \<open>nValue x < 2 ^ 63\<close> nonneg by auto
    qed
  qed auto
qed auto

theorem GetValueOut_exact:
  assumes "\<forall>out \<in> set (vout tx). int64_range (nValue out)"
  shows "GetValueOut tx = Inr t \<longleftrightarrow>
    (\<forall>out \<in> set (vout tx). 0 \<le> nValue out) \<and> output_sum (vout tx) < 2 ^ 63 \<and> t = output_sum (vout tx)"
  unfolding GetValueOut_def using value_out_loop_Inr [OF assms, of 0 t] by simp

subsection \<open>Fees\<close>

lemma GetFee_val:
  assumes "0 \<le> r" "r * int (unat n) < 2 ^ 63"
  shows "GetFee (CFeeRate r) n =
    (if r * int (unat n) div 1000 = 0 \<and> r > 0 then r else r * int (unat n) div 1000)"
proof -
  obtain k where k: "r = int k" using assms(1) by (metis nonneg_int_cases)
  have p: "k * unat n < 2 ^ 63"
  proof -
    have "int (k * unat n) < int (2 ^ 63)" using assms(2) by (simp add: k)
    then show ?thesis by (simp only: of_nat_less_iff)
  qed
  have "unat (of_nat k * n :: u64) = k * unat n mod 2 ^ 64"
    by (simp add: unat_word_ariths unat_of_nat mod_mult_left_eq)
  also have "\<dots> = k * unat n" using p by (intro mod_less) (erule less_trans, simp)
  finally have "unat ((of_nat k * n) div 1000 :: u64) = k * unat n div 1000" by (simp add: unat_div)
  moreover have "k * unat n div 1000 < 2 ^ 63" using p div_le_dividend order_le_less_trans by blast
  ultimately have "int64_of ((of_nat k * n) div 1000) = int (k * unat n div 1000)"
    unfolding int64_of_def by (subst sint_small) simp_all
  then have "int64_of (word_of_int r * n div 1000) = r * int (unat n) div 1000"
    by (simp add: k zdiv_int)
  then show ?thesis by (simp add: GetFee_def Let_def)
qed

end
