(* ===== verification/Block.thy ===== *)
theory Block
  imports Transaction
begin

text \<open>
  Blocks (\<^verbatim>\<open>primitives/block.h\<close>, \<^verbatim>\<open>primitives/block.cpp\<close>): headers, their hash, the form on
  the wire, and the merkle tree with its branches. The hash functions are arguments: \<open>Quark\<close>
  of a header and \<open>Hash\<close> of a byte string. The members that exist in memory only are left out.
\<close>

subsection \<open>Headers and blocks\<close>

definition MAX_BLOCK_SIZE :: nat where "MAX_BLOCK_SIZE = 1000000"

record CBlockHeader =
  bh_nVersion :: u32
  hashPrevBlock :: uint256
  hashMerkleRoot :: uint256
  bh_nTime :: u32
  bh_nBits :: u32
  bh_nNonce :: u32

record CBlock = CBlockHeader +
  vtx :: "CTransaction list"
  vchBlockSig :: bytes

definition CBlockHeader_IsNull :: "'a CBlockHeader_scheme \<Rightarrow> bool" where
  "CBlockHeader_IsNull b \<longleftrightarrow> bh_nBits b = 0"

definition GetBlockTime :: "'a CBlockHeader_scheme \<Rightarrow> int" where
  "GetBlockTime b = uint (bh_nTime b)"

definition IsProofOfStake :: "CBlock \<Rightarrow> bool" where
  "IsProofOfStake b \<longleftrightarrow> length (vtx b) > 1 \<and> IsCoinStake (vtx b ! 1)"

definition IsProofOfWork :: "CBlock \<Rightarrow> bool" where
  "IsProofOfWork b \<longleftrightarrow> \<not> IsProofOfStake b"

definition GetProofOfStake :: "CBlock \<Rightarrow> COutPoint \<times> u32" where
  "GetProofOfStake b =
     (if IsProofOfStake b then (prevout (vin (vtx b ! 1) ! 0), bh_nTime b) else (COutPoint_null, 0))"

definition ser_header :: "'a CBlockHeader_scheme \<Rightarrow> bytes" where
  "ser_header b = ser_word (bh_nVersion b) @ ser_uint256 (hashPrevBlock b) @ ser_uint256 (hashMerkleRoot b) @
     ser_word (bh_nTime b) @ ser_word (bh_nBits b) @ ser_word (bh_nNonce b)"

definition unser_header :: "bytes \<Rightarrow> io_error + CBlockHeader \<times> bytes" where
  "unser_header s =
     rbind (unser_word s) (\<lambda>(ver, s).
     rbind (unser_uint256 s) (\<lambda>(prev, s).
     rbind (unser_uint256 s) (\<lambda>(root, s).
     rbind (unser_word s) (\<lambda>(time, s).
     rbind (unser_word s) (\<lambda>(bits, s).
     rbind (unser_word s) (\<lambda>(nonce, s).
       Inr (\<lparr>bh_nVersion = ver, hashPrevBlock = prev, hashMerkleRoot = root,
             bh_nTime = time, bh_nBits = bits, bh_nNonce = nonce\<rparr>, s)))))))"

definition GetBlockHeader :: "CBlock \<Rightarrow> CBlockHeader" where
  "GetBlockHeader b = \<lparr>bh_nVersion = bh_nVersion b, hashPrevBlock = hashPrevBlock b,
     hashMerkleRoot = hashMerkleRoot b, bh_nTime = bh_nTime b, bh_nBits = bh_nBits b, bh_nNonce = bh_nNonce b\<rparr>"

text \<open>The bytes from \<^verbatim>\<open>nVersion\<close> to \<^verbatim>\<open>nNonce\<close> in memory are those of the serialised header.\<close>

definition CBlockHeader_GetHash :: "(bytes \<Rightarrow> bytes) \<Rightarrow> 'a CBlockHeader_scheme \<Rightarrow> uint256" where
  "CBlockHeader_GetHash Quark b = bu_of_bytes (Quark (ser_header b))"

definition ser_block :: "CBlock \<Rightarrow> bytes" where
  "ser_block b = ser_header b @ ser_vector ser_tx (vtx b) @
     (if length (vtx b) > 1 \<and> IsCoinStake (vtx b ! 1) then ser_bytes (vchBlockSig b) else [])"

definition unser_block :: "bytes \<Rightarrow> io_error + CBlock \<times> bytes" where
  "unser_block s =
     rbind (unser_header s) (\<lambda>(h, s).
     rbind (unser_vector unser_tx s) (\<lambda>(txs, s).
     rbind (if length txs > 1 \<and> IsCoinStake (txs ! 1) then unser_bytes s else Inr ([], s)) (\<lambda>(sig, s).
       Inr (CBlockHeader.extend h (CBlock.fields txs sig), s))))"

subsection \<open>The merkle tree\<close>

definition hash_pair :: "(bytes \<Rightarrow> bytes) \<Rightarrow> uint256 \<Rightarrow> uint256 \<Rightarrow> uint256" where
  "hash_pair Hash a b = bu_of_bytes (Hash (bu_bytes a @ bu_bytes b))"

text \<open>
  The inner loop over \<^verbatim>\<open>i\<close> and the outer loop over \<^verbatim>\<open>nSize\<close> of \<^verbatim>\<open>BuildMerkleTree\<close>: the tree
  built so far, the offset \<^verbatim>\<open>j\<close> of the level, its size, and the mutation flag.
\<close>

function merkle_level ::
  "(uint256 \<Rightarrow> uint256 \<Rightarrow> uint256) \<Rightarrow> nat \<Rightarrow> nat \<Rightarrow> nat \<Rightarrow> uint256 list \<times> bool \<Rightarrow> uint256 list \<times> bool" where
  "merkle_level H j nSize i (vMerkleTree, mutated) =
     (if i < nSize then
        let i2 = min (i + 1) (nSize - 1);
            mutated = (if i2 = i + 1 \<and> i2 + 1 = nSize \<and> vMerkleTree ! (j + i) = vMerkleTree ! (j + i2)
                       then True else mutated)
        in merkle_level H j nSize (i + 2)
             (vMerkleTree @ [H (vMerkleTree ! (j + i)) (vMerkleTree ! (j + i2))], mutated)
      else (vMerkleTree, mutated))"
  by pat_completeness auto
termination by (relation "measure (\<lambda>(_, _, nSize, i, _). nSize - i)") auto

function merkle_loop ::
  "(uint256 \<Rightarrow> uint256 \<Rightarrow> uint256) \<Rightarrow> nat \<Rightarrow> nat \<Rightarrow> uint256 list \<times> bool \<Rightarrow> uint256 list \<times> bool" where
  "merkle_loop H j nSize tm =
     (if nSize > 1 then merkle_loop H (j + nSize) ((nSize + 1) div 2) (merkle_level H j nSize 0 tm) else tm)"
  by pat_completeness auto
termination by (relation "measure (\<lambda>(_, _, nSize, _). nSize)") auto

declare merkle_level.simps [simp del] merkle_loop.simps [simp del]

definition merkle_tree :: "(uint256 \<Rightarrow> uint256 \<Rightarrow> uint256) \<Rightarrow> uint256 list \<Rightarrow> uint256 list \<times> bool" where
  "merkle_tree H txids = merkle_loop H 0 (length txids) (txids, False)"

text \<open>The tree, the flag and the root, for the hashes of the transactions.\<close>

definition BuildMerkleTree ::
  "(bytes \<Rightarrow> bytes) \<Rightarrow> CBlock \<Rightarrow> uint256 list \<times> bool \<times> uint256" where
  "BuildMerkleTree Hash b =
     (let (vMerkleTree, mutated) = merkle_tree (hash_pair Hash) (map (tx_GetHash Hash) (vtx b))
      in (vMerkleTree, mutated, if vMerkleTree = [] then bu_zero 8 else last vMerkleTree))"

function merkle_branch :: "uint256 list \<Rightarrow> nat \<Rightarrow> nat \<Rightarrow> nat \<Rightarrow> uint256 list" where
  "merkle_branch vMerkleTree j nSize nIndex =
     (if nSize > 1 then
        let i = min (nIndex XOR 1) (nSize - 1)
        in vMerkleTree ! (j + i) # merkle_branch vMerkleTree (j + nSize) ((nSize + 1) div 2) (drop_bit 1 nIndex)
      else [])"
  by pat_completeness auto
termination by (relation "measure (\<lambda>(_, _, nSize, _). nSize)") auto

declare merkle_branch.simps [simp del]

definition GetMerkleBranch :: "(bytes \<Rightarrow> bytes) \<Rightarrow> CBlock \<Rightarrow> nat \<Rightarrow> uint256 list" where
  "GetMerkleBranch Hash b nIndex =
     merkle_branch (fst (BuildMerkleTree Hash b)) 0 (length (vtx b)) nIndex"

fun check_branch :: "(uint256 \<Rightarrow> uint256 \<Rightarrow> uint256) \<Rightarrow> uint256 \<Rightarrow> uint256 list \<Rightarrow> int \<Rightarrow> uint256" where
  "check_branch H hash [] nIndex = hash"
| "check_branch H hash (it # its) nIndex =
     check_branch H (if nIndex AND 1 \<noteq> 0 then H it hash else H hash it) its (drop_bit 1 nIndex)"

definition CheckMerkleBranch :: "(bytes \<Rightarrow> bytes) \<Rightarrow> uint256 \<Rightarrow> uint256 list \<Rightarrow> int \<Rightarrow> uint256" where
  "CheckMerkleBranch Hash hash vMerkleBranch nIndex =
     (if nIndex = - 1 then bu_zero 8 else check_branch (hash_pair Hash) hash vMerkleBranch nIndex)"

subsection \<open>Round trips\<close>

definition valid_header :: "'a CBlockHeader_scheme \<Rightarrow> bool" where
  "valid_header b \<longleftrightarrow> is_uint256 (hashPrevBlock b) \<and> is_uint256 (hashMerkleRoot b)"

definition valid_block :: "CBlock \<Rightarrow> bool" where
  "valid_block b \<longleftrightarrow> valid_header b \<and> small (vtx b) \<and> list_all valid_tx (vtx b) \<and>
     (if IsProofOfStake b then small (vchBlockSig b) else vchBlockSig b = [])"

interpretation block_txs: codec "ser_vector ser_tx" "unser_vector unser_tx"
  "\<lambda>v. small v \<and> list_all valid_tx v"
  by (rule tx.vector_codec)

lemma unser_header_ser: "valid_header b \<Longrightarrow> unser_header (ser_header b @ s) = Inr (CBlockHeader.truncate b, s)"
  by (simp add: ser_header_def unser_header_def valid_header_def uint256.unser_ser CBlockHeader.truncate_def)

interpretation header: codec ser_header unser_header "valid_header :: CBlockHeader \<Rightarrow> bool"
  by unfold_locales (simp add: unser_header_ser CBlockHeader.truncate_def)

interpretation block: codec ser_block unser_block valid_block
proof
  fix b s assume v: "valid_block b"
  have "CBlockHeader.extend (CBlockHeader.truncate b) (CBlock.fields (vtx b) (vchBlockSig b)) = b"
    by (simp add: CBlockHeader.extend_def CBlockHeader.truncate_def CBlock.fields_def)
  moreover have "IsProofOfStake b \<longleftrightarrow> Suc 0 < length (vtx b) \<and> IsCoinStake (vtx b ! Suc 0)"
    by (simp add: IsProofOfStake_def)
  ultimately show "unser_block (ser_block b @ s) = Inr (b, s)"
    using v by (auto simp: ser_block_def unser_block_def valid_block_def unser_header_ser
        block_txs.unser_ser bytes.unser_ser)
qed

subsection \<open>Levels of the tree\<close>

fun level_up :: "(uint256 \<Rightarrow> uint256 \<Rightarrow> uint256) \<Rightarrow> uint256 list \<Rightarrow> uint256 list" where
  "level_up H [] = []"
| "level_up H [a] = [H a a]"
| "level_up H (a # b # xs) = H a b # level_up H xs"

lemma length_level_up [simp]: "length (level_up H L) = (length L + 1) div 2"
  by (induction H L rule: level_up.induct) auto

lemma level_up_Nil [simp]: "level_up H L = [] \<longleftrightarrow> L = []"
  by (cases "(H, L)" rule: level_up.cases) auto

definition equal_end :: "uint256 list \<Rightarrow> bool" where
  "equal_end L \<longleftrightarrow> L \<noteq> [] \<and> even (length L) \<and> L ! (length L - 2) = last L"

function levels :: "(uint256 \<Rightarrow> uint256 \<Rightarrow> uint256) \<Rightarrow> uint256 list \<Rightarrow> uint256 list list" where
  "levels H L = (if length L > 1 then L # levels H (level_up H L) else [L])"
  by pat_completeness auto
termination by (relation "measure (\<lambda>(_, L). length L)") auto

declare levels.simps [simp del]

lemma equal_end_Cons2: "equal_end (a # b # xs) \<longleftrightarrow> (if xs = [] then a = b else equal_end xs)"
proof (cases xs)
  case (Cons c ys)
  then show ?thesis by (cases ys) (auto simp: equal_end_def)
qed (simp add: equal_end_def)

lemma merkle_level_val:
  assumes "length P = j" "length L = n"
  shows "merkle_level H j n i (P @ L @ Q, m) = (P @ L @ Q @ level_up H (drop i L), m \<or> equal_end (drop i L))"
proof (induction "n - i" arbitrary: i Q m rule: less_induct)
  case less
  show ?case
  proof (cases "i < n")
    case False
    then show ?thesis using assms by (simp add: merkle_level.simps equal_end_def)
  next
    case True
    have nth: "k < n \<Longrightarrow> (P @ L @ Q) ! (j + k) = L ! k" for k using assms by (simp add: nth_append)
    have d: "drop i L = L ! i # drop (i + 1) L" using True assms by (simp add: Cons_nth_drop_Suc)
    show ?thesis
    proof (cases "i + 1 < n")
      case False
      then have i: "n = i + 1" using True by simp
      then have e: "drop (i + 1) L = []" using assms by simp
      show ?thesis
        unfolding merkle_level.simps [of H j n i] d e
        using less [of "i + 2" "Q @ [H (L ! i) (L ! i)]"] True i nth [OF True] assms
        by (simp add: equal_end_def)
    next
      case more: True
      have d2: "drop (i + 1) L = L ! (i + 1) # drop (i + 2) L" using more assms by (simp add: Cons_nth_drop_Suc)
      have e: "drop (i + 2) L = [] \<longleftrightarrow> i + 2 = n" using more assms by auto
      have b: "min (i + 1) (n - 1) = i + 1" using more by simp
      show ?thesis
        unfolding merkle_level.simps [of H j n i] Let_def b d d2 level_up.simps equal_end_Cons2 e nth [OF True] nth [OF more]
        using less [of "i + 2" "Q @ [H (L ! i) (L ! (i + 1))]"] True more assms
        by (auto simp: equal_end_def)
    qed
  qed
qed

lemma merkle_loop_val:
  assumes "length P = j"
  shows "merkle_loop H j (length L) (P @ L, m) =
    (P @ concat (levels H L), m \<or> (\<exists>l \<in> set (levels H L). length l > 1 \<and> equal_end l))"
  using assms
proof (induction H L arbitrary: P j m rule: levels.induct)
  case (1 H L)
  show ?case
  proof (cases "length L > 1")
    case True
    have "merkle_level H j (length L) 0 (P @ L, m) = ((P @ L) @ level_up H L, m \<or> equal_end L)"
      using merkle_level_val [OF 1(2) refl, where i = 0 and Q = "[]"] by simp
    then have "merkle_loop H j (length L) (P @ L, m) =
        merkle_loop H (j + length L) (length (level_up H L)) ((P @ L) @ level_up H L, m \<or> equal_end L)"
      using True by (simp add: merkle_loop.simps [of H j])
    also have "\<dots> = ((P @ L) @ concat (levels H (level_up H L)),
        (m \<or> equal_end L) \<or> (\<exists>l \<in> set (levels H (level_up H L)). length l > 1 \<and> equal_end l))"
      using 1(2) by (intro 1(1) True) simp
    finally show ?thesis using True by (auto simp: levels.simps [of H L])
  next
    case False
    then show ?thesis by (simp add: merkle_loop.simps levels.simps [of H L])
  qed
qed


lemma merkle_tree_val:
  "merkle_tree H L = (concat (levels H L), \<exists>l \<in> set (levels H L). length l > 1 \<and> equal_end l)"
  using merkle_loop_val [of "[]" 0 H L False] by (simp add: merkle_tree_def)

subsection \<open>Branches\<close>

function merkle_root :: "(uint256 \<Rightarrow> uint256 \<Rightarrow> uint256) \<Rightarrow> uint256 list \<Rightarrow> uint256" where
  "merkle_root H L = (if length L > 1 then merkle_root H (level_up H L) else if L = [] then bu_zero 8 else hd L)"
  by pat_completeness auto
termination by (relation "measure (\<lambda>(_, L). length L)") auto

declare merkle_root.simps [simp del]

lemma levels_Nil: "concat (levels H L) = [] \<longleftrightarrow> L = []"
  by (subst levels.simps) auto

lemma last_levels: "L \<noteq> [] \<Longrightarrow> last (concat (levels H L)) = merkle_root H L"
proof (induction H L rule: levels.induct)
  case (1 H L)
  show ?case
  proof (cases "length L > 1")
    case True
    then have n: "level_up H L \<noteq> []" by auto
    have "last (concat (levels H L)) = last (concat (levels H (level_up H L)))"
      using True n levels_Nil [of H "level_up H L"] by (subst levels.simps) simp
    then show ?thesis using 1 True n by (simp add: merkle_root.simps [of H L])
  next
    case False
    then show ?thesis using 1(2) by (cases L) (auto simp: levels.simps [of H "[_]"] merkle_root.simps [of H "[_]"])
  qed
qed

lemma BuildMerkleTree_root:
  "snd (snd (BuildMerkleTree Hash b)) = merkle_root (hash_pair Hash) (map (tx_GetHash Hash) (vtx b))"
  using last_levels [of "map (tx_GetHash Hash) (vtx b)" "hash_pair Hash"]
    levels_Nil [of "hash_pair Hash" "map (tx_GetHash Hash) (vtx b)"]
  by (auto simp: BuildMerkleTree_def merkle_tree_val merkle_root.simps [of _ "[]"])

lemma nth_level_up: "i < length L \<Longrightarrow>
  level_up H L ! (i div 2) = (if even i then H (L ! i) (L ! min (i + 1) (length L - 1)) else H (L ! (i - 1)) (L ! i))"
proof (induction H L arbitrary: i rule: level_up.induct)
  case (3 H a b xs)
  show ?case
  proof (cases "i < 2")
    case True
    then consider "i = 0" | "i = 1" by linarith
    then show ?thesis by cases simp_all
  next
    case False
    then obtain k where k: "i = k + 2" by (metis add.commute le_add_diff_inverse not_less)
    then have "k < length xs" using 3(2) by simp
    then show ?thesis using 3(1) [of k] unfolding k
      by (cases "even k") (auto simp: nth_Cons' min_def)
  qed
qed auto

lemma xor_1: "(i :: nat) XOR 1 = (if even i then i + 1 else i - 1)"
  unfolding xor_one_eq by simp

lemma check_branch_levels:
  assumes "length P = j" "i < length L"
  shows "check_branch H (L ! i) (merkle_branch (P @ concat (levels H L) @ Q) j (length L) i) (int i) = merkle_root H L"
  using assms
proof (induction H L arbitrary: P j i rule: levels.induct)
  case (1 H L)
  show ?case
  proof (cases "length L > 1")
    case True
    let ?T = "P @ concat (levels H L) @ Q"
    have T: "?T = (P @ L) @ concat (levels H (level_up H L)) @ Q" using True by (simp add: levels.simps [of H L])
    have sib: "?T ! (j + min (i XOR 1) (length L - 1)) = L ! min (i XOR 1) (length L - 1)"
    proof -
      have "min (i XOR 1) (length L - 1) < length L" using True by simp
      then show ?thesis unfolding T using 1(2) by (simp add: nth_append)
    qed
    have up: "(if int i AND 1 \<noteq> 0 then H (L ! min (i XOR 1) (length L - 1)) (L ! i)
        else H (L ! i) (L ! min (i XOR 1) (length L - 1))) = level_up H L ! (i div 2)"
      unfolding nth_level_up [OF 1(3)] xor_1 using 1(3) by (auto simp: and_one_eq min_def odd_iff_mod_2_eq_one)
    have i2: "i div 2 < length (level_up H L)" using 1(3) by simp
    have "check_branch H (L ! i) (merkle_branch ?T j (length L) i) (int i) =
        check_branch H (level_up H L ! (i div 2))
          (merkle_branch ((P @ L) @ concat (levels H (level_up H L)) @ Q) (j + length L) (length (level_up H L)) (i div 2)) (int (i div 2))"
      unfolding T [symmetric] merkle_branch.simps [of ?T j] Let_def sib up [symmetric]
      using True by (simp add: drop_bit_eq_div zdiv_int)
    also have "\<dots> = merkle_root H (level_up H L)"
      using 1(2) by (intro 1(1) True i2) simp
    finally show ?thesis using True by (simp add: merkle_root.simps [of H L])
  next
    case False
    then have "length L = 1" "i = 0" using 1(3) by auto
    then show ?thesis by (cases L) (auto simp: merkle_branch.simps merkle_root.simps)
  qed
qed

theorem CheckMerkleBranch_GetMerkleBranch:
  assumes "i < length (vtx b)"
  shows "CheckMerkleBranch Hash (tx_GetHash Hash (vtx b ! i)) (GetMerkleBranch Hash b i) (int i) =
    snd (snd (BuildMerkleTree Hash b))"
  using check_branch_levels [of "[]" 0 i "map (tx_GetHash Hash) (vtx b)" "hash_pair Hash" "[]"] assms
  by (simp add: CheckMerkleBranch_def GetMerkleBranch_def BuildMerkleTree_root)
    (simp add: BuildMerkleTree_def merkle_tree_val)

subsection \<open>What the root commits to\<close>

fun pairs_of :: "uint256 list \<Rightarrow> (uint256 \<times> uint256) list" where
  "pairs_of [] = []"
| "pairs_of [a] = [(a, a)]"
| "pairs_of (a # b # xs) = (a, b) # pairs_of xs"

lemma level_up_pairs: "level_up H L = map (\<lambda>(a, b). H a b) (pairs_of L)"
  by (induction L rule: pairs_of.induct) auto

lemma pairs_of_eq: "pairs_of L = pairs_of L' \<Longrightarrow> L = L' \<or> equal_end L \<or> equal_end L'"
proof (induction L arbitrary: L' rule: pairs_of.induct)
  case 1
  then show ?case by (cases L' rule: pairs_of.cases) auto
next
  case (2 a)
  show ?case
  proof (cases L' rule: pairs_of.cases)
    case (3 x y ys)
    then have "pairs_of ys = []" "x = y" using 2 by auto
    then have "ys = []" by (cases ys rule: pairs_of.cases) auto
    then show ?thesis using 3 \<open>x = y\<close> by (simp add: equal_end_def)
  qed (use 2 in auto)
next
  case (3 a b xs)
  show ?case
  proof (cases L' rule: pairs_of.cases)
    case (2 x)
    then have "pairs_of xs = []" "a = b" using 3(2) by auto
    then have "xs = []" by (cases xs rule: pairs_of.cases) auto
    then show ?thesis using \<open>a = b\<close> by (simp add: equal_end_def)
  next
    case l: (3 x y ys)
    then have "xs = ys \<or> equal_end xs \<or> equal_end ys" using 3 by simp
    moreover have "xs = [] \<longleftrightarrow> ys = []"
      using l 3(2) by (cases xs rule: pairs_of.cases; cases ys rule: pairs_of.cases; simp)
    ultimately show ?thesis using l 3(2) by (auto simp: equal_end_Cons2)
  qed (use 3 in simp)
qed

definition hashed_pairs :: "(uint256 \<Rightarrow> uint256 \<Rightarrow> uint256) \<Rightarrow> uint256 list \<Rightarrow> (uint256 \<times> uint256) set" where
  "hashed_pairs H L = (\<Union>l \<in> {l \<in> set (levels H L). length l > 1}. set (pairs_of l))"

lemma hashed_pairs_up:
  "length L > 1 \<Longrightarrow> hashed_pairs H L = set (pairs_of L) \<union> hashed_pairs H (level_up H L)"
  by (auto simp: hashed_pairs_def levels.simps [of H L])

definition mutated :: "(uint256 \<Rightarrow> uint256 \<Rightarrow> uint256) \<Rightarrow> uint256 list \<Rightarrow> bool" where
  "mutated H L \<longleftrightarrow> (\<exists>l \<in> set (levels H L). length l > 1 \<and> equal_end l)"

lemma mutated_up: "length L > 1 \<Longrightarrow> mutated H L \<longleftrightarrow> equal_end L \<or> mutated H (level_up H L)"
  by (auto simp: mutated_def levels.simps [of H L])

lemma BuildMerkleTree_mutated:
  "fst (snd (BuildMerkleTree Hash b)) = mutated (hash_pair Hash) (map (tx_GetHash Hash) (vtx b))"
  by (simp add: BuildMerkleTree_def merkle_tree_val mutated_def)

lemma length_levels: "length (levels H L) = (if length L > 1 then Suc (length (levels H (level_up H L))) else 1)"
  by (subst levels.simps) simp

lemma levels_single: "length (levels H L) = 1 \<longleftrightarrow> \<not> length L > 1"
proof -
  have "levels H (level_up H L) \<noteq> []" by (subst levels.simps) simp
  then show ?thesis unfolding length_levels [of H L] by simp
qed

text \<open>Two lists of the same height with one root and no collision among their hashes: equal, unless one is flagged.\<close>

lemma merkle_root_inject:
  assumes "L \<noteq> []" "L' \<noteq> []" "length (levels H L) = length (levels H L')" "merkle_root H L = merkle_root H L'"
    and "inj_on (\<lambda>(a, b). H a b) (hashed_pairs H L \<union> hashed_pairs H L')"
  shows "L = L' \<or> mutated H L \<or> mutated H L'"
  using assms
proof (induction H L arbitrary: L' rule: levels.induct)
  case (1 H L)
  show ?case
  proof (cases "length L > 1")
    case True
    then have l': "length L' > 1" using 1(4) levels_single [of H L] levels_single [of H L'] by simp
    have "level_up H L = level_up H L' \<or> mutated H (level_up H L) \<or> mutated H (level_up H L')"
    proof (rule 1(1) [OF True])
      show "length (levels H (level_up H L)) = length (levels H (level_up H L'))"
        using 1(4) True l' by (simp add: length_levels [of H L] length_levels [of H L'])
      show "merkle_root H (level_up H L) = merkle_root H (level_up H L')"
        using 1(5) True l' by (simp add: merkle_root.simps [of H L] merkle_root.simps [of H L'])
      show "inj_on (\<lambda>(a, b). H a b) (hashed_pairs H (level_up H L) \<union> hashed_pairs H (level_up H L'))"
        by (rule inj_on_subset [OF 1(6)]) (auto simp: hashed_pairs_up [OF True] hashed_pairs_up [OF l'])
    qed (use 1(2,3) in simp_all)
    moreover have "L = L' \<or> equal_end L \<or> equal_end L'" if "level_up H L = level_up H L'"
    proof (rule pairs_of_eq, rule map_inj_on)
      show "map (\<lambda>(a, b). H a b) (pairs_of L) = map (\<lambda>(a, b). H a b) (pairs_of L')"
        using that by (simp only: level_up_pairs)
      show "inj_on (\<lambda>(a, b). H a b) (set (pairs_of L) \<union> set (pairs_of L'))"
        by (rule inj_on_subset [OF 1(6)]) (auto simp: hashed_pairs_up [OF True] hashed_pairs_up [OF l'])
    qed
    ultimately show ?thesis by (auto simp: mutated_up [OF True] mutated_up [OF l'])
  next
    case False
    then have "\<not> length L' > 1" using 1(4) levels_single [of H L] levels_single [of H L'] by simp
    with False obtain a b where "L = [a]" "L' = [b]" using 1(2,3) by (cases L; cases L') auto
    moreover have "merkle_root H [x] = x" for x by (subst merkle_root.simps) simp
    ultimately show ?thesis using 1(5) by simp
  qed
qed

end
