(* ===== verification/Merkle_Block.thy ===== *)
theory Merkle_Block
  imports Block
begin

text \<open>
  Partial merkle trees, \<^verbatim>\<open>merkleblock.h\<close> and \<^verbatim>\<open>merkleblock.cpp\<close>: building one from a selection
  of the transactions, its bytes, and extracting the selection again. The counters stay far
  below 32 bits (a tree of more than 16666 transactions is refused), so they are naturals.
\<close>

record CPartialMerkleTree =
  nTransactions :: nat
  vBits :: "bool list"
  vHash :: "uint256 list"
  fBad :: bool

definition CalcTreeWidth :: "nat \<Rightarrow> nat \<Rightarrow> nat" where
  "CalcTreeWidth n height = (n + 2 ^ height - 1) div 2 ^ height"

fun CalcHash :: "(uint256 \<Rightarrow> uint256 \<Rightarrow> uint256) \<Rightarrow> uint256 list \<Rightarrow> nat \<Rightarrow> nat \<Rightarrow> uint256" where
  "CalcHash H vTxid 0 pos = vTxid ! pos"
| "CalcHash H vTxid (Suc height) pos =
     (let left = CalcHash H vTxid height (pos * 2);
          right = (if pos * 2 + 1 < CalcTreeWidth (length vTxid) height
                   then CalcHash H vTxid height (pos * 2 + 1) else left)
      in H left right)"

definition parent_of_match :: "bool list \<Rightarrow> nat \<Rightarrow> nat \<Rightarrow> nat \<Rightarrow> bool" where
  "parent_of_match vMatch n height pos =
     list_ex (\<lambda>p. vMatch ! p) (filter (\<lambda>p. p < n) [pos * 2 ^ height..<(pos + 1) * 2 ^ height])"

text \<open>The bits and hashes a call appends.\<close>

fun TraverseAndBuild ::
  "(uint256 \<Rightarrow> uint256 \<Rightarrow> uint256) \<Rightarrow> uint256 list \<Rightarrow> bool list \<Rightarrow> nat \<Rightarrow> nat \<Rightarrow> bool list \<times> uint256 list" where
  "TraverseAndBuild H vTxid vMatch 0 pos =
     ([parent_of_match vMatch (length vTxid) 0 pos], [CalcHash H vTxid 0 pos])"
| "TraverseAndBuild H vTxid vMatch (Suc height) pos =
     (let fParentOfMatch = parent_of_match vMatch (length vTxid) (Suc height) pos in
      if \<not> fParentOfMatch then ([fParentOfMatch], [CalcHash H vTxid (Suc height) pos])
      else let (b1, h1) = TraverseAndBuild H vTxid vMatch height (pos * 2);
               (b2, h2) = (if pos * 2 + 1 < CalcTreeWidth (length vTxid) height
                           then TraverseAndBuild H vTxid vMatch height (pos * 2 + 1) else ([], []))
           in (fParentOfMatch # b1 @ b2, h1 @ h2))"

text \<open>The counters, the matches found and the failure flag.\<close>

record extraction =
  nBitsUsed :: nat
  nHashUsed :: nat
  matches :: "uint256 list"
  bad :: bool

definition use_hash ::
  "CPartialMerkleTree \<Rightarrow> nat \<Rightarrow> bool \<Rightarrow> extraction \<Rightarrow> uint256 \<times> extraction" where
  "use_hash t height fParentOfMatch x =
     (if nHashUsed x \<ge> length (vHash t) then (bu_zero 8, x\<lparr>bad := True\<rparr>)
      else let hash = vHash t ! nHashUsed x; x = x\<lparr>nHashUsed := nHashUsed x + 1\<rparr>
           in (hash, if height = 0 \<and> fParentOfMatch then x\<lparr>matches := matches x @ [hash]\<rparr> else x))"

fun TraverseAndExtract ::
  "(uint256 \<Rightarrow> uint256 \<Rightarrow> uint256) \<Rightarrow> CPartialMerkleTree \<Rightarrow> nat \<Rightarrow> nat \<Rightarrow> extraction \<Rightarrow> uint256 \<times> extraction" where
  "TraverseAndExtract H t 0 pos x =
     (if nBitsUsed x \<ge> length (vBits t) then (bu_zero 8, x\<lparr>bad := True\<rparr>)
      else use_hash t 0 (vBits t ! nBitsUsed x) (x\<lparr>nBitsUsed := nBitsUsed x + 1\<rparr>))"
| "TraverseAndExtract H t (Suc height) pos x =
     (if nBitsUsed x \<ge> length (vBits t) then (bu_zero 8, x\<lparr>bad := True\<rparr>)
      else let fParentOfMatch = vBits t ! nBitsUsed x; x = x\<lparr>nBitsUsed := nBitsUsed x + 1\<rparr> in
        if \<not> fParentOfMatch then use_hash t (Suc height) fParentOfMatch x
        else let (left, x) = TraverseAndExtract H t height (pos * 2) x;
                 (right, x) = (if pos * 2 + 1 < CalcTreeWidth (nTransactions t) height
                               then TraverseAndExtract H t height (pos * 2 + 1) x else (left, x))
             in (H left right, x))"

function tree_height :: "nat \<Rightarrow> nat \<Rightarrow> nat" where
  "tree_height n nHeight = (if CalcTreeWidth n nHeight > 1 then tree_height n (nHeight + 1) else nHeight)"
  by pat_completeness auto
termination
proof (relation "measure (\<lambda>(n, h). n - h)")
  fix n h assume "CalcTreeWidth n h > 1"
  then have "2 \<le> (n + 2 ^ h - 1) div 2 ^ h" by (simp add: CalcTreeWidth_def)
  then have "2 * 2 ^ h \<le> n + 2 ^ h - 1" by (simp add: less_eq_div_iff_mult_less_eq)
  moreover have "(0 :: nat) < 2 ^ h" by simp
  ultimately have "2 ^ h < n" by linarith
  moreover have "h < 2 ^ h" by (rule less_exp)
  ultimately have "h < n" by linarith
  then show "((n, h + 1), n, h) \<in> measure (\<lambda>(n, h). n - h)" by simp
qed simp

declare tree_height.simps [simp del]

definition new_partial_tree ::
  "(uint256 \<Rightarrow> uint256 \<Rightarrow> uint256) \<Rightarrow> uint256 list \<Rightarrow> bool list \<Rightarrow> CPartialMerkleTree" where
  "new_partial_tree H vTxid vMatch =
     (let (bits, hashes) = TraverseAndBuild H vTxid vMatch (tree_height (length vTxid) 0) 0
      in \<lparr>nTransactions = length vTxid, vBits = bits, vHash = hashes, fBad = False\<rparr>)"

text \<open>The root, zero for a bad tree, and the matches.\<close>

definition ExtractMatches ::
  "(uint256 \<Rightarrow> uint256 \<Rightarrow> uint256) \<Rightarrow> CPartialMerkleTree \<Rightarrow> uint256 \<times> uint256 list" where
  "ExtractMatches H t =
     (if nTransactions t = 0 then (bu_zero 8, [])
      else if nTransactions t > MAX_BLOCK_SIZE div 60 then (bu_zero 8, [])
      else if length (vHash t) > nTransactions t then (bu_zero 8, [])
      else if length (vBits t) < length (vHash t) then (bu_zero 8, [])
      else let (root, x) = TraverseAndExtract H t (tree_height (nTransactions t) 0) 0
                 \<lparr>nBitsUsed = 0, nHashUsed = 0, matches = [], bad = fBad t\<rparr>
           in (if bad x then bu_zero 8
               else if (nBitsUsed x + 7) div 8 \<noteq> (length (vBits t) + 7) div 8 then bu_zero 8
               else if nHashUsed x \<noteq> length (vHash t) then bu_zero 8
               else root, matches x))"

subsection \<open>The bytes of a partial tree\<close>

definition pack_byte :: "bool list \<Rightarrow> byte" where
  "pack_byte bs = fold (\<lambda>p ch. ch OR (if p < length bs \<and> bs ! p then push_bit p 1 else 0)) [0..<8] 0"

definition pack_bits :: "bool list \<Rightarrow> bytes" where
  "pack_bits bs = map (\<lambda>k. pack_byte (drop (8 * k) bs)) [0..<(length bs + 7) div 8]"

definition unpack_bits :: "bytes \<Rightarrow> bool list" where
  "unpack_bits vBytes = map (\<lambda>p. vBytes ! (p div 8) AND push_bit (p mod 8) 1 \<noteq> 0) [0..<length vBytes * 8]"

definition ser_partial_tree :: "CPartialMerkleTree \<Rightarrow> bytes" where
  "ser_partial_tree t = ser_word (of_nat (nTransactions t) :: u32) @ ser_vector ser_uint256 (vHash t) @
     ser_bytes (pack_bits (vBits t))"

definition unser_partial_tree :: "bytes \<Rightarrow> io_error + CPartialMerkleTree \<times> bytes" where
  "unser_partial_tree s =
     rbind (unser_word s) (\<lambda>(n :: u32, s).
     rbind (unser_vector unser_uint256 s) (\<lambda>(hs, s).
     rbind (unser_bytes s) (\<lambda>(vBytes, s).
       Inr (\<lparr>nTransactions = unat n, vBits = unpack_bits vBytes, vHash = hs, fBad = False\<rparr>, s))))"

subsection \<open>The tree of a block\<close>

lemma width_0 [simp]: "CalcTreeWidth n 0 = n"
  by (simp add: CalcTreeWidth_def)

lemma width_iff: "pos < CalcTreeWidth n h \<longleftrightarrow> pos * 2 ^ h < n"
proof -
  have p: "(0 :: nat) < 2 ^ h" by simp
  have "pos < CalcTreeWidth n h \<longleftrightarrow> Suc pos \<le> (n + 2 ^ h - 1) div 2 ^ h" by (simp add: CalcTreeWidth_def Suc_le_eq)
  also have "\<dots> \<longleftrightarrow> Suc pos * 2 ^ h \<le> n + 2 ^ h - 1" by (rule less_eq_div_iff_mult_less_eq [OF p])
  also have "\<dots> \<longleftrightarrow> pos * 2 ^ h < n" using p by (simp only: mult_Suc) linarith
  finally show ?thesis .
qed

lemma width_Suc: "CalcTreeWidth n (Suc h) = (CalcTreeWidth n h + 1) div 2"
proof (rule antisym)
  have e: "(pos < CalcTreeWidth n (Suc h)) = (pos < (CalcTreeWidth n h + 1) div 2)" for pos
  proof -
    have "pos < (CalcTreeWidth n h + 1) div 2 \<longleftrightarrow> pos * 2 < CalcTreeWidth n h" by linarith
    then show ?thesis by (simp add: width_iff mult.assoc)
  qed
  show "CalcTreeWidth n (Suc h) \<le> (CalcTreeWidth n h + 1) div 2" using e by (meson not_less order_refl)
  show "(CalcTreeWidth n h + 1) div 2 \<le> CalcTreeWidth n (Suc h)" using e by (meson not_less order_refl)
qed

lemma length_levels_up: "length ((level_up H ^^ h) L) = CalcTreeWidth (length L) h"
  by (induction h) (simp_all add: width_Suc)

lemma CalcHash_level: "pos < CalcTreeWidth (length L) h \<Longrightarrow> CalcHash H L h pos = (level_up H ^^ h) L ! pos"
proof (induction h arbitrary: pos)
  case (Suc h)
  let ?M = "(level_up H ^^ h) L"
  have w: "pos * 2 < CalcTreeWidth (length L) h" using Suc.prems by (simp add: width_iff mult.assoc)
  have "level_up H ?M ! (pos * 2 div 2) = H (?M ! (pos * 2)) (?M ! min (pos * 2 + 1) (length ?M - 1))"
    using nth_level_up [of "pos * 2" ?M H] w by (simp add: length_levels_up)
  moreover have "min (pos * 2 + 1) (length ?M - 1) = (if pos * 2 + 1 < CalcTreeWidth (length L) h then pos * 2 + 1 else pos * 2)"
    using w by (auto simp: length_levels_up min_def)
  ultimately show ?case using Suc.IH [OF w] Suc.IH [of "pos * 2 + 1"] by (simp add: Let_def)
qed simp

lemma merkle_root_single [simp]: "merkle_root H [x] = x"
  by (subst merkle_root.simps) simp

lemma tree_height_root:
  "length L > 0 \<Longrightarrow> CalcHash H L (tree_height (length L) h) 0 = merkle_root H ((level_up H ^^ h) L)"
proof (induction "length L" h rule: tree_height.induct)
  case (1 h)
  let ?M = "(level_up H ^^ h) L"
  have l: "length ?M = CalcTreeWidth (length L) h" by (rule length_levels_up)
  show ?case
  proof (cases "CalcTreeWidth (length L) h > 1")
    case True
    then show ?thesis using 1 l by (simp add: tree_height.simps [of _ h] merkle_root.simps [of H ?M])
  next
    case False
    have "0 < CalcTreeWidth (length L) h" using 1(2) by (simp add: width_iff)
    then have "length ?M = 1" "0 < CalcTreeWidth (length L) h" using False l by simp_all
    then show ?thesis using False CalcHash_level [of 0 L h H]
      by (cases ?M) (simp_all add: tree_height.simps [of _ h])
  qed
qed

lemma CalcHash_root: "L \<noteq> [] \<Longrightarrow> CalcHash H L (tree_height (length L) 0) 0 = merkle_root H L"
  using tree_height_root [of L H 0] by simp

lemma tree_height_width: "CalcTreeWidth n (tree_height n h) \<le> 1"
  by (induction n h rule: tree_height.induct) (subst tree_height.simps, auto)

subsection \<open>Extraction inverts building\<close>

text \<open>The leaves below a node.\<close>

definition leaves :: "nat \<Rightarrow> nat \<Rightarrow> nat \<Rightarrow> nat list" where
  "leaves n h pos = filter (\<lambda>p. p < n) [pos * 2 ^ h..<(pos + 1) * 2 ^ h]"

lemma leaves_Suc: "leaves n (Suc h) pos = leaves n h (pos * 2) @ leaves n h (pos * 2 + 1)"
proof -
  let ?a = "(pos * 2) * 2 ^ h" and ?b = "(pos * 2 + 1) * 2 ^ h"
  have "pos * 2 ^ Suc h = ?a" "(pos + 1) * 2 ^ Suc h = ?b + 2 ^ h" "(pos * 2 + 1 + 1) * 2 ^ h = ?b + 2 ^ h"
    by (simp_all add: algebra_simps)
  moreover have "[?a..<?b + 2 ^ h] = [?a..<?b] @ [?b..<?b + 2 ^ h]" by (rule upt_add_eq_append) simp
  ultimately show ?thesis by (simp only: leaves_def filter_append)
qed

lemma leaves_empty: "\<not> pos < CalcTreeWidth n h \<Longrightarrow> leaves n h pos = []"
  by (auto simp: leaves_def width_iff filter_empty_conv)

lemma leaves_0: "leaves n 0 pos = (if pos < n then [pos] else [])"
  by (simp add: leaves_def)

lemma leaves_nonempty: "pos < CalcTreeWidth n h \<Longrightarrow> leaves n h pos \<noteq> []"
  by (auto simp: leaves_def width_iff filter_empty_conv intro: bexI [of _ "pos * 2 ^ h"])

lemma parent_of_match_leaves: "parent_of_match m n h pos \<longleftrightarrow> (\<exists>p \<in> set (leaves n h pos). m ! p)"
  by (auto simp: parent_of_match_def leaves_def list_ex_iff)

lemma leaves_top: "CalcTreeWidth n h \<le> 1 \<Longrightarrow> leaves n h 0 = [0..<n]"
proof -
  assume "CalcTreeWidth n h \<le> 1"
  then have "\<not> 1 < CalcTreeWidth n h" by simp
  then have n: "n \<le> 2 ^ h" by (simp add: width_iff)
  have "leaves n h 0 = filter (\<lambda>p. p < n) ([0..<n] @ [n..<2 ^ h])"
    using n upt_add_eq_append [of 0 n "2 ^ h - n"] by (simp add: leaves_def)
  also have "\<dots> = [0..<n]" by (simp add: filter_empty_conv)
  finally show ?thesis .
qed

definition selected :: "uint256 list \<Rightarrow> bool list \<Rightarrow> nat list \<Rightarrow> uint256 list" where
  "selected vTxid m ps = map (\<lambda>p. vTxid ! p) (filter (\<lambda>p. m ! p) ps)"

lemma build_counts:
  assumes "TraverseAndBuild H L m h pos = (bits, hashes)" "pos < CalcTreeWidth (length L) h"
  shows "length hashes \<le> length (leaves (length L) h pos) \<and> length hashes \<le> length bits"
  using assms
proof (induction H L m h pos arbitrary: bits hashes rule: TraverseAndBuild.induct)
  case (1 H L m pos)
  then show ?case by (auto simp: leaves_0)
next
  case (2 H L m h pos)
  obtain b1 h1 where t1: "TraverseAndBuild H L m h (pos * 2) = (b1, h1)" by fastforce
  obtain b2 h2 where t2: "(if pos * 2 + 1 < CalcTreeWidth (length L) h
      then TraverseAndBuild H L m h (pos * 2 + 1) else ([], [])) = (b2, h2)" by fastforce
  have w: "pos * 2 < CalcTreeWidth (length L) h" using 2(4) by (simp add: width_iff mult.assoc)
  show ?case
  proof (cases "parent_of_match m (length L) (Suc h) pos")
    case False
    then show ?thesis using 2(3) leaves_nonempty [OF 2(4)] by (auto simp: Suc_le_eq)
  next
    case True
    have r: "bits = True # b1 @ b2" "hashes = h1 @ h2" using 2(3) True t1 t2 by (simp_all add: Let_def)
    have i1: "length h1 \<le> length (leaves (length L) h (pos * 2)) \<and> length h1 \<le> length b1"
      by (rule 2(1) [OF refl _ t1 w]) (simp add: True)
    have i2: "length h2 \<le> length (leaves (length L) h (pos * 2 + 1)) \<and> length h2 \<le> length b2"
    proof (cases "pos * 2 + 1 < CalcTreeWidth (length L) h")
      case v: True
      then show ?thesis using 2(2) [OF refl _ t1 [symmetric] refl v _ v] t2 True by simp
    qed (use t2 in simp)
    show ?thesis using i1 i2 by (simp add: r leaves_Suc)
  qed
qed

lemma drop_hd:
  assumes "drop k xs = y # ys" shows "k < length xs" "xs ! k = y" "drop (Suc k) xs = ys"
proof -
  show "k < length xs" using assms by (cases "k < length xs") auto
  then have "xs ! k # drop (Suc k) xs = y # ys" using assms by (simp add: Cons_nth_drop_Suc)
  then show "xs ! k = y" "drop (Suc k) xs = ys" by auto
qed

lemma use_hash_drop:
  assumes "drop (nHashUsed x) (vHash t) = v # H1"
  shows "use_hash t h f x = (v, x\<lparr>nHashUsed := Suc (nHashUsed x), matches := (if h = 0 \<and> f then matches x @ [v] else matches x)\<rparr>)"
  using drop_hd [OF assms] by (simp add: use_hash_def Let_def)

lemma drop_append_add: "drop k xs = ys @ zs \<Longrightarrow> drop (k + length ys) xs = zs"
  by (metis add.commute append_eq_conv_conj drop_drop)

lemma selected_none: "\<not> (\<exists>p \<in> set ps. m ! p) \<Longrightarrow> selected L m ps = []"
  by (auto simp: selected_def filter_empty_conv)

lemma selected_append: "selected L m (ps @ qs) = selected L m ps @ selected L m qs"
  by (simp add: selected_def)

lemma extract_build:
  assumes "TraverseAndBuild H L m h pos = (bits, hashes)" "pos < CalcTreeWidth (length L) h" "nTransactions t = length L"
    and "drop (nBitsUsed x) (vBits t) = bits @ B1" "drop (nHashUsed x) (vHash t) = hashes @ H1"
  shows "TraverseAndExtract H t h pos x =
    (CalcHash H L h pos, x\<lparr>nBitsUsed := nBitsUsed x + length bits, nHashUsed := nHashUsed x + length hashes,
       matches := matches x @ selected L m (leaves (length L) h pos)\<rparr>)"
  using assms
proof (induction H L m h pos arbitrary: bits hashes x B1 H1 rule: TraverseAndBuild.induct)
  case (1 H L m pos)
  have "pos < length L" using 1(2) by simp
  have f: "parent_of_match m (length L) 0 pos = m ! pos" using \<open>pos < length L\<close> by (simp add: parent_of_match_leaves leaves_0)
  have bh: "bits = [m ! pos]" "hashes = [L ! pos]" using 1(1) f by simp_all
  note b = drop_hd [OF 1(4) [unfolded bh, simplified]]
  have h: "drop (nHashUsed (x\<lparr>nBitsUsed := nBitsUsed x + 1\<rparr>)) (vHash t) = L ! pos # H1" using 1(5) bh by simp
  show ?case using b use_hash_drop [OF h, of 0 "m ! pos"] \<open>pos < length L\<close>
    by (simp add: bh leaves_0 selected_def)
next
  case (2 H L m h pos)
  obtain b1 h1 where t1: "TraverseAndBuild H L m h (pos * 2) = (b1, h1)" by fastforce
  obtain b2 h2 where t2: "(if pos * 2 + 1 < CalcTreeWidth (length L) h
      then TraverseAndBuild H L m h (pos * 2 + 1) else ([], [])) = (b2, h2)" by fastforce
  have w: "pos * 2 < CalcTreeWidth (length L) h" using 2(4) by (simp add: width_iff mult.assoc)
  show ?case
  proof (cases "parent_of_match m (length L) (Suc h) pos")
    case False
    then have bh: "bits = [False]" "hashes = [CalcHash H L (Suc h) pos]" using 2(3) by (simp_all add: Let_def)
    note b = drop_hd [OF 2(6) [unfolded bh append_Cons]]
    have "drop (nHashUsed (x\<lparr>nBitsUsed := nBitsUsed x + 1\<rparr>)) (vHash t) = CalcHash H L (Suc h) pos # H1"
      using 2(7) bh by simp
    from use_hash_drop [OF this, of "Suc h" False] b False show ?thesis
      by (simp add: bh parent_of_match_leaves selected_none del: CalcHash.simps)
  next
    case True
    have bh: "bits = True # b1 @ b2" "hashes = h1 @ h2" using 2(3) True t1 t2 by (simp_all add: Let_def)
    note b = drop_hd [OF 2(6) [unfolded bh append_Cons]]
    let ?x = "x\<lparr>nBitsUsed := nBitsUsed x + 1\<rparr>"
    let ?x1 = "?x\<lparr>nBitsUsed := nBitsUsed ?x + length b1, nHashUsed := nHashUsed ?x + length h1,
       matches := matches ?x @ selected L m (leaves (length L) h (pos * 2))\<rparr>"
    have d1: "drop (nBitsUsed ?x) (vBits t) = b1 @ b2 @ B1" "drop (nHashUsed ?x) (vHash t) = h1 @ h2 @ H1"
      using b(3) 2(7) bh by simp_all
    have e1: "TraverseAndExtract H t h (pos * 2) ?x = (CalcHash H L h (pos * 2), ?x1)"
      by (rule 2(1) [OF refl _ t1 w 2(5) d1]) (simp add: True)
    have d2: "drop (nBitsUsed ?x1) (vBits t) = b2 @ B1" "drop (nHashUsed ?x1) (vHash t) = h2 @ H1"
      using drop_append_add [OF d1(1)] drop_append_add [OF d1(2)] by simp_all
    show ?thesis
    proof (cases "pos * 2 + 1 < CalcTreeWidth (length L) h")
      case v: True
      then have t3: "TraverseAndBuild H L m h (pos * 2 + 1) = (b2, h2)" using t2 by simp
      have "TraverseAndExtract H t h (pos * 2 + 1) ?x1 = (CalcHash H L h (pos * 2 + 1),
          ?x1\<lparr>nBitsUsed := nBitsUsed ?x1 + length b2, nHashUsed := nHashUsed ?x1 + length h2,
             matches := matches ?x1 @ selected L m (leaves (length L) h (pos * 2 + 1))\<rparr>)"
        by (rule 2(2) [OF refl _ t1 [symmetric] refl v t3 v 2(5) d2]) (simp add: True)
      then show ?thesis using b(1,2) e1 v 2(5)
        by (simp add: bh Let_def leaves_Suc selected_append add.assoc)
    next
      case v: False
      then have "b2 = []" "h2 = []" using t2 by simp_all
      then show ?thesis using b(1,2) e1 v 2(5) leaves_empty [OF v]
        by (simp add: bh Let_def leaves_Suc selected_append)
    qed
  qed
qed

text \<open>
  Extraction from a tree that was built for a block, with the padding bits its bytes may add,
  gives the merkle root of the block and the chosen transactions in order.
\<close>

theorem ExtractMatches_new_partial_tree:
  assumes "L \<noteq> []" "length L \<le> MAX_BLOCK_SIZE div 60"
    and "vBits t = vBits (new_partial_tree H L m) @ pad" "(length (vBits t) + 7) div 8 = (length (vBits (new_partial_tree H L m)) + 7) div 8"
    and "nTransactions t = length L" "vHash t = vHash (new_partial_tree H L m)" "\<not> fBad t"
  shows "ExtractMatches H t = (merkle_root H L, selected L m [0..<length L])"
proof -
  let ?h = "tree_height (length L) 0"
  obtain bits hashes where b: "TraverseAndBuild H L m ?h 0 = (bits, hashes)" by fastforce
  have n: "vBits (new_partial_tree H L m) = bits" "vHash (new_partial_tree H L m) = hashes"
    using b by (simp_all add: new_partial_tree_def)
  have w: "0 < CalcTreeWidth (length L) ?h" using assms(1) by (simp add: width_iff)
  have top: "leaves (length L) ?h 0 = [0..<length L]" by (rule leaves_top [OF tree_height_width])
  have c: "length hashes \<le> length L" "length hashes \<le> length bits"
    using build_counts [OF b w] unfolding top by simp_all
  let ?x = "\<lparr>nBitsUsed = 0, nHashUsed = 0, matches = [], bad = fBad t\<rparr>"
  have "TraverseAndExtract H t ?h 0 ?x = (CalcHash H L ?h 0, ?x\<lparr>nBitsUsed := nBitsUsed ?x + length bits,
      nHashUsed := nHashUsed ?x + length hashes, matches := matches ?x @ selected L m [0..<length L]\<rparr>)"
    unfolding top [symmetric]
    by (rule extract_build [OF b w assms(5)]) (use assms n in simp_all)
  then show ?thesis
    using assms c n CalcHash_root [OF assms(1)] by (simp add: ExtractMatches_def Let_def)
qed

lemma bit_pack_byte: "bit (pack_byte bs) i \<longleftrightarrow> i < 8 \<and> i < length bs \<and> bs ! i"
proof -
  have "bit (fold (\<lambda>p ch. ch OR (if p < length bs \<and> bs ! p then push_bit p 1 else 0)) [0..<n] (0 :: byte)) i \<longleftrightarrow>
      i < n \<and> i < length bs \<and> bs ! i" if "n \<le> 8" for n
    using that
  proof (induction n)
    case (Suc n)
    have b: "bit (push_bit n 1 :: byte) i \<longleftrightarrow> i = n" using Suc.prems by (auto simp: bit_exp_iff)
    show ?case using Suc b by (auto simp: bit_or_iff less_Suc_eq)
  qed simp
  from this [of 8] show ?thesis unfolding pack_byte_def by simp
qed

lemma unpack_pack: "unpack_bits (pack_bits bs) = bs @ replicate (8 * ((length bs + 7) div 8) - length bs) False"
proof (rule nth_equalityI)
  have le: "length bs \<le> 8 * ((length bs + 7) div 8)" by linarith
  show "length (unpack_bits (pack_bits bs)) = length (bs @ replicate (8 * ((length bs + 7) div 8) - length bs) False)"
    using le by (simp add: unpack_bits_def pack_bits_def)
  fix p assume "p < length (unpack_bits (pack_bits bs))"
  then have p: "p < 8 * ((length bs + 7) div 8)" by (simp add: unpack_bits_def pack_bits_def)
  then have q: "p div 8 < (length bs + 7) div 8" by (simp add: less_mult_imp_div_less mult.commute)
  have e: "(x :: byte) AND push_bit k 1 \<noteq> 0 \<longleftrightarrow> bit x k" for x k
    using and_exp_eq_0_iff_not_bit [of x k] by (simp add: push_bit_eq_mult)
  have "unpack_bits (pack_bits bs) ! p = bit (pack_byte (drop (8 * (p div 8)) bs)) (p mod 8)"
    using p q unfolding unpack_bits_def pack_bits_def e by (simp add: mult.commute)
  also have "\<dots> \<longleftrightarrow> p < length bs \<and> bs ! p"
  proof -
    have "p mod 8 < length (drop (8 * (p div 8)) bs) \<longleftrightarrow> p < length bs"
      using mult_div_mod_eq [of 8 p] unfolding length_drop by linarith
    then show ?thesis unfolding bit_pack_byte by (auto simp: nth_drop)
  qed
  also have "\<dots> \<longleftrightarrow> (bs @ replicate (8 * ((length bs + 7) div 8) - length bs) False) ! p"
    using p le by (simp add: nth_append)
  finally show "unpack_bits (pack_bits bs) ! p = (bs @ replicate (8 * ((length bs + 7) div 8) - length bs) False) ! p" .
qed

interpretation hashes: codec "ser_vector ser_uint256" "unser_vector unser_uint256" "\<lambda>v. small v \<and> list_all is_uint256 v"
  by (rule uint256.vector_codec)

lemma length_pack_bits [simp]: "length (pack_bits bs) = (length bs + 7) div 8"
  by (simp add: pack_bits_def)

theorem unser_partial_tree_ser:
  assumes "nTransactions t < 2 ^ 32" "small (vHash t)" "list_all is_uint256 (vHash t)" "small (pack_bits (vBits t))" "\<not> fBad t"
  shows "\<exists>pad. unser_partial_tree (ser_partial_tree t @ s) = Inr (t\<lparr>vBits := vBits t @ pad\<rparr>, s) \<and>
    (length (vBits t @ pad) + 7) div 8 = (length (vBits t) + 7) div 8"
proof (intro exI conjI)
  let ?pad = "replicate (8 * ((length (vBits t) + 7) div 8) - length (vBits t)) False"
  have "unat (of_nat (nTransactions t) :: u32) = nTransactions t" using assms(1) by (simp add: unat_of_nat)
  then show "unser_partial_tree (ser_partial_tree t @ s) = Inr (t\<lparr>vBits := vBits t @ ?pad\<rparr>, s)"
    using assms by (simp add: ser_partial_tree_def unser_partial_tree_def hashes.unser_ser bytes.unser_ser unpack_pack)
  show "(length (vBits t @ ?pad) + 7) div 8 = (length (vBits t) + 7) div 8" by simp
qed

text \<open>A block's selection survives the network: built, sent, received, extracted.\<close>

theorem partial_tree_over_the_wire:
  assumes "txids \<noteq> []" "length txids \<le> MAX_BLOCK_SIZE div 60" "list_all is_uint256 txids"
    and "list_all is_uint256 (vHash (new_partial_tree H txids m))"
    and "length (vBits (new_partial_tree H txids m)) < 2 ^ 20"
  shows "\<exists>t. unser_partial_tree (ser_partial_tree (new_partial_tree H txids m) @ s) = Inr (t, s) \<and>
    ExtractMatches H t = (merkle_root H txids, selected txids m [0..<length txids])"
proof -
  let ?t = "new_partial_tree H txids m"
  obtain bits hs where b: "TraverseAndBuild H txids m (tree_height (length txids) 0) 0 = (bits, hs)" by fastforce
  have t: "nTransactions ?t = length txids" "\<not> fBad ?t" "vHash ?t = hs" using b by (simp_all add: new_partial_tree_def)
  have w: "0 < CalcTreeWidth (length txids) (tree_height (length txids) 0)" using assms(1) by (simp add: width_iff)
  have "length hs \<le> length txids" using build_counts [OF b w] leaves_top [OF tree_height_width] by simp
  then have s: "small (vHash ?t)" "small (pack_bits (vBits ?t))" "nTransactions ?t < 2 ^ 32"
    using assms(2,5) t by (simp_all add: small_def MAX_SIZE_def MAX_BLOCK_SIZE_def)
  from unser_partial_tree_ser [OF s(3,1) assms(4) s(2) t(2), of s] obtain pad where
    p: "unser_partial_tree (ser_partial_tree ?t @ s) = Inr (?t\<lparr>vBits := vBits ?t @ pad\<rparr>, s)"
      "(length (vBits ?t @ pad) + 7) div 8 = (length (vBits ?t) + 7) div 8" by blast
  have "ExtractMatches H (?t\<lparr>vBits := vBits ?t @ pad\<rparr>) = (merkle_root H txids, selected txids m [0..<length txids])"
    by (rule ExtractMatches_new_partial_tree [OF assms(1,2), where m = m and pad = pad]) (use p(2) t in simp_all)
  with p(1) show ?thesis by blast
qed

end
