(* ===== verification/Double.thy ===== *)
theory Double
  imports Prelude
begin

text \<open>
  The double precision arithmetic of the reward code (IEEE 754, rounding to nearest, ties to even),
  for values that are not negative and far from the ends of the exponent range. A \<open>double\<close> is a
  numerator over a power of two; \<open>round53\<close> keeps the 53 leading bits of a numerator.
\<close>

subsection \<open>Operations\<close>

fun bit_length :: "nat \<Rightarrow> nat" where
  "bit_length n = (if n = 0 then 0 else Suc (bit_length (n div 2)))"

declare bit_length.simps [simp del]

definition round_shift :: "nat \<Rightarrow> nat \<Rightarrow> nat" where
  "round_shift s p =
     (let q = p div 2 ^ s; r = p mod 2 ^ s
      in if 2 ^ s < 2 * r \<or> (2 ^ s = 2 * r \<and> odd q) then q + 1 else q)"

definition round53 :: "nat \<Rightarrow> nat" where
  "round53 p = (let s = bit_length p - 53 in 2 ^ s * round_shift s p)"

definition round_double :: "int \<Rightarrow> int" where
  "round_double p = sgn p * int (round53 (nat \<bar>p\<bar>))"

type_synonym double = "int \<times> nat"

definition double_of :: "int \<Rightarrow> double" where
  "double_of n = (round_double n, 0)"

text \<open>The literal for \<open>n / d\<close> that the compiler rounds.\<close>

definition double_lit :: "nat \<Rightarrow> nat \<Rightarrow> double" where
  "double_lit n d =
     (let k = 53 + bit_length d - bit_length n;
          k = (if 2 ^ 53 \<le> n * 2 ^ k div d then k - 1 else k);
          q = n * 2 ^ k div d; r = n * 2 ^ k mod d
      in (int (if d < 2 * r \<or> (d = 2 * r \<and> odd q) then q + 1 else q), k))"

definition double_mult :: "double \<Rightarrow> double \<Rightarrow> double" where
  "double_mult x y = (round_double (fst x * fst y), snd x + snd y)"

definition double_le :: "double \<Rightarrow> double \<Rightarrow> bool" where
  "double_le x y \<longleftrightarrow> fst x * 2 ^ snd y \<le> fst y * 2 ^ snd x"

text \<open>The conversion to an integer truncates.\<close>

definition double_trunc :: "double \<Rightarrow> int" where
  "double_trunc x = sgn (fst x) * (\<bar>fst x\<bar> div 2 ^ snd x)"

subsection \<open>Rounding is monotone and keeps what fits\<close>

lemma bit_length_0 [simp]: "bit_length 0 = 0"
  by (simp add: bit_length.simps)

lemma bit_length_numeral: "bit_length (numeral k) = Suc (bit_length (numeral k div 2))"
  by (subst bit_length.simps) simp

lemma bit_length_1: "bit_length 1 = 1" "bit_length (Suc 0) = 1"
  by (subst bit_length.simps, simp)+

lemma bit_length_less: "n < 2 ^ bit_length n"
  by (induction n rule: bit_length.induct) (subst bit_length.simps, auto)

lemma bit_length_ge: "0 < n \<Longrightarrow> 2 ^ (bit_length n - 1) \<le> n"
proof (induction n rule: bit_length.induct)
  case (1 n)
  show ?case
  proof (cases "n div 2 = 0")
    case True
    then show ?thesis using 1(2) by (subst bit_length.simps) auto
  next
    case False
    then have "2 ^ (bit_length (n div 2) - 1) \<le> n div 2" using 1 by auto
    moreover have "bit_length (n div 2) \<noteq> 0" using False by (subst bit_length.simps) auto
    ultimately have "2 ^ bit_length (n div 2) \<le> n"
      by (cases "bit_length (n div 2)") (auto simp: less_eq_div_iff_mult_less_eq)
    then show ?thesis using 1(2) by (subst bit_length.simps) auto
  qed
qed

lemma bit_length_mono: "m \<le> n \<Longrightarrow> bit_length m \<le> bit_length n"
proof (rule ccontr)
  assume "m \<le> n" and l: "\<not> bit_length m \<le> bit_length n"
  then have "m \<noteq> 0" by (intro notI) simp
  then have "2 ^ (bit_length m - 1) \<le> m" using bit_length_ge [of m] by simp
  moreover have "(2::nat) ^ bit_length n \<le> 2 ^ (bit_length m - 1)"
    using l by (intro power_increasing) auto
  ultimately show False using \<open>m \<le> n\<close> bit_length_less [of n] by linarith
qed

lemma bit_length_le: "n < 2 ^ k \<Longrightarrow> bit_length n \<le> k"
proof (rule ccontr)
  assume "n < 2 ^ k" and l: "\<not> bit_length n \<le> k"
  then have "n \<noteq> 0" by (intro notI) simp
  then have "2 ^ (bit_length n - 1) \<le> n" using bit_length_ge [of n] by simp
  moreover have "(2::nat) ^ k \<le> 2 ^ (bit_length n - 1)" using l by (intro power_increasing) auto
  ultimately show False using \<open>n < 2 ^ k\<close> by linarith
qed

lemma round_shift_bounds: "p div 2 ^ s \<le> round_shift s p" "round_shift s p \<le> p div 2 ^ s + 1"
  by (auto simp: round_shift_def Let_def)

lemma round_shift_mono:
  assumes "p \<le> p'" shows "round_shift s p \<le> round_shift s p'"
proof (cases "p div 2 ^ s = p' div 2 ^ s")
  case True
  have "p mod 2 ^ s \<le> p' mod 2 ^ s"
    using assms True div_mult_mod_eq [of p "2 ^ s"] div_mult_mod_eq [of p' "2 ^ s"] by (metis add_le_cancel_left)
  then show ?thesis using True by (auto simp: round_shift_def Let_def)
next
  case False
  then have "p div 2 ^ s < p' div 2 ^ s" using div_le_mono [OF assms, of "2 ^ s"] by linarith
  then show ?thesis using round_shift_bounds(2) [of s p] round_shift_bounds(1) [of p' s] by linarith
qed

lemma round53_id: "p < 2 ^ 53 \<Longrightarrow> round53 p = p"
  using bit_length_le [of p 53] by (simp add: round53_def round_shift_def)

lemma round53_shift: "round53 p = 2 ^ (bit_length p - 53) * round_shift (bit_length p - 53) p"
  by (simp add: round53_def Let_def)

text \<open>Between two powers of two the rounded values stay between the same powers.\<close>

lemma round53_le_power: "round53 p \<le> 2 ^ bit_length p"
proof -
  let ?s = "bit_length p - 53"
  have "p div 2 ^ ?s < 2 ^ (bit_length p - ?s)"
    using bit_length_less [of p] by (simp add: div_less_iff_less_mult flip: power_add)
  then have "round_shift ?s p \<le> 2 ^ (bit_length p - ?s)" using round_shift_bounds(2) [of ?s p] by linarith
  then have "2 ^ ?s * round_shift ?s p \<le> 2 ^ ?s * 2 ^ (bit_length p - ?s)" by simp
  also have "\<dots> = 2 ^ bit_length p" by (simp flip: power_add)
  finally show ?thesis by (simp add: round53_shift)
qed

lemma round53_ge_power: "0 < p \<Longrightarrow> 2 ^ (bit_length p - 1) \<le> round53 p"
proof -
  assume p: "0 < p"
  let ?s = "bit_length p - 53"
  have bl: "0 < bit_length p" using p by (subst bit_length.simps) simp
  have "2 ^ (bit_length p - 1) = 2 ^ ?s * (2 ^ (bit_length p - 1 - ?s) :: nat)"
    using bl by (simp flip: power_add)
  also have "(2::nat) ^ (bit_length p - 1 - ?s) = 2 ^ (bit_length p - 1) div 2 ^ ?s"
    using bl by (subst power_diff) auto
  also have "\<dots> \<le> p div 2 ^ ?s" using bit_length_ge [OF p] by (rule div_le_mono)
  also have "\<dots> \<le> round_shift ?s p" by (rule round_shift_bounds)
  finally show ?thesis by (simp add: round53_shift)
qed

lemma round53_mono: "p \<le> p' \<Longrightarrow> round53 p \<le> round53 p'"
proof (cases "bit_length p = bit_length p'")
  case True
  assume "p \<le> p'"
  then show ?thesis using round_shift_mono True by (simp add: round53_shift)
next
  case False
  assume "p \<le> p'"
  then have l: "bit_length p < bit_length p'" using False bit_length_mono [of p p'] by simp
  then have "0 < p'" using l by (cases "p' = 0") auto
  then have "round53 p \<le> 2 ^ bit_length p" "2 ^ (bit_length p' - 1) \<le> round53 p'"
    using round53_le_power [of p] round53_ge_power [of p'] by simp_all
  moreover have "(2::nat) ^ bit_length p \<le> 2 ^ (bit_length p' - 1)" using l by (intro power_increasing) auto
  ultimately show ?thesis by linarith
qed

lemma bit_length_mult_power: "0 < n \<Longrightarrow> bit_length (n * 2 ^ k) = bit_length n + k"
proof (induction k)
  case (Suc k)
  have "bit_length (n * 2 ^ Suc k) = Suc (bit_length (n * 2 ^ k))"
    using Suc(2) by (subst bit_length.simps) auto
  then show ?case using Suc by simp
qed simp

lemma round53_mult_power: "n < 2 ^ 53 \<Longrightarrow> round53 (n * 2 ^ k) = n * 2 ^ k"
proof (cases "n = 0")
  case False
  assume n: "n < 2 ^ 53"
  let ?s = "bit_length n + k - 53"
  have "?s \<le> k" using bit_length_le [OF n] by simp
  then have "(2::nat) ^ ?s dvd n * 2 ^ k" by (intro dvd_mult le_imp_power_dvd)
  then have "round_shift ?s (n * 2 ^ k) = n * 2 ^ k div 2 ^ ?s" "2 ^ ?s * (n * 2 ^ k div 2 ^ ?s) = n * 2 ^ k"
    by (auto simp: round_shift_def)
  then show ?thesis using False by (simp add: round53_shift bit_length_mult_power)
qed (simp add: round53_def round_shift_def)

subsection \<open>Products with a literal\<close>

lemma round_double_nat: "0 \<le> p \<Longrightarrow> round_double p = int (round53 (nat p))"
  by (cases "p = 0") (simp_all add: round_double_def round53_id)

lemma round_double_nonneg: "0 \<le> p \<Longrightarrow> 0 \<le> round_double p"
  by (simp add: round_double_nat)

lemma round_double_mono: "0 \<le> p \<Longrightarrow> p \<le> q \<Longrightarrow> round_double p \<le> round_double q"
  by (simp add: round_double_nat round53_mono)

lemma round_double_mult_power: "0 \<le> n \<Longrightarrow> n < 2 ^ 53 \<Longrightarrow> round_double (n * 2 ^ k) = n * 2 ^ k"
  by (simp add: round_double_nat nat_mult_distrib nat_power_eq round53_mult_power nat_less_iff)

lemma double_of_id: "0 \<le> n \<Longrightarrow> n < 2 ^ 53 \<Longrightarrow> double_of n = (n, 0)"
  using round_double_mult_power [of n 0] by (simp add: double_of_def)

lemma double_trunc_nonneg: "0 \<le> fst x \<Longrightarrow> double_trunc x = fst x div 2 ^ snd x"
  by (cases "fst x = 0") (simp_all add: double_trunc_def)

lemma round_shift_scaled: "round_shift (s + j) (p * 2 ^ j) = round_shift s p"
proof -
  have "p * 2 ^ j div 2 ^ (s + j) = p div 2 ^ s" "p * 2 ^ j mod 2 ^ (s + j) = (p mod 2 ^ s) * 2 ^ j"
    by (simp_all add: power_add flip: mult_mod_left)
  then show ?thesis by (simp add: round_shift_def power_add Let_def)
qed

lemma round53_scaled: "round53 (p * 2 ^ j) = round53 p * 2 ^ j"
proof (cases "p < 2 ^ 53")
  case True
  then show ?thesis by (simp add: round53_mult_power round53_id)
next
  case False
  then have "0 < p" "53 \<le> bit_length p"
    using bit_length_less [of p] power_strict_increasing_iff [of "2::nat" "bit_length p" 53]
    by (auto simp: not_less dest: order.strict_trans1)
  moreover from this have "bit_length p + j - 53 = bit_length p - 53 + j" by simp
  ultimately show ?thesis using round_shift_scaled [of "bit_length p - 53" j p]
    by (simp add: round53_shift bit_length_mult_power power_add del: Nat.add_diff_assoc2)
qed

lemma round_double_scaled: "0 \<le> p \<Longrightarrow> round_double (p * 2 ^ j) = round_double p * 2 ^ j"
  by (simp add: round_double_nat nat_mult_distrib nat_power_eq round53_scaled)

lemma double_le_trans:
  assumes "double_le x y" "double_le y z" shows "double_le x z"
proof -
  let ?X = "2 ^ snd x :: int" and ?Y = "2 ^ snd y :: int" and ?Z = "2 ^ snd z :: int"
  have "fst x * ?Z * ?Y = fst x * ?Y * ?Z" by (simp only: ac_simps)
  also have "\<dots> \<le> fst y * ?X * ?Z"
    using assms(1) by (intro mult_right_mono) (simp_all add: double_le_def)
  also have "\<dots> = fst y * ?Z * ?X" by (simp only: ac_simps)
  also have "\<dots> \<le> fst z * ?Y * ?X"
    using assms(2) by (intro mult_right_mono) (simp_all add: double_le_def)
  also have "\<dots> = fst z * ?X * ?Y" by (simp only: ac_simps)
  finally have "fst x * ?Z \<le> fst z * ?X" by (rule mult_right_le_imp_le) simp
  then show ?thesis by (simp add: double_le_def)
qed

lemma double_le_nonneg: "double_le x y \<Longrightarrow> 0 \<le> fst x \<Longrightarrow> 0 \<le> fst y"
proof (rule ccontr)
  assume l: "double_le x y" "0 \<le> fst x" "\<not> 0 \<le> fst y"
  then have "fst y * 2 ^ snd x < 0" "0 \<le> fst x * 2 ^ snd y" by (simp_all add: mult_neg_pos)
  then show False using l(1) by (simp add: double_le_def)
qed

lemma double_mult_mono:
  assumes "0 \<le> fst x" "0 \<le> fst y" "double_le x x'" "double_le y y'"
  shows "double_le (double_mult x y) (double_mult x' y')"
proof -
  have n: "0 \<le> fst x'" "0 \<le> fst y'"
    using double_le_nonneg assms by blast+
  have "fst x * 2 ^ snd x' * (fst y * 2 ^ snd y') \<le> fst x' * 2 ^ snd x * (fst y' * 2 ^ snd y)"
    using assms n mult_mono [of "fst x * 2 ^ snd x'" "fst x' * 2 ^ snd x" "fst y * 2 ^ snd y'" "fst y' * 2 ^ snd y"]
    unfolding double_le_def by fastforce
  then have "fst x * fst y * 2 ^ (snd x' + snd y') \<le> fst x' * fst y' * 2 ^ (snd x + snd y)"
    by (simp add: power_add mult.assoc mult.left_commute mult.commute)
  then have "round_double (fst x * fst y * 2 ^ (snd x' + snd y')) \<le> round_double (fst x' * fst y' * 2 ^ (snd x + snd y))"
    using assms by (intro round_double_mono) simp_all
  then show ?thesis using assms n by (simp add: double_mult_def double_le_def round_double_scaled)
qed

lemma double_le_trunc:
  assumes "0 \<le> fst x" "0 \<le> fst y" "double_le x y" shows "double_trunc x \<le> double_trunc y"
proof -
  have "fst x * 2 ^ snd y div (2 ^ snd x * 2 ^ snd y) \<le> fst y * 2 ^ snd x div (2 ^ snd x * 2 ^ snd y)"
    using assms(3) unfolding double_le_def by (intro zdiv_mono1) simp_all
  moreover have "fst y * 2 ^ snd x div (2 ^ snd x * 2 ^ snd y) = fst y div 2 ^ snd y"
    by (subst mult.commute) (rule div_mult_mult1, simp)
  moreover have "fst x * 2 ^ snd y div (2 ^ snd x * 2 ^ snd y) = fst x div 2 ^ snd x"
    by (rule div_mult_mult2) simp
  ultimately show ?thesis using assms by (simp add: double_trunc_nonneg)
qed

text \<open>A product with a smaller literal is smaller, and one with a literal of at most one does not grow.\<close>

lemma double_trunc_le:
  assumes "0 \<le> n" "n < 2 ^ 53" "0 \<le> fst c" "fst c \<le> 2 ^ snd c"
  shows "0 \<le> double_trunc (double_mult (double_of n) c)" "double_trunc (double_mult (double_of n) c) \<le> n"
proof -
  have "round_double (n * fst c) \<le> round_double (n * 2 ^ snd c)"
    using assms by (intro round_double_mono) (simp_all add: mult_left_mono)
  also have "\<dots> = n * 2 ^ snd c" using assms by (intro round_double_mult_power)
  finally have "round_double (n * fst c) div 2 ^ snd c \<le> n * 2 ^ snd c div 2 ^ snd c" by (rule zdiv_mono1) simp
  then show "double_trunc (double_mult (double_of n) c) \<le> n" "0 \<le> double_trunc (double_mult (double_of n) c)"
    using assms by (simp_all add: double_trunc_nonneg double_mult_def double_of_id round_double_nonneg pos_imp_zdiv_nonneg_iff)
qed

end
