(* ===== verification/Chain.thy ===== *)
theory Chain
  imports Block
begin

text \<open>
  The block index (\<^verbatim>\<open>chain.h\<close>, \<^verbatim>\<open>chain.cpp\<close>, \<^verbatim>\<open>main.cpp\<close>): the entries with their
  predecessor and skip pointers, the active chain, and the walks over them. Entries are never
  freed and their pointers are set once, before anything refers to the entry, so an entry is
  modelled with what it points to; \<^verbatim>\<open>pnext\<close> is left out. Two entries are the same object when
  they are equal, since each carries its own hash.
\<close>

subsection \<open>Entries\<close>

record CDiskBlockPos =
  dp_nFile :: int
  dp_nPos :: u32

definition CDiskBlockPos_null :: CDiskBlockPos where
  "CDiskBlockPos_null = \<lparr>dp_nFile = - 1, dp_nPos = 0\<rparr>"

definition CDiskBlockPos_IsNull :: "CDiskBlockPos \<Rightarrow> bool" where
  "CDiskBlockPos_IsNull p \<longleftrightarrow> dp_nFile p = - 1"

definition BLOCK_VALID_HEADER :: u32 where "BLOCK_VALID_HEADER = 1"
definition BLOCK_VALID_TREE :: u32 where "BLOCK_VALID_TREE = 2"
definition BLOCK_VALID_TRANSACTIONS :: u32 where "BLOCK_VALID_TRANSACTIONS = 3"
definition BLOCK_VALID_CHAIN :: u32 where "BLOCK_VALID_CHAIN = 4"
definition BLOCK_VALID_SCRIPTS :: u32 where "BLOCK_VALID_SCRIPTS = 5"

definition BLOCK_VALID_MASK :: u32 where
  "BLOCK_VALID_MASK = BLOCK_VALID_HEADER OR BLOCK_VALID_TREE OR BLOCK_VALID_TRANSACTIONS OR
     BLOCK_VALID_CHAIN OR BLOCK_VALID_SCRIPTS"

definition BLOCK_HAVE_DATA :: u32 where "BLOCK_HAVE_DATA = 8"
definition BLOCK_HAVE_UNDO :: u32 where "BLOCK_HAVE_UNDO = 16"
definition BLOCK_FAILED_VALID :: u32 where "BLOCK_FAILED_VALID = 32"
definition BLOCK_FAILED_CHILD :: u32 where "BLOCK_FAILED_CHILD = 64"

definition BLOCK_FAILED_MASK :: u32 where
  "BLOCK_FAILED_MASK = BLOCK_FAILED_VALID OR BLOCK_FAILED_CHILD"

definition BLOCK_PROOF_OF_STAKE :: u32 where "BLOCK_PROOF_OF_STAKE = push_bit 0 1"
definition BLOCK_STAKE_ENTROPY :: u32 where "BLOCK_STAKE_ENTROPY = push_bit 1 1"
definition BLOCK_STAKE_MODIFIER :: u32 where "BLOCK_STAKE_MODIFIER = push_bit 2 1"

record block_entry =
  phashBlock :: "uint256 option"
  bnChainTrust :: uint256
  nHeight :: int
  nFile :: int
  nDataPos :: u32
  nUndoPos :: u32
  nChainWork :: uint256
  nTx :: u32
  nChainTx :: u32
  nStatus :: u32
  nFlags :: u32
  nStakeModifier :: u64
  nStakeModifierChecksum :: u32
  prevoutStake :: COutPoint
  nStakeTime :: u32
  hashProofOfStake :: uint256
  nMint :: int
  nMoneySupply :: int
  bi_nVersion :: u32
  bi_hashMerkleRoot :: uint256
  bi_nTime :: u32
  bi_nBits :: u32
  bi_nNonce :: u32
  nSequenceId :: u32

datatype CBlockIndex = Index (entry: block_entry) (pprev: "CBlockIndex option") (pskip: "CBlockIndex option")

definition entry_null :: block_entry where
  "entry_null = \<lparr>phashBlock = None, bnChainTrust = bu_zero 8, nHeight = 0, nFile = 0, nDataPos = 0,
     nUndoPos = 0, nChainWork = bu_zero 8, nTx = 0, nChainTx = 0, nStatus = 0, nFlags = 0,
     nStakeModifier = 0, nStakeModifierChecksum = 0, prevoutStake = COutPoint_null, nStakeTime = 0,
     hashProofOfStake = bu_zero 8, nMint = 0, nMoneySupply = 0, bi_nVersion = 0,
     bi_hashMerkleRoot = bu_zero 8, bi_nTime = 0, bi_nBits = 0, bi_nNonce = 0, nSequenceId = 0\<rparr>"

definition SetProofOfStake :: "block_entry \<Rightarrow> block_entry" where
  "SetProofOfStake e = e\<lparr>nFlags := nFlags e OR BLOCK_PROOF_OF_STAKE\<rparr>"

definition CBlockIndex_of :: "CBlock \<Rightarrow> CBlockIndex" where
  "CBlockIndex_of block =
     (let e = entry_null\<lparr>bi_nVersion := bh_nVersion block, bi_hashMerkleRoot := hashMerkleRoot block,
                bi_nTime := bh_nTime block, bi_nBits := bh_nBits block, bi_nNonce := bh_nNonce block\<rparr>
      in Index (if IsProofOfStake block
                then (SetProofOfStake e)\<lparr>prevoutStake := prevout (vin (vtx block ! 1) ! 0),
                                          nStakeTime := bh_nTime block\<rparr>
                else e\<lparr>prevoutStake := COutPoint_null, nStakeTime := 0\<rparr>) None None)"

definition GetBlockPos :: "CBlockIndex \<Rightarrow> CDiskBlockPos" where
  "GetBlockPos b = (if nStatus (entry b) AND BLOCK_HAVE_DATA \<noteq> 0
     then \<lparr>dp_nFile = nFile (entry b), dp_nPos = nDataPos (entry b)\<rparr> else CDiskBlockPos_null)"

definition GetUndoPos :: "CBlockIndex \<Rightarrow> CDiskBlockPos" where
  "GetUndoPos b = (if nStatus (entry b) AND BLOCK_HAVE_UNDO \<noteq> 0
     then \<lparr>dp_nFile = nFile (entry b), dp_nPos = nUndoPos (entry b)\<rparr> else CDiskBlockPos_null)"

text \<open>\<^verbatim>\<open>None\<close> is the dereference of a null pointer.\<close>

definition GetBlockHash :: "CBlockIndex \<Rightarrow> uint256 option" where
  "GetBlockHash b = phashBlock (entry b)"

definition bi_GetBlockHeader :: "CBlockIndex \<Rightarrow> CBlockHeader option" where
  "bi_GetBlockHeader b =
     (let e = entry b;
          header = (\<lambda>prev. \<lparr>bh_nVersion = bi_nVersion e, hashPrevBlock = prev, hashMerkleRoot = bi_hashMerkleRoot e,
                      bh_nTime = bi_nTime e, bh_nBits = bi_nBits e, bh_nNonce = bi_nNonce e\<rparr>)
      in case pprev b of None \<Rightarrow> Some (header (bu_zero 8)) | Some p \<Rightarrow> map_option header (GetBlockHash p))"

definition bi_GetBlockTime :: "CBlockIndex \<Rightarrow> int" where
  "bi_GetBlockTime b = uint (bi_nTime (entry b))"

definition nMedianTimeSpan :: nat where "nMedianTimeSpan = 11"

fun past_times :: "nat \<Rightarrow> CBlockIndex option \<Rightarrow> int list" where
  "past_times (Suc n) (Some b) = bi_GetBlockTime b # past_times n (pprev b)"
| "past_times _ _ = []"

definition GetMedianTimePast :: "CBlockIndex \<Rightarrow> int" where
  "GetMedianTimePast b =
     (let pmedian = sort (rev (past_times nMedianTimeSpan (Some b))) in pmedian ! (length pmedian div 2))"

definition bi_IsProofOfStake :: "CBlockIndex \<Rightarrow> bool" where
  "bi_IsProofOfStake b \<longleftrightarrow> nFlags (entry b) AND BLOCK_PROOF_OF_STAKE \<noteq> 0"

definition bi_IsProofOfWork :: "CBlockIndex \<Rightarrow> bool" where
  "bi_IsProofOfWork b \<longleftrightarrow> \<not> (nFlags (entry b) AND BLOCK_PROOF_OF_STAKE \<noteq> 0)"

definition GetStakeEntropyBit :: "CBlockIndex \<Rightarrow> u32 option" where
  "GetStakeEntropyBit b = map_option (\<lambda>h. ucast (bu_low64 h AND 1)) (GetBlockHash b)"

definition SetStakeEntropyBit :: "block_entry \<Rightarrow> u32 \<Rightarrow> bool \<times> block_entry" where
  "SetStakeEntropyBit e nEntropyBit =
     (if nEntropyBit > 1 then (False, e)
      else (True, e\<lparr>nFlags := nFlags e OR (if nEntropyBit \<noteq> 0 then BLOCK_STAKE_ENTROPY else 0)\<rparr>))"

definition GeneratedStakeModifier :: "CBlockIndex \<Rightarrow> bool" where
  "GeneratedStakeModifier b \<longleftrightarrow> nFlags (entry b) AND BLOCK_STAKE_MODIFIER \<noteq> 0"

definition SetStakeModifier :: "block_entry \<Rightarrow> u64 \<Rightarrow> bool \<Rightarrow> block_entry" where
  "SetStakeModifier e nModifier fGeneratedStakeModifier =
     (let e = e\<lparr>nStakeModifier := nModifier\<rparr>
      in if fGeneratedStakeModifier then e\<lparr>nFlags := nFlags e OR BLOCK_STAKE_MODIFIER\<rparr> else e)"

text \<open>\<open>None\<close> is the failed assertion that the level holds validity bits only.\<close>

definition IsValid :: "CBlockIndex \<Rightarrow> u32 \<Rightarrow> bool option" where
  "IsValid b nUpTo =
     (if nUpTo AND NOT BLOCK_VALID_MASK \<noteq> 0 then None
      else if nStatus (entry b) AND BLOCK_FAILED_MASK \<noteq> 0 then Some False
      else Some (nStatus (entry b) AND BLOCK_VALID_MASK \<ge> nUpTo))"

definition RaiseValidity :: "block_entry \<Rightarrow> u32 \<Rightarrow> (bool \<times> block_entry) option" where
  "RaiseValidity e nUpTo =
     (if nUpTo AND NOT BLOCK_VALID_MASK \<noteq> 0 then None
      else if nStatus e AND BLOCK_FAILED_MASK \<noteq> 0 then Some (False, e)
      else if nStatus e AND BLOCK_VALID_MASK < nUpTo
           then Some (True, e\<lparr>nStatus := (nStatus e AND NOT BLOCK_VALID_MASK) OR nUpTo\<rparr>)
      else Some (False, e))"

text \<open>\<^verbatim>\<open>IsSuperMajority\<close>: \<open>nToCheck\<close> is the chain parameter, versions compare as signed integers.\<close>

function majority_loop :: "int \<Rightarrow> u32 \<Rightarrow> u32 \<Rightarrow> nat \<Rightarrow> CBlockIndex option \<Rightarrow> u32 \<Rightarrow> u32" where
  "majority_loop minVersion nToCheck nRequired i pstart nFound =
     (case pstart of
        Some b \<Rightarrow>
          if i < unat nToCheck \<and> nFound < nRequired
          then majority_loop minVersion nToCheck nRequired (Suc i) (pprev b)
                 (if sint (bi_nVersion (entry b)) \<ge> minVersion then nFound + 1 else nFound)
          else nFound
      | None \<Rightarrow> nFound)"
  by pat_completeness auto
termination by (relation "measure (\<lambda>(_, nToCheck, _, i, _, _). unat nToCheck - i)") auto

declare majority_loop.simps [simp del]

definition IsSuperMajority :: "u32 \<Rightarrow> int \<Rightarrow> CBlockIndex option \<Rightarrow> u32 \<Rightarrow> bool" where
  "IsSuperMajority nToCheck minVersion pstart nRequired \<longleftrightarrow>
     majority_loop minVersion nToCheck nRequired 0 pstart 0 \<ge> nRequired"

subsection \<open>The skip list\<close>

definition InvertLowestOne :: "int \<Rightarrow> int" where
  "InvertLowestOne n = n AND (n - 1)"

definition GetSkipHeight :: "int \<Rightarrow> int" where
  "GetSkipHeight height =
     (if height < 2 then 0
      else if height AND 1 \<noteq> 0 then InvertLowestOne (InvertLowestOne (height - 1)) + 1
      else InvertLowestOne height)"

lemma InvertLowestOne_bounds: "0 < n \<Longrightarrow> 0 \<le> InvertLowestOne n \<and> InvertLowestOne n < n"
  using AND_upper2 [of "n - 1" n] by (auto simp: InvertLowestOne_def)

lemma InvertLowestOne_0 [simp]: "InvertLowestOne 0 = 0"
  by (simp add: InvertLowestOne_def)

lemma GetSkipHeight_nonneg: "0 \<le> GetSkipHeight h"
proof (cases "h < 2")
  case False
  have "0 \<le> InvertLowestOne m" if "0 \<le> m" for m
    using that InvertLowestOne_bounds [of m] by (cases "m = 0") auto
  then show ?thesis using False by (auto simp: GetSkipHeight_def)
qed (simp add: GetSkipHeight_def)

lemma GetSkipHeight_less: "0 < h \<Longrightarrow> GetSkipHeight h < h"
proof (cases "h < 2")
  case False
  assume "0 < h"
  have "InvertLowestOne m \<le> m" if "0 \<le> m" for m
    using that InvertLowestOne_bounds [of m] by (cases "m = 0") auto
  from this [of "InvertLowestOne (h - 1)"] InvertLowestOne_bounds [of "h - 1"] InvertLowestOne_bounds [of h] False
  show ?thesis by (auto simp: GetSkipHeight_def)
qed (simp add: GetSkipHeight_def)

text \<open>
  The walk of \<^verbatim>\<open>GetAncestor\<close>, which is entered with \<open>height \<ge> 0\<close>; the outer \<open>None\<close> is the
  dereference of a null pointer.
\<close>

function ancestor_loop :: "int \<Rightarrow> int \<Rightarrow> CBlockIndex option \<Rightarrow> CBlockIndex option option" where
  "ancestor_loop height heightWalk pindexWalk =
     (if heightWalk > height \<and> height \<ge> 0 then
        (case pindexWalk of
           None \<Rightarrow> None
         | Some w \<Rightarrow>
             let heightSkip = GetSkipHeight heightWalk;
                 heightSkipPrev = GetSkipHeight (heightWalk - 1)
             in if heightSkip = height \<or>
                   (heightSkip > height \<and> \<not> (heightSkipPrev < heightSkip - 2 \<and> heightSkipPrev \<ge> height))
                then ancestor_loop height heightSkip (pskip w)
                else ancestor_loop height (heightWalk - 1) (pprev w))
      else Some pindexWalk)"
  by pat_completeness auto
termination by (relation "measure (\<lambda>(_, heightWalk, _). nat heightWalk)") (use GetSkipHeight_less GetSkipHeight_nonneg in auto)

declare ancestor_loop.simps [simp del]

definition GetAncestor :: "CBlockIndex \<Rightarrow> int \<Rightarrow> CBlockIndex option option" where
  "GetAncestor b height =
     (if height > nHeight (entry b) \<or> height < 0 then Some None
      else ancestor_loop height (nHeight (entry b)) (Some b))"

definition BuildSkip :: "CBlockIndex \<Rightarrow> CBlockIndex option" where
  "BuildSkip b = (case pprev b of
     None \<Rightarrow> Some b
   | Some p \<Rightarrow> map_option (\<lambda>s. Index (entry b) (Some p) s) (GetAncestor p (GetSkipHeight (nHeight (entry b)))))"

text \<open>The reference: follow \<^verbatim>\<open>pprev\<close> so many times.\<close>

fun walk_back :: "nat \<Rightarrow> CBlockIndex \<Rightarrow> CBlockIndex option" where
  "walk_back 0 b = Some b"
| "walk_back (Suc n) b = (case pprev b of None \<Rightarrow> None | Some p \<Rightarrow> walk_back n p)"

text \<open>The blocks that are entered in the index: on an indexed block, or as a genesis block, with \<^verbatim>\<open>BuildSkip\<close>.\<close>

inductive indexed :: "CBlockIndex \<Rightarrow> bool" where
  genesis: "nHeight e = 0 \<Longrightarrow> indexed (Index e None None)"
| successor: "indexed p \<Longrightarrow> nHeight e = nHeight (entry p) + 1 \<Longrightarrow> BuildSkip (Index e (Some p) None) = Some b \<Longrightarrow> indexed b"

lemma BuildSkip_Some: "BuildSkip b = Some c \<Longrightarrow> entry c = entry b \<and> pprev c = pprev b"
  by (cases b) (auto simp: BuildSkip_def split: option.splits)

lemma walk_back_add: "walk_back (m + n) b = (case walk_back m b of None \<Rightarrow> None | Some c \<Rightarrow> walk_back n c)"
  by (induction m b rule: walk_back.induct) (auto split: option.split)

lemma indexed_height:
  assumes "indexed b"
  shows "nHeight (entry b) \<ge> 0 \<and> (pprev b = None \<longleftrightarrow> nHeight (entry b) = 0) \<and>
    (\<forall>p. pprev b = Some p \<longrightarrow> indexed p \<and> nHeight (entry b) = nHeight (entry p) + 1)"
  using assms by (induction rule: indexed.induct) (auto dest: BuildSkip_Some)

lemma walk_back_indexed:
  "indexed b \<Longrightarrow> int n \<le> nHeight (entry b) \<Longrightarrow>
   \<exists>c. walk_back n b = Some c \<and> indexed c \<and> nHeight (entry c) = nHeight (entry b) - int n"
proof (induction n arbitrary: b)
  case (Suc n)
  note h = indexed_height [OF Suc.prems(1)]
  obtain p where p: "pprev b = Some p" using Suc.prems(2) h by (cases "pprev b") auto
  then show ?case using Suc.IH [of p] h Suc.prems(2) by auto
qed simp

definition skip_ok :: "CBlockIndex \<Rightarrow> bool" where
  "skip_ok b \<longleftrightarrow> (\<forall>n c. walk_back n b = Some c \<and> nHeight (entry c) > 0 \<longrightarrow>
     pskip c = walk_back (nat (nHeight (entry c) - GetSkipHeight (nHeight (entry c)))) c)"

lemma skip_ok_back: "skip_ok b \<Longrightarrow> walk_back n b = Some c \<Longrightarrow> skip_ok c"
  unfolding skip_ok_def by (metis walk_back_add option.simps(5))

lemma ancestor_loop_back:
  assumes "indexed b" "skip_ok b" "0 \<le> height" "height \<le> hw" "hw = nHeight (entry b)"
  shows "ancestor_loop height hw (Some b) = Some (walk_back (nat (hw - height)) b)"
  using assms
proof (induction "nat hw" arbitrary: hw b rule: less_induct)
  case less
  note prems = less.prems
  show ?case
  proof (cases "hw > height")
    case False
    then show ?thesis using prems by (simp add: ancestor_loop.simps)
  next
    case True
    let ?s = "GetSkipHeight hw"
    let ?jump = "?s = height \<or> (?s > height \<and> \<not> (GetSkipHeight (hw - 1) < ?s - 2 \<and> GetSkipHeight (hw - 1) \<ge> height))"
    have s: "0 \<le> ?s" "?s < hw" using GetSkipHeight_nonneg GetSkipHeight_less [of hw] True prems(3) by auto
    show ?thesis
    proof (cases ?jump)
      case j: True
      have sk: "pskip b = walk_back (nat (hw - ?s)) b"
        using prems(2,3,5) True by (auto simp: skip_ok_def dest!: spec [of _ 0])
      obtain c where c: "walk_back (nat (hw - ?s)) b = Some c" "indexed c" "nHeight (entry c) = ?s"
        using walk_back_indexed [OF prems(1), of "nat (hw - ?s)"] s prems(5) by auto
      have "ancestor_loop height ?s (Some c) = Some (walk_back (nat (?s - height)) c)"
        using less.hyps [OF _ c(2) skip_ok_back [OF prems(2) c(1)] prems(3) _ c(3) [symmetric]] s j prems(3) True by auto
      moreover have "nat (hw - height) = nat (hw - ?s) + nat (?s - height)" using s j True by auto
      ultimately show ?thesis using True prems(3) j sk c
        by (subst ancestor_loop.simps) (simp add: Let_def walk_back_add)
    next
      case j: False
      obtain p where p: "pprev b = Some p" "indexed p" "nHeight (entry p) = hw - 1"
        using indexed_height [OF prems(1)] True prems(3,5) by (cases "pprev b") auto
      have "skip_ok p" using skip_ok_back [OF prems(2), of 1 p] p(1) by simp
      then have "ancestor_loop height (hw - 1) (Some p) = Some (walk_back (nat (hw - 1 - height)) p)"
        using less.hyps [OF _ p(2) _ prems(3) _ p(3) [symmetric]] True prems(3) by auto
      moreover have "nat (hw - height) = Suc (nat (hw - 1 - height))" using True by auto
      ultimately show ?thesis using True prems(3) j p(1)
        by (subst ancestor_loop.simps) (auto simp: Let_def)
    qed
  qed
qed

lemma indexed_skip_ok: "indexed b \<Longrightarrow> skip_ok b"
proof (induction rule: indexed.induct)
  case (genesis e)
  have "walk_back n (Index e None None) = Some c \<Longrightarrow> c = Index e None None" for n c
    by (cases n) auto
  then show ?case using genesis unfolding skip_ok_def by force
next
  case (successor p e b)
  let ?h = "nHeight e"
  have h: "nHeight (entry p) \<ge> 0" using indexed_height [OF successor(1)] by simp
  have s: "0 \<le> GetSkipHeight ?h" "GetSkipHeight ?h < ?h"
    using GetSkipHeight_nonneg GetSkipHeight_less [of ?h] h successor(2) by auto
  have "GetAncestor p (GetSkipHeight ?h) = Some (walk_back (nat (?h - 1 - GetSkipHeight ?h)) p)"
    using ancestor_loop_back [OF successor(1,4)] s successor(2) by (simp add: GetAncestor_def)
  then have b: "b = Index e (Some p) (walk_back (nat (?h - 1 - GetSkipHeight ?h)) p)"
    using successor(3) by (simp add: BuildSkip_def)
  have "pskip b = walk_back (nat (?h - GetSkipHeight ?h)) b"
  proof -
    have "nat (?h - GetSkipHeight ?h) = Suc (nat (?h - 1 - GetSkipHeight ?h))" using s by simp
    then show ?thesis using b by simp
  qed
  moreover have "walk_back n b = Some c \<Longrightarrow> c = b \<or> (\<exists>m. walk_back m p = Some c)" for n c
    by (cases n) (auto simp: b)
  moreover have "entry b = e" by (simp add: b)
  ultimately show ?case using successor(4) unfolding skip_ok_def by metis
qed

theorem GetAncestor_back:
  assumes "indexed b"
  shows "GetAncestor b height =
    Some (if 0 \<le> height \<and> height \<le> nHeight (entry b) then walk_back (nat (nHeight (entry b) - height)) b else None)"
  using ancestor_loop_back [OF assms indexed_skip_ok [OF assms]] by (auto simp: GetAncestor_def)

lemma GetAncestor_in:
  assumes "indexed b" "0 \<le> height" "height \<le> nHeight (entry b)"
  shows "\<exists>c. GetAncestor b height = Some (Some c) \<and> walk_back (nat (nHeight (entry b) - height)) b = Some c \<and>
    indexed c \<and> nHeight (entry c) = height"
  using walk_back_indexed [OF assms(1), of "nat (nHeight (entry b) - height)"] assms by (auto simp: GetAncestor_back)

text \<open>So \<^verbatim>\<open>BuildSkip\<close> never dereferences a null pointer.\<close>

lemma BuildSkip_indexed:
  assumes "indexed p" "nHeight e = nHeight (entry p) + 1"
  shows "\<exists>b. BuildSkip (Index e (Some p) None) = Some b \<and> indexed b"
proof -
  have "nHeight (entry p) \<ge> 0" using indexed_height [OF assms(1)] by simp
  then have "GetAncestor p (GetSkipHeight (nHeight e)) \<noteq> None"
    using assms by (simp add: GetAncestor_back)
  then show ?thesis using assms indexed.successor [OF assms] by (fastforce simp: BuildSkip_def)
qed

subsection \<open>The active chain\<close>

text \<open>\<^verbatim>\<open>vChain\<close>: the pointers by height.\<close>

type_synonym CChain = "CBlockIndex option list"

definition chain_at :: "CChain \<Rightarrow> int \<Rightarrow> CBlockIndex option" where
  "chain_at vChain h = (if h < 0 \<or> h \<ge> int (length vChain) then None else vChain ! nat h)"

definition Genesis :: "CChain \<Rightarrow> CBlockIndex option" where
  "Genesis vChain = (if length vChain > 0 then vChain ! 0 else None)"

fun last_stake :: "CBlockIndex \<Rightarrow> CBlockIndex" where
  "last_stake (Index e p s) =
     (case p of
        Some q \<Rightarrow> if \<not> bi_IsProofOfStake (Index e p s) then last_stake q else Index e p s
      | None \<Rightarrow> Index e p s)"

definition Tip :: "CChain \<Rightarrow> bool \<Rightarrow> CBlockIndex option" where
  "Tip vChain fProofOfStake =
     (if length vChain < 1 then None
      else let pindex = vChain ! (length vChain - 1)
           in if fProofOfStake then map_option last_stake pindex else pindex)"

definition Contains :: "CChain \<Rightarrow> CBlockIndex \<Rightarrow> bool" where
  "Contains vChain pindex \<longleftrightarrow> chain_at vChain (nHeight (entry pindex)) = Some pindex"

definition chain_Next :: "CChain \<Rightarrow> CBlockIndex \<Rightarrow> CBlockIndex option" where
  "chain_Next vChain pindex =
     (if Contains vChain pindex then chain_at vChain (nHeight (entry pindex) + 1) else None)"

definition Height :: "CChain \<Rightarrow> int" where
  "Height vChain = int (length vChain) - 1"

fun set_tip_loop :: "CChain \<Rightarrow> CBlockIndex option \<Rightarrow> CChain" where
  "set_tip_loop vChain None = vChain"
| "set_tip_loop vChain (Some (Index e p s)) =
     (if vChain ! nat (nHeight e) \<noteq> Some (Index e p s)
      then set_tip_loop (vChain[nat (nHeight e) := Some (Index e p s)]) p
      else vChain)"

definition SetTip :: "CChain \<Rightarrow> CBlockIndex option \<Rightarrow> CChain" where
  "SetTip vChain pindex = (case pindex of
     None \<Rightarrow> []
   | Some b \<Rightarrow>
       let n = nat (nHeight (entry b) + 1)
       in set_tip_loop (take n vChain @ replicate (n - length vChain) None) (Some b))"

text \<open>\<open>None\<close> is the dereference of a null pointer, or a loop that does not end.\<close>

partial_function (option) locator_loop ::
  "CChain \<Rightarrow> CBlockIndex option \<Rightarrow> int \<Rightarrow> uint256 list \<Rightarrow> uint256 list option" where
  "locator_loop vChain pindex nStep vHave =
     (case pindex of
        None \<Rightarrow> Some vHave
      | Some b \<Rightarrow>
          (case GetBlockHash b of
             None \<Rightarrow> None
           | Some h \<Rightarrow>
               (let vHave = vHave @ [h] in
                if nHeight (entry b) = 0 then Some vHave
                else let ht = max (nHeight (entry b) - nStep) 0;
                         nStep' = (if length vHave > 10 then nStep * 2 else nStep)
                     in if Contains vChain b then locator_loop vChain (chain_at vChain ht) nStep' vHave
                        else case GetAncestor b ht of
                               None \<Rightarrow> None
                             | Some a \<Rightarrow> locator_loop vChain a nStep' vHave)))"

definition GetLocator :: "CChain \<Rightarrow> CBlockIndex option \<Rightarrow> uint256 list option" where
  "GetLocator vChain pindex =
     locator_loop vChain (case pindex of None \<Rightarrow> Tip vChain False | Some b \<Rightarrow> Some b) 1 []"

fun fork_loop :: "CChain \<Rightarrow> CBlockIndex option \<Rightarrow> CBlockIndex option" where
  "fork_loop vChain None = None"
| "fork_loop vChain (Some (Index e p s)) =
     (if \<not> Contains vChain (Index e p s) then fork_loop vChain p else Some (Index e p s))"

definition FindFork :: "CChain \<Rightarrow> CBlockIndex \<Rightarrow> CBlockIndex option option" where
  "FindFork vChain pindex =
     (if nHeight (entry pindex) > Height vChain
      then map_option (fork_loop vChain) (GetAncestor pindex (Height vChain))
      else Some (fork_loop vChain (Some pindex)))"

subsection \<open>The path to a block\<close>

fun path :: "CBlockIndex \<Rightarrow> CBlockIndex list" where
  "path (Index e p s) = (case p of None \<Rightarrow> [] | Some q \<Rightarrow> path q) @ [Index e p s]"

lemma path_simp: "path b = (case pprev b of None \<Rightarrow> [] | Some q \<Rightarrow> path q) @ [b]"
  by (cases b) simp

declare path.simps [simp del]

lemma pprev_smaller [termination_simp]: "pprev b = Some p \<Longrightarrow> size p < size b"
  by (cases b) simp

lemma CBlockIndex_induct:
  assumes "\<And>b. (\<And>p. pprev b = Some p \<Longrightarrow> P p) \<Longrightarrow> P b"
  shows "P (b :: CBlockIndex)"
  by (induction b rule: measure_induct [where f = size]) (use assms pprev_smaller in blast)

lemma length_path: "indexed b \<Longrightarrow> int (length (path b)) = nHeight (entry b) + 1"
proof (induction b rule: CBlockIndex_induct)
  case (1 b)
  then show ?case using indexed_height [OF 1(2)] by (cases "pprev b") (auto simp: path_simp [of b])
qed

lemma last_path [simp]: "last (path b) = b"
  by (simp add: path_simp [of b])

lemma path_walk: "c \<in> set (path b) \<longleftrightarrow> (\<exists>n. walk_back n b = Some c)"
proof (induction b rule: CBlockIndex_induct)
  case (1 b)
  show ?case
  proof (cases "pprev b")
    case None
    then have "walk_back n b = Some c \<longleftrightarrow> n = 0 \<and> c = b" for n by (cases n) auto
    then show ?thesis using None by (simp add: path_simp [of b])
  next
    case (Some p)
    have "(\<exists>n. walk_back n b = Some c) \<longleftrightarrow> c = b \<or> (\<exists>n. walk_back n p = Some c)"
      (is "?l \<longleftrightarrow> ?r")
    proof
      assume ?l then obtain n where "walk_back n b = Some c" ..
      then show ?r using Some by (cases n) auto
    next
      assume ?r then show ?l
      proof
        assume "c = b" then have "walk_back 0 b = Some c" by simp
        then show ?l ..
      next
        assume "\<exists>n. walk_back n p = Some c"
        then obtain n where "walk_back n p = Some c" ..
        then have "walk_back (Suc n) b = Some c" using Some by simp
        then show ?l ..
      qed
    qed
    then show ?thesis using Some 1 [OF Some] by (auto simp: path_simp [of b])
  qed
qed

lemma path_take:
  "indexed b \<Longrightarrow> c \<in> set (path b) \<Longrightarrow>
   indexed c \<and> nHeight (entry c) \<le> nHeight (entry b) \<and> take (nat (nHeight (entry c) + 1)) (path b) = path c"
proof (induction b rule: CBlockIndex_induct)
  case (1 b)
  note h = indexed_height [OF 1(2)]
  show ?case
  proof (cases "c = b")
    case True
    then show ?thesis using 1(2) length_path [OF 1(2)] by simp
  next
    case False
    then obtain p where p: "pprev b = Some p" "c \<in> set (path p)"
      using 1(3) by (cases "pprev b") (auto simp: path_simp [of b])
    note q = 1(1) [OF p(1) _ p(2)]
    have "nat (nHeight (entry c) + 1) \<le> length (path p)"
      using q h p length_path [of p] by auto
    then show ?thesis using q p h by (auto simp: path_simp [of b])
  qed
qed

lemma path_nth:
  assumes "indexed b" "i < length (path b)"
  shows "nHeight (entry (path b ! i)) = int i \<and> take (Suc i) (path b) = path (path b ! i)"
proof -
  have c: "path b ! i \<in> set (path b)" using assms(2) by simp
  note t = path_take [OF assms(1) c]
  have h: "nHeight (entry (path b ! i)) \<ge> 0" using indexed_height t by blast
  have "nHeight (entry (path b ! i)) = int i"
    using assms
  proof (induction b arbitrary: i rule: CBlockIndex_induct)
    case (1 b)
    note hb = indexed_height [OF 1(2)]
    show ?case
    proof (cases "pprev b")
      case None
      then show ?thesis using hb 1(3) by (auto simp: path_simp [of b])
    next
      case (Some p)
      then show ?thesis using 1(1) [OF Some, of i] 1(2,3) hb length_path [of p]
        by (auto simp: path_simp [of b] nth_append)
    qed
  qed
  then show ?thesis using t h by (simp add: nat_add_distrib)
qed

lemma path_height_eq:
  assumes "indexed b" "c \<in> set (path b)"
  shows "path b ! nat (nHeight (entry c)) = c"
proof -
  from assms(2) obtain i where "i < length (path b)" "c = path b ! i" by (metis in_set_conv_nth)
  then show ?thesis using path_nth [OF assms(1), of i] by simp
qed

subsection \<open>\<^verbatim>\<open>SetTip\<close> keeps the chain the path to its tip\<close>

definition chain_ok :: "CChain \<Rightarrow> bool" where
  "chain_ok v \<longleftrightarrow> v = [] \<or> (\<exists>b. indexed b \<and> v = map Some (path b))"

lemma set_tip_loop_path:
  assumes "indexed c" "nHeight (entry c) < int (length v)"
    and "\<And>k d. int k \<le> nHeight (entry c) \<Longrightarrow> v ! k = Some d \<Longrightarrow> take (Suc k) v = map Some (path d)"
  shows "set_tip_loop v (Some c) = map Some (path c) @ drop (length (path c)) v"
  using assms
proof (induction c arbitrary: v rule: CBlockIndex_induct)
  case (1 c)
  let ?k = "nat (nHeight (entry c))"
  note h = indexed_height [OF 1(2)] length_path [OF 1(2)]
  have k: "int ?k = nHeight (entry c)" "?k < length v" "length (path c) = Suc ?k" using h 1(3) by auto
  have loop: "set_tip_loop v (Some c) = (if v ! ?k \<noteq> Some c then set_tip_loop (v[?k := Some c]) (pprev c) else v)"
    by (cases c) simp
  show ?case
  proof (cases "v ! ?k = Some c")
    case True
    then show ?thesis using loop 1(4) [OF _ True] k append_take_drop_id [of "Suc ?k" v] by simp
  next
    case False
    let ?v = "v[?k := Some c]"
    show ?thesis
    proof (cases "pprev c")
      case None
      then have "?k = 0" using h by simp
      then show ?thesis using loop False None k by (cases v) (auto simp: path_simp [of c])
    next
      case (Some p)
      then have p: "indexed p" "int ?k = nHeight (entry p) + 1" using h k by auto
      have "set_tip_loop ?v (Some p) = map Some (path p) @ drop (length (path p)) ?v"
      proof (rule 1(1) [OF Some p(1)])
        fix j d assume j: "int j \<le> nHeight (entry p)" "?v ! j = Some d"
        then have l: "j < ?k" using p(2) by linarith
        with j have "v ! j = Some d" "int j \<le> nHeight (entry c)" by auto
        from 1(4) [OF this(2,1)] l show "take (Suc j) ?v = map Some (path d)"
          by (simp add: take_update_cancel del: of_nat_nat)
      qed (use p k in auto)
      moreover have "length (path p) = ?k" using length_path [OF p(1)] p(2) by linarith
      moreover have "drop ?k ?v = Some c # drop (Suc ?k) v" using k by (simp add: Cons_nth_drop_Suc [symmetric] drop_update_swap)
      ultimately show ?thesis using loop False Some k by (simp add: path_simp [of c])
    qed
  qed
qed

theorem SetTip_path:
  assumes "chain_ok v" "indexed b"
  shows "SetTip v (Some b) = map Some (path b)"
proof -
  let ?n = "nat (nHeight (entry b) + 1)"
  let ?v = "take ?n v @ replicate (?n - length v) None"
  have n: "int ?n = nHeight (entry b) + 1" "length (path b) = ?n" "length ?v = ?n"
    using length_path [OF assms(2)] by auto
  have "set_tip_loop ?v (Some b) = map Some (path b) @ drop (length (path b)) ?v"
  proof (rule set_tip_loop_path [OF assms(2)])
    fix k d assume k: "int k \<le> nHeight (entry b)" "?v ! k = Some d"
    then have kl: "k < ?n" "k < length v" "v ! k = Some d"
      using n by (auto simp: nth_append split: if_splits)
    then obtain t where t: "indexed t" "v = map Some (path t)" using assms(1) by (auto simp: chain_ok_def)
    then have "path t ! k = d" "k < length (path t)" using kl by auto
    then have "take (Suc k) (path t) = path d" using path_nth [OF t(1)] by blast
    then show "take (Suc k) ?v = map Some (path d)" using kl t by (simp add: take_map)
  qed (use n in auto)
  then show ?thesis using n by (simp add: SetTip_def)
qed

lemma SetTip_ok: "chain_ok v \<Longrightarrow> (\<And>b. pindex = Some b \<Longrightarrow> indexed b) \<Longrightarrow> chain_ok (SetTip v pindex)"
  using SetTip_path [of v] by (cases pindex) (simp_all add: SetTip_def, simp_all add: chain_ok_def, blast)

lemma Contains_path:
  assumes "indexed t" "indexed b"
  shows "Contains (map Some (path t)) b \<longleftrightarrow> b \<in> set (path t)"
proof -
  have h: "nHeight (entry b) \<ge> 0" using indexed_height [OF assms(2)] by simp
  show ?thesis
  proof
    assume "Contains (map Some (path t)) b"
    then have "nat (nHeight (entry b)) < length (path t)" "path t ! nat (nHeight (entry b)) = b"
      by (auto simp: Contains_def chain_at_def split: if_splits)
    then show "b \<in> set (path t)" by (metis nth_mem)
  next
    assume b: "b \<in> set (path t)"
    have p: "path t ! nat (nHeight (entry b)) = b" "nHeight (entry b) \<le> nHeight (entry t)"
      using path_height_eq [OF assms(1) b] path_take [OF assms(1) b] by simp_all
    from p(2) have l: "nat (nHeight (entry b)) < length (path t)"
      using length_path [OF assms(1)] h by arith
    have "chain_at (map Some (path t)) (nHeight (entry b)) = Some (path t ! nat (nHeight (entry b)))"
      using h l by (simp add: chain_at_def)
    then show "Contains (map Some (path t)) b" unfolding Contains_def p(1) .
  qed
qed

text \<open>\<^verbatim>\<open>FindFork\<close> gives the last block of the path to a block that is on the active chain.\<close>

definition common :: "CBlockIndex \<Rightarrow> CBlockIndex \<Rightarrow> CBlockIndex list" where
  "common t b = filter (\<lambda>c. c \<in> set (path t)) (path b)"

lemma fork_loop_common:
  assumes "indexed t" "indexed b"
  shows "fork_loop (map Some (path t)) (Some b) = (if common t b = [] then None else Some (last (common t b)))"
  using assms(2)
proof (induction b rule: CBlockIndex_induct)
  case (1 b)
  have loop: "fork_loop v (Some b) = (if \<not> Contains v b then fork_loop v (pprev b) else Some b)" for v
    by (cases b) simp
  show ?case
  proof (cases "b \<in> set (path t)")
    case True
    then show ?thesis using loop Contains_path [OF assms(1) 1(2)] by (simp add: common_def path_simp [of b])
  next
    case False
    then show ?thesis using loop Contains_path [OF assms(1) 1(2)] 1(1) indexed_height [OF 1(2)]
      by (cases "pprev b") (simp_all add: common_def path_simp [of b])
  qed
qed

lemma common_back:
  assumes "indexed t" "indexed b" "walk_back n b = Some c" "nHeight (entry c) \<ge> nHeight (entry t)"
  shows "common t c = common t b"
  using assms(2-)
proof (induction n arbitrary: b)
  case (Suc n)
  then obtain p where p: "pprev b = Some p" "walk_back n p = Some c" by (auto split: option.splits)
  have i: "indexed p" "nHeight (entry b) = nHeight (entry p) + 1" using indexed_height [OF Suc.prems(1)] p(1) by auto
  have "nHeight (entry c) \<le> nHeight (entry p)"
    using path_take [OF i(1)] path_walk p(2) by blast
  then have "b \<notin> set (path t)" using path_take [OF assms(1), of b] i(2) Suc.prems(3) by linarith
  then show ?case using Suc.IH [OF i(1) p(2) Suc.prems(3)] p(1) by (simp add: common_def path_simp [of b])
qed simp

theorem FindFork_common:
  assumes "indexed t" "indexed b"
  shows "FindFork (map Some (path t)) b = Some (if common t b = [] then None else Some (last (common t b)))"
proof -
  let ?v = "map Some (path t)"
  have H: "Height ?v = nHeight (entry t)" using length_path [OF assms(1)] by (simp add: Height_def)
  have t: "nHeight (entry t) \<ge> 0" using indexed_height [OF assms(1)] by simp
  show ?thesis
  proof (cases "nHeight (entry b) > Height ?v")
    case True
    obtain c where c: "GetAncestor b (nHeight (entry t)) = Some (Some c)"
      "walk_back (nat (nHeight (entry b) - nHeight (entry t))) b = Some c" "indexed c" "nHeight (entry c) = nHeight (entry t)"
      using GetAncestor_in [OF assms(2) t] True H by auto
    then show ?thesis using True H fork_loop_common [OF assms(1) c(3)] common_back [OF assms c(2)]
      by (simp add: FindFork_def)
  next
    case False
    then show ?thesis using fork_loop_common [OF assms] by (simp add: FindFork_def)
  qed
qed

subsection \<open>Locators\<close>

text \<open>The heights in a locator: eleven consecutive ones, then steps that double, down to the genesis block.\<close>

function locator_heights :: "int \<Rightarrow> int \<Rightarrow> nat \<Rightarrow> int list" where
  "locator_heights h nStep n =
     h # (if h > 0 \<and> nStep > 0
          then locator_heights (max (h - nStep) 0) (if n + 1 > 10 then nStep * 2 else nStep) (n + 1) else [])"
  by pat_completeness auto
termination by (relation "measure (\<lambda>(h, _, _). nat h)") auto

declare locator_heights.simps [simp del]

definition hashed :: "CBlockIndex \<Rightarrow> bool" where
  "hashed b \<longleftrightarrow> (\<forall>c \<in> set (path b). phashBlock (entry c) \<noteq> None)"

lemma path_at:
  assumes "indexed b" "0 \<le> h" "h \<le> nHeight (entry b)"
  shows "walk_back (nat (nHeight (entry b) - h)) b = Some (path b ! nat h)"
    "GetAncestor b h = Some (Some (path b ! nat h))"
    "path b ! nat h \<in> set (path b)" "nHeight (entry (path b ! nat h)) = h"
    "path (path b ! nat h) = take (Suc (nat h)) (path b)"
proof -
  obtain c where c: "GetAncestor b h = Some (Some c)" "walk_back (nat (nHeight (entry b) - h)) b = Some c"
    "nHeight (entry c) = h" using GetAncestor_in [OF assms] by blast
  have m: "c \<in> set (path b)" using c(2) path_walk by blast
  then have "path b ! nat h = c" using path_height_eq [OF assms(1) m] c(3) by simp
  then show "walk_back (nat (nHeight (entry b) - h)) b = Some (path b ! nat h)"
    "GetAncestor b h = Some (Some (path b ! nat h))" "path b ! nat h \<in> set (path b)"
    "nHeight (entry (path b ! nat h)) = h" "path (path b ! nat h) = take (Suc (nat h)) (path b)"
    using c m path_take [OF assms(1) m] assms(2) by (simp_all add: nat_add_distrib)
qed

lemma chain_at_path:
  assumes "indexed t" "Contains (map Some (path t)) b" "indexed b" "0 \<le> h" "h \<le> nHeight (entry b)"
  shows "chain_at (map Some (path t)) h = Some (path b ! nat h)"
proof -
  have b: "b \<in> set (path t)" using Contains_path [OF assms(1,3)] assms(2) by simp
  note p = path_take [OF assms(1) b]
  have "path b ! nat h = path t ! nat h"
    using p assms(4,5) by (metis nth_take less_nat_zero_code nat_less_eq_zless zle_add1_eq_le)
  moreover have "nat h < length (path t)" using p assms(4,5) length_path [OF assms(1)] by arith
  ultimately show ?thesis using assms(4) by (simp add: chain_at_def)
qed

definition hash_at :: "CBlockIndex \<Rightarrow> int \<Rightarrow> uint256" where
  "hash_at b h = the (phashBlock (entry (path b ! nat h)))"

lemma locator_heights_bounds:
  "x \<in> set (locator_heights h nStep n) \<Longrightarrow> 0 \<le> h \<Longrightarrow> 0 \<le> x \<and> x \<le> h"
proof (induction h nStep n rule: locator_heights.induct)
  case (1 h nStep n)
  show ?case using 1(2) 1(1) 1(3) by (subst (asm) locator_heights.simps) (auto split: if_splits)
qed

lemma locator_loop_heights:
  assumes "indexed t" "indexed b" "hashed b" "0 < nStep"
  shows "locator_loop (map Some (path t)) (Some b) nStep vHave =
    Some (vHave @ map (hash_at b) (locator_heights (nHeight (entry b)) nStep (length vHave)))"
  using assms(2-4)
proof (induction "nat (nHeight (entry b))" arbitrary: b nStep vHave rule: less_induct)
  case less
  let ?h = "nHeight (entry b)"
  let ?v = "map Some (path t)"
  note ib = indexed_height [OF less.prems(1)] and hb = length_path [OF less.prems(1)]
  have self: "path b ! nat ?h = b" using path_height_eq [OF less.prems(1)] path_simp [of b] by simp
  have "phashBlock (entry b) \<noteq> None"
    using less.prems(2) by (auto simp: hashed_def path_simp [of b])
  then have hash: "GetBlockHash b = Some (hash_at b ?h)" using self by (auto simp: GetBlockHash_def hash_at_def)
  show ?case
  proof (cases "?h = 0")
    case True
    then show ?thesis using hash by (subst locator_loop.simps, subst locator_heights.simps) (simp add: Let_def)
  next
    case False
    let ?ht = "max (?h - nStep) 0" and ?n = "if length vHave + 1 > 10 then nStep * 2 else nStep"
    let ?c = "path b ! nat ?ht"
    have ht: "0 \<le> ?ht" "?ht \<le> ?h" "?ht < ?h" using ib False less.prems(3) by auto
    note c = path_at [OF less.prems(1) ht(1,2)]
    have ic: "indexed ?c" using path_take [OF less.prems(1) c(3)] by simp
    have "hashed ?c" using less.prems(2) c(5) by (auto simp: hashed_def dest: in_set_takeD)
    from less.hyps [OF _ ic this, of ?n "vHave @ [hash_at b ?h]"] c(4) ht less.prems(3)
    have "locator_loop ?v (Some ?c) ?n (vHave @ [hash_at b ?h]) =
        Some ((vHave @ [hash_at b ?h]) @ map (hash_at ?c) (locator_heights ?ht ?n (length vHave + 1)))" by simp
    moreover have "map (hash_at ?c) (locator_heights ?ht ?n (length vHave + 1)) =
        map (hash_at b) (locator_heights ?ht ?n (length vHave + 1))"
    proof (rule map_cong [OF refl])
      fix x assume "x \<in> set (locator_heights ?ht ?n (length vHave + 1))"
      from locator_heights_bounds [OF this ht(1)] have "nat x < Suc (nat ?ht)" by arith
      then show "hash_at ?c x = hash_at b x" using c(5) by (simp add: hash_at_def)
    qed
    moreover have "locator_loop ?v (Some b) nStep vHave = locator_loop ?v (Some ?c) ?n (vHave @ [hash_at b ?h])"
    proof (cases "Contains ?v b")
      case True
      then show ?thesis using hash False chain_at_path [OF assms(1) True less.prems(1) ht(1,2)]
        by (subst locator_loop.simps) (simp add: Let_def)
    next
      case c': False
      then show ?thesis using hash False c(2) by (subst locator_loop.simps) (simp add: Let_def)
    qed
    moreover have "locator_heights ?h nStep (length vHave) = ?h # locator_heights ?ht ?n (length vHave + 1)"
      using ib False less.prems(3) by (subst locator_heights.simps) simp
    ultimately show ?thesis by simp
  qed
qed

theorem GetLocator_heights:
  assumes "indexed t" "indexed b" "hashed b"
  shows "GetLocator (map Some (path t)) (Some b) = Some (map (hash_at b) (locator_heights (nHeight (entry b)) 1 0))"
  using locator_loop_heights [OF assms, of 1 "[]"] by (simp add: GetLocator_def)

text \<open>A locator ends in the genesis block, and its length is logarithmic in the height.\<close>

lemma locator_heights_ne [simp]: "locator_heights h nStep n \<noteq> []"
  by (subst locator_heights.simps) simp

lemma locator_heights_last: "0 \<le> h \<Longrightarrow> 0 < nStep \<Longrightarrow> last (locator_heights h nStep n) = 0"
proof (induction h nStep n rule: locator_heights.induct)
  case (1 h nStep n)
  let ?n = "if n + 1 > 10 then nStep * 2 else nStep"
  have "last (locator_heights (max (h - nStep) 0) ?n (n + 1)) = 0" if "h > 0"
    using "1.IH" "1.prems" that by simp
  moreover have "locator_heights h nStep n = h # (if h > 0 then locator_heights (max (h - nStep) 0) ?n (n + 1) else [])"
    using "1.prems" by (subst locator_heights.simps) simp
  ultimately show ?case using "1.prems" by (simp del: locator_heights.simps)
qed

lemma locator_heights_doubling:
  "0 \<le> h \<Longrightarrow> 0 < nStep \<Longrightarrow> n \<ge> 10 \<Longrightarrow> h < nStep * (2 ^ k - 1) \<Longrightarrow>
   length (locator_heights h nStep n) \<le> k + 1"
proof (induction h nStep n arbitrary: k rule: locator_heights.induct)
  case (1 h nStep n)
  show ?case
  proof (cases "h > 0")
    case False
    then show ?thesis by (subst locator_heights.simps) simp
  next
    case True
    then obtain j where k: "k = Suc j" using "1.prems" by (cases k) auto
    have "max (h - nStep) 0 < nStep * 2 * (2 ^ j - 1) \<or> max (h - nStep) 0 = 0"
      using "1.prems"(4) k by (auto simp: algebra_simps)
    then have "length (locator_heights (max (h - nStep) 0) (nStep * 2) (n + 1)) \<le> j + 1"
    proof
      assume "max (h - nStep) 0 < nStep * 2 * (2 ^ j - 1)"
      from "1.IH" [OF _ _ _ _ ] this True "1.prems" show ?thesis by auto
    next
      assume "max (h - nStep) 0 = 0"
      then show ?thesis by (subst locator_heights.simps) simp
    qed
    then show ?thesis using True "1.prems" k by (subst locator_heights.simps) simp
  qed
qed

lemma locator_heights_length:
  "0 \<le> h \<Longrightarrow> n \<le> 10 \<Longrightarrow> h + 1 < 2 ^ k \<Longrightarrow> length (locator_heights h 1 n) \<le> k + 11 - n"
proof (induction "10 - n" arbitrary: h n)
  case 0
  then show ?case using locator_heights_doubling [of h 1 n k] by simp
next
  case (Suc m)
  have "length (locator_heights (max (h - 1) 0) 1 (n + 1)) \<le> k + 11 - (n + 1)"
    using Suc.hyps Suc.prems by (intro Suc.hyps(1)) auto
  then show ?case using Suc.hyps(2) by (subst locator_heights.simps) auto
qed

subsection \<open>Majorities\<close>

fun ancestors :: "nat \<Rightarrow> CBlockIndex option \<Rightarrow> CBlockIndex list" where
  "ancestors (Suc n) (Some b) = b # ancestors n (pprev b)"
| "ancestors _ _ = []"

definition upgraded :: "int \<Rightarrow> CBlockIndex \<Rightarrow> bool" where
  "upgraded minVersion b \<longleftrightarrow> sint (bi_nVersion (entry b)) \<ge> minVersion"

lemma majority_loop_count:
  assumes "unat nFound \<le> unat nRequired"
  shows "unat nRequired \<le> unat (majority_loop minVersion nToCheck nRequired i p nFound) \<longleftrightarrow>
    unat nRequired \<le> unat nFound + length (filter (upgraded minVersion) (ancestors (unat nToCheck - i) p))"
  using assms
proof (induction minVersion nToCheck nRequired i p nFound rule: majority_loop.induct)
  case (1 minVersion nToCheck nRequired i p nFound)
  show ?case
  proof (cases p)
    case None
    then show ?thesis by (subst majority_loop.simps) (cases "unat nToCheck - i"; simp)
  next
    case (Some b)
    show ?thesis
    proof (cases "i < unat nToCheck \<and> nFound < nRequired")
      case True
      let ?f = "if sint (bi_nVersion (entry b)) \<ge> minVersion then nFound + 1 else nFound"
      have "unat (nFound + 1) = unat nFound + 1"
        using True unsigned_less [of nRequired, where ?'a = nat] unat_add_lem [of nFound 1] by (auto simp: word_less_nat_alt)
      then have f: "unat ?f = unat nFound + (if upgraded minVersion b then 1 else 0)" by (simp add: upgraded_def)
      have "unat ?f \<le> unat nRequired" using True f by (auto simp: word_less_nat_alt)
      from "1.IH" [OF Some True this] True Some f
      show ?thesis by (subst majority_loop.simps) (simp add: Suc_diff_Suc [symmetric] flip: diff_Suc_eq_diff_pred)
    next
      case False
      then have "unat nToCheck - i = 0 \<or> unat nFound = unat nRequired"
        using "1.prems" by (auto simp: word_less_nat_alt)
      moreover have "majority_loop minVersion nToCheck nRequired i p nFound = nFound"
        using False Some by (subst majority_loop.simps) auto
      ultimately show ?thesis by auto
    qed
  qed
qed

theorem IsSuperMajority_count:
  "IsSuperMajority nToCheck minVersion p nRequired \<longleftrightarrow>
     unat nRequired \<le> length (filter (upgraded minVersion) (ancestors (unat nToCheck) p))"
  using majority_loop_count [of 0 nRequired minVersion nToCheck 0 p]
  by (simp add: IsSuperMajority_def word_le_nat_alt)

subsection \<open>The median of the past times\<close>

lemma sorted_nth_filter_le:
  assumes "sorted xs" "k < length xs"
  shows "length (filter (\<lambda>x. x \<le> xs ! k) xs) \<ge> k + 1" "length (filter (\<lambda>x. x \<ge> xs ! k) xs) \<ge> length xs - k"
proof -
  have "filter (\<lambda>x. x \<le> xs ! k) (take (k + 1) xs) = take (k + 1) xs"
    using assms by (intro filter_True) (auto simp: in_set_conv_nth sorted_nth_mono)
  then have "length (filter (\<lambda>x. x \<le> xs ! k) (take (k + 1) xs @ drop (k + 1) xs)) \<ge> k + 1"
    using assms(2) unfolding filter_append by simp
  then show "length (filter (\<lambda>x. x \<le> xs ! k) xs) \<ge> k + 1" by simp
  have "filter (\<lambda>x. x \<ge> xs ! k) (drop k xs) = drop k xs"
    using assms by (intro filter_True) (auto simp: in_set_conv_nth sorted_nth_mono)
  then have "length (filter (\<lambda>x. x \<ge> xs ! k) (take k xs @ drop k xs)) \<ge> length xs - k"
    unfolding filter_append by simp
  then show "length (filter (\<lambda>x. x \<ge> xs ! k) xs) \<ge> length xs - k" by simp
qed

lemma length_filter_sort: "length (filter P (sort xs)) = length (filter P xs)"
  by (simp add: filter_sort)

theorem GetMedianTimePast_median:
  fixes b :: CBlockIndex
  defines "ts \<equiv> past_times nMedianTimeSpan (Some b)"
  shows "GetMedianTimePast b \<in> set ts \<and> length ts \<le> 2 * length (filter (\<lambda>t. t \<le> GetMedianTimePast b) ts) \<and>
    length ts \<le> 2 * length (filter (\<lambda>t. t \<ge> GetMedianTimePast b) ts)"
proof -
  let ?s = "sort (rev ts)"
  have ne: "ts \<noteq> []" by (simp add: ts_def nMedianTimeSpan_def numeral_eq_Suc)
  have k: "length ts div 2 < length ?s" using ne by (cases ts) auto
  have m: "GetMedianTimePast b = ?s ! (length ts div 2)" by (simp add: GetMedianTimePast_def ts_def)
  have "?s ! (length ts div 2) \<in> set ?s" using k by (rule nth_mem)
  then show ?thesis using m sorted_nth_filter_le [OF _ k] by (simp add: length_filter_sort rev_filter [symmetric]) linarith
qed

end
