(* ===== verification/Pow.thy ===== *)
theory Pow
  imports Chain
begin

text \<open>
  Proof of work (\<^verbatim>\<open>pow.cpp\<close>, \<^verbatim>\<open>chain.cpp\<close>): the retargeting rules of the two phases of the
  chain, the range check, the work of a block and its trust, with the chain parameters
  (\<^verbatim>\<open>chainparams.h\<close>) the validation code uses. A result \<open>None\<close> is an exception, a failed
  assertion or the dereference of a null pointer.
\<close>

subsection \<open>Chain parameters\<close>

record CChainParams =
  hashGenesisBlock :: uint256
  bnProofOfWorkLimit :: uint256
  nSubsidyHalvingInterval :: int
  nMaxReorganizationDepth :: int
  nEnforceBlockUpgradeMajority :: u32
  nRejectBlockOutdatedMajority :: u32
  nToCheckBlockUpgradeMajority :: u32
  nTargetTimespan :: int
  nTargetSpacing :: int
  nLastPOWBlock :: int
  nMaturity :: int
  nMasternodeCountDrift :: int
  nModifierUpdateBlock :: int
  nMasternodeCollateralAmt :: int
  nMaxMoneyOut :: int
  nLyraBadBlockTime :: int
  nLyraBadBlockBits :: u32
  fSkipProofOfWorkCheck :: bool

definition CMainParams :: CChainParams where
  "CMainParams =
     \<lparr>hashGenesisBlock = set_hex 8 ''0xe2aacf31ce196903e00157a50d207d04a152176b4eb83ecbb0b75b0c9455d1fd'',
      bnProofOfWorkLimit = bu_shr (bu_not (bu_zero 8)) 20,
      nSubsidyHalvingInterval = 210000,
      nMaxReorganizationDepth = 100,
      nEnforceBlockUpgradeMajority = 750,
      nRejectBlockOutdatedMajority = 950,
      nToCheckBlockUpgradeMajority = 1000,
      nTargetTimespan = 1 * 60 * 60,
      nTargetSpacing = 1 * 60,
      nLastPOWBlock = 750,
      nMaturity = 20,
      nMasternodeCountDrift = 20,
      nModifierUpdateBlock = 615800,
      nMasternodeCollateralAmt = 15000,
      nMaxMoneyOut = 50000000 * COIN,
      nLyraBadBlockTime = 1545446256,
      nLyraBadBlockBits = 0x1e013b10,
      fSkipProofOfWorkCheck = False\<rparr>"

subsection \<open>Retargeting\<close>

text \<open>The moving target of the proof-of-stake phase.\<close>

definition pos_target :: "u32 \<Rightarrow> int \<Rightarrow> u32 option" where
  "pos_target nBits nActualSpacing =
     (let bnTargetLimit = bu_shr (bu_not (bu_zero 8)) 24;
          nTargetSpacing = 60;
          nTargetTimespan = 60 * 40;
          nActualSpacing = (if nActualSpacing < 0 then 1 else nActualSpacing);
          bnNew = fst (set_compact nBits);
          nInterval = nTargetTimespan div nTargetSpacing;
          bnNew = bu_mul32 bnNew (word_of_int ((nInterval - 1) * nTargetSpacing + nActualSpacing + nActualSpacing))
      in case bu_div bnNew (bu_of_u64 8 (word_of_int ((nInterval + 1) * nTargetSpacing))) of
           Inl _ \<Rightarrow> None
         | Inr bnNew \<Rightarrow>
             get_compact (if bu_compare bnNew (bu_zero 8) \<le> 0 \<or> bu_compare bnNew bnTargetLimit > 0
                          then bnTargetLimit else bnNew) False)"

text \<open>The loop of the proof-of-work phase, from its \<open>i\<close>-th round at the block \<open>BlockReading\<close>.\<close>

record dgw =
  CountBlocks :: int
  PastDifficultyAverage :: uint256
  PastDifficultyAveragePrev :: uint256
  nActualTimespan :: int
  LastBlockTime :: int

definition dgw_average :: "u32 \<Rightarrow> dgw \<Rightarrow> dgw option" where
  "dgw_average nBits d =
     (if CountBlocks d \<le> 24
      then map_option (\<lambda>avg. d\<lparr>PastDifficultyAverage := avg, PastDifficultyAveragePrev := avg\<rparr>)
             (if CountBlocks d = 1 then Some (fst (set_compact nBits))
              else case bu_div (bu_add (bu_mul32 (PastDifficultyAveragePrev d) (word_of_int (CountBlocks d)))
                                       (fst (set_compact nBits)))
                               (bu_of_u64 8 (word_of_int (CountBlocks d + 1))) of
                     Inl _ \<Rightarrow> None
                   | Inr q \<Rightarrow> Some q)
      else Some d)"

definition dgw_time :: "int \<Rightarrow> dgw \<Rightarrow> dgw" where
  "dgw_time time d =
     (let d = (if LastBlockTime d > 0
               then d\<lparr>nActualTimespan := nActualTimespan d + (LastBlockTime d - time)\<rparr> else d)
      in d\<lparr>LastBlockTime := time\<rparr>)"

fun dgw_loop :: "nat \<Rightarrow> CBlockIndex \<Rightarrow> dgw \<Rightarrow> dgw option" where
  "dgw_loop i (Index e p s) d =
     (if nHeight e > 0 \<and> \<not> i > 24 then
        (case dgw_average (bi_nBits e) (d\<lparr>CountBlocks := CountBlocks d + 1\<rparr>) of
           None \<Rightarrow> None
         | Some d \<Rightarrow>
             let d = dgw_time (bi_GetBlockTime (Index e p s)) d
             in (case p of None \<Rightarrow> Some d | Some q \<Rightarrow> dgw_loop (i + 1) q d))
      else Some d)"

text \<open>Division of \<^verbatim>\<open>int64_t\<close> values truncates; the timespans divided here are not negative.\<close>

definition dgw_target :: "CChainParams \<Rightarrow> dgw \<Rightarrow> u32 option" where
  "dgw_target P d =
     (let nTargetTimespan = CountBlocks d * nTargetSpacing P;
          span = nActualTimespan d;
          span = (if span < nTargetTimespan div 3 then nTargetTimespan div 3 else span);
          span = (if span > nTargetTimespan * 3 then nTargetTimespan * 3 else span);
          bnNew = bu_mul32 (PastDifficultyAverage d) (word_of_int span)
      in case bu_div bnNew (bu_of_u64 8 (word_of_int nTargetTimespan)) of
           Inl _ \<Rightarrow> None
         | Inr bnNew \<Rightarrow>
             get_compact (if bu_compare bnNew (bnProofOfWorkLimit P) > 0 then bnProofOfWorkLimit P else bnNew) False)"

definition GetNextWorkRequired :: "CChainParams \<Rightarrow> CBlockIndex option \<Rightarrow> u32 option" where
  "GetNextWorkRequired P pindexLast =
     (case pindexLast of
        None \<Rightarrow> get_compact (bnProofOfWorkLimit P) False
      | Some b \<Rightarrow>
          if nHeight (entry b) = 0 \<or> nHeight (entry b) < 24 then get_compact (bnProofOfWorkLimit P) False
          else if nHeight (entry b) > nLastPOWBlock P then
            (case pprev b of
               None \<Rightarrow> None
             | Some p \<Rightarrow> pos_target (bi_nBits (entry b)) (bi_GetBlockTime b - bi_GetBlockTime p))
          else (case dgw_loop 1 b \<lparr>CountBlocks = 0, PastDifficultyAverage = bu_zero 8,
                                    PastDifficultyAveragePrev = bu_zero 8, nActualTimespan = 0, LastBlockTime = 0\<rparr> of
                  None \<Rightarrow> None | Some d \<Rightarrow> dgw_target P d))"

subsection \<open>Proofs and work\<close>

text \<open>The comparison of the hash with the target is commented out in the code.\<close>

definition CheckProofOfWork :: "CChainParams \<Rightarrow> uint256 \<Rightarrow> u32 \<Rightarrow> bool" where
  "CheckProofOfWork P hash nBits =
     (if fSkipProofOfWorkCheck P then True
      else case set_compact nBits of (bnTarget, fNegative, fOverflow) \<Rightarrow>
        if fNegative \<or> bu_equal_u64 bnTarget 0 \<or> fOverflow \<or> bu_compare bnTarget (bnProofOfWorkLimit P) > 0
        then False else True)"

definition GetBlockProof :: "CBlockIndex \<Rightarrow> uint256 option" where
  "GetBlockProof b =
     (case set_compact (bi_nBits (entry b)) of (bnTarget, fNegative, fOverflow) \<Rightarrow>
        if fNegative \<or> fOverflow \<or> bu_equal_u64 bnTarget 0 then Some (bu_zero 8)
        else case bu_div (bu_not bnTarget) (bu_add bnTarget (bu_of_u64 8 1)) of
               Inl _ \<Rightarrow> None
             | Inr q \<Rightarrow> Some (bu_add q (bu_of_u64 8 1)))"

definition GetBlockTrust :: "CBlockIndex \<Rightarrow> uint256 option" where
  "GetBlockTrust b =
     (let bnTarget = fst (set_compact (bi_nBits (entry b)))
      in if bu_compare bnTarget (bu_zero 8) \<le> 0 then Some (bu_zero 8)
         else if bi_IsProofOfStake b
         then (case bu_div (bu_shl (bu_of_u64 8 1) 256) (bu_add bnTarget (bu_of_u64 8 1)) of
                 Inl _ \<Rightarrow> None | Inr q \<Rightarrow> Some q)
         else (case bu_div (bu_shr (bu_not (bu_zero 8)) 20) (bu_add bnTarget (bu_of_u64 8 1)) of
                 Inl _ \<Rightarrow> None
               | Inr bnPoWTrust \<Rightarrow>
                   Some (if bu_compare bnPoWTrust (bu_of_u64 8 1) > 0 then bnPoWTrust else bu_of_u64 8 1)))"

subsection \<open>The values computed\<close>

definition target :: "u32 \<Rightarrow> nat" where
  "target nBits = wval (fst (set_compact nBits))"

lemma length_set_compact [simp, len_simps]: "length (fst (set_compact c)) = 8"
  by (simp add: set_compact_def Let_def split: prod.split)

lemma wval_less8: "length (a :: uint256) = 8 \<Longrightarrow> wval a < 2 ^ 256"
  using wval_bound [of a] by simp

lemma get_compact_total: "length a = 8 \<Longrightarrow> \<exists>c. get_compact a False = Some c"
  by (metis get_compact_val surj_pair)

lemma bu_div_u64:
  assumes "length a = 8" "0 < n" "n < 2 ^ 64"
  shows "\<exists>q. bu_div a (bu_of_u64 8 (word_of_int n)) = Inr q \<and> length q = 8 \<and> int (wval q) = int (wval a) div n"
proof -
  have v: "int (wval (bu_of_u64 8 (word_of_int n))) = n"
    using assms(2,3) by (simp add: val_simps unsigned_of_int take_bit_int_eq_self)
  then have "wval (bu_of_u64 8 (word_of_int n)) \<noteq> 0" using assms(2) by auto
  from bu_div_val [OF _ this, of a] assms(1) obtain q where
    "bu_div a (bu_of_u64 8 (word_of_int n)) = Inr q" "length q = 8"
    "wval q = wval a div wval (bu_of_u64 8 (word_of_int n))" by (auto simp: len_simps)
  then show ?thesis using v by (auto simp: zdiv_int)
qed

lemma bu_mul32_int:
  assumes "length a = 8" "0 \<le> n" "n < 2 ^ 32" "int (wval a) * n < 2 ^ 256"
  shows "int (wval (bu_mul32 a (word_of_int n))) = int (wval a) * n"
proof -
  have u: "int (unat (word_of_int n :: u32)) = n"
    using assms(2,3) by (simp add: unsigned_of_int take_bit_int_eq_self)
  have "int (wval a * unat (word_of_int n :: u32)) < 2 ^ 256" using assms(4) u by simp
  then have "wval a * unat (word_of_int n :: u32) < 2 ^ 256"
    by (metis of_nat_less_numeral_power_cancel_iff)
  then show ?thesis using assms(1) u by (simp add: val_simps)
qed

text \<open>The value a compact result stands for: the three top bytes are kept.\<close>

definition compact_of :: "int \<Rightarrow> u32 \<Rightarrow> bool" where
  "compact_of v c \<longleftrightarrow> (\<exists>a. length a = 8 \<and> int (wval a) = v \<and> get_compact a False = Some c)"

lemma compact_ofI: "length a = 8 \<Longrightarrow> int (wval a) = v \<Longrightarrow> \<exists>c. get_compact a False = Some c \<and> compact_of v c"
  using get_compact_total [of a] by (auto simp: compact_of_def)

definition pos_limit :: int where
  "pos_limit = 2 ^ 232 - 1"

lemma pos_limit_val: "int (wval (bu_shr (bu_not (bu_zero 8)) 24)) = pos_limit"
  by (simp add: val_simps len_simps pos_limit_def)

theorem pos_target_exact:
  assumes "int (target nBits) * (2340 + 2 * max s 1) < 2 ^ 256" "0 \<le> s" "s < 2 ^ 30"
  defines "v \<equiv> int (target nBits) * (2340 + 2 * s) div 2460"
  shows "\<exists>c. pos_target nBits s = Some c \<and> compact_of (if v = 0 \<or> v > pos_limit then pos_limit else v) c"
proof -
  let ?a = "bu_mul32 (fst (set_compact nBits)) (word_of_int (39 * 60 + s + s))"
  have o: "int (target nBits) * (2340 + 2 * s) < 2 ^ 256"
  proof -
    have "int (target nBits) * (2340 + 2 * s) \<le> int (target nBits) * (2340 + 2 * max s 1)"
      by (intro mult_left_mono) auto
    then show ?thesis using assms(1) by linarith
  qed
  have a: "int (wval ?a) = int (target nBits) * (2340 + 2 * s)" "length ?a = 8"
    using bu_mul32_int [of "fst (set_compact nBits)" "39 * 60 + s + s"] o assms(2,3)
    by (simp_all add: target_def len_simps algebra_simps)
  obtain q where q: "bu_div ?a (bu_of_u64 8 (word_of_int 2460)) = Inr q" "length q = 8" "int (wval q) = v"
    using bu_div_u64 [OF a(2), of 2460] a(1) by (auto simp: v_def)
  have z: "v = 0 \<longleftrightarrow> wval q = 0" "v > pos_limit \<longleftrightarrow> wval q > wval (bu_shr (bu_not (bu_zero 8)) 24)"
    using q(3) pos_limit_val by auto
  have c: "bu_compare q (bu_zero 8) \<le> 0 \<or> bu_compare q (bu_shr (bu_not (bu_zero 8)) 24) > 0 \<longleftrightarrow> v = 0 \<or> v > pos_limit"
    using q(2) z by (simp add: bu_compare_val len_simps val_simps)
  let ?r = "if v = 0 \<or> v > pos_limit then bu_shr (bu_not (bu_zero 8)) 24 else q"
  have "length ?r = 8" "int (wval ?r) = (if v = 0 \<or> v > pos_limit then pos_limit else v)"
    using q pos_limit_val by (auto simp: len_simps)
  from compact_ofI [OF this] show ?thesis using q(1) c assms(2) by (simp add: pos_target_def Let_def)
qed

subsection \<open>The proof-of-work phase\<close>

text \<open>
  The reference: the average of targets, the newest first, in which the \<open>k\<close>-th target joins the average of
  the earlier ones, weighted \<open>k\<close>, with weight one, each time rounded down.
\<close>

fun running_average :: "nat \<Rightarrow> nat \<Rightarrow> nat list \<Rightarrow> nat" where
  "running_average a k [] = a"
| "running_average a k (t # ts) = running_average ((a * (k + 1) + t) div (k + 2)) (k + 1) ts"

definition moving_average :: "nat list \<Rightarrow> nat" where
  "moving_average ts = (case ts of [] \<Rightarrow> 0 | t # ts \<Rightarrow> running_average t 1 ts)"

lemma running_average_snoc:
  "running_average a k (ts @ [t]) = (running_average a k ts * (k + length ts + 1) + t) div (k + length ts + 2)"
  by (induction a k ts rule: running_average.induct) simp_all

lemma moving_average_snoc:
  "ts \<noteq> [] \<Longrightarrow> moving_average (ts @ [t]) = (moving_average ts * (length ts + 1) + t) div (length ts + 2)"
  by (cases ts) (simp_all add: moving_average_def running_average_snoc)

lemma running_average_bounds:
  assumes "lo \<le> a" "a \<le> hi" "\<forall>t \<in> set ts. lo \<le> t \<and> t \<le> hi"
  shows "lo \<le> running_average a k ts \<and> running_average a k ts \<le> hi"
  using assms
proof (induction a k ts rule: running_average.induct)
  case (2 a k t ts)
  have m: "(k + 2) * lo = lo * (k + 1) + lo" "(k + 2) * hi = hi * (k + 1) + hi" by (simp_all add: algebra_simps)
  have "lo * (k + 1) + lo \<le> a * (k + 1) + t" "a * (k + 1) + t \<le> hi * (k + 1) + hi"
    using 2(2-4) by (intro add_mono mult_le_mono1; simp)+
  then have "((k + 2) * lo) div (k + 2) \<le> (a * (k + 1) + t) div (k + 2)" "(a * (k + 1) + t) div (k + 2) \<le> ((k + 2) * hi) div (k + 2)"
    unfolding m by (intro div_le_mono; simp)+
  then have "lo \<le> (a * (k + 1) + t) div (k + 2)" "(a * (k + 1) + t) div (k + 2) \<le> hi" by (simp_all del: mult_Suc_right add_2_eq_Suc')
  then show ?case using 2(1) 2(4) unfolding running_average.simps by simp
qed simp

lemma moving_average_bounds:
  "ts \<noteq> [] \<Longrightarrow> \<forall>t \<in> set ts. lo \<le> t \<and> t \<le> hi \<Longrightarrow> lo \<le> moving_average ts \<and> moving_average ts \<le> hi"
  using running_average_bounds [of lo "hd ts" hi "tl ts" 1] by (cases ts) (simp_all add: moving_average_def)

definition block_target :: "CBlockIndex \<Rightarrow> nat" where
  "block_target b = target (bi_nBits (entry b))"

text \<open>The state of the loop after the blocks \<open>bs\<close>, the newest first.\<close>

definition dgw_after :: "CBlockIndex list \<Rightarrow> dgw \<Rightarrow> bool" where
  "dgw_after bs d \<longleftrightarrow> CountBlocks d = int (length bs) \<and> length (PastDifficultyAverage d) = 8 \<and>
     PastDifficultyAveragePrev d = PastDifficultyAverage d \<and> wval (PastDifficultyAverage d) = moving_average (map block_target bs) \<and>
     (if bs = [] then nActualTimespan d = 0 \<and> LastBlockTime d = 0
      else nActualTimespan d = bi_GetBlockTime (hd bs) - bi_GetBlockTime (last bs) \<and> LastBlockTime d = bi_GetBlockTime (last bs))"

lemma dgw_average_after:
  assumes "dgw_after bs d" "length bs < 24" "block_target b \<le> L" "\<forall>c \<in> set bs. block_target c \<le> L" "L < 2 ^ 240"
  shows "\<exists>avg. dgw_average (bi_nBits (entry b)) (d\<lparr>CountBlocks := CountBlocks d + 1\<rparr>) =
      Some (d\<lparr>CountBlocks := int (length bs) + 1, PastDifficultyAverage := avg, PastDifficultyAveragePrev := avg\<rparr>) \<and>
    length avg = 8 \<and> wval avg = moving_average (map block_target (bs @ [b]))"
proof (cases "bs = []")
  case True
  then show ?thesis using assms(1)
    by (intro exI [of _ "fst (set_compact (bi_nBits (entry b)))"])
      (simp add: dgw_average_def dgw_after_def block_target_def target_def len_simps moving_average_def)
next
  case False
  define n where "n = length bs"
  have n: "0 < n" "n < 24" "CountBlocks d = int n" using False assms(1,2) by (auto simp: n_def dgw_after_def)
  let ?p = "PastDifficultyAveragePrev d" and ?t = "fst (set_compact (bi_nBits (entry b)))"
  let ?m = "bu_mul32 ?p (word_of_int (int n + 1))"
  have p: "length ?p = 8" "wval ?p = moving_average (map block_target bs)" using assms(1) by (auto simp: dgw_after_def)
  have pL: "wval ?p \<le> L" unfolding p(2)
    using moving_average_bounds [of "map block_target bs" 0 L] assms(4) False by simp
  have "int (wval ?p) * (int n + 1) \<le> int L * 24" using pL n(2) by (intro mult_mono) auto
  then have b: "int (wval ?p) * (int n + 1) < 2 ^ 250" using assms(5) by simp
  have m: "int (wval ?m) = int (wval ?p) * (int n + 1)" "length ?m = 8"
    using bu_mul32_int [OF p(1), of "int n + 1"] b n(2) p(1) by (simp_all add: len_simps)
  have "int (wval ?m) = int (wval ?p * (n + 1))" unfolding m(1) by (simp add: algebra_simps)
  then have m': "wval ?m = wval ?p * (n + 1)" unfolding of_nat_eq_iff .
  have t: "wval ?t = block_target b" "wval ?t \<le> L" using assms(3) by (simp_all add: target_def block_target_def)
  have "int (wval ?m) < 2 ^ 250" using b m(1) by simp
  then have "wval ?m < 2 ^ 250" by (metis of_nat_less_numeral_power_cancel_iff)
  then have "wval ?m + wval ?t < 2 ^ 256" using t(2) assms(5) by simp
  then have s: "wval (bu_add ?m ?t) = wval ?m + wval ?t" "length (bu_add ?m ?t) = 8"
    using m(2) by (simp_all add: bu_add_val len_simps)
  obtain q where q: "bu_div (bu_add ?m ?t) (bu_of_u64 8 (word_of_int (int n + 2))) = Inr q" "length q = 8"
    "int (wval q) = int (wval (bu_add ?m ?t)) div (int n + 2)"
    using bu_div_u64 [OF s(2), of "int n + 2"] n(2) by auto
  have "int (wval q) = int ((wval ?p * (n + 1) + block_target b) div (n + 2))"
    unfolding q(3) s(1) m' t(1) by (simp add: zdiv_int add.commute)
  then have "wval q = moving_average (map block_target (bs @ [b]))"
    using moving_average_snoc [of "map block_target bs" "block_target b"] False p(2) by (simp add: n_def)
  then show ?thesis using q(1,2) n by (auto simp: dgw_average_def add.assoc n_def)
qed

lemma dgw_time_after:
  assumes "dgw_after bs d" "length avg = 8" "wval avg = moving_average (map block_target (bs @ [b]))"
    and "\<forall>c \<in> set bs. bi_GetBlockTime c > 0"
  shows "dgw_after (bs @ [b]) (dgw_time (bi_GetBlockTime b)
    (d\<lparr>CountBlocks := int (length bs) + 1, PastDifficultyAverage := avg, PastDifficultyAveragePrev := avg\<rparr>))"
proof (cases "bs = []")
  case True
  then show ?thesis using assms by (simp add: dgw_after_def dgw_time_def)
next
  case False
  then have "bi_GetBlockTime (last bs) > 0" using assms(4) by simp
  then show ?thesis using assms(1-3) False by (simp add: dgw_after_def dgw_time_def)
qed

lemma ancestors_Suc: "ancestors (Suc n) (Some b) = b # ancestors n (pprev b)"
  by simp

lemma dgw_loop_after:
  assumes "dgw_after bs d" "length bs + n = 24" "indexed b" "int n \<le> nHeight (entry b)" "L < 2 ^ 240"
    and "\<forall>c \<in> set bs \<union> set (ancestors n (Some b)). block_target c \<le> L \<and> bi_GetBlockTime c > 0"
  shows "\<exists>d'. dgw_loop (length bs + 1) b d = Some d' \<and> dgw_after (bs @ ancestors n (Some b)) d'"
  using assms
proof (induction n arbitrary: bs d b)
  case 0
  have "dgw_loop (length bs + 1) b d = Some d" using 0(2) by (cases b) simp
  then show ?case using 0(1) by simp
next
  case (Suc n)
  have loop: "dgw_loop i b d = (if nHeight (entry b) > 0 \<and> \<not> i > 24 then
        (case dgw_average (bi_nBits (entry b)) (d\<lparr>CountBlocks := CountBlocks d + 1\<rparr>) of
           None \<Rightarrow> None
         | Some d \<Rightarrow> (case pprev b of None \<Rightarrow> Some (dgw_time (bi_GetBlockTime b) d)
             | Some q \<Rightarrow> dgw_loop (i + 1) q (dgw_time (bi_GetBlockTime b) d)))
      else Some d)" for i
    by (cases b) (simp add: Let_def split: option.split)
  have c: "nHeight (entry b) > 0 \<and> \<not> length bs + 1 > 24" using Suc.prems(2,4) by auto
  obtain p where p: "pprev b = Some p" "indexed p" "nHeight (entry b) = nHeight (entry p) + 1"
    using indexed_height [OF Suc.prems(3)] c by (cases "pprev b") auto
  from dgw_average_after [OF Suc.prems(1) _ _ _ Suc.prems(5), of b] Suc.prems(2,6) obtain avg where
    a: "dgw_average (bi_nBits (entry b)) (d\<lparr>CountBlocks := CountBlocks d + 1\<rparr>) =
      Some (d\<lparr>CountBlocks := int (length bs) + 1, PastDifficultyAverage := avg, PastDifficultyAveragePrev := avg\<rparr>)"
      "length avg = 8" "wval avg = moving_average (map block_target (bs @ [b]))" by auto
  let ?d = "dgw_time (bi_GetBlockTime b) (d\<lparr>CountBlocks := int (length bs) + 1, PastDifficultyAverage := avg, PastDifficultyAveragePrev := avg\<rparr>)"
  have "dgw_after (bs @ [b]) ?d" using dgw_time_after [OF Suc.prems(1) a(2,3)] Suc.prems(6) by simp
  from Suc.IH [OF this _ p(2) _ Suc.prems(5)] Suc.prems(2,4,6) p(1,3) obtain d' where
    "dgw_loop (length (bs @ [b]) + 1) p ?d = Some d'" "dgw_after ((bs @ [b]) @ ancestors n (Some p)) d'" by auto
  then show ?case using loop [of "length bs + 1"] c a(1) p(1) by simp
qed

definition clamp :: "int \<Rightarrow> int \<Rightarrow> int" where
  "clamp ts x = max (ts div 3) (min (ts * 3) x)"

lemma dgw_target_exact:
  assumes "CountBlocks d = 24" "length (PastDifficultyAverage d) = 8" "wval (PastDifficultyAverage d) \<le> L"
    and "nTargetSpacing P = 60" "length (bnProofOfWorkLimit P) = 8" "L < 2 ^ 240"
  shows "\<exists>c. dgw_target P d = Some c \<and>
    compact_of (min (int (wval (bnProofOfWorkLimit P))) (int (wval (PastDifficultyAverage d)) * clamp 1440 (nActualTimespan d) div 1440)) c"
proof -
  let ?s = "clamp 1440 (nActualTimespan d)" and ?p = "PastDifficultyAverage d"
  let ?a = "bu_mul32 ?p (word_of_int ?s)"
  note p = assms(2,3,1)
  have s: "480 \<le> ?s" "?s \<le> 4320" by (auto simp: clamp_def)
  have "int (wval ?p) * ?s \<le> int L * 4320" using p(2) s by (intro mult_mono) auto
  then have a: "int (wval ?a) = int (wval ?p) * ?s" "length ?a = 8"
    using bu_mul32_int [OF p(1), of ?s] s assms(6) p(1) by (simp_all add: len_simps)
  obtain q where q: "bu_div ?a (bu_of_u64 8 (word_of_int 1440)) = Inr q" "length q = 8" "int (wval q) = int (wval ?p) * ?s div 1440"
    using bu_div_u64 [OF a(2), of 1440] a(1) by auto
  let ?r = "if bu_compare q (bnProofOfWorkLimit P) > 0 then bnProofOfWorkLimit P else q"
  have "length ?r = 8" "int (wval ?r) = min (int (wval (bnProofOfWorkLimit P))) (int (wval ?p) * ?s div 1440)"
    using q(2) assms(5) by (auto simp: bu_compare_val q(3) [symmetric] min_def)
  moreover have span: "(if (if nActualTimespan d < 1440 div 3 then 1440 div 3 else nActualTimespan d) > 1440 * 3 then 1440 * 3
      else (if nActualTimespan d < 1440 div 3 then 1440 div 3 else nActualTimespan d)) = ?s"
    by (auto simp: clamp_def)
  ultimately show ?thesis using compact_ofI [of ?r] q(1) p(3) assms(4)
    unfolding dgw_target_def Let_def p(3) assms(4) by (simp only: mult.commute span) (auto simp: span mult.commute)
qed

lemma compact_of_target: "compact_of v c \<Longrightarrow> int (target c) \<le> v"
proof -
  assume "compact_of v c"
  then obtain a where a: "length a = 8" "int (wval a) = v" "get_compact a False = Some c" by (auto simp: compact_of_def)
  obtain n m where nm: "compact_encode (wval a) = (n, m)" by fastforce
  from get_compact_val [OF a(1) nm] a(3) have c: "unat c = n * 2 ^ 24 + m" by auto
  have "m < 2 ^ 23" using compact_encode_mantissa_less [of "wval a"] nm by simp
  from set_compact_val(1) [OF c this] have "target c = compact_decode (compact_encode (wval a)) mod 2 ^ 256"
    using nm by (simp add: target_def)
  also have "\<dots> \<le> wval a" by (rule order.trans [OF mod_less_eq_dividend compact_decode_encode_le])
  finally show ?thesis using a(2) by simp
qed

definition dgw_start :: dgw where
  "dgw_start = \<lparr>CountBlocks = 0, PastDifficultyAverage = bu_zero 8, PastDifficultyAveragePrev = bu_zero 8,
     nActualTimespan = 0, LastBlockTime = 0\<rparr>"

lemma length_ancestors: "indexed b \<Longrightarrow> int n \<le> nHeight (entry b) + 1 \<Longrightarrow> length (ancestors n (Some b)) = n"
proof (induction n arbitrary: b)
  case (Suc n)
  show ?case
  proof (cases "pprev b")
    case None
    then have "n = 0" using indexed_height [OF Suc.prems(1)] Suc.prems(2) by simp
    then show ?thesis by simp
  next
    case (Some p)
    then show ?thesis using Suc.IH [of p] indexed_height [OF Suc.prems(1)] Suc.prems(2) by simp
  qed
qed simp

theorem GetNextWorkRequired_pow:
  fixes b defines "bs \<equiv> ancestors 24 (Some b)"
  assumes "indexed b" "24 \<le> nHeight (entry b)" "nHeight (entry b) \<le> nLastPOWBlock P"
    and "nTargetSpacing P = 60" "length (bnProofOfWorkLimit P) = 8" "wval (bnProofOfWorkLimit P) < 2 ^ 240"
    and "\<forall>c \<in> set bs. block_target c \<le> wval (bnProofOfWorkLimit P) \<and> bi_GetBlockTime c > 0"
  shows "\<exists>c. GetNextWorkRequired P (Some b) = Some c \<and>
    compact_of (min (int (wval (bnProofOfWorkLimit P)))
      (int (moving_average (map block_target bs)) * clamp 1440 (bi_GetBlockTime b - bi_GetBlockTime (last bs)) div 1440)) c"
proof -
  let ?L = "wval (bnProofOfWorkLimit P)"
  have "dgw_after [] dgw_start"
    by (simp add: dgw_after_def dgw_start_def val_simps len_simps moving_average_def)
  from dgw_loop_after [OF this, of 24 b ?L] assms(2,3,7,8) obtain d where
    d: "dgw_loop 1 b dgw_start = Some d" "dgw_after bs d" by (auto simp: bs_def)
  have l: "length bs = 24" unfolding bs_def by (rule length_ancestors [OF assms(2)]) (use assms(3) in simp)
  then have ne: "bs \<noteq> []" "hd bs = b" by (auto simp: bs_def numeral_eq_Suc)
  have v: "wval (PastDifficultyAverage d) = moving_average (map block_target bs)" "length (PastDifficultyAverage d) = 8" "CountBlocks d = 24"
    "nActualTimespan d = bi_GetBlockTime b - bi_GetBlockTime (last bs)"
    using d(2) l ne by (auto simp: dgw_after_def)
  have "moving_average (map block_target bs) \<le> ?L"
    using moving_average_bounds [of "map block_target bs" 0 ?L] ne(1) assms(8) by simp
  from dgw_target_exact [OF v(3,2) this [folded v(1)] assms(5-7)] obtain c where "dgw_target P d = Some c"
    "compact_of (min (int ?L) (int (moving_average (map block_target bs)) * clamp 1440 (bi_GetBlockTime b - bi_GetBlockTime (last bs)) div 1440)) c"
    unfolding v by blast
  then show ?thesis using d(1) assms(3,4) by (auto simp: GetNextWorkRequired_def dgw_start_def)
qed

theorem GetNextWorkRequired_pos:
  assumes "indexed b" "24 \<le> nHeight (entry b)" "nLastPOWBlock P < nHeight (entry b)"
    and "pprev b = Some p" "s = (if bi_GetBlockTime b < bi_GetBlockTime p then 1 else bi_GetBlockTime b - bi_GetBlockTime p)"
    and "s < 2 ^ 22" "int (target (bi_nBits (entry b))) \<le> pos_limit"
  defines "v \<equiv> int (target (bi_nBits (entry b))) * (2340 + 2 * s) div 2460"
  shows "\<exists>c. GetNextWorkRequired P (Some b) = Some c \<and> compact_of (if v = 0 \<or> v > pos_limit then pos_limit else v) c"
proof -
  have s: "0 \<le> s" using assms(5) by (auto split: if_splits)
  have "int (target (bi_nBits (entry b))) * (2340 + 2 * max s 1) \<le> 2 ^ 232 * (2340 + 2 * 2 ^ 22)"
    using assms(6,7) s by (intro mult_mono) (auto simp: pos_limit_def)
  also have "\<dots> < (2 :: int) ^ 256" by simp
  finally have "int (target (bi_nBits (entry b))) * (2340 + 2 * max s 1) < 2 ^ 256" .
  from pos_target_exact [OF this s] assms(6) obtain c where
    c: "pos_target (bi_nBits (entry b)) s = Some c" "compact_of (if v = 0 \<or> v > pos_limit then pos_limit else v) c"
    unfolding v_def by auto
  have "pos_target (bi_nBits (entry b)) (bi_GetBlockTime b - bi_GetBlockTime p) = pos_target (bi_nBits (entry b)) s"
    using assms(5) by (simp add: pos_target_def Let_def)
  then show ?thesis using c assms(2-4) by (auto simp: GetNextWorkRequired_def)
qed

subsection \<open>Work and trust\<close>

lemma bu_equal_zero: "length a = 8 \<Longrightarrow> bu_equal_u64 a 0 \<longleftrightarrow> wval a = 0"
proof -
  assume l: "length a = 8"
  obtain p0 p1 ps where a: "a = p0 # p1 # ps" using l by (cases a; cases "tl a") auto
  have "(ucast p :: u64) = 0 \<longleftrightarrow> p = 0" for p :: u32
    using unsigned_less [of p, where ?'a = nat] unat_ucast_mod [of p, where ?'b = 64]
    by (simp flip: unat_eq_0)
  then show ?thesis by (auto simp: a wval_eq_0_iff simp flip: unat_eq_0)
qed

lemma target_less: "target c + 1 < 2 ^ 256"
proof -
  have odd: "(x * 2 ^ n) mod 2 ^ 256 \<noteq> (2 :: nat) ^ 256 - 1" if "0 < n" for x n
  proof
    assume e: "(x * 2 ^ n) mod 2 ^ 256 = (2 :: nat) ^ 256 - 1"
    have "even ((x * 2 ^ n) mod (2 :: nat) ^ 256)" using that by (simp add: dvd_mod)
    then show False unfolding e by simp
  qed
  have "target c \<noteq> 2 ^ 256 - 1"
  proof (cases "unat (drop_bit 24 c) \<le> 3")
    case True
    then obtain w :: u64 where "target c = unat w"
      by (simp add: target_def set_compact_def Let_def val_simps)
    then show ?thesis using unat_lt_u64 [of w] by simp
  next
    case False
    then show ?thesis using odd by (simp add: target_def set_compact_def Let_def val_simps len_simps)
  qed
  then show ?thesis using wval_less8 [of "fst (set_compact c)"] by (simp add: target_def)
qed

theorem GetBlockProof_exact:
  assumes "\<not> fst (snd (set_compact (bi_nBits (entry b))))" "\<not> snd (snd (set_compact (bi_nBits (entry b))))"
    and "target (bi_nBits (entry b)) \<noteq> 0"
  shows "\<exists>w. GetBlockProof b = Some w \<and> wval w = 2 ^ 256 div (target (bi_nBits (entry b)) + 1)"
proof -
  let ?t = "fst (set_compact (bi_nBits (entry b)))"
  let ?T = "target (bi_nBits (entry b))"
  have t: "wval ?t = ?T" "?T < 2 ^ 256" using wval_less8 [of ?t] by (auto simp: target_def)
  have d: "wval (bu_add ?t (bu_of_u64 8 1)) = ?T + 1" using t target_less [of "bi_nBits (entry b)"] by (simp add: bu_add_val len_simps val_simps)
  from bu_div_val [of "bu_not ?t" "bu_add ?t (bu_of_u64 8 1)"] d obtain q where
    q: "bu_div (bu_not ?t) (bu_add ?t (bu_of_u64 8 1)) = Inr q" "length q = 8"
      "wval q = wval (bu_not ?t) div (?T + 1)" by (auto simp: len_simps)
  have n: "wval (bu_not ?t) = 2 ^ 256 - (?T + 1)" using t by (simp add: bu_not_val len_simps)
  have "2 ^ 256 div (?T + 1) = (2 ^ 256 - (?T + 1)) div (?T + 1) + 1"
    using t(2) by (subst le_div_geq) auto
  moreover from this have "wval q + 1 = 2 ^ 256 div (?T + 1)" using q(3) n by simp
  moreover have "2 ^ 256 div (?T + 1) < (2 :: nat) ^ 256" using assms(3) by (intro div_less_dividend) auto
  ultimately have "wval (bu_add q (bu_of_u64 8 1)) = 2 ^ 256 div (?T + 1)"
    using q(2) by (simp add: bu_add_val len_simps val_simps)
  moreover obtain x n ov where sc: "set_compact (bi_nBits (entry b)) = (x, n, ov)" by (metis prod_cases3)
  moreover have "\<not> bu_equal_u64 x 0" using assms(3) t(1) bu_equal_zero [OF length_set_compact] sc
    by (metis fst_conv)
  ultimately show ?thesis using assms q(1) by (simp add: GetBlockProof_def)
qed

theorem GetBlockTrust_stake:
  assumes "bi_IsProofOfStake b"
  shows "\<exists>w. GetBlockTrust b = Some w \<and> wval w = 0"
proof -
  let ?t = "fst (set_compact (bi_nBits (entry b)))"
  have t: "wval ?t = target (bi_nBits (entry b))" by (simp add: target_def)
  have d: "wval (bu_add ?t (bu_of_u64 8 1)) = wval ?t + 1" using t target_less [of "bi_nBits (entry b)"] by (simp add: bu_add_val len_simps val_simps)
  have "wval (bu_shl (bu_of_u64 8 1) 256) = 0" by (simp add: val_simps len_simps)
  with bu_div_val [of "bu_shl (bu_of_u64 8 1) 256" "bu_add ?t (bu_of_u64 8 1)"] d obtain q where
    "bu_div (bu_shl (bu_of_u64 8 1) 256) (bu_add ?t (bu_of_u64 8 1)) = Inr q" "wval q = 0" by (auto simp: len_simps)
  then show ?thesis using assms by (auto simp: GetBlockTrust_def Let_def val_simps)
qed

end
