(* ===== verification/Reward.thy ===== *)
theory Reward
  imports Double Pow "HOL-Library.Signed_Division"
begin

text \<open>
  What a block may pay (\<^verbatim>\<open>main.cpp\<close>): the subsidy of a height, cut off at the maximal supply, and
  the share of it that goes to a masternode, which the code computes in double precision from the
  part of the supply that the masternodes lock up.
\<close>

subsection \<open>The subsidy\<close>

definition MoneyRange :: "CChainParams \<Rightarrow> int \<Rightarrow> bool" where
  "MoneyRange P nValueOut \<longleftrightarrow> nValueOut \<ge> 0 \<and> nValueOut \<le> nMaxMoneyOut P"

definition times_coin :: "nat \<Rightarrow> nat \<Rightarrow> int" where
  "times_coin n d = double_trunc (double_mult (double_lit n d) (double_of COIN))"

definition block_subsidy :: "int \<Rightarrow> int" where
  "block_subsidy h =
     (if h \<le> 10 then 0 * COIN
      else if h > 10 \<and> h \<le> 30 then 450000 * COIN
      else if h > 30 \<and> h \<le> 499 then 0 * COIN
      else if h > 499 \<and> h \<le> 750 then 2 * COIN
      else if h > 750 \<and> h \<le> 180301 then 10 * COIN
      else if h > 180301 \<and> h \<le> 698702 then 9 * COIN
      else if h > 698702 \<and> h \<le> 1217103 then times_coin 81 10
      else if h > 1217103 \<and> h \<le> 2253904 then times_coin 65 10
      else if h > 2253904 \<and> h \<le> 3290705 then times_coin 52 10
      else if h > 3290705 \<and> h \<le> 5364306 then times_coin 31 10
      else if h > 5365306 \<and> h \<le> 7437907 then times_coin 19 10
      else if h > 7437907 then times_coin 11 10
      else 0)"

text \<open>\<open>supply\<close> is the money supply at the tip of the active chain.\<close>

definition GetBlockValue :: "CChainParams \<Rightarrow> int \<Rightarrow> int \<Rightarrow> int" where
  "GetBlockValue P supply h =
     (let nSubsidy = block_subsidy (h - 1);
          nSubsidy = (if supply + nSubsidy \<ge> nMaxMoneyOut P then nMaxMoneyOut P - supply else nSubsidy)
      in if supply \<ge> nMaxMoneyOut P then 0 else nSubsidy)"

subsection \<open>The share of the masternodes\<close>

definition GetCurrentCollateral :: "CChainParams \<Rightarrow> int" where
  "GetCurrentCollateral P = nMasternodeCollateralAmt P"

text \<open>
  A chain of conditions \<^verbatim>\<open>mNodeCoins <= (nMoneySupply * t) && mNodeCoins > (nMoneySupply * l)\<close>, where
  \<open>l\<close> is the bound of the condition before, and the share it pays.
\<close>

type_synonym step = "(nat \<times> nat) \<times> (nat \<times> nat)"

definition times_literal :: "int \<Rightarrow> nat \<times> nat \<Rightarrow> double" where
  "times_literal v c = double_mult (double_of v) (double_lit (fst c) (snd c))"

fun seesaw :: "step list \<Rightarrow> nat \<times> nat \<Rightarrow> double \<Rightarrow> int \<Rightarrow> int \<Rightarrow> int \<Rightarrow> int" where
  "seesaw [] last_share lo mNodeCoins supply blockValue = double_trunc (times_literal blockValue last_share)"
| "seesaw ((t, share) # steps) last_share lo mNodeCoins supply blockValue =
     (if double_le (double_of mNodeCoins) (times_literal supply t) \<and> \<not> double_le (double_of mNodeCoins) lo
      then double_trunc (times_literal blockValue share)
      else seesaw steps last_share (times_literal supply t) mNodeCoins supply blockValue)"

definition early_steps :: "step list" where
  "early_steps =
     [((5, 100), (85, 100)), ((1, 10), (8, 10)), ((15, 100), (75, 100)), ((2, 10), (7, 10)),
      ((25, 100), (65, 100)), ((3, 10), (6, 10)), ((35, 100), (55, 100)), ((4, 10), (5, 10)),
      ((45, 100), (45, 100)), ((5, 10), (4, 10)), ((55, 100), (35, 100)), ((6, 10), (3, 10)),
      ((65, 100), (25, 100)), ((7, 10), (2, 10)), ((75, 100), (15, 100))]"

definition later_steps :: "step list" where
  "later_steps =
     [((1, 100), (90, 100)), ((2, 100), (88, 100)), ((3, 100), (87, 100)), ((4, 100), (86, 100)),
      ((5, 100), (85, 100)), ((6, 100), (84, 100)), ((7, 100), (83, 100)), ((8, 100), (82, 100)),
      ((9, 100), (81, 100)), ((10, 100), (80, 100)), ((11, 100), (79, 100)), ((12, 100), (78, 100)),
      ((13, 100), (77, 100)), ((14, 100), (76, 100)), ((15, 100), (75, 100)), ((16, 100), (74, 100)),
      ((17, 100), (73, 100)), ((18, 100), (72, 100)), ((19, 100), (71, 100)), ((20, 100), (70, 100)),
      ((21, 100), (69, 100)), ((22, 100), (68, 100)), ((23, 100), (67, 100)), ((24, 100), (66, 100)),
      ((25, 100), (65, 100)), ((26, 100), (64, 100)), ((27, 100), (63, 100)), ((28, 100), (62, 100)),
      ((29, 100), (61, 100)), ((30, 100), (60, 100)), ((31, 100), (59, 100)), ((32, 100), (58, 100)),
      ((33, 100), (57, 100)), ((34, 100), (56, 100)), ((35, 100), (55, 100)), ((363, 1000), (54, 100)),
      ((376, 1000), (53, 100)), ((389, 1000), (52, 100)), ((402, 1000), (51, 100)),
      ((415, 1000), (50, 100)), ((428, 1000), (49, 100)), ((441, 1000), (48, 100)),
      ((454, 1000), (47, 100)), ((467, 1000), (46, 100)), ((48, 100), (45, 100)), ((493, 1000), (44, 100)),
      ((506, 1000), (43, 100)), ((519, 1000), (42, 100)), ((532, 1000), (41, 100)),
      ((545, 1000), (40, 100)), ((558, 1000), (39, 100)), ((571, 1000), (38, 100)),
      ((584, 1000), (37, 100)), ((597, 1000), (36, 100)), ((61, 100), (35, 100)), ((623, 1000), (34, 100)),
      ((636, 1000), (33, 100)), ((649, 1000), (32, 100)), ((662, 1000), (31, 100)),
      ((675, 1000), (30, 100)), ((688, 1000), (29, 100)), ((701, 1000), (28, 100)),
      ((714, 1000), (27, 100)), ((727, 1000), (26, 100)), ((74, 100), (25, 100)), ((753, 1000), (24, 100)),
      ((766, 1000), (23, 100)), ((779, 1000), (22, 100)), ((792, 1000), (21, 100)),
      ((805, 1000), (20, 100)), ((818, 1000), (19, 100)), ((831, 1000), (18, 100)),
      ((844, 1000), (17, 100)), ((857, 1000), (16, 100)), ((87, 100), (15, 100)), ((883, 1000), (14, 100)),
      ((896, 1000), (13, 100)), ((909, 1000), (12, 100)), ((922, 1000), (11, 100)),
      ((935, 1000), (10, 100)), ((945, 1000), (9, 100)), ((961, 1000), (8, 100)), ((974, 1000), (7, 100)),
      ((987, 1000), (6, 100)), ((99, 100), (5, 100))]"

text \<open>\<open>n_masternodes\<close> is the number of masternodes known, \<^verbatim>\<open>mnodeman.size()\<close>.\<close>

definition GetMasternodePayment :: "CChainParams \<Rightarrow> int \<Rightarrow> int \<Rightarrow> int \<Rightarrow> int \<Rightarrow> int \<Rightarrow> int" where
  "GetMasternodePayment P supply n_masternodes h blockValue nMasternodeCount =
     (if h \<le> 7500 then blockValue sdiv 5
      else if h > nLastPOWBlock P then
        (let mNodeCoins = wrap64 (n_masternodes * GetCurrentCollateral P * COIN);
             mNodeCoins = (if nMasternodeCount \<noteq> 0 then wrap64 (nMasternodeCount * GetCurrentCollateral P * COIN)
                           else mNodeCoins)
         in if mNodeCoins = 0 then 0
            else if h \<le> 125000 then seesaw early_steps (1, 10) (0, 0) mNodeCoins supply blockValue
            else if h > 125000 then seesaw later_steps (1, 100) (0, 0) mNodeCoins supply blockValue
            else 0)
      else 0)"

subsection \<open>The subsidy never passes the cap\<close>

lemma times_coin_values:
  "times_coin 81 10 = 810000000" "times_coin 65 10 = 650000000" "times_coin 52 10 = 520000000"
  "times_coin 31 10 = 310000000" "times_coin 19 10 = 190000000" "times_coin 11 10 = 110000000"
  by (simp_all add: times_coin_def double_lit_def double_mult_def double_of_def double_trunc_def COIN_def
      round_double_def round53_def round_shift_def bit_length_numeral bit_length_1)

lemma block_subsidy_bounds: "0 \<le> block_subsidy h" "block_subsidy h \<le> 450000 * COIN"
  by (simp_all add: block_subsidy_def times_coin_values COIN_def)

lemma GetBlockValue_cap:
  assumes "s \<le> nMaxMoneyOut P"
  shows "0 \<le> GetBlockValue P s h" "s + GetBlockValue P s h \<le> nMaxMoneyOut P"
  using assms block_subsidy_bounds(1) [of "h - 1"] by (auto simp: GetBlockValue_def Let_def)

lemma GetBlockValue_subsidy:
  "s + block_subsidy (h - 1) < nMaxMoneyOut P \<Longrightarrow> GetBlockValue P s h = block_subsidy (h - 1)"
  using block_subsidy_bounds(1) [of "h - 1"] by (simp add: GetBlockValue_def Let_def)

text \<open>The subsidies by height, with the thousand heights no condition covers.\<close>

lemma block_subsidy_schedule:
  "block_subsidy h =
     (if 10 < h \<and> h \<le> 30 then 45000000000000
      else if h \<le> 499 then 0
      else if h \<le> 750 then 200000000
      else if h \<le> 180301 then 1000000000
      else if h \<le> 698702 then 900000000
      else if h \<le> 1217103 then 810000000
      else if h \<le> 2253904 then 650000000
      else if h \<le> 3290705 then 520000000
      else if h \<le> 5364306 then 310000000
      else if h \<le> 5365306 then 0
      else if h \<le> 7437907 then 190000000
      else 110000000)"
  by (simp add: block_subsidy_def times_coin_values COIN_def)

subsection \<open>The supply that the subsidies make\<close>

text \<open>The supply after so many blocks that mint what \<^verbatim>\<open>GetBlockValue\<close> allows, from nothing.\<close>

fun minted_supply :: "CChainParams \<Rightarrow> nat \<Rightarrow> int" where
  "minted_supply P 0 = 0"
| "minted_supply P (Suc n) = minted_supply P n + GetBlockValue P (minted_supply P n) (int (Suc n))"

text \<open>
  The emission plan: for the heights above the first bound, up to the second, so many units a block. The
  heights from 5364308 to 5365307 are in no row.
\<close>

definition emission_plan :: "(int \<times> int \<times> int) list" where
  "emission_plan =
     [(11, 31, 45000000000000), (500, 751, 200000000), (751, 180302, 1000000000), (180302, 698703, 900000000),
      (698703, 1217104, 810000000), (1217104, 2253905, 650000000), (2253905, 3290706, 520000000),
      (3290706, 5364307, 310000000), (5365307, 7437908, 190000000)]"

definition planned_supply :: "int \<Rightarrow> int" where
  "planned_supply n =
     sum_list (map (\<lambda>(lo, hi, units). units * max 0 (min n hi - lo)) emission_plan) + 110000000 * max 0 (n - 7437908)"

lemma planned_row:
  fixes n lo hi units :: int
  assumes "lo \<le> hi"
  shows "units * max 0 (min (n + 1) hi - lo) = units * max 0 (min n hi - lo) + (if lo \<le> n \<and> n < hi then units else 0)"
proof -
  have "max 0 (min (n + 1) hi - lo) = max 0 (min n hi - lo) + (if lo \<le> n \<and> n < hi then 1 else 0)" using assms by auto
  then show ?thesis by (simp add: distrib_left)
qed

lemma planned_supply_step:
  assumes "0 \<le> n"
  shows "planned_supply (n + 1) = planned_supply n + block_subsidy n"
proof -
  have l: "110000000 * max 0 (n + 1 - 7437908) = 110000000 * max 0 (n - 7437908) + (if 7437908 \<le> n then 110000000 else 0 :: int)" by auto
  have "planned_supply (n + 1) = planned_supply n + (sum_list (map (\<lambda>(lo, hi, units). if lo \<le> n \<and> n < hi then units else 0) emission_plan) +
      (if 7437908 \<le> n then 110000000 else 0))"
    unfolding planned_supply_def emission_plan_def l by (simp add: planned_row)
  also have "sum_list (map (\<lambda>(lo, hi, units). if lo \<le> n \<and> n < hi then units else 0) emission_plan) + (if 7437908 \<le> n then 110000000 else 0) =
      block_subsidy n"
    unfolding emission_plan_def block_subsidy_schedule by simp
  finally show ?thesis .
qed

lemma minted_supply_planned:
  assumes "0 \<le> nMaxMoneyOut P"
  shows "minted_supply P n = min (nMaxMoneyOut P) (planned_supply (int n))"
proof (induction n)
  case 0
  then show ?case using assms by (simp add: planned_supply_def emission_plan_def)
next
  case (Suc n)
  have "planned_supply (int (Suc n)) = planned_supply (int n) + block_subsidy (int n)"
    using planned_supply_step [of "int n"] by (simp add: add.commute)
  then show ?case using Suc block_subsidy_bounds(1) [of "int n"] by (auto simp: GetBlockValue_def Let_def min_def)
qed

subsection \<open>The share of the masternodes falls as they lock up more\<close>

definition share_le :: "nat \<times> nat \<Rightarrow> nat \<times> nat \<Rightarrow> bool" where
  "share_le a b \<longleftrightarrow> double_le (double_lit (fst a) (snd a)) (double_lit (fst b) (snd b))"

definition falling :: "step list \<Rightarrow> nat \<times> nat \<Rightarrow> bool" where
  "falling steps last_share \<longleftrightarrow> sorted_wrt (\<lambda>a b. share_le b a) (map snd steps @ [last_share]) \<and>
     (\<forall>a \<in> set (map snd steps @ [last_share]). fst (double_lit (fst a) (snd a)) \<le> 2 ^ snd (double_lit (fst a) (snd a)))"

lemma double_lit_nonneg: "0 \<le> fst (double_lit n d)"
  by (simp add: double_lit_def Let_def)

lemma times_literal_nonneg: "0 \<le> v \<Longrightarrow> 0 \<le> fst (times_literal v c)"
  by (simp add: times_literal_def double_mult_def double_of_def double_lit_nonneg round_double_nonneg)

lemma times_literal_mono:
  assumes "0 \<le> v" "share_le a b"
  shows "double_trunc (times_literal v a) \<le> double_trunc (times_literal v b)"
proof (rule double_le_trunc)
  show "double_le (times_literal v a) (times_literal v b)"
    unfolding times_literal_def using assms
    by (intro double_mult_mono) (simp_all add: double_of_def round_double_nonneg double_lit_nonneg share_le_def double_le_def)
qed (use assms in \<open>simp_all add: times_literal_nonneg\<close>)

lemma seesaw_share:
  "\<exists>a \<in> set (map snd steps @ [last_share]). seesaw steps last_share lo m s v = double_trunc (times_literal v a)"
  by (induction steps last_share lo m s v rule: seesaw.induct) auto

lemma seesaw_bounds:
  assumes "falling steps last_share" "0 \<le> v" "v < 2 ^ 53"
  shows "0 \<le> seesaw steps last_share lo m s v" "seesaw steps last_share lo m s v \<le> v"
proof -
  obtain a where a: "a \<in> set (map snd steps @ [last_share])"
    "seesaw steps last_share lo m s v = double_trunc (times_literal v a)" using seesaw_share by blast
  then have "fst (double_lit (fst a) (snd a)) \<le> 2 ^ snd (double_lit (fst a) (snd a))"
    using assms(1) unfolding falling_def by blast
  then show "0 \<le> seesaw steps last_share lo m s v" "seesaw steps last_share lo m s v \<le> v"
    using double_trunc_le [OF assms(2,3) double_lit_nonneg] a(2) by (simp_all add: times_literal_def)
qed

lemma seesaw_antimono:
  assumes "sorted_wrt (\<lambda>a b. share_le b a) (map snd steps @ [last_share])" "0 \<le> v" "0 \<le> m" "m \<le> m'"
    and "\<not> double_le (double_of m) lo"
  shows "seesaw steps last_share lo m' s v \<le> seesaw steps last_share lo m s v"
  using assms
proof (induction steps arbitrary: lo)
  case (Cons st steps)
  obtain t share where st: "st = (t, share)" by (rule prod.exhaust)
  let ?T = "times_literal s t"
  have le: "double_le (double_of m) x" if "double_le (double_of m') x" for x
    using that Cons.prems(3,4) round_double_mono [of m m']
    by (simp add: double_of_def double_le_def) (meson mult_right_mono order_trans zero_le_numeral zero_le_power)
  have lo: "\<not> double_le (double_of m') lo" using le Cons.prems(5) by blast
  show ?case
  proof (cases "double_le (double_of m) ?T")
    case False
    then have "\<not> double_le (double_of m') ?T" using le by blast
    then show ?thesis using Cons.IH [OF _ Cons.prems(2-4) False] Cons.prems(1) False st by simp
  next
    case m: True
    show ?thesis
    proof (cases "double_le (double_of m') ?T")
      case True
      then show ?thesis using m lo Cons.prems(5) st by simp
    next
      case False
      obtain a where a: "a \<in> set (map snd steps @ [last_share])"
        "seesaw steps last_share ?T m' s v = double_trunc (times_literal v a)" using seesaw_share by blast
      then have "share_le a share" using Cons.prems(1) st by auto
      then show ?thesis using m False Cons.prems(2,5) st a times_literal_mono by simp
    qed
  qed
qed simp

text \<open>The shares as the compiler rounds them.\<close>

lemma share_values:
  "double_lit 85 100 = (7656119366529843, 53)"
  "double_lit 8 10 = (7205759403792794, 53)"
  "double_lit 75 100 = (6755399441055744, 53)"
  "double_lit 7 10 = (6305039478318694, 53)"
  "double_lit 65 100 = (5854679515581645, 53)"
  "double_lit 6 10 = (5404319552844595, 53)"
  "double_lit 55 100 = (4953959590107546, 53)"
  "double_lit 5 10 = (4503599627370496, 53)"
  "double_lit 45 100 = (8106479329266893, 54)"
  "double_lit 4 10 = (7205759403792794, 54)"
  "double_lit 35 100 = (6305039478318694, 54)"
  "double_lit 3 10 = (5404319552844595, 54)"
  "double_lit 25 100 = (4503599627370496, 54)"
  "double_lit 2 10 = (7205759403792794, 55)"
  "double_lit 15 100 = (5404319552844595, 55)"
  "double_lit 90 100 = (8106479329266893, 53)"
  "double_lit 88 100 = (7926335344172073, 53)"
  "double_lit 87 100 = (7836263351624663, 53)"
  "double_lit 86 100 = (7746191359077253, 53)"
  "double_lit 84 100 = (7566047373982433, 53)"
  "double_lit 83 100 = (7475975381435023, 53)"
  "double_lit 82 100 = (7385903388887613, 53)"
  "double_lit 81 100 = (7295831396340204, 53)"
  "double_lit 80 100 = (7205759403792794, 53)"
  "double_lit 79 100 = (7115687411245384, 53)"
  "double_lit 78 100 = (7025615418697974, 53)"
  "double_lit 77 100 = (6935543426150564, 53)"
  "double_lit 76 100 = (6845471433603154, 53)"
  "double_lit 74 100 = (6665327448508334, 53)"
  "double_lit 73 100 = (6575255455960924, 53)"
  "double_lit 72 100 = (6485183463413514, 53)"
  "double_lit 71 100 = (6395111470866104, 53)"
  "double_lit 70 100 = (6305039478318694, 53)"
  "double_lit 69 100 = (6214967485771284, 53)"
  "double_lit 68 100 = (6124895493223875, 53)"
  "double_lit 67 100 = (6034823500676465, 53)"
  "double_lit 66 100 = (5944751508129055, 53)"
  "double_lit 64 100 = (5764607523034235, 53)"
  "double_lit 63 100 = (5674535530486825, 53)"
  "double_lit 62 100 = (5584463537939415, 53)"
  "double_lit 61 100 = (5494391545392005, 53)"
  "double_lit 60 100 = (5404319552844595, 53)"
  "double_lit 59 100 = (5314247560297185, 53)"
  "double_lit 58 100 = (5224175567749775, 53)"
  "double_lit 57 100 = (5134103575202365, 53)"
  "double_lit 56 100 = (5044031582654956, 53)"
  "double_lit 54 100 = (4863887597560136, 53)"
  "double_lit 53 100 = (4773815605012726, 53)"
  "double_lit 52 100 = (4683743612465316, 53)"
  "double_lit 51 100 = (4593671619917906, 53)"
  "double_lit 50 100 = (4503599627370496, 53)"
  "double_lit 49 100 = (8827055269646172, 54)"
  "double_lit 48 100 = (8646911284551352, 54)"
  "double_lit 47 100 = (8466767299456532, 54)"
  "double_lit 46 100 = (8286623314361713, 54)"
  "double_lit 44 100 = (7926335344172073, 54)"
  "double_lit 43 100 = (7746191359077253, 54)"
  "double_lit 42 100 = (7566047373982433, 54)"
  "double_lit 41 100 = (7385903388887613, 54)"
  "double_lit 40 100 = (7205759403792794, 54)"
  "double_lit 39 100 = (7025615418697974, 54)"
  "double_lit 38 100 = (6845471433603154, 54)"
  "double_lit 37 100 = (6665327448508334, 54)"
  "double_lit 36 100 = (6485183463413514, 54)"
  "double_lit 34 100 = (6124895493223875, 54)"
  "double_lit 33 100 = (5944751508129055, 54)"
  "double_lit 32 100 = (5764607523034235, 54)"
  "double_lit 31 100 = (5584463537939415, 54)"
  "double_lit 30 100 = (5404319552844595, 54)"
  "double_lit 29 100 = (5224175567749775, 54)"
  "double_lit 28 100 = (5044031582654956, 54)"
  "double_lit 27 100 = (4863887597560136, 54)"
  "double_lit 26 100 = (4683743612465316, 54)"
  "double_lit 24 100 = (8646911284551352, 55)"
  "double_lit 23 100 = (8286623314361713, 55)"
  "double_lit 22 100 = (7926335344172073, 55)"
  "double_lit 21 100 = (7566047373982433, 55)"
  "double_lit 20 100 = (7205759403792794, 55)"
  "double_lit 19 100 = (6845471433603154, 55)"
  "double_lit 18 100 = (6485183463413514, 55)"
  "double_lit 17 100 = (6124895493223875, 55)"
  "double_lit 16 100 = (5764607523034235, 55)"
  "double_lit 14 100 = (5044031582654956, 55)"
  "double_lit 13 100 = (4683743612465316, 55)"
  "double_lit 12 100 = (8646911284551352, 56)"
  "double_lit 11 100 = (7926335344172073, 56)"
  "double_lit 10 100 = (7205759403792794, 56)"
  "double_lit 9 100 = (6485183463413514, 56)"
  "double_lit 8 100 = (5764607523034235, 56)"
  "double_lit 7 100 = (5044031582654956, 56)"
  "double_lit 6 100 = (8646911284551352, 57)"
  "double_lit 5 100 = (7205759403792794, 57)"
  "double_lit (Suc 0) 10 = (7205759403792794, 56)"
  "double_lit (Suc 0) 100 = (5764607523034235, 59)"
  by (simp_all add: double_lit_def bit_length_numeral bit_length_1)

lemma share_le_transp: "transp (\<lambda>a b. share_le b a)"
  unfolding transp_def share_le_def by (blast intro: double_le_trans)

lemma share_le_value:
  "share_le (a, b) (c, d) \<longleftrightarrow> double_le (double_lit a b) (double_lit c d)"
  by (simp add: share_le_def)

lemma falling_steps: "falling early_steps (1, 10)" "falling later_steps (1, 100)"
  unfolding falling_def early_steps_def later_steps_def
  by (simp_all add: sorted_wrt1 sorted_wrt2 [OF share_le_transp] share_le_value double_le_def share_values del: sorted_wrt.simps)

subsection \<open>What a masternode is paid\<close>

lemma GetMasternodePayment_bounds:
  assumes "0 \<le> v" "v < 2 ^ 53"
  shows "0 \<le> GetMasternodePayment P s n h v c" "GetMasternodePayment P s n h v c \<le> v"
proof -
  have "v sdiv 5 = v div 5" using assms by (cases "v = 0") (simp_all add: signed_divide_int_def)
  then have "0 \<le> v sdiv 5" "v sdiv 5 \<le> v" using assms by linarith+
  then show "0 \<le> GetMasternodePayment P s n h v c" "GetMasternodePayment P s n h v c \<le> v"
    using seesaw_bounds [OF falling_steps(1) assms] seesaw_bounds [OF falling_steps(2) assms] assms
    by (simp_all add: GetMasternodePayment_def Let_def)
qed

lemma GetMasternodePayment_antimono:
  assumes "0 \<le> v" "v < 2 ^ 53" "0 < c" "c \<le> c'"
    and "0 < GetCurrentCollateral P" "c' * GetCurrentCollateral P * COIN < 2 ^ 63"
  shows "GetMasternodePayment P s n h v c' \<le> GetMasternodePayment P s n h v c"
proof -
  let ?m = "c * GetCurrentCollateral P * COIN" and ?m' = "c' * GetCurrentCollateral P * COIN"
  have m: "0 < ?m" "?m \<le> ?m'" using assms by (simp_all add: COIN_def)
  then have w: "wrap64 ?m = ?m" "wrap64 ?m' = ?m'" using assms(6) by (auto intro!: wrap64_id simp: int64_range_def)
  have "round53 (nat 1) \<le> round53 (nat ?m)" using m by (intro round53_mono) linarith
  then have "\<not> double_le (double_of ?m) (0, 0)"
    using m by (simp add: double_le_def double_of_def round_double_nat round53_id)
  then have "seesaw st l (0, 0) ?m' s v \<le> seesaw st l (0, 0) ?m s v" if "falling st l" for st l
    using that assms(1) m by (intro seesaw_antimono) (simp_all add: falling_def)
  then show ?thesis using m w assms(3,4) falling_steps by (simp add: GetMasternodePayment_def Let_def)
qed

end
