(* ===== verification/Mn_Payments.thy ===== *)
theory Mn_Payments
  imports Reward "HOL-Library.AList"
begin

text \<open>
  The masternode payments (\<^verbatim>\<open>masternode-payments.h\<close>, \<^verbatim>\<open>masternode-payments.cpp\<close>): the votes of the
  masternodes for who is paid at a height, the payee check of a block, and the payment a new block
  makes. What the code asks the masternode manager, the budget manager and the sporks is an
  environment; what it tells the peer or the manager is a list of actions. The maps that the code
  walks through have their keys in no particular order here, since no result depends on it.
\<close>

subsection \<open>Votes for a height\<close>

definition MNPAYMENTS_SIGNATURES_REQUIRED :: int where "MNPAYMENTS_SIGNATURES_REQUIRED = 6"
definition MNPAYMENTS_SIGNATURES_TOTAL :: int where "MNPAYMENTS_SIGNATURES_TOTAL = 10"

record CMasternodePayee =
  py_script :: script
  py_nVotes :: int

record CMasternodeBlockPayees =
  bp_nBlockHeight :: int
  vecPayments :: "CMasternodePayee list"

fun add_payee :: "CMasternodePayee list \<Rightarrow> script \<Rightarrow> int \<Rightarrow> CMasternodePayee list" where
  "add_payee [] payeeIn nIncrement = [\<lparr>py_script = payeeIn, py_nVotes = nIncrement\<rparr>]"
| "add_payee (payee # ps) payeeIn nIncrement =
     (if py_script payee = payeeIn then payee\<lparr>py_nVotes := py_nVotes payee + nIncrement\<rparr> # ps
      else payee # add_payee ps payeeIn nIncrement)"

definition AddPayee :: "CMasternodeBlockPayees \<Rightarrow> script \<Rightarrow> int \<Rightarrow> CMasternodeBlockPayees" where
  "AddPayee b payeeIn nIncrement = b\<lparr>vecPayments := add_payee (vecPayments b) payeeIn nIncrement\<rparr>"

fun best_payee :: "CMasternodePayee list \<Rightarrow> script \<times> int \<Rightarrow> script \<times> int" where
  "best_payee [] (payee, nVotes) = (payee, nVotes)"
| "best_payee (p # ps) (payee, nVotes) =
     best_payee ps (if py_nVotes p > nVotes then (py_script p, py_nVotes p) else (payee, nVotes))"

text \<open>The result is whether there is a payee, and what the reference argument holds afterwards.\<close>

definition GetPayee :: "CMasternodeBlockPayees \<Rightarrow> script \<Rightarrow> bool \<times> script" where
  "GetPayee b payee = (case best_payee (vecPayments b) (payee, -1) of (payee, nVotes) \<Rightarrow> (nVotes > -1, payee))"

definition HasPayeeWithVotes :: "CMasternodeBlockPayees \<Rightarrow> script \<Rightarrow> int \<Rightarrow> bool" where
  "HasPayeeWithVotes b payee nVotesReq = list_ex (\<lambda>p. py_nVotes p \<ge> nVotesReq \<and> py_script p = payee) (vecPayments b)"

fun max_signatures :: "CMasternodePayee list \<Rightarrow> int \<Rightarrow> int" where
  "max_signatures [] nMaxSignatures = nMaxSignatures"
| "max_signatures (payee # ps) nMaxSignatures =
     max_signatures ps (if py_nVotes payee \<ge> nMaxSignatures \<and> py_nVotes payee \<ge> MNPAYMENTS_SIGNATURES_REQUIRED
                        then py_nVotes payee else nMaxSignatures)"

fun pays_some :: "int \<Rightarrow> CTxOut list \<Rightarrow> CMasternodePayee list \<Rightarrow> bool" where
  "pays_some required outs [] = False"
| "pays_some required outs (payee # ps) =
     (let found = list_ex (\<lambda>out. py_script payee = scriptPubKey out \<and> nValue out \<ge> required) outs
      in if py_nVotes payee \<ge> MNPAYMENTS_SIGNATURES_REQUIRED \<and> found then True else pays_some required outs ps)"

subsection \<open>The environment\<close>

record mn_env =
  me_params :: CChainParams
  me_tip :: "CBlockIndex option"
  me_lookup :: "uint256 \<Rightarrow> CBlockIndex option"
  me_synced :: bool
  me_blockchain_synced :: bool
  me_lite :: bool
  me_payment_enforcement :: bool
  me_budget_enforcement :: bool
  me_superblocks :: bool
  me_budget_cycle :: int
  me_budget_block :: "int \<Rightarrow> bool"
  me_budget_valid :: "CTransaction \<Rightarrow> int \<Rightarrow> bool"
  me_size :: int
  me_stable_size :: int
  me_enabled :: int
  me_protocol :: int
  me_find :: "CTxIn \<Rightarrow> int option"
  me_rank :: "CTxIn \<Rightarrow> int \<Rightarrow> int \<Rightarrow> int"
  me_time :: int

text \<open>The two functions that read the supply at the tip; a null tip is dereferenced.\<close>

definition mn_block_value :: "mn_env \<Rightarrow> int \<Rightarrow> int option" where
  "mn_block_value E h = map_option (\<lambda>t. GetBlockValue (me_params E) (nMoneySupply (entry t)) h) (me_tip E)"

definition mn_payment :: "mn_env \<Rightarrow> int \<Rightarrow> int \<Rightarrow> int \<Rightarrow> int option" where
  "mn_payment E h blockValue nMasternodeCount =
     map_option (\<lambda>t. GetMasternodePayment (me_params E) (nMoneySupply (entry t)) (me_size E) h blockValue nMasternodeCount)
       (me_tip E)"

definition bp_IsTransactionValid :: "mn_env \<Rightarrow> CMasternodeBlockPayees \<Rightarrow> CTransaction \<Rightarrow> bool option" where
  "bp_IsTransactionValid E b txNew =
     (case mn_block_value E (bp_nBlockHeight b) of
        None \<Rightarrow> None
      | Some nReward \<Rightarrow>
          let drift = (if me_payment_enforcement E then me_stable_size E + nMasternodeCountDrift (me_params E)
                       else me_size E + nMasternodeCountDrift (me_params E))
          in (case mn_payment E (bp_nBlockHeight b) nReward drift of
                None \<Rightarrow> None
              | Some required \<Rightarrow>
                  if max_signatures (vecPayments b) 0 < MNPAYMENTS_SIGNATURES_REQUIRED then Some True
                  else Some (pays_some required (vout txNew) (vecPayments b))))"

subsection \<open>The votes\<close>

record CMasternodePaymentWinner =
  w_vinMasternode :: CTxIn
  w_nBlockHeight :: int
  w_payee :: script
  w_vchSig :: bytes

definition winner_GetHash :: "(bytes \<Rightarrow> bytes) \<Rightarrow> CMasternodePaymentWinner \<Rightarrow> uint256" where
  "winner_GetHash Hash w =
     bu_of_bytes (Hash (ser_bytes (w_payee w) @ ser_word (word_of_int (w_nBlockHeight w) :: u32) @
                        ser_outpoint (prevout (w_vinMasternode w))))"

record CMasternodePayments =
  nLastBlockHeight :: int
  mapMasternodePayeeVotes :: "(uint256 \<times> CMasternodePaymentWinner) list"
  mapMasternodeBlocks :: "(int \<times> CMasternodeBlockPayees) list"
  mapMasternodesLastVote :: "(uint256 \<times> int) list"

text \<open>With the globals the handlers change: the block hashes seen, and the sync state of the votes.\<close>

record mn_state = CMasternodePayments +
  mapCacheBlockHashes :: "(int \<times> uint256) list"
  mapSeenSyncMNW :: "(uint256 \<times> int) list"
  lastMasternodeWinner :: int

definition mn_Clear :: "mn_state \<Rightarrow> mn_state" where
  "mn_Clear s = s\<lparr>mapMasternodeBlocks := [], mapMasternodePayeeVotes := []\<rparr>"

fun hash_walk :: "int \<Rightarrow> int \<Rightarrow> CBlockIndex \<Rightarrow> uint256 option option" where
  "hash_walk nBlocksAgo n (Index e p sk) =
     (if nHeight e > 0 then
        (if n \<ge> nBlocksAgo then map_option Some (phashBlock e)
         else case p of None \<Rightarrow> Some None | Some q \<Rightarrow> hash_walk nBlocksAgo (n + 1) q)
      else Some None)"

text \<open>
  \<^verbatim>\<open>GetBlockHash\<close> of \<^verbatim>\<open>masternode.cpp\<close>: the hash, when there is one, and the cache.
\<close>

definition mn_GetBlockHash ::
  "CBlockIndex option \<Rightarrow> (int \<times> uint256) list \<Rightarrow> int \<Rightarrow> (uint256 option \<times> (int \<times> uint256) list) option" where
  "mn_GetBlockHash tip cache h =
     (case tip of
        None \<Rightarrow> Some (None, cache)
      | Some t \<Rightarrow>
          let h = (if h = 0 then nHeight (entry t) else h)
          in (case map_of cache h of
                Some hash \<Rightarrow> Some (Some hash, cache)
              | None \<Rightarrow>
                  if nHeight (entry t) = 0 \<or> nHeight (entry t) + 1 < h then Some (None, cache)
                  else (case hash_walk (if h > 0 then nHeight (entry t) + 1 - h else 0) 0 t of
                          None \<Rightarrow> None
                        | Some None \<Rightarrow> Some (None, cache)
                        | Some (Some hash) \<Rightarrow> Some (Some hash, AList.update h hash cache))))"

definition AddWinningMasternode ::
  "(bytes \<Rightarrow> bytes) \<Rightarrow> mn_env \<Rightarrow> mn_state \<Rightarrow> CMasternodePaymentWinner \<Rightarrow> (bool \<times> mn_state) option" where
  "AddWinningMasternode Hash E s w =
     (case mn_GetBlockHash (me_tip E) (mapCacheBlockHashes s) (w_nBlockHeight w - 100) of
        None \<Rightarrow> None
      | Some (found, cache) \<Rightarrow>
          let s = s\<lparr>mapCacheBlockHashes := cache\<rparr> in
          if found = None then Some (False, s)
          else if map_of (mapMasternodePayeeVotes s) (winner_GetHash Hash w) \<noteq> None then Some (False, s)
          else
            let votes = AList.update (winner_GetHash Hash w) w (mapMasternodePayeeVotes s);
                b = (case map_of (mapMasternodeBlocks s) (w_nBlockHeight w) of
                       None \<Rightarrow> \<lparr>bp_nBlockHeight = w_nBlockHeight w, vecPayments = []\<rparr> | Some b \<Rightarrow> b)
            in Some (True, s\<lparr>mapMasternodePayeeVotes := votes,
                             mapMasternodeBlocks := AList.update (w_nBlockHeight w) (AddPayee b (w_payee w) 1)
                                                      (mapMasternodeBlocks s)\<rparr>))"

definition GetBlockPayee :: "mn_state \<Rightarrow> int \<Rightarrow> script \<Rightarrow> bool \<times> script" where
  "GetBlockPayee s h payee =
     (case map_of (mapMasternodeBlocks s) h of None \<Rightarrow> (False, payee) | Some b \<Rightarrow> GetPayee b payee)"

definition mp_IsTransactionValid :: "mn_env \<Rightarrow> mn_state \<Rightarrow> CTransaction \<Rightarrow> int \<Rightarrow> bool option" where
  "mp_IsTransactionValid E s txNew h =
     (case map_of (mapMasternodeBlocks s) h of None \<Rightarrow> Some True | Some b \<Rightarrow> bp_IsTransactionValid E b txNew)"

text \<open>Is the payee script scheduled at the tip's height or one of the eight after it? \<open>payee\<close> is kept between the rounds.\<close>

fun scheduled_loop :: "mn_state \<Rightarrow> script \<Rightarrow> int \<Rightarrow> nat \<Rightarrow> int \<Rightarrow> script \<Rightarrow> bool" where
  "scheduled_loop s mnpayee nNotBlockHeight 0 h payee = False"
| "scheduled_loop s mnpayee nNotBlockHeight (Suc n) h payee =
     (if h = nNotBlockHeight then scheduled_loop s mnpayee nNotBlockHeight n (h + 1) payee
      else case GetBlockPayee s h payee of (found, payee) \<Rightarrow>
        if found \<and> mnpayee = payee then True
        else scheduled_loop s mnpayee nNotBlockHeight n (h + 1) payee)"

definition IsScheduled :: "mn_env \<Rightarrow> mn_state \<Rightarrow> script \<Rightarrow> int \<Rightarrow> bool" where
  "IsScheduled E s mnpayee nNotBlockHeight =
     (case me_tip E of None \<Rightarrow> False | Some t \<Rightarrow> scheduled_loop s mnpayee nNotBlockHeight 9 (nHeight (entry t)) [])"

definition CanVote :: "mn_state \<Rightarrow> COutPoint \<Rightarrow> int \<Rightarrow> bool \<times> mn_state" where
  "CanVote s out h =
     (let key = bu_add (op_hash out) (bu_of_u64 8 (ucast (op_n out)))
      in if map_of (mapMasternodesLastVote s) key = Some h then (False, s)
         else (True, s\<lparr>mapMasternodesLastVote := AList.update key h (mapMasternodesLastVote s)\<rparr>))"

text \<open>\<^verbatim>\<open>count * 1.25\<close> is exact in double precision; the conversion to an integer truncates.\<close>

fun clean_loop ::
  "int \<Rightarrow> int \<Rightarrow> (uint256 \<times> CMasternodePaymentWinner) list \<Rightarrow> mn_state \<Rightarrow> mn_state" where
  "clean_loop h nLimit [] s = s"
| "clean_loop h nLimit ((k, winner) # it) s =
     (if h - w_nBlockHeight winner > nLimit
      then clean_loop h nLimit it
             (s\<lparr>mapSeenSyncMNW := AList.delete k (mapSeenSyncMNW s),
                mapMasternodePayeeVotes := AList.delete k (mapMasternodePayeeVotes s),
                mapMasternodeBlocks := AList.delete (w_nBlockHeight winner) (mapMasternodeBlocks s)\<rparr>)
      else clean_loop h nLimit it s)"

definition CleanPaymentList :: "mn_env \<Rightarrow> mn_state \<Rightarrow> mn_state" where
  "CleanPaymentList E s =
     (case me_tip E of
        None \<Rightarrow> s
      | Some t \<Rightarrow> clean_loop (nHeight (entry t)) (max ((me_size E * 5) sdiv 4) 1000) (mapMasternodePayeeVotes s) s)"

definition GetOldestBlock :: "mn_state \<Rightarrow> int" where
  "GetOldestBlock s = fold (\<lambda>(h, _) n. if h < n then h else n) (mapMasternodeBlocks s) (2 ^ 31 - 1)"

definition GetNewestBlock :: "mn_state \<Rightarrow> int" where
  "GetNewestBlock s = fold (\<lambda>(h, _) n. if h > n then h else n) (mapMasternodeBlocks s) 0"

subsection \<open>The checks of a block\<close>

text \<open>The height of a block from its previous hash, as both checks compute it.\<close>

definition height_of :: "mn_env \<Rightarrow> CBlockIndex \<Rightarrow> CBlock \<Rightarrow> int" where
  "height_of E tip block =
     (if GetBlockHash tip = Some (hashPrevBlock block) then nHeight (entry tip) + 1
      else case me_lookup E (hashPrevBlock block) of None \<Rightarrow> 0 | Some p \<Rightarrow> nHeight (entry p) + 1)"

definition IsBlockValueValid :: "mn_env \<Rightarrow> CBlock \<Rightarrow> int \<Rightarrow> int \<Rightarrow> bool" where
  "IsBlockValueValid E block nExpectedValue nMinted =
     (case me_tip E of
        None \<Rightarrow> True
      | Some tip \<Rightarrow>
          let h = height_of E tip block
          in if \<not> me_synced E then
               (if h smod me_budget_cycle E < 100 then True else \<not> nMinted > nExpectedValue)
             else if \<not> me_superblocks E then nMinted \<le> nExpectedValue
             else if me_budget_block E h then True
             else \<not> nMinted > nExpectedValue)"

text \<open>\<open>None\<close> is a read past the end of the transactions or of a null tip.\<close>

definition IsBlockPayeeValid :: "mn_env \<Rightarrow> mn_state \<Rightarrow> CBlock \<Rightarrow> int \<Rightarrow> bool option" where
  "IsBlockPayeeValid E s block h =
     (if \<not> me_synced E then Some True
      else let i = (if h > nLastPOWBlock (me_params E) then 1 else 0)
      in if i \<ge> length (vtx block) then None
      else let txNew = vtx block ! i
      in if me_superblocks E \<and> me_budget_block E h then
           (if me_budget_valid E txNew h then Some True
            else if me_budget_enforcement E then Some False else Some True)
         else (case mp_IsTransactionValid E s txNew h of
                 None \<Rightarrow> None
               | Some True \<Rightarrow> Some True
               | Some False \<Rightarrow> Some (\<not> me_payment_enforcement E)))"

text \<open>
  The payment of a new block; \<open>current\<close> is the payee of the masternode the manager picks when there
  are no votes. The outputs of the new transaction are changed; \<open>None\<close> is an index out of range.
\<close>

definition FillBlockPayee ::
  "mn_env \<Rightarrow> mn_state \<Rightarrow> script option \<Rightarrow> CTransaction \<Rightarrow> bool \<Rightarrow> CTransaction option" where
  "FillBlockPayee E s current txNew fProofOfStake =
     (case me_tip E of
        None \<Rightarrow> Some txNew
      | Some tip \<Rightarrow>
          let h = nHeight (entry tip) + 1;
              payee = (case GetBlockPayee s h [] of (True, payee) \<Rightarrow> Some payee | (False, _) \<Rightarrow> current)
          in (case payee of
               None \<Rightarrow> Some txNew
             | Some payee \<Rightarrow>
                 (case mn_block_value E h of
                    None \<Rightarrow> None
                  | Some blockValue \<Rightarrow>
                 (case mn_payment E h blockValue 0 of
                    None \<Rightarrow> None
                  | Some pay \<Rightarrow>
                      let outs = vout txNew in
                      if fProofOfStake then
                        (if outs = [] then None
                         else let i = length outs;
                                  outs = outs @ [\<lparr>nValue = pay, scriptPubKey = payee\<rparr>]
                              in Some (txNew\<lparr>vout := outs[i - 1 := (outs ! (i - 1))\<lparr>nValue := nValue (outs ! (i - 1)) - pay\<rparr>]\<rparr>))
                      else
                        let outs = take 2 (outs @ replicate 2 CTxOut_SetNull)
                        in Some (txNew\<lparr>vout := [(outs ! 0)\<lparr>nValue := blockValue - pay\<rparr>,
                                                \<lparr>nValue = pay, scriptPubKey = payee\<rparr>]\<rparr>)))))"

subsection \<open>Messages\<close>

datatype mn_action =
    Misbehave int
  | AskForMN CTxIn
  | RelayWinner uint256
  | PushInventory uint256
  | PushSyncCount int

definition MASTERNODE_SYNC_THRESHOLD :: int where "MASTERNODE_SYNC_THRESHOLD = 2"

definition AddedMasternodeWinner :: "mn_env \<Rightarrow> mn_state \<Rightarrow> uint256 \<Rightarrow> mn_state" where
  "AddedMasternodeWinner E s hash =
     (if map_of (mapMasternodePayeeVotes s) hash \<noteq> None then
        (let n = (case map_of (mapSeenSyncMNW s) hash of None \<Rightarrow> 0 | Some n \<Rightarrow> n);
             s = s\<lparr>mapSeenSyncMNW := AList.update hash n (mapSeenSyncMNW s)\<rparr>
         in if n < MASTERNODE_SYNC_THRESHOLD
            then s\<lparr>lastMasternodeWinner := me_time E, mapSeenSyncMNW := AList.update hash (n + 1) (mapSeenSyncMNW s)\<rparr>
            else s)
      else
        s\<lparr>lastMasternodeWinner := me_time E,
          mapSeenSyncMNW := (if map_of (mapSeenSyncMNW s) hash = None
                             then AList.update hash 1 (mapSeenSyncMNW s) else mapSeenSyncMNW s)\<rparr>)"

text \<open>\<open>me_find\<close> gives the protocol version of the masternode with an input, when it is known.\<close>

definition winner_IsValid :: "mn_env \<Rightarrow> CMasternodePaymentWinner \<Rightarrow> bool \<times> mn_action list" where
  "winner_IsValid E w =
     (case me_find E (w_vinMasternode w) of
        None \<Rightarrow> (False, [AskForMN (w_vinMasternode w)])
      | Some version \<Rightarrow>
          if version < me_protocol E then (False, [])
          else let n = me_rank E (w_vinMasternode w) (w_nBlockHeight w - 100) (me_protocol E)
          in if n > MNPAYMENTS_SIGNATURES_TOTAL
             then (False, if n > MNPAYMENTS_SIGNATURES_TOTAL * 2 \<and> me_synced E then [Misbehave 20] else [])
             else (True, []))"

text \<open>
  The message \<^verbatim>\<open>mnw\<close>, a vote; \<open>SignatureValid\<close> tells whether its signature is valid for the key of its
  masternode.
\<close>

definition mnw_message ::
  "(bytes \<Rightarrow> bytes) \<Rightarrow> (CMasternodePaymentWinner \<Rightarrow> bool) \<Rightarrow> mn_env \<Rightarrow> int \<Rightarrow> mn_state \<Rightarrow> CMasternodePaymentWinner \<Rightarrow>
   (mn_state \<times> mn_action list) option" where
  "mnw_message Hash SignatureValid E peer_version s winner =
     (let hash = winner_GetHash Hash winner in
      if \<not> me_blockchain_synced E \<or> me_lite E then Some (s, [])
      else if peer_version < me_protocol E then Some (s, [])
      else (case me_tip E of
        None \<Rightarrow> Some (s, [])
      | Some tip \<Rightarrow>
          let h = nHeight (entry tip) in
          if map_of (mapMasternodePayeeVotes s) hash \<noteq> None then Some (AddedMasternodeWinner E s hash, [])
          else let nFirstBlock = (h * 4 - me_enabled E * 5) sdiv 4 in
          if w_nBlockHeight winner < nFirstBlock \<or> w_nBlockHeight winner > h + 20 then Some (s, [])
          else (case winner_IsValid E winner of
            (False, as) \<Rightarrow> Some (s, as)
          | (True, as) \<Rightarrow>
              (case CanVote s (prevout (w_vinMasternode winner)) (w_nBlockHeight winner) of
                 (False, s) \<Rightarrow> Some (s, as)
               | (True, s) \<Rightarrow>
                   if \<not> SignatureValid winner
                   then Some (s, as @ (if me_synced E then [Misbehave 20] else []) @ [AskForMN (w_vinMasternode winner)])
                   else (case AddWinningMasternode Hash E s winner of
                           None \<Rightarrow> None
                         | Some (True, s) \<Rightarrow> Some (AddedMasternodeWinner E s hash, as @ [RelayWinner hash])
                         | Some (False, s) \<Rightarrow> Some (s, as))))))"

definition mn_Sync :: "(bytes \<Rightarrow> bytes) \<Rightarrow> mn_env \<Rightarrow> mn_state \<Rightarrow> int \<Rightarrow> mn_action list" where
  "mn_Sync Hash E s nCountNeeded =
     (case me_tip E of
        None \<Rightarrow> []
      | Some tip \<Rightarrow>
          let h = nHeight (entry tip);
              nCount = (me_enabled E * 5) sdiv 4;
              nCountNeeded = (if nCountNeeded > nCount then nCount else nCountNeeded);
              ws = filter (\<lambda>w. w_nBlockHeight w \<ge> h - nCountNeeded \<and> w_nBlockHeight w \<le> h + 20)
                     (map snd (mapMasternodePayeeVotes s))
          in map (\<lambda>w. PushInventory (winner_GetHash Hash w)) ws @ [PushSyncCount (int (length ws))])"

text \<open>
  The message \<^verbatim>\<open>mnget\<close>, a request for the votes, on the main network or another: whether the peer has
  asked before is remembered with the peer.
\<close>

definition mnget_message ::
  "(bytes \<Rightarrow> bytes) \<Rightarrow> mn_env \<Rightarrow> bool \<Rightarrow> bool \<Rightarrow> mn_state \<Rightarrow> int \<Rightarrow> bool \<times> mn_action list" where
  "mnget_message Hash E main fulfilled s nCountNeeded =
     (if \<not> me_blockchain_synced E \<or> me_lite E then (fulfilled, [])
      else if main \<and> fulfilled then (fulfilled, [Misbehave 20])
      else (True, mn_Sync Hash E s nCountNeeded))"

text \<open>
  A masternode votes for the block ten ahead: \<open>own\<close> is its input, \<open>next_in_queue\<close> the payee script of
  the masternode the manager selects, \<open>sign\<close> the signature, when it can be made.
\<close>

definition mn_ProcessBlock ::
  "(bytes \<Rightarrow> bytes) \<Rightarrow> (CMasternodePaymentWinner \<Rightarrow> bytes option) \<Rightarrow> mn_env \<Rightarrow> bool \<Rightarrow> CTxIn \<Rightarrow> script option \<Rightarrow>
   mn_state \<Rightarrow> int \<Rightarrow> (bool \<times> mn_state \<times> mn_action list) option" where
  "mn_ProcessBlock Hash sign E fMasterNode own next_in_queue s h =
     (if \<not> fMasterNode then Some (False, s, [])
      else let n = me_rank E own (h - 100) (me_protocol E) in
      if n = -1 \<or> n > MNPAYMENTS_SIGNATURES_TOTAL \<or> h \<le> nLastBlockHeight s then Some (False, s, [])
      else
        let w = \<lparr>w_vinMasternode = own, w_nBlockHeight = 0, w_payee = [], w_vchSig = []\<rparr>;
            w = (if me_budget_block E h then w
                 else case next_in_queue of None \<Rightarrow> w | Some payee \<Rightarrow> w\<lparr>w_nBlockHeight := h, w_payee := payee\<rparr>)
        in case sign w of
             None \<Rightarrow> Some (False, s, [])
           | Some sig \<Rightarrow>
               let w = w\<lparr>w_vchSig := sig\<rparr> in
               (case AddWinningMasternode Hash E s w of
                  None \<Rightarrow> None
                | Some (True, s) \<Rightarrow> Some (True, s\<lparr>nLastBlockHeight := h\<rparr>, [RelayWinner (winner_GetHash Hash w)])
                | Some (False, s) \<Rightarrow> Some (False, s, [])))"

subsection \<open>Every recorded vote is counted once\<close>

definition tally :: "CMasternodePayee list \<Rightarrow> script \<Rightarrow> int" where
  "tally ps payee = (case find (\<lambda>p. py_script p = payee) ps of None \<Rightarrow> 0 | Some p \<Rightarrow> py_nVotes p)"

definition votes_of :: "mn_state \<Rightarrow> int \<Rightarrow> script \<Rightarrow> int" where
  "votes_of s h payee = (case map_of (mapMasternodeBlocks s) h of None \<Rightarrow> 0 | Some b \<Rightarrow> tally (vecPayments b) payee)"

definition votes_cast :: "(uint256 \<times> CMasternodePaymentWinner) list \<Rightarrow> int \<Rightarrow> script \<Rightarrow> int" where
  "votes_cast votes h payee = int (length (filter (\<lambda>(k, w). w_nBlockHeight w = h \<and> w_payee w = payee) votes))"

definition block_ok :: "int \<times> CMasternodeBlockPayees \<Rightarrow> bool" where
  "block_ok = (\<lambda>(h, b). bp_nBlockHeight b = h \<and> distinct (map py_script (vecPayments b)))"

definition votes_inv :: "(bytes \<Rightarrow> bytes) \<Rightarrow> mn_state \<Rightarrow> bool" where
  "votes_inv Hash s \<longleftrightarrow> distinct (map fst (mapMasternodePayeeVotes s)) \<and>
     (\<forall>(k, w) \<in> set (mapMasternodePayeeVotes s). k = winner_GetHash Hash w) \<and>
     distinct (map fst (mapMasternodeBlocks s)) \<and> (\<forall>x \<in> set (mapMasternodeBlocks s). block_ok x) \<and>
     (\<forall>h payee. votes_of s h payee = votes_cast (mapMasternodePayeeVotes s) h payee)"

lemma tally_add: "tally (add_payee ps q n) p = tally ps p + (if p = q then n else 0)"
  by (induction ps q n rule: add_payee.induct) (auto simp: tally_def)

lemma add_payee_scripts: "py_script ` set (add_payee ps q n) = insert q (py_script ` set ps)"
  by (induction ps q n rule: add_payee.induct) auto

lemma add_payee_distinct: "distinct (map py_script ps) \<Longrightarrow> distinct (map py_script (add_payee ps q n))"
  by (induction ps q n rule: add_payee.induct) (auto simp: add_payee_scripts)

lemma update_fresh: "map_of xs k = None \<Longrightarrow> AList.update k v xs = xs @ [(k, v)]"
  by (induction xs) (auto split: if_splits)

lemma votes_cast_snoc:
  "votes_cast (xs @ [(k, w)]) h p = votes_cast xs h p + (if h = w_nBlockHeight w \<and> p = w_payee w then 1 else 0)"
  by (auto simp: votes_cast_def)

lemma set_update_subset: "set (AList.update k v xs) \<subseteq> insert (k, v) (set xs)"
  by (induction xs) auto

lemma votes_inv_add:
  assumes i: "votes_inv Hash s" and a: "AddWinningMasternode Hash E s w = Some (r, s')"
  shows "votes_inv Hash s'"
proof -
  obtain found cache where c: "mn_GetBlockHash (me_tip E) (mapCacheBlockHashes s) (w_nBlockHeight w - 100) = Some (found, cache)"
    using a by (auto simp: AddWinningMasternode_def split: option.splits)
  show ?thesis
  proof (cases "found = None \<or> map_of (mapMasternodePayeeVotes s) (winner_GetHash Hash w) \<noteq> None")
    case True
    then have "s' = s\<lparr>mapCacheBlockHashes := cache\<rparr>"
      using a c by (auto simp: AddWinningMasternode_def Let_def split: if_splits)
    then show ?thesis using i by (simp add: votes_inv_def votes_of_def)
  next
    case False
    define b where "b = (case map_of (mapMasternodeBlocks s) (w_nBlockHeight w) of
      None \<Rightarrow> \<lparr>bp_nBlockHeight = w_nBlockHeight w, vecPayments = []\<rparr> | Some b \<Rightarrow> b)"
    have s': "s' = s\<lparr>mapCacheBlockHashes := cache,
        mapMasternodePayeeVotes := mapMasternodePayeeVotes s @ [(winner_GetHash Hash w, w)],
        mapMasternodeBlocks := AList.update (w_nBlockHeight w) (AddPayee b (w_payee w) 1) (mapMasternodeBlocks s)\<rparr>"
      using False a c by (auto simp: AddWinningMasternode_def Let_def update_fresh b_def)
    have bo: "block_ok (w_nBlockHeight w, b)"
      using i by (auto simp: b_def votes_inv_def block_ok_def split: option.splits dest: map_of_SomeD)
    have bt: "tally (vecPayments b) p = votes_of s (w_nBlockHeight w) p" for p
      by (simp add: votes_of_def tally_def b_def split: option.split)
    have "block_ok (w_nBlockHeight w, AddPayee b (w_payee w) 1)"
      using bo add_payee_distinct by (auto simp: block_ok_def AddPayee_def)
    then have "\<forall>x \<in> set (mapMasternodeBlocks s'). block_ok x"
      using i set_update_subset [of "w_nBlockHeight w" "AddPayee b (w_payee w) 1" "mapMasternodeBlocks s"]
      by (auto simp: votes_inv_def s')
    moreover have "votes_of s' h p = votes_cast (mapMasternodePayeeVotes s') h p" for h p
      using i bt by (auto simp: s' votes_inv_def votes_cast_snoc votes_of_def update_conv' AddPayee_def tally_add)
    moreover have "winner_GetHash Hash w \<notin> fst ` set (mapMasternodePayeeVotes s)"
      using False by (simp add: map_of_eq_None_iff)
    ultimately show ?thesis using i by (auto simp: votes_inv_def s' distinct_update)
  qed
qed

lemma clean_loop_val:
  defines "old \<equiv> \<lambda>h n w. h - w_nBlockHeight w > n"
  shows "mapMasternodePayeeVotes (clean_loop h n it s) =
      filter (\<lambda>(k, _). \<forall>(k', w) \<in> set it. old h n w \<longrightarrow> k \<noteq> k') (mapMasternodePayeeVotes s)"
    and "mapMasternodeBlocks (clean_loop h n it s) =
      filter (\<lambda>(h', _). \<forall>(k', w) \<in> set it. old h n w \<longrightarrow> h' \<noteq> w_nBlockHeight w) (mapMasternodeBlocks s)"
  unfolding old_def
  by (induction h n it s rule: clean_loop.induct) (auto simp: AList.delete_eq intro!: filter_cong)

lemma map_of_filter_keys: "map_of (filter (\<lambda>(k, _). P k) xs) k = (if P k then map_of xs k else None)"
  by (induction xs) auto

lemma votes_inv_clean:
  assumes "votes_inv Hash s"
  shows "votes_inv Hash (CleanPaymentList E s)"
proof (cases "me_tip E")
  case None
  then show ?thesis using assms by (simp add: CleanPaymentList_def)
next
  case (Some t)
  define h n where "h = nHeight (entry t)" and "n = max ((me_size E * 5) sdiv 4) 1000"
  let ?v = "mapMasternodePayeeVotes s" and ?s = "CleanPaymentList E s"
  have i: "distinct (map fst ?v)" "\<forall>h p. votes_of s h p = votes_cast ?v h p" using assms by (auto simp: votes_inv_def)
  have v: "mapMasternodePayeeVotes ?s = filter (\<lambda>(k, w). \<not> h - w_nBlockHeight w > n) ?v"
    unfolding CleanPaymentList_def Some h_def [symmetric] n_def [symmetric] option.case clean_loop_val(1)
    using i(1) by (intro filter_cong) (auto dest: eq_key_imp_eq_value)
  have b: "mapMasternodeBlocks ?s =
      filter (\<lambda>(h', _). \<forall>(k', w) \<in> set ?v. h - w_nBlockHeight w > n \<longrightarrow> h' \<noteq> w_nBlockHeight w) (mapMasternodeBlocks s)"
    by (simp add: CleanPaymentList_def Some h_def n_def clean_loop_val(2))
  have "votes_of ?s h' p = votes_cast (mapMasternodePayeeVotes ?s) h' p" for h' p
  proof (cases "h - h' > n")
    case True
    then have "votes_cast (mapMasternodePayeeVotes ?s) h' p = 0"
      by (auto simp: votes_cast_def v filter_empty_conv)
    moreover have "votes_of ?s h' p = 0"
    proof (cases "\<exists>(k', w) \<in> set ?v. w_nBlockHeight w = h'")
      case False
      then have "votes_cast ?v h' p = 0" by (auto simp: votes_cast_def filter_empty_conv)
      then have "votes_of s h' p = 0" using i(2) by simp
      then show ?thesis by (auto simp: votes_of_def b map_of_filter_keys split: option.splits)
    next
      case ex: True
      then show ?thesis using True by (auto simp: votes_of_def b map_of_filter_keys split: option.splits)
    qed
    ultimately show ?thesis by simp
  next
    case False
    then have "votes_cast (mapMasternodePayeeVotes ?s) h' p = votes_cast ?v h' p"
      by (auto simp: votes_cast_def v intro!: arg_cong [where f = length] filter_cong)
    moreover have "votes_of ?s h' p = votes_of s h' p"
      using False by (auto simp: votes_of_def b map_of_filter_keys)
    ultimately show ?thesis using i(2) by simp
  qed
  then show ?thesis using assms
    by (auto simp: votes_inv_def v b distinct_map_filter)
qed

lemma AddedMasternodeWinner_votes:
  "mapMasternodePayeeVotes (AddedMasternodeWinner E s h) = mapMasternodePayeeVotes s"
  "mapMasternodeBlocks (AddedMasternodeWinner E s h) = mapMasternodeBlocks s"
  by (simp_all add: AddedMasternodeWinner_def Let_def)

lemma CanVote_votes:
  "CanVote s out h = (b, s') \<Longrightarrow> mapMasternodePayeeVotes s' = mapMasternodePayeeVotes s \<and> mapMasternodeBlocks s' = mapMasternodeBlocks s"
  by (auto simp: CanVote_def Let_def split: if_splits)

lemma votes_inv_cong:
  "mapMasternodePayeeVotes s' = mapMasternodePayeeVotes s \<Longrightarrow> mapMasternodeBlocks s' = mapMasternodeBlocks s \<Longrightarrow>
   votes_inv Hash s' \<longleftrightarrow> votes_inv Hash s"
  by (simp add: votes_inv_def votes_of_def)

lemma votes_inv_added: "votes_inv Hash (AddedMasternodeWinner E s h) \<longleftrightarrow> votes_inv Hash s"
  by (rule votes_inv_cong) (simp_all add: AddedMasternodeWinner_votes)

lemma votes_inv_message:
  assumes i: "votes_inv Hash s" and m: "mnw_message Hash SignatureValid E v s w = Some (s', as)"
  shows "votes_inv Hash s'"
proof -
  obtain b s1 where c: "CanVote s (prevout (w_vinMasternode w)) (w_nBlockHeight w) = (b, s1)" by fastforce
  have i1: "votes_inv Hash s1" using i CanVote_votes [OF c] votes_inv_cong by blast
  obtain bv av where v: "winner_IsValid E w = (bv, av)" by fastforce
  have "s' = s \<or> s' = AddedMasternodeWinner E s (winner_GetHash Hash w) \<or> s' = s1 \<or>
    (\<exists>r s2. AddWinningMasternode Hash E s1 w = Some (r, s2) \<and>
      (s' = s2 \<or> s' = AddedMasternodeWinner E s2 (winner_GetHash Hash w)))"
    using m c v
    by (cases "AddWinningMasternode Hash E s1 w")
      (auto simp: mnw_message_def Let_def split: if_splits option.splits bool.splits)
  then show ?thesis using i i1 votes_inv_add [OF i1] votes_inv_added by blast
qed

lemma votes_inv_process:
  assumes i: "votes_inv Hash s" and m: "mn_ProcessBlock Hash sign E fM own nxt s h = Some (r, s', as)"
  shows "votes_inv Hash s'"
proof -
  have a: "AddWinningMasternode Hash E s w = Some (r, s2) \<Longrightarrow> votes_inv Hash (s2\<lparr>nLastBlockHeight := h'\<rparr>)" for w r s2 h'
    using votes_inv_add [OF i] by (subst votes_inv_cong [of _ s2]) auto
  show ?thesis using m i a votes_inv_add [OF i]
    by (auto simp: mn_ProcessBlock_def Let_def split: if_splits option.splits prod.splits bool.splits)
qed

text \<open>What happens to the votes while the node runs; the environment may be another at every step.\<close>

inductive mn_step :: "(bytes \<Rightarrow> bytes) \<Rightarrow> mn_state \<Rightarrow> mn_state \<Rightarrow> bool" for Hash where
  vote: "mnw_message Hash SignatureValid E v s w = Some (s', as) \<Longrightarrow> mn_step Hash s s'"
| block: "mn_ProcessBlock Hash sign E fM own nxt s h = Some (r, s', as) \<Longrightarrow> mn_step Hash s s'"
| clean: "mn_step Hash s (CleanPaymentList E s)"
| clear: "mn_step Hash s (mn_Clear s)"

definition mn_initial :: "mn_state \<Rightarrow> bool" where
  "mn_initial s \<longleftrightarrow> mapMasternodePayeeVotes s = [] \<and> mapMasternodeBlocks s = []"

lemma votes_inv_initial: "mn_initial s \<Longrightarrow> votes_inv Hash s"
  by (simp add: mn_initial_def votes_inv_def votes_of_def votes_cast_def)

lemma votes_inv_step: "mn_step Hash s s' \<Longrightarrow> votes_inv Hash s \<Longrightarrow> votes_inv Hash s'"
proof (induction rule: mn_step.induct)
  case (clear s)
  show ?case by (rule votes_inv_initial) (simp add: mn_initial_def mn_Clear_def)
qed (auto dest: votes_inv_message votes_inv_process intro: votes_inv_clean)

lemma votes_inv_reachable: "(mn_step Hash)\<^sup>*\<^sup>* s s' \<Longrightarrow> mn_initial s \<Longrightarrow> votes_inv Hash s'"
  by (induction rule: rtranclp_induct) (auto intro: votes_inv_initial votes_inv_step)

subsection \<open>A new block pays what the check asks for\<close>

lemma best_payee_val:
  "best_payee ps (q, n) = (q', n') \<Longrightarrow>
   n \<le> n' \<and> (\<forall>p \<in> set ps. py_nVotes p \<le> n') \<and> (n < n' \<longrightarrow> (\<exists>p \<in> set ps. py_script p = q' \<and> py_nVotes p = n')) \<and> (n = n' \<longrightarrow> q = q')"
proof (induction ps arbitrary: q n)
  case (Cons p ps)
  show ?case
  proof (cases "py_nVotes p > n")
    case True
    then show ?thesis using Cons.IH [of "py_script p" "py_nVotes p"] Cons.prems
      by (cases "py_nVotes p < n'") auto
  next
    case False
    then show ?thesis using Cons.IH [of q n] Cons.prems by auto
  qed
qed simp

lemma max_signatures_val:
  "max_signatures ps n \<ge> MNPAYMENTS_SIGNATURES_REQUIRED \<Longrightarrow> n < MNPAYMENTS_SIGNATURES_REQUIRED \<Longrightarrow>
   \<exists>p \<in> set ps. py_nVotes p \<ge> MNPAYMENTS_SIGNATURES_REQUIRED"
  by (induction ps n rule: max_signatures.induct) (auto split: if_splits)

lemma pays_some_iff:
  "pays_some required outs ps \<longleftrightarrow> (\<exists>p \<in> set ps. py_nVotes p \<ge> MNPAYMENTS_SIGNATURES_REQUIRED \<and>
     (\<exists>out \<in> set outs. py_script p = scriptPubKey out \<and> nValue out \<ge> required))"
  by (induction ps) (auto simp: Let_def list_ex_iff)

text \<open>The number of masternodes the check counts with the allowance.\<close>

definition counted_masternodes :: "mn_env \<Rightarrow> int" where
  "counted_masternodes E =
     (if me_payment_enforcement E then me_stable_size E else me_size E) + nMasternodeCountDrift (me_params E)"

lemma filled_block_is_paid:
  assumes i: "votes_inv Hash s" and f: "FillBlockPayee E s current tx stake = Some tx'"
    and t: "me_tip E = Some tip"
    and n: "0 < me_size E" "me_size E \<le> counted_masternodes E"
    and P: "0 < nMasternodeCollateralAmt (me_params E)" "nMoneySupply (entry tip) \<le> nMaxMoneyOut (me_params E)"
      "counted_masternodes E * nMasternodeCollateralAmt (me_params E) * COIN < 2 ^ 63"
  shows "mp_IsTransactionValid E s tx' (nHeight (entry tip) + 1) = Some True"
proof (cases "map_of (mapMasternodeBlocks s) (nHeight (entry tip) + 1)")
  case None
  then show ?thesis by (simp add: mp_IsTransactionValid_def)
next
  case (Some b)
  define h v where "h = nHeight (entry tip) + 1" and "v = GetBlockValue (me_params E) (nMoneySupply (entry tip)) h"
  define pay where "pay c = GetMasternodePayment (me_params E) (nMoneySupply (entry tip)) (me_size E) h v c" for c
  have h: "bp_nBlockHeight b = h" using i Some by (auto simp: votes_inv_def block_ok_def h_def dest: map_of_SomeD)
  have "0 \<le> v" "v \<le> 450000 * COIN" "v < 2 ^ 53"
    using GetBlockValue_cap [OF P(2), of h] block_subsidy_bounds [of "h - 1"]
    by (auto simp: v_def GetBlockValue_def Let_def COIN_def)
  then have "pay (counted_masternodes E) \<le> pay (me_size E)"
    unfolding pay_def using n P by (intro GetMasternodePayment_antimono) (auto simp: GetCurrentCollateral_def)
  moreover have "pay 0 = pay (me_size E)" using n by (simp add: pay_def GetMasternodePayment_def)
  ultimately have le: "pay (counted_masternodes E) \<le> pay 0" by simp
  have c: "(if me_payment_enforcement E then me_stable_size E + nMasternodeCountDrift (me_params E)
      else me_size E + nMasternodeCountDrift (me_params E)) = counted_masternodes E"
    by (simp add: counted_masternodes_def)
  have valid: "mp_IsTransactionValid E s tx' h = Some (max_signatures (vecPayments b) 0 < MNPAYMENTS_SIGNATURES_REQUIRED \<or>
      pays_some (pay (counted_masternodes E)) (vout tx') (vecPayments b))"
    using Some t h by (simp add: mp_IsTransactionValid_def bp_IsTransactionValid_def mn_block_value_def mn_payment_def
        c pay_def v_def h_def [symmetric])
  have "pays_some (pay (counted_masternodes E)) (vout tx') (vecPayments b)"
    if m: "max_signatures (vecPayments b) 0 \<ge> MNPAYMENTS_SIGNATURES_REQUIRED"
  proof -
    obtain p where p: "p \<in> set (vecPayments b)" "py_nVotes p \<ge> MNPAYMENTS_SIGNATURES_REQUIRED"
      using max_signatures_val [OF m] by (auto simp: MNPAYMENTS_SIGNATURES_REQUIRED_def)
    obtain q n where q: "best_payee (vecPayments b) ([], -1) = (q, n)" by fastforce
    note B = best_payee_val [OF q]
    have n: "n \<ge> MNPAYMENTS_SIGNATURES_REQUIRED" using B p by fastforce
    then obtain p' where p': "p' \<in> set (vecPayments b)" "py_script p' = q" "py_nVotes p' = n"
      using B by (auto simp: MNPAYMENTS_SIGNATURES_REQUIRED_def)
    have "GetBlockPayee s h [] = (True, q)"
      using Some q n by (simp add: GetBlockPayee_def GetPayee_def h_def MNPAYMENTS_SIGNATURES_REQUIRED_def)
    then have "\<lparr>nValue = pay 0, scriptPubKey = q\<rparr> \<in> set (vout tx')"
      using f t by (auto simp: FillBlockPayee_def mn_block_value_def mn_payment_def Let_def h_def [symmetric] v_def [symmetric]
          pay_def [symmetric] list_update_append split: if_splits)
    then show ?thesis using p' n le by (auto simp: pays_some_iff intro!: bexI [of _ p'] bexI [of _ "\<lparr>nValue = pay 0, scriptPubKey = q\<rparr>"])
  qed
  then have "max_signatures (vecPayments b) 0 < MNPAYMENTS_SIGNATURES_REQUIRED \<or>
      pays_some (pay (counted_masternodes E)) (vout tx') (vecPayments b)" by (meson not_less)
  then show ?thesis using valid by (simp add: h_def)
qed

subsection \<open>Votes that are not signed, and blocks without a stake\<close>

lemma unsigned_vote_blocks:
  assumes "mnw_message Hash SignatureValid E v s bad = Some (s1, as)"
    and "me_blockchain_synced E" "\<not> me_lite E" "\<not> SignatureValid bad" "v \<ge> me_protocol E" "me_tip E = Some tip"
    and "map_of (mapMasternodePayeeVotes s) (winner_GetHash Hash bad) = None"
    and "fst (winner_IsValid E bad)" "w_nBlockHeight bad \<le> nHeight (entry tip) + 20"
      "(nHeight (entry tip) * 4 - me_enabled E * 5) sdiv 4 \<le> w_nBlockHeight bad"
    and "prevout (w_vinMasternode w) = prevout (w_vinMasternode bad)" "w_nBlockHeight w = w_nBlockHeight bad"
    and "mnw_message Hash SignatureValid E v' s1 w = Some (s2, as')"
  shows "mapMasternodePayeeVotes s2 = mapMasternodePayeeVotes s"
proof -
  obtain b s' where c: "CanVote s (prevout (w_vinMasternode bad)) (w_nBlockHeight bad) = (b, s')" by fastforce
  obtain as0 where v: "winner_IsValid E bad = (True, as0)" using assms(8) by (cases "winner_IsValid E bad") auto
  have "\<not> b \<Longrightarrow> s' = s" using c by (auto simp: CanVote_def Let_def split: if_splits)
  then have "s1 = s \<or> s1 = s'" using assms(1-10) c v
    by (cases b) (auto simp: mnw_message_def Let_def split: if_splits)
  have "s1 = (if b then s' else s)" using assms(1-10) c v \<open>\<not> b \<Longrightarrow> s' = s\<close>
    by (cases b) (auto simp: mnw_message_def Let_def split: if_splits)
  moreover have "CanVote (if b then s' else s) (prevout (w_vinMasternode w)) (w_nBlockHeight w) = (False, if b then s' else s)"
    using c assms(11,12) by (auto simp: CanVote_def Let_def update_conv' split: if_splits)
  ultimately have "CanVote s1 (prevout (w_vinMasternode w)) (w_nBlockHeight w) = (False, s1)" by simp
  then have "s2 = s1 \<or> s2 = AddedMasternodeWinner E s1 (winner_GetHash Hash w)"
    using assms(13) by (auto simp: mnw_message_def Let_def split: if_splits option.splits prod.splits bool.splits)
  moreover have "mapMasternodePayeeVotes s1 = mapMasternodePayeeVotes s"
    using \<open>s1 = s \<or> s1 = s'\<close> CanVote_votes [OF c] by auto
  ultimately show ?thesis using AddedMasternodeWinner_votes by auto
qed

lemma payee_check_reads_past_the_end:
  assumes "me_synced E" "h > nLastPOWBlock (me_params E)" "length (vtx block) = 1"
  shows "IsBlockPayeeValid E s block h = None"
  using assms by (simp add: IsBlockPayeeValid_def)

end
