(* ===== verification/Compressor.thy ===== *)
theory Compressor
  imports Transaction
begin

text \<open>
  The compact form of outputs in the coin database, \<^verbatim>\<open>compressor.h\<close> and
  \<^verbatim>\<open>compressor.cpp\<close>: special encodings for the common scripts, and amounts without their
  trailing zeros. Full validity of a public key and the recovery of an uncompressed key are
  curve arithmetic of the crypto library; they are arguments.
\<close>

record curve =
  IsFullyValid :: "bytes \<Rightarrow> bool"
  DecompressKey :: "bytes \<Rightarrow> bytes option"

subsection \<open>Scripts\<close>

definition IsToKeyID :: "script \<Rightarrow> bytes option" where
  "IsToKeyID s =
     (if length s = 25 \<and> s ! 0 = OP_DUP \<and> s ! 1 = OP_HASH160 \<and> s ! 2 = 20 \<and>
         s ! 23 = OP_EQUALVERIFY \<and> s ! 24 = OP_CHECKSIG
      then Some (take 20 (drop 3 s)) else None)"

definition IsToScriptID :: "script \<Rightarrow> bytes option" where
  "IsToScriptID s =
     (if length s = 23 \<and> s ! 0 = OP_HASH160 \<and> s ! 1 = 20 \<and> s ! 22 = OP_EQUAL
      then Some (take 20 (drop 2 s)) else None)"

definition IsToPubKey :: "curve \<Rightarrow> script \<Rightarrow> bytes option" where
  "IsToPubKey K s =
     (if length s = 35 \<and> s ! 0 = 33 \<and> s ! 34 = OP_CHECKSIG \<and> (s ! 1 = 2 \<or> s ! 1 = 3)
      then Some (take 33 (drop 1 s))
      else if length s = 67 \<and> s ! 0 = 65 \<and> s ! 66 = OP_CHECKSIG \<and> s ! 1 = 4
      then (let pubkey = take 65 (drop 1 s) in if IsFullyValid K pubkey then Some pubkey else None)
      else None)"

definition CompressScript :: "curve \<Rightarrow> script \<Rightarrow> bytes option" where
  "CompressScript K s =
     (case IsToKeyID s of
        Some keyID \<Rightarrow> Some (0 # keyID)
      | None \<Rightarrow> (case IsToScriptID s of
          Some scriptID \<Rightarrow> Some (1 # scriptID)
        | None \<Rightarrow> (case IsToPubKey K s of
            None \<Rightarrow> None
          | Some pubkey \<Rightarrow>
              (let x = take 32 (drop 1 pubkey) in
               if pubkey ! 0 = 2 \<or> pubkey ! 0 = 3 then Some (pubkey ! 0 # x)
               else if pubkey ! 0 = 4 then Some ((4 OR (pubkey ! 64 AND 1)) # x)
               else None))))"

definition GetSpecialSize :: "u32 \<Rightarrow> nat" where
  "GetSpecialSize nSize =
     (if nSize = 0 \<or> nSize = 1 then 20
      else if nSize = 2 \<or> nSize = 3 \<or> nSize = 4 \<or> nSize = 5 then 32 else 0)"

definition DecompressScript :: "curve \<Rightarrow> u32 \<Rightarrow> bytes \<Rightarrow> script option" where
  "DecompressScript K nSize v =
     (if nSize = 0 then Some ([OP_DUP, OP_HASH160, 20] @ take 20 v @ [OP_EQUALVERIFY, OP_CHECKSIG])
      else if nSize = 1 then Some ([OP_HASH160, 20] @ take 20 v @ [OP_EQUAL])
      else if nSize = 2 \<or> nSize = 3 then Some ([33, ucast nSize] @ take 32 v @ [OP_CHECKSIG])
      else if nSize = 4 \<or> nSize = 5 then
        (case DecompressKey K (ucast (nSize - 2) # take 32 v) of
           None \<Rightarrow> None
         | Some pubkey \<Rightarrow> Some ([65] @ pubkey @ [OP_CHECKSIG]))
      else None)"

definition nSpecialScripts :: u32 where "nSpecialScripts = 6"

definition ser_script :: "curve \<Rightarrow> script \<Rightarrow> bytes" where
  "ser_script K s =
     (case CompressScript K s of
        Some compr \<Rightarrow> compr
      | None \<Rightarrow> WriteVarInt (of_nat (length s) + nSpecialScripts) @ s)"

definition size_script :: "curve \<Rightarrow> script \<Rightarrow> nat" where
  "size_script K s =
     (case CompressScript K s of
        Some compr \<Rightarrow> length compr
      | None \<Rightarrow> length s + GetSizeOfVarInt (of_nat (length s) + nSpecialScripts))"

text \<open>
  Reading into a fresh output: when the key cannot be recovered the script stays empty, as
  the result of \<^verbatim>\<open>Decompress\<close> is ignored.
\<close>

definition unser_script :: "curve \<Rightarrow> bytes \<Rightarrow> io_error + script \<times> bytes" where
  "unser_script K s =
     rbind (ReadVarInt s) (\<lambda>(nSize, s).
       if nSize < nSpecialScripts then
         rbind (read_bytes (GetSpecialSize nSize) s) (\<lambda>(vch, s).
           Inr (case DecompressScript K nSize vch of None \<Rightarrow> [] | Some script \<Rightarrow> script, s))
       else read_bytes (unat (nSize - nSpecialScripts)) s)"

subsection \<open>Amounts\<close>

function strip_zeros :: "u64 \<Rightarrow> nat \<Rightarrow> u64 \<times> nat" where
  "strip_zeros n e = (if n mod 10 = 0 \<and> e < 9 then strip_zeros (n div 10) (Suc e) else (n, e))"
  by pat_completeness auto
termination by (relation "measure (\<lambda>(n, e). 9 - e)") auto

declare strip_zeros.simps [simp del]

text \<open>\<open>None\<close> is the failed assertion on the last digit.\<close>

definition CompressAmount :: "u64 \<Rightarrow> u64 option" where
  "CompressAmount n0 =
     (if n0 = 0 then Some 0
      else let (n, e) = strip_zeros n0 0 in
        if e < 9 then
          (let d = n mod 10; n' = n div 10 in
           if 1 \<le> d \<and> d \<le> 9 then Some (1 + (n' * 9 + d - 1) * 10 + of_nat e) else None)
        else Some (1 + (n - 1) * 10 + 9))"

fun times_ten :: "u64 \<Rightarrow> nat \<Rightarrow> u64" where
  "times_ten n 0 = n"
| "times_ten n (Suc e) = times_ten (n * 10) e"

definition DecompressAmount :: "u64 \<Rightarrow> u64" where
  "DecompressAmount x0 =
     (if x0 = 0 then 0
      else let x1 = x0 - 1; e = unat (x1 mod 10); x = x1 div 10;
               n = (if e < 9 then x div 9 * 10 + (x mod 9 + 1) else x + 1)
           in times_ten n e)"

definition ser_txout_compressed :: "curve \<Rightarrow> CTxOut \<Rightarrow> bytes option" where
  "ser_txout_compressed K out =
     (case CompressAmount (word_of_int (nValue out)) of
        None \<Rightarrow> None
      | Some nVal \<Rightarrow> Some (WriteVarInt nVal @ ser_script K (scriptPubKey out)))"

definition unser_txout_compressed :: "curve \<Rightarrow> bytes \<Rightarrow> io_error + CTxOut \<times> bytes" where
  "unser_txout_compressed K s =
     rbind (ReadVarInt s) (\<lambda>(nVal, s).
     rbind (unser_script K s) (\<lambda>(script, s).
       Inr (\<lparr>nValue = int64_of (DecompressAmount nVal), scriptPubKey = script\<rparr>, s)))"

subsection \<open>Amount round trip\<close>

lemma unat_dm10: "unat ((n :: u64) div 10) = unat n div 10" "unat ((n :: u64) mod 10) = unat n mod 10"
  by (simp_all add: unat_div unat_mod)

lemma strip_zeros_val:
  "e \<le> 9 \<Longrightarrow> n \<noteq> 0 \<Longrightarrow> strip_zeros n e = (m, k) \<Longrightarrow>
   unat n = unat m * 10 ^ (k - e) \<and> e \<le> k \<and> k \<le> 9 \<and> m \<noteq> 0 \<and> (k < 9 \<longrightarrow> unat m mod 10 \<noteq> 0)"
proof (induction n e rule: strip_zeros.induct)
  case (1 n e)
  show ?case
  proof (cases "n mod 10 = 0 \<and> e < 9")
    case True
    have z: "unat n mod 10 = 0" using True by (metis unat_dm10(2) unat_0)
    have nz: "n div 10 \<noteq> 0"
    proof
      assume "n div 10 = 0"
      then have "unat n div 10 = 0" by (metis unat_dm10(1) unat_0)
      then have "unat n = 0" using z by presburger
      then show False using 1(3) by (simp add: unat_eq_0)
    qed
    have "strip_zeros (n div 10) (Suc e) = (m, k)"
      using 1(4) True by (simp add: strip_zeros.simps [of n e])
    from 1(1) [OF True _ nz this] True have
      ih: "unat (n div 10) = unat m * 10 ^ (k - Suc e)" "Suc e \<le> k" "k \<le> 9" "m \<noteq> 0"
        "k < 9 \<longrightarrow> unat m mod 10 \<noteq> 0" by auto
    have "unat n = 10 * unat (n div 10)" using z unfolding unat_dm10 by presburger
    also have "\<dots> = unat m * 10 ^ Suc (k - Suc e)" using ih(1) by simp
    also have "Suc (k - Suc e) = k - e" using ih(2) by simp
    finally show ?thesis using ih by simp
  next
    case False
    then have "m = n" "k = e" using 1(4) by (simp_all add: strip_zeros.simps [of n e] split: if_splits)
    moreover have "unat n mod 10 \<noteq> 0" if "k < 9"
    proof
      assume "unat n mod 10 = 0"
      then have "unat (n mod 10) = 0" by (simp only: unat_dm10)
      then have "n mod 10 = 0" by (simp only: unat_eq_0)
      then show False using False that \<open>k = e\<close> by simp
    qed
    ultimately show ?thesis using 1 by simp
  qed
qed

lemma unat_mult_small: "unat a * unat b < 2 ^ 64 \<Longrightarrow> unat (a * b :: u64) = unat a * unat b"
  by (simp add: unat_word_ariths)

lemma unat_add_small: "unat a + unat b < 2 ^ 64 \<Longrightarrow> unat (a + b :: u64) = unat a + unat b"
  by (simp add: unat_word_ariths)

lemma times_ten_val: "unat n * 10 ^ e < 2 ^ 64 \<Longrightarrow> unat (times_ten n e) = unat n * 10 ^ e"
proof (induction e arbitrary: n)
  case (Suc e)
  have "unat n * 10 * 1 \<le> unat n * 10 * 10 ^ e" by (intro mult_le_mono2) simp
  also have "\<dots> < 2 ^ 64" using Suc.prems by (simp add: mult.assoc)
  finally have "unat (n * 10) = unat n * 10" by (subst unat_mult_small) simp_all
  then show ?case using Suc by (simp add: mult.assoc)
qed simp

lemma of_nat_dm:
  assumes "V < 2 ^ 64"
  shows "(of_nat V :: u64) div 10 = of_nat (V div 10)" "(of_nat V :: u64) mod 10 = of_nat (V mod 10)"
    "(of_nat V :: u64) div 9 = of_nat (V div 9)" "(of_nat V :: u64) mod 9 = of_nat (V mod 9)"
proof -
  have u: "W \<le> V \<Longrightarrow> unat (of_nat W :: u64) = W" for W using assms by (simp add: unat_of_nat)
  show "(of_nat V :: u64) div 10 = of_nat (V div 10)" "(of_nat V :: u64) mod 10 = of_nat (V mod 10)"
    "(of_nat V :: u64) div 9 = of_nat (V div 9)" "(of_nat V :: u64) mod 9 = of_nat (V mod 9)"
    by (intro unsigned_word_eqI [where ?'a = nat]; simp only: unat_div unat_mod u mod_less_eq_dividend div_le_dividend order_refl;
        simp add: unat_of_nat)+
qed

lemma DecompressAmount_of_nat:
  assumes "0 < V" "V < 2 ^ 64"
  shows "DecompressAmount (of_nat V) =
    (let e = (V - 1) mod 10; x = (V - 1) div 10 in
     times_ten (of_nat (if e < 9 then x div 9 * 10 + (x mod 9 + 1) else x + 1)) e)"
proof -
  have u: "W \<le> V \<Longrightarrow> unat (of_nat W :: u64) = W" for W using assms by (simp add: unat_of_nat)
  have nz: "(of_nat V :: u64) \<noteq> 0"
  proof
    assume "(of_nat V :: u64) = 0"
    then have "unat (of_nat V :: u64) = 0" by simp
    with u [of V] assms(1) show False by simp
  qed
  have m1: "(of_nat V :: u64) - 1 = of_nat (V - 1)" using assms(1) by (simp add: of_nat_diff)
  have V1: "V - 1 < 2 ^ 64" "(V - 1) div 10 < 2 ^ 64" using assms by auto
  have e: "unat (of_nat ((V - 1) mod 10) :: u64) = (V - 1) mod 10"
    by (rule u) (meson diff_le_self le_trans mod_less_eq_dividend)
  show ?thesis
    unfolding DecompressAmount_def Let_def m1 of_nat_dm [OF V1(1)] of_nat_dm [OF V1(2)] e using nz by (simp add: ac_simps)
qed


definition compressed_amount :: "nat \<Rightarrow> nat \<Rightarrow> nat" where
  "compressed_amount m k =
     (if k < 9 then 1 + (m div 10 * 9 + m mod 10 - 1) * 10 + k else 1 + (m - 1) * 10 + 9)"

lemma compressed_amount_bounds:
  assumes "0 < m" "m < 2 ^ 60" "k \<le> 9"
  shows "0 < compressed_amount m k" "compressed_amount m k < 2 ^ 64"
proof -
  have "m div 10 * 10 + m mod 10 = m" by simp
  then have q: "(m div 10 * 9 + m mod 10 - 1) * 10 \<le> m * 10" "(m - 1) * 10 \<le> m * 10" by linarith+
  have "m * 10 + 10 < 2 ^ 60 * 16" using assms(2) by linarith
  also have "\<dots> = 2 ^ 64" by simp
  finally have "m * 10 + 10 < 2 ^ 64" .
  moreover have "compressed_amount m k \<le> m * 10 + 10"
    using q assms(3) unfolding compressed_amount_def by (split if_split, intro conjI impI; linarith)
  ultimately show "compressed_amount m k < 2 ^ 64" by linarith
qed (simp add: compressed_amount_def)

lemma DecompressAmount_compressed:
  assumes "0 < m" "m < 2 ^ 60" "k \<le> 9" "k < 9 \<Longrightarrow> m mod 10 \<noteq> 0"
  shows "DecompressAmount (of_nat (compressed_amount m k)) = times_ten (of_nat m) k"
proof (cases "k < 9")
  case True
  define a where "a = m div 10"
  define d where "d = m mod 10"
  have ad: "a * 10 + d = m" "d < 10" "d \<noteq> 0" using assms(4) [OF True] by (simp_all add: a_def d_def)
  define q where "q = a * 9 + d - 1"
  have v: "compressed_amount m k - 1 = q * 10 + k"
    using True by (simp add: compressed_amount_def q_def a_def d_def)
  have e: "(compressed_amount m k - 1) mod 10 = k" "(compressed_amount m k - 1) div 10 = q"
    unfolding v using True by simp_all
  have q: "q = (d - 1) + 9 * a" using ad(3) by (simp add: q_def)
  have "d - 1 < 9" using ad(2) by simp
  then have "q div 9 = a" "q mod 9 = d - 1" unfolding q by simp_all
  then have m: "q div 9 * 10 + (q mod 9 + 1) = m" using ad by simp
  show ?thesis
    unfolding DecompressAmount_of_nat [OF compressed_amount_bounds [OF assms(1-3)]] Let_def e
    using True m by simp
next
  case False
  then have k: "k = 9" using assms(3) by simp
  have d: "(compressed_amount m k - 1) mod 10 = 9" "(compressed_amount m k - 1) div 10 = m - 1"
    by (simp_all add: compressed_amount_def k)
  show ?thesis
    unfolding DecompressAmount_of_nat [OF compressed_amount_bounds [OF assms(1-3)]] Let_def d
    using assms(1) k by (simp add: of_nat_diff)
qed

lemma CompressAmount_val:
  assumes "n \<noteq> 0" "unat n < 2 ^ 60" "strip_zeros n 0 = (m, k)"
  shows "CompressAmount n = Some (of_nat (compressed_amount (unat m) k))"
proof -
  have s: "unat n = unat m * 10 ^ k" "k \<le> 9" "m \<noteq> 0" "k < 9 \<longrightarrow> unat m mod 10 \<noteq> 0"
    using strip_zeros_val [OF _ assms(1,3)] by auto
  have m: "m = of_nat (unat m)" by simp
  have M: "unat m < 2 ^ 64" using unat_lt_u64 [of m] by simp
  have d: "m mod 10 = of_nat (unat m mod 10)" "m div 10 = of_nat (unat m div 10)"
    using of_nat_dm [OF M] by simp_all
  have r: "1 \<le> m mod 10 \<and> m mod 10 \<le> 9" if "k < 9"
  proof -
    have "unat (m mod 10) = unat m mod 10" by (rule unat_dm10)
    then show ?thesis using s(4) that by (simp add: word_le_nat_alt)
  qed
  have "0 < unat m" using s(3) by (simp add: unat_gt_0)
  then have q: "of_nat (unat m div 10 * 9 + unat m mod 10 - 1) =
      (of_nat (unat m div 10) * 9 + of_nat (unat m mod 10) - 1 :: u64)"
    "of_nat (unat m - 1) = m - 1"
  proof -
    have "unat m div 10 * 10 + unat m mod 10 = unat m" by simp
    then have "1 \<le> unat m div 10 * 9 + unat m mod 10" using \<open>0 < unat m\<close> by linarith
    then show "of_nat (unat m div 10 * 9 + unat m mod 10 - 1) =
      (of_nat (unat m div 10) * 9 + of_nat (unat m mod 10) - 1 :: u64)" by (simp add: of_nat_diff)
    show "of_nat (unat m - 1) = m - 1" using \<open>0 < unat m\<close> by (simp add: of_nat_diff)
  qed
  show ?thesis
  proof (cases "k < 9")
    case True
    then show ?thesis using r [OF True] assms(1,3)
      by (simp add: CompressAmount_def compressed_amount_def q d Let_def del: of_nat_diff One_nat_def)
  next
    case False
    have "of_nat (1 + (unat m - 1) * 10 + 9) = (1 + (m - 1) * 10 + 9 :: u64)"
      by (simp only: of_nat_add of_nat_mult q of_nat_1 of_nat_numeral)
    then show ?thesis using False assms(1,3)
      by (simp only: CompressAmount_def compressed_amount_def if_False prod.case Let_def)
  qed
qed

theorem DecompressAmount_CompressAmount:
  assumes "unat n < 2 ^ 60"
  shows "\<exists>x. CompressAmount n = Some x \<and> DecompressAmount x = n"
proof (cases "n = 0")
  case True
  then show ?thesis by (simp add: CompressAmount_def DecompressAmount_def)
next
  case False
  obtain m k where mk: "strip_zeros n 0 = (m, k)" by fastforce
  have s: "unat n = unat m * 10 ^ k" "k \<le> 9" "m \<noteq> 0" "k < 9 \<longrightarrow> unat m mod 10 \<noteq> 0"
    using strip_zeros_val [OF _ False mk] by auto
  have "unat m * 1 \<le> unat n" unfolding s(1) by (intro mult_le_mono2) simp
  then have m: "0 < unat m" "unat m < 2 ^ 60" using assms s(3) by (auto simp: unat_gt_0)
  have "DecompressAmount (of_nat (compressed_amount (unat m) k)) = times_ten (of_nat (unat m)) k"
    using m s by (intro DecompressAmount_compressed) auto
  also have "\<dots> = n"
    using times_ten_val [of m k] s(1) unat_lt_u64 [of n] by (intro unsigned_word_eqI [where ?'a = nat]) simp
  finally show ?thesis using CompressAmount_val [OF False assms mk] by blast
qed

subsection \<open>Script round trip\<close>

text \<open>What the crypto library promises of keys: a valid key is recovered from its x coordinate and parity.\<close>

definition curve_recovers :: "curve \<Rightarrow> bool" where
  "curve_recovers K \<longleftrightarrow>
     (\<forall>pk. length pk = 65 \<longrightarrow> pk ! 0 = 4 \<longrightarrow> IsFullyValid K pk \<longrightarrow>
        DecompressKey K ((2 + (pk ! 64 AND 1)) # take 32 (drop 1 pk)) = Some pk)"

lemma ReadVarInt_byte:
  assumes "b < 0x80" shows "(ReadVarInt (b # s) :: io_error + u32 \<times> bytes) = Inr (ucast b, s)"
proof -
  have "\<not> bit b 7" using assms bit_top_iff [of b 7] unat_lt_byte [of b] by (simp add: word_less_nat_alt)
  then have "b AND 0x80 = 0" using and_exp_eq_0_iff_not_bit [of b 7] by simp
  moreover have "b AND 0x7F = b"
    using assms byte_magnitude [of b] by (intro unsigned_word_eqI [where ?'a = nat]) (simp add: word_less_nat_alt)
  ultimately show ?thesis by (simp add: ReadVarInt_def)
qed

lemma drop_Cons: "i < length s \<Longrightarrow> drop i s = s ! i # drop (Suc i) s"
  by (simp add: Cons_nth_drop_Suc)

lemma split_25:
  assumes "length s = 25" shows "s = [s ! 0, s ! 1, s ! 2] @ take 20 (drop 3 s) @ [s ! 23, s ! 24]"
proof -
  have c: "s = s ! 0 # drop 1 s" "drop 1 s = s ! 1 # drop 2 s" "drop 2 s = s ! 2 # drop 3 s" "drop 23 s = s ! 23 # drop 24 s" "drop 24 s = s ! 24 # drop 25 s"
    using assms drop_Cons [of 0 s] drop_Cons [of 1 s] drop_Cons [of 2 s] drop_Cons [of 23 s] drop_Cons [of 24 s] by (simp_all add: numeral_2_eq_2 numeral_3_eq_3)
  have "drop 3 s = take 20 (drop 3 s) @ drop 23 s" "drop 25 s = []"
    using assms append_take_drop_id [of 20 "drop 3 s"] by simp_all
  then show ?thesis using c by (metis append_Cons append_Nil)
qed

lemma split_23:
  assumes "length s = 23" shows "s = [s ! 0, s ! 1] @ take 20 (drop 2 s) @ [s ! 22]"
proof -
  have c: "s = s ! 0 # drop 1 s" "drop 1 s = s ! 1 # drop 2 s" "drop 22 s = s ! 22 # drop 23 s"
    using assms drop_Cons [of 0 s] drop_Cons [of 1 s] drop_Cons [of 22 s] by (simp_all add: numeral_2_eq_2)
  have "drop 2 s = take 20 (drop 2 s) @ drop 22 s" "drop 23 s = []"
    using assms append_take_drop_id [of 20 "drop 2 s"] by simp_all
  then show ?thesis using c by (metis append_Cons append_Nil)
qed

lemma split_ends:
  assumes "length s = k + 2" shows "s = [s ! 0] @ take k (drop 1 s) @ [s ! (k + 1)]"
proof (cases s)
  case (Cons x r)
  then have "r = take k r @ [r ! k]" using assms take_Suc_conv_app_nth [of k r] by simp
  then show ?thesis using Cons by simp
qed (use assms in simp)

lemma take_drop_Cons: "length s > 1 \<Longrightarrow> take (Suc k) (drop 1 s) = s ! 1 # take k (drop 2 s)"
  by (cases s; cases "tl s") (auto simp: numeral_2_eq_2)

definition special_of :: "curve \<Rightarrow> script \<Rightarrow> byte \<Rightarrow> bytes \<Rightarrow> bool" where
  "special_of K s b v \<longleftrightarrow> b < 6 \<and> length v = GetSpecialSize (ucast b) \<and> DecompressScript K (ucast b) v = Some s"

lemma special_keyid:
  assumes "IsToKeyID s = Some h" shows "special_of K s 0 h"
proof -
  have s: "length s = 25" "s ! 0 = OP_DUP" "s ! 1 = OP_HASH160" "s ! 2 = 20" "s ! 23 = OP_EQUALVERIFY"
    "s ! 24 = OP_CHECKSIG" "h = take 20 (drop 3 s)"
    using assms by (auto simp: IsToKeyID_def split: if_splits)
  have "s = [OP_DUP, OP_HASH160, 20] @ h @ [OP_EQUALVERIFY, OP_CHECKSIG]"
    using split_25 [OF s(1)] unfolding s(2-6) s(7) [symmetric] .
  moreover have "length h = 20" using s(1) unfolding s(7) by simp
  ultimately show ?thesis by (simp add: special_of_def GetSpecialSize_def DecompressScript_def)
qed

lemma special_scriptid:
  assumes "IsToScriptID s = Some h" shows "special_of K s 1 h"
proof -
  have s: "length s = 23" "s ! 0 = OP_HASH160" "s ! 1 = 20" "s ! 22 = OP_EQUAL" "h = take 20 (drop 2 s)"
    using assms by (auto simp: IsToScriptID_def split: if_splits)
  have "s = [OP_HASH160, 20] @ h @ [OP_EQUAL]"
    using split_23 [OF s(1)] unfolding s(2-4) s(5) [symmetric] .
  moreover have "length h = 20" using s(1) unfolding s(5) by simp
  ultimately show ?thesis by (simp add: special_of_def GetSpecialSize_def DecompressScript_def)
qed

lemma special_compressed_key:
  assumes "length s = 35" "s ! 0 = 33" "s ! 34 = OP_CHECKSIG" "s ! 1 = 2 \<or> s ! 1 = 3"
  shows "special_of K s (s ! 1) (take 32 (drop 2 s))"
proof -
  have "s = [33] @ (s ! 1 # take 32 (drop 2 s)) @ [OP_CHECKSIG]"
    using split_ends [of s 33] take_drop_Cons [of s 32] assms by simp
  then show ?thesis using assms(1,4)
    by (auto simp: special_of_def GetSpecialSize_def DecompressScript_def)
qed

lemma parity_cases: "(x :: byte) AND 1 = 0 \<or> x AND 1 = 1"
  by (metis and_one_eq odd_iff_mod_2_eq_one even_iff_mod_2_eq_zero and.commute)

lemma special_full_key:
  assumes "curve_recovers K" "length s = 67" "s ! 0 = 65" "s ! 66 = OP_CHECKSIG" "s ! 1 = 4"
    and "IsFullyValid K (take 65 (drop 1 s))"
  shows "special_of K s (4 OR (s ! 65 AND 1)) (take 32 (drop 2 s))"
proof -
  define pk where "pk = take 65 (drop 1 s)"
  have pk: "length pk = 65" "pk ! 0 = 4" "pk ! 64 = s ! 65" "take 32 (drop 1 pk) = take 32 (drop 2 s)"
    using assms(2,5) by (simp_all add: pk_def drop_take min_def numeral_2_eq_2)
  have d: "DecompressKey K ((2 + (s ! 65 AND 1)) # take 32 (drop 2 s)) = Some pk"
    using assms(1,6) pk unfolding curve_recovers_def pk_def [symmetric] by metis
  have s: "s = [65] @ pk @ [OP_CHECKSIG]"
    using split_ends [of s 65] assms(2-4) by (simp add: pk_def)
  show ?thesis
    using parity_cases [of "s ! 65"] d s assms(2)
    by (auto simp: special_of_def GetSpecialSize_def DecompressScript_def)
qed

lemma CompressScript_special:
  assumes "curve_recovers K" "CompressScript K s = Some c"
  obtains b v where "c = b # v" "special_of K s b v"
proof (cases "IsToKeyID s")
  case (Some h)
  then show ?thesis using assms(2) special_keyid [OF Some] that by (auto simp: CompressScript_def)
next
  case n1: None
  show ?thesis
  proof (cases "IsToScriptID s")
    case (Some h)
    then show ?thesis using assms(2) n1 special_scriptid [OF Some] that by (auto simp: CompressScript_def)
  next
    case n2: None
    then obtain pk where pk: "IsToPubKey K s = Some pk"
      using assms(2) n1 by (auto simp: CompressScript_def split: option.splits)
    then consider "length s = 35" "s ! 0 = 33" "s ! 34 = OP_CHECKSIG" "s ! 1 = 2 \<or> s ! 1 = 3" "pk = take 33 (drop 1 s)"
      | "length s = 67" "s ! 0 = 65" "s ! 66 = OP_CHECKSIG" "s ! 1 = 4" "IsFullyValid K pk" "pk = take 65 (drop 1 s)"
      by (auto simp: IsToPubKey_def Let_def split: if_splits)
    then show ?thesis
    proof cases
      case 1
      then have "c = s ! 1 # take 32 (drop 2 s)"
        using assms(2) n1 n2 pk by (auto simp: CompressScript_def Let_def drop_take numeral_2_eq_2)
      then show ?thesis using special_compressed_key [OF 1(1-4)] that by blast
    next
      case 2
      then have "c = (4 OR (s ! 65 AND 1)) # take 32 (drop 2 s)"
        using assms(2) n1 n2 pk by (auto simp: CompressScript_def Let_def drop_take numeral_2_eq_2)
      then show ?thesis using special_full_key [OF assms(1) 2(1-4)] 2(5,6) that by blast
    qed
  qed
qed

theorem unser_script_ser_script:
  assumes "curve_recovers K" "length s < 2 ^ 31"
  shows "unser_script K (ser_script K s @ t) = Inr (s, t)"
proof (cases "CompressScript K s")
  case (Some c)
  then obtain b v where c: "c = b # v" "special_of K s b v"
    using CompressScript_special assms(1) by blast
  have b: "b < 6" "b < 0x80" using c(2) by (auto simp: special_of_def word_less_nat_alt)
  then have "(ucast b :: u32) < nSpecialScripts"
    by (simp add: nSpecialScripts_def word_less_nat_alt unat_ucast_up)
  then show ?thesis using c ReadVarInt_byte [OF b(2)] Some
    by (simp add: ser_script_def unser_script_def special_of_def)
next
  case None
  let ?n = "of_nat (length s) + nSpecialScripts :: u32"
  have u: "unat ?n = length s + 6"
    using assms(2) by (simp add: nSpecialScripts_def unat_word_ariths unat_of_nat)
  then have "\<not> ?n < nSpecialScripts" by (simp add: word_less_nat_alt nSpecialScripts_def)
  moreover have "unat (?n - nSpecialScripts) = length s"
    using assms(2) by (simp add: unat_of_nat)
  moreover have "ReadVarInt (WriteVarInt ?n @ s @ t) = Inr (?n, s @ t)"
    by (rule varint32.unser_ser) simp
  ultimately show ?thesis using None by (simp add: ser_script_def unser_script_def)
qed

theorem unser_txout_compressed_ser:
  assumes "curve_recovers K" "0 \<le> nValue out" "nValue out < 2 ^ 60" "length (scriptPubKey out) < 2 ^ 31"
  shows "\<exists>b. ser_txout_compressed K out = Some b \<and> unser_txout_compressed K (b @ t) = Inr (out, t)"
proof -
  let ?w = "word_of_int (nValue out) :: u64"
  have "unat ?w < 2 ^ 60"
  proof -
    have "uint ?w = nValue out" using assms(2,3) by (simp add: uint_word_of_int)
    then show ?thesis using assms(2,3) by (simp add: unat_eq_nat_uint)
  qed
  then obtain x where x: "CompressAmount ?w = Some x" "DecompressAmount x = ?w"
    using DecompressAmount_CompressAmount by blast
  have "int64_of ?w = nValue out" using assms(2,3) by (intro int64_of_word_of_int) (simp add: int64_range_def)
  then show ?thesis using x assms
    by (simp add: ser_txout_compressed_def unser_txout_compressed_def unser_script_ser_script varint64.unser_ser)
qed

end
