(* ===== verification/Coins.thy ===== *)
theory Coins
  imports Compressor "HOL-Library.AList"
begin

text \<open>
  The unspent outputs of one transaction (\<^verbatim>\<open>CCoins\<close>, \<^verbatim>\<open>coins.h\<close>), the undo record of a spent
  input (\<^verbatim>\<open>undo.h\<close>), and their forms in the databases. Heights and versions are the 32 bits
  of their \<^verbatim>\<open>int\<close>.
\<close>

subsection \<open>CCoins\<close>

record CCoins =
  c_fCoinBase :: bool
  c_fCoinStake :: bool
  c_vout :: "CTxOut list"
  c_nHeight :: u32
  c_nVersion :: u32

definition CCoins_empty :: CCoins where
  "CCoins_empty = \<lparr>c_fCoinBase = False, c_fCoinStake = False, c_vout = [], c_nHeight = 0, c_nVersion = 0\<rparr>"

definition drop_null :: "CTxOut list \<Rightarrow> CTxOut list" where
  "drop_null outs = rev (dropWhile CTxOut_IsNull (rev outs))"

definition Cleanup :: "CCoins \<Rightarrow> CCoins" where
  "Cleanup c = c\<lparr>c_vout := drop_null (c_vout c)\<rparr>"

definition ClearUnspendable :: "CCoins \<Rightarrow> CCoins" where
  "ClearUnspendable c = Cleanup (c\<lparr>c_vout :=
     map (\<lambda>out. if IsUnspendable (scriptPubKey out) then CTxOut_SetNull else out) (c_vout c)\<rparr>)"

definition FromTx :: "CTransaction \<Rightarrow> u32 \<Rightarrow> CCoins" where
  "FromTx tx nHeightIn = ClearUnspendable
     \<lparr>c_fCoinBase = IsCoinBase tx, c_fCoinStake = IsCoinStake tx, c_vout = vout tx,
      c_nHeight = nHeightIn, c_nVersion = tx_nVersion tx\<rparr>"

definition IsPruned :: "CCoins \<Rightarrow> bool" where
  "IsPruned c \<longleftrightarrow> list_all CTxOut_IsNull (c_vout c)"

definition IsAvailable :: "CCoins \<Rightarrow> u32 \<Rightarrow> bool" where
  "IsAvailable c nPos \<longleftrightarrow> unat nPos < length (c_vout c) \<and> \<not> CTxOut_IsNull (c_vout c ! unat nPos)"

definition CCoins_eq :: "CCoins \<Rightarrow> CCoins \<Rightarrow> bool" where
  "CCoins_eq a b \<longleftrightarrow> (if IsPruned a \<and> IsPruned b then True else a = b)"

record CTxInUndo =
  u_txout :: CTxOut
  u_fCoinBase :: bool
  u_fCoinStake :: bool
  u_nHeight :: u32
  u_nVersion :: u32

definition Spend :: "CCoins \<Rightarrow> COutPoint \<Rightarrow> (CCoins \<times> CTxInUndo) option" where
  "Spend c out =
     (let n = unat (op_n out) in
      if n \<ge> length (c_vout c) then None
      else if CTxOut_IsNull (c_vout c ! n) then None
      else let undo = \<lparr>u_txout = c_vout c ! n, u_fCoinBase = False, u_fCoinStake = False, u_nHeight = 0, u_nVersion = 0\<rparr>;
               c' = Cleanup (c\<lparr>c_vout := (c_vout c)[n := CTxOut_SetNull]\<rparr>)
           in Some (c', if length (c_vout c') = 0
                        then undo\<lparr>u_nHeight := c_nHeight c', u_fCoinBase := c_fCoinBase c',
                                  u_fCoinStake := c_fCoinStake c', u_nVersion := c_nVersion c'\<rparr>
                        else undo))"

subsection \<open>The database form\<close>

text \<open>\<^verbatim>\<open>CalcMaskSize\<close>: the outputs are those from position \<^verbatim>\<open>2 + 8 * b\<close> on.\<close>

function mask_loop :: "CTxOut list \<Rightarrow> nat \<Rightarrow> nat \<Rightarrow> nat \<Rightarrow> nat \<times> nat" where
  "mask_loop outs b nLastUsedByte nNonzeroBytes =
     (if outs = [] then (nLastUsedByte, nNonzeroBytes)
      else let fZero = list_all CTxOut_IsNull (take 8 outs)
           in mask_loop (drop 8 outs) (Suc b)
                (if fZero then nLastUsedByte else b + 1)
                (if fZero then nNonzeroBytes else nNonzeroBytes + 1))"
  by pat_completeness auto
termination by (relation "measure (\<lambda>(outs, _). length outs)") auto

declare mask_loop.simps [simp del]

definition CalcMaskSize :: "CCoins \<Rightarrow> nat \<times> nat" where
  "CalcMaskSize c = mask_loop (drop 2 (c_vout c)) 0 0 0"

definition fFirst :: "CCoins \<Rightarrow> bool" where
  "fFirst c \<longleftrightarrow> length (c_vout c) > 0 \<and> \<not> CTxOut_IsNull (c_vout c ! 0)"

definition fSecond :: "CCoins \<Rightarrow> bool" where
  "fSecond c \<longleftrightarrow> length (c_vout c) > 1 \<and> \<not> CTxOut_IsNull (c_vout c ! 1)"

text \<open>The header code, with the factor of \<^verbatim>\<open>nMaskCode\<close>: 16 where it is written, 8 where its size is computed.\<close>

definition coins_code :: "u32 \<Rightarrow> CCoins \<Rightarrow> nat \<Rightarrow> u32" where
  "coins_code factor c nMaskCode =
     factor * (of_nat nMaskCode - (if fFirst c \<or> fSecond c then 0 else 1)) +
     (if c_fCoinBase c then 1 else 0) + (if c_fCoinStake c then 2 else 0) +
     (if fFirst c then 4 else 0) + (if fSecond c then 8 else 0)"

definition avail_byte :: "CTxOut list \<Rightarrow> byte" where
  "avail_byte outs = fold (\<lambda>i ch. if i < length outs \<and> \<not> CTxOut_IsNull (outs ! i) then ch OR push_bit i 1 else ch) [0..<8] 0"

fun ser_available :: "curve \<Rightarrow> CTxOut list \<Rightarrow> bytes option" where
  "ser_available K [] = Some []"
| "ser_available K (out # outs) =
     (if CTxOut_IsNull out then ser_available K outs
      else case (ser_txout_compressed K out, ser_available K outs) of
             (Some b, Some bs) \<Rightarrow> Some (b @ bs)
           | _ \<Rightarrow> None)"

text \<open>\<open>None\<close> is a failed assertion: the coins are pruned, or an amount cannot be compressed.\<close>

definition ser_coins :: "curve \<Rightarrow> CCoins \<Rightarrow> bytes option" where
  "ser_coins K c =
     (case CalcMaskSize c of (nMaskSize, nMaskCode) \<Rightarrow>
        if \<not> (fFirst c \<or> fSecond c \<or> nMaskCode \<noteq> 0) then None
        else case ser_available K (c_vout c) of
               None \<Rightarrow> None
             | Some outs \<Rightarrow> Some (
                 WriteVarInt_int (c_nVersion c) @
                 WriteVarInt (coins_code 16 c nMaskCode) @
                 map (\<lambda>b. avail_byte (drop (2 + 8 * b) (c_vout c))) [0..<nMaskSize] @
                 outs @ WriteVarInt_int (c_nHeight c)))"

fun size_available :: "curve \<Rightarrow> CTxOut list \<Rightarrow> nat option" where
  "size_available K [] = Some 0"
| "size_available K (out # outs) =
     (if CTxOut_IsNull out then size_available K outs
      else case (CompressAmount (word_of_int (nValue out)), size_available K outs) of
             (Some nVal, Some n) \<Rightarrow> Some (GetSizeOfVarInt nVal + size_script K (scriptPubKey out) + n)
           | _ \<Rightarrow> None)"

definition size_coins :: "curve \<Rightarrow> CCoins \<Rightarrow> nat option" where
  "size_coins K c =
     (case CalcMaskSize c of (nMaskSize, nMaskCode) \<Rightarrow>
        if \<not> (fFirst c \<or> fSecond c \<or> nMaskCode \<noteq> 0) then None
        else case size_available K (c_vout c) of
               None \<Rightarrow> None
             | Some n \<Rightarrow> Some (GetSizeOfVarInt_int (c_nVersion c) + GetSizeOfVarInt (coins_code 8 c nMaskCode) +
                 nMaskSize + n + GetSizeOfVarInt_int (c_nHeight c)))"

fun read_mask :: "nat \<Rightarrow> bytes \<Rightarrow> io_error + bool list \<times> bytes" where
  "read_mask 0 s = Inr ([], s)"
| "read_mask (Suc n) [] = Inl End_of_data"
| "read_mask (Suc n) (chAvail # s) =
     rbind (read_mask (if chAvail \<noteq> 0 then n else Suc n) s) (\<lambda>(fs, s).
       Inr (map (\<lambda>p. chAvail AND push_bit p 1 \<noteq> 0) [0..<8] @ fs, s))"

fun unser_available :: "curve \<Rightarrow> bool list \<Rightarrow> bytes \<Rightarrow> io_error + CTxOut list \<times> bytes" where
  "unser_available K [] s = Inr ([], s)"
| "unser_available K (f # fs) s =
     rbind (if f then unser_txout_compressed K s else Inr (CTxOut_SetNull, s)) (\<lambda>(out, s).
     rbind (unser_available K fs s) (\<lambda>(outs, s). Inr (out # outs, s)))"

definition unser_coins :: "curve \<Rightarrow> bytes \<Rightarrow> io_error + CCoins \<times> bytes" where
  "unser_coins K s =
     rbind (ReadVarInt s) (\<lambda>(ver, s).
     rbind (ReadVarInt s) (\<lambda>(nCode :: u32, s).
     let nMaskCode = unat (nCode div 16 + (if nCode AND 12 \<noteq> 0 then 0 else 1)) in
     rbind (read_mask nMaskCode s) (\<lambda>(fs, s).
     rbind (unser_available K ([nCode AND 4 \<noteq> 0, nCode AND 8 \<noteq> 0] @ fs) s) (\<lambda>(outs, s).
     rbind (ReadVarInt s) (\<lambda>(h, s).
       Inr (Cleanup \<lparr>c_fCoinBase = nCode AND 1 \<noteq> 0, c_fCoinStake = nCode AND 2 \<noteq> 0,
                     c_vout = outs, c_nHeight = h, c_nVersion = ver\<rparr>, s))))))"

subsection \<open>Undo records\<close>

definition undo_code :: "CTxInUndo \<Rightarrow> u32" where
  "undo_code u = u_nHeight u * 4 + (if u_fCoinBase u then 2 else 0) + (if u_fCoinStake u then 1 else 0)"

definition ser_undo :: "curve \<Rightarrow> CTxInUndo \<Rightarrow> bytes option" where
  "ser_undo K u =
     (case ser_txout_compressed K (u_txout u) of
        None \<Rightarrow> None
      | Some b \<Rightarrow> Some (WriteVarInt (undo_code u) @
          (if u_nHeight u > 0 then WriteVarInt_int (u_nVersion u) else []) @ b))"

definition unser_undo :: "curve \<Rightarrow> bytes \<Rightarrow> io_error + CTxInUndo \<times> bytes" where
  "unser_undo K s =
     rbind (ReadVarInt s) (\<lambda>(nCode :: u32, s).
     let h = drop_bit 2 nCode in
     rbind (if h > 0 then ReadVarInt s else Inr (0, s)) (\<lambda>(ver, s).
     rbind (unser_txout_compressed K s) (\<lambda>(out, s).
       Inr (\<lparr>u_txout = out, u_fCoinBase = nCode AND 2 \<noteq> 0, u_fCoinStake = nCode AND 1 \<noteq> 0,
             u_nHeight = h, u_nVersion = ver\<rparr>, s))))"

subsection \<open>Round trips\<close>

lemma drop_null_append: "list_all CTxOut_IsNull ys \<Longrightarrow> drop_null (xs @ ys) = drop_null xs"
  by (induction ys rule: rev_induct) (simp_all add: drop_null_def flip: append_assoc)

lemma drop_null_split: "\<exists>ys. xs = drop_null xs @ ys \<and> list_all CTxOut_IsNull ys"
proof -
  have "rev xs = takeWhile CTxOut_IsNull (rev xs) @ dropWhile CTxOut_IsNull (rev xs)" by simp
  then have "xs = drop_null xs @ rev (takeWhile CTxOut_IsNull (rev xs))"
    unfolding drop_null_def by (metis rev_append rev_rev_ident)
  moreover have "list_all CTxOut_IsNull (rev (takeWhile CTxOut_IsNull (rev xs)))"
    by (auto simp: list_all_iff dest: set_takeWhileD)
  ultimately show ?thesis by blast
qed

lemma drop_null_idem [simp]: "drop_null (drop_null xs) = drop_null xs"
  using drop_null_split [of xs] by (metis drop_null_append)

lemma Cleanup_idem [simp]: "Cleanup (Cleanup c) = Cleanup c"
  by (simp add: Cleanup_def)

lemma avail_byte_bits:
  assumes "n \<le> 8"
  shows "bit (fold (\<lambda>i ch. if P i then ch OR push_bit i 1 else ch) [0..<n] (0 :: byte)) i \<longleftrightarrow> i < n \<and> P i"
  using assms
proof (induction n)
  case (Suc n)
  have b: "bit (push_bit n 1 :: byte) i \<longleftrightarrow> i = n" using Suc.prems
    by (auto simp: bit_exp_iff)
  show ?case using Suc b by (auto simp: bit_or_iff less_Suc_eq)
qed simp

lemma bit_avail_byte: "bit (avail_byte outs) i \<longleftrightarrow> i < 8 \<and> i < length outs \<and> \<not> CTxOut_IsNull (outs ! i)"
  unfolding avail_byte_def by (subst avail_byte_bits) auto

lemma avail_byte_0: "avail_byte outs = 0 \<longleftrightarrow> list_all CTxOut_IsNull (take 8 outs)"
proof -
  have "avail_byte outs = 0 \<longleftrightarrow> (\<forall>i. \<not> bit (avail_byte outs) i)" by (metis bit_eqI bit_0_eq bot_apply bot_bool_def)
  also have "\<dots> \<longleftrightarrow> list_all CTxOut_IsNull (take 8 outs)"
    unfolding bit_avail_byte list_all_length by auto
  finally show ?thesis .
qed

definition byte_bits :: "byte \<Rightarrow> bool list" where
  "byte_bits ch = map (\<lambda>p. ch AND push_bit p 1 \<noteq> 0) [0..<8]"

lemma and_push_bit_1: "(ch :: byte) AND push_bit p 1 \<noteq> 0 \<longleftrightarrow> bit ch p"
  using and_exp_eq_0_iff_not_bit [of ch p] by (simp add: push_bit_eq_mult)

lemma byte_bits_avail: "byte_bits (avail_byte outs) = map (\<lambda>i. i < length outs \<and> \<not> CTxOut_IsNull (outs ! i)) [0..<8]"
  unfolding byte_bits_def and_push_bit_1 bit_avail_byte by simp

lemma read_mask_bits:
  "B = [] \<or> last B \<noteq> 0 \<Longrightarrow> read_mask (length (filter (\<lambda>b. b \<noteq> 0) B)) (B @ s) = Inr (concat (map byte_bits B), s)"
proof (induction B)
  case (Cons b B)
  show ?case
  proof (cases "B = []")
    case False
    then have l: "last B \<noteq> 0" using Cons.prems by simp
    then have "last B \<in> set (filter (\<lambda>b. b \<noteq> 0) B)" using False by simp
    then obtain n where "length (filter (\<lambda>b. b \<noteq> 0) B) = Suc n" by (cases "filter (\<lambda>b. b \<noteq> 0) B") auto
    then show ?thesis using Cons.IH l by (auto simp: byte_bits_def)
  qed (use Cons.prems in \<open>simp add: byte_bits_def\<close>)
qed simp

text \<open>The mask bytes of the outputs from the third on, and the prefix of them that is written.\<close>

function mask_bytes :: "CTxOut list \<Rightarrow> bytes" where
  "mask_bytes outs = (if outs = [] then [] else avail_byte outs # mask_bytes (drop 8 outs))"
  by pat_completeness auto
termination by (relation "measure length") auto

declare mask_bytes.simps [simp del]

lemma mask_loop_val:
  "mask_loop outs b l k =
     (let B = mask_bytes outs; used = rev (dropWhile (\<lambda>b. b = 0) (rev B))
      in (if used = [] then l else b + length used, k + length (filter (\<lambda>b. b \<noteq> 0) B)))"
proof (induction outs b l k rule: mask_loop.induct)
  case (1 outs b l k)
  show ?case
  proof (cases "outs = []")
    case True
    then show ?thesis by (simp add: mask_loop.simps mask_bytes.simps)
  next
    case False
    let ?R = "rev (mask_bytes (drop 8 outs))"
    have d: "dropWhile (\<lambda>b. b = 0) (?R @ [x]) =
        (if dropWhile (\<lambda>b. b = 0) ?R = [] then (if x = 0 then [] else [x]) else dropWhile (\<lambda>b. b = 0) ?R @ [x])" for x
      by (simp add: dropWhile_append dropWhile_eq_Nil_conv)
    show ?thesis
      using 1 False
      by (simp add: mask_loop.simps [of outs] mask_bytes.simps [of outs] Let_def d avail_byte_0 del: dropWhile_eq_Nil_conv)
  qed
qed

lemma mask_bytes_map: "mask_bytes outs = map (\<lambda>b. avail_byte (drop (8 * b) outs)) [0..<length (mask_bytes outs)]"
proof (induction outs rule: mask_bytes.induct)
  case (1 outs)
  show ?case
  proof (cases "outs = []")
    case False
    have "mask_bytes outs = avail_byte outs # mask_bytes (drop 8 outs)" using False by (simp add: mask_bytes.simps)
    moreover have "mask_bytes (drop 8 outs) = map (\<lambda>b. avail_byte (drop (8 * Suc b) outs)) [0..<length (mask_bytes (drop 8 outs))]"
      using 1 [OF False] by (simp add: add.commute)
    ultimately show ?thesis by (simp add: upt_conv_Cons map_Suc_upt [symmetric] comp_def del: upt_Suc)
  qed (simp add: mask_bytes.simps)
qed

lemma bit_u32: "bit (x :: u32) n \<longleftrightarrow> odd (unat x div 2 ^ n)"
proof -
  have "bit x n \<longleftrightarrow> bit (unat x) n" by (cases "n < 32") (auto simp: bit_unsigned_iff dest: bit_imp_le_length)
  then show ?thesis by (simp add: bit_iff_odd)
qed

lemma and_flags:
  "(x :: u32) AND 1 \<noteq> 0 \<longleftrightarrow> odd (unat x)" "x AND 2 \<noteq> 0 \<longleftrightarrow> odd (unat x div 2)"
  "x AND 4 \<noteq> 0 \<longleftrightarrow> odd (unat x div 4)" "x AND 8 \<noteq> 0 \<longleftrightarrow> odd (unat x div 8)"
  "x AND 12 \<noteq> 0 \<longleftrightarrow> odd (unat x div 4) \<or> odd (unat x div 8)"
proof -
  have e: "x AND 2 ^ n \<noteq> 0 \<longleftrightarrow> odd (unat x div 2 ^ n)" for n
    using and_exp_eq_0_iff_not_bit [of x n] bit_u32 [of x n] by simp
  show f4: "x AND 4 \<noteq> 0 \<longleftrightarrow> odd (unat x div 4)" and f8: "x AND 8 \<noteq> 0 \<longleftrightarrow> odd (unat x div 8)"
    and "x AND 1 \<noteq> 0 \<longleftrightarrow> odd (unat x)" and "x AND 2 \<noteq> 0 \<longleftrightarrow> odd (unat x div 2)"
    using e [of 2] e [of 3] e [of 0] e [of 1] by simp_all
  have "(12 :: u32) = 4 OR 8" by simp
  then have "x AND 12 = (x AND 4) OR (x AND 8)" by (simp only: bit.conj_disj_distrib)
  then have "x AND 12 = 0 \<longleftrightarrow> x AND 4 = 0 \<and> x AND 8 = 0" by (simp add: or_eq_0_iff)
  with f4 f8 show "x AND 12 \<noteq> 0 \<longleftrightarrow> odd (unat x div 4) \<or> odd (unat x div 8)" by blast
qed

lemma flag_arith:
  fixes q :: nat
  assumes "n = 16 * q + (if a then 1 else 0) + (if b then 2 else 0) + (if c then 4 else 0) + (if d then 8 else 0)"
  shows "odd n = a" "odd (n div 2) = b" "odd (n div 4) = c" "odd (n div 8) = d" "n div 16 = q"
proof -
  define x where "x = (if a then 1 else 0 :: nat) + (if b then 2 else 0) + (if c then 4 else 0) + (if d then 8 else 0)"
  have n: "n = x + 8 * (2 * q)" "n = x + 4 * (4 * q)" "n = x + 2 * (8 * q)" "n = x + 16 * q"
    using assms by (simp_all add: x_def)
  have x: "odd x = a" "odd (x div 2) = b" "odd (x div 4) = c" "odd (x div 8) = d" "x div 16 = 0"
    by (cases a; cases b; cases c; cases d; simp add: x_def)+
  have "n div 8 = x div 8 + 2 * q" "n div 4 = x div 4 + 4 * q" "n div 2 = x div 2 + 8 * q" "n div 16 = x div 16 + q"
    using n(1) n(2) n(3) n(4) div_mult_self2 [of 8 x "2 * q"] div_mult_self2 [of 4 x "4 * q"]
      div_mult_self2 [of 2 x "8 * q"] div_mult_self2 [of 16 x q] by simp_all
  then show "odd n = a" "odd (n div 2) = b" "odd (n div 4) = c" "odd (n div 8) = d" "n div 16 = q"
    using x n(3) by simp_all
qed

definition storable :: "CTxOut \<Rightarrow> bool" where
  "storable out \<longleftrightarrow> out = CTxOut_SetNull \<or> (0 \<le> nValue out \<and> nValue out < 2 ^ 60 \<and> length (scriptPubKey out) < 2 ^ 31)"

lemma SetNull_null [simp]: "CTxOut_IsNull CTxOut_SetNull"
  by (simp add: CTxOut_IsNull_def CTxOut_SetNull_def)

lemma storable_null: "storable out \<Longrightarrow> CTxOut_IsNull out \<longleftrightarrow> out = CTxOut_SetNull"
  by (auto simp: storable_def CTxOut_IsNull_def CTxOut_SetNull_def)

lemma ser_available_null: "list_all CTxOut_IsNull ys \<Longrightarrow> ser_available K (xs @ ys) = ser_available K xs"
proof (induction xs)
  case Nil
  then show ?case by (induction ys) simp_all
qed (simp split: option.splits)

lemma unser_available_ser:
  assumes "curve_recovers K" "list_all storable outs" "ser_available K outs = Some b"
  shows "unser_available K (map (\<lambda>out. \<not> CTxOut_IsNull out) outs) (b @ s) = Inr (outs, s)"
  using assms(2,3)
proof (induction outs arbitrary: b)
  case (Cons out outs)
  show ?case
  proof (cases "CTxOut_IsNull out")
    case True
    then show ?thesis using Cons by (auto simp: storable_null)
  next
    case False
    obtain b1 b2 where b: "ser_txout_compressed K out = Some b1" "ser_available K outs = Some b2" "b = b1 @ b2"
      using Cons.prems False by (auto split: option.splits)
    have "unser_txout_compressed K (b1 @ b2 @ s) = Inr (out, b2 @ s)"
      using unser_txout_compressed_ser [OF assms(1), of out "b2 @ s"] Cons.prems False b(1)
      by (auto simp: storable_def)
    then show ?thesis using Cons b False by simp
  qed
qed simp

lemma ser_available_total:
  assumes "curve_recovers K" "list_all storable outs"
  shows "\<exists>b. ser_available K outs = Some b"
  using assms(2)
proof (induction outs)
  case (Cons out outs)
  obtain bs where bs: "ser_available K outs = Some bs" using Cons by auto
  show ?case
  proof (cases "CTxOut_IsNull out")
    case False
    then have "0 \<le> nValue out" "nValue out < 2 ^ 60" "length (scriptPubKey out) < 2 ^ 31"
      using Cons.prems by (auto simp: storable_def)
    from unser_txout_compressed_ser [OF assms(1) this] obtain b where "ser_txout_compressed K out = Some b" by blast
    then show ?thesis using bs False by simp
  qed (use bs in simp)
qed simp

definition pad :: "nat \<Rightarrow> CTxOut list \<Rightarrow> CTxOut list" where
  "pad n outs = take n outs @ replicate (n - length outs) CTxOut_SetNull"

lemma list_all_replicate [simp]: "list_all P (replicate n x) \<longleftrightarrow> n = 0 \<or> P x"
  by (auto simp: list_all_iff)

lemma pad_flags:
  "map (\<lambda>out. \<not> CTxOut_IsNull out) (pad n outs) = map (\<lambda>i. i < length outs \<and> \<not> CTxOut_IsNull (outs ! i)) [0..<n]"
  by (rule nth_equalityI) (auto simp: pad_def nth_append min_def)

lemma pad_facts:
  assumes "list_all CTxOut_IsNull (drop n outs)"
  shows "ser_available K (pad n outs) = ser_available K outs" "drop_null (pad n outs) = drop_null outs"
    "list_all storable outs \<Longrightarrow> list_all storable (pad n outs)"
proof -
  have o: "outs = take n outs @ drop n outs" by simp
  show "ser_available K (pad n outs) = ser_available K outs"
    by (subst (2) o, simp only: ser_available_null [OF assms]) (simp add: pad_def ser_available_null)
  show "drop_null (pad n outs) = drop_null outs"
    by (subst (2) o, simp only: drop_null_append [OF assms]) (simp add: pad_def drop_null_append)
  show "list_all storable outs \<Longrightarrow> list_all storable (pad n outs)"
    by (auto simp: pad_def list_all_iff storable_def dest: in_set_takeD)
qed

lemma concat_byte_bits:
  "concat (map (\<lambda>b. byte_bits (avail_byte (drop (8 * b) outs))) [0..<m]) =
   map (\<lambda>i. i < length outs \<and> \<not> CTxOut_IsNull (outs ! i)) [0..<8 * m]"
proof (induction m)
  case (Suc m)
  have u: "[0..<8 * Suc m] = [0..<8 * m] @ map (\<lambda>i. 8 * m + i) [0..<8]"
    by (rule nth_equalityI) (auto simp: nth_append)
  have "byte_bits (avail_byte (drop (8 * m) outs)) =
      map (\<lambda>i. 8 * m + i < length outs \<and> \<not> CTxOut_IsNull (outs ! (8 * m + i))) [0..<8]"
    unfolding byte_bits_avail by (rule map_cong) (auto simp: less_diff_conv add.commute)
  with Suc show ?case unfolding u by (simp del: upt_Suc add: upt_Suc_append comp_def)
qed simp


definition avail :: "CTxOut list \<Rightarrow> nat \<Rightarrow> bool" where
  "avail outs i \<longleftrightarrow> i < length outs \<and> \<not> CTxOut_IsNull (outs ! i)"

text \<open>What \<^verbatim>\<open>CalcMaskSize\<close> promises.\<close>

lemma CalcMaskSize_val:
  assumes "CalcMaskSize c = (m, k)"
  shows "k = length (filter (\<lambda>b. b \<noteq> 0) (map (\<lambda>b. avail_byte (drop (2 + 8 * b) (c_vout c))) [0..<m]))" (is "k = length (filter _ ?B)")
    and "m = 0 \<or> last (map (\<lambda>b. avail_byte (drop (2 + 8 * b) (c_vout c))) [0..<m]) \<noteq> 0"
    and "list_all CTxOut_IsNull (drop (2 + 8 * m) (c_vout c))"
    and "8 * k \<le> length (c_vout c) + 8"
proof -
  let ?ws = "drop 2 (c_vout c)"
  define B where "B = mask_bytes ?ws"
  define Z where "Z = takeWhile (\<lambda>b. b = 0) (rev B)"
  define U where "U = rev (dropWhile (\<lambda>b. b = 0) (rev B))"
  have B: "B = U @ rev Z"
    unfolding U_def Z_def by (metis rev_append rev_rev_ident takeWhile_dropWhile_id)
  have Z0: "filter (\<lambda>b. b \<noteq> 0) (rev Z) = []" "\<forall>b \<in> set Z. b = 0"
    by (auto simp: Z_def filter_empty_conv dest: set_takeWhileD)
  have mk: "m = length U" "k = length (filter (\<lambda>b. b \<noteq> 0) B)"
    using assms by (simp_all add: CalcMaskSize_def mask_loop_val B_def [symmetric] U_def Let_def split: if_splits)
  have Bm: "B ! b = avail_byte (drop (2 + 8 * b) (c_vout c))" if "b < length B" for b
    using mask_bytes_map [of ?ws] that unfolding B_def [symmetric]
    by (metis (no_types, lifting) add.commute add_0 drop_drop nth_map_upt minus_nat.diff_0)
  have U: "U = map (\<lambda>b. avail_byte (drop (2 + 8 * b) (c_vout c))) [0..<m]"
  proof (rule nth_equalityI)
    fix b assume "b < length U"
    then show "U ! b = map (\<lambda>b. avail_byte (drop (2 + 8 * b) (c_vout c))) [0..<m] ! b"
      using Bm [of b] by (simp add: mk(1) B nth_append)
  qed (simp add: mk(1))
  show "k = length (filter (\<lambda>b. b \<noteq> 0) ?B)" unfolding U [symmetric] mk(2) B filter_append Z0(1) by simp
  have "U = [] \<or> last U \<noteq> 0" unfolding U_def
    by (metis (mono_tags, lifting) hd_dropWhile last_rev rev_is_Nil_conv)
  then have "m = 0 \<or> last U \<noteq> 0" by (simp add: mk(1))
  then show "m = 0 \<or> last ?B \<noteq> 0" unfolding U [symmetric] .
  have nb: "8 * length (mask_bytes outs) \<le> length outs + 7 \<and> length outs \<le> 8 * length (mask_bytes outs)" for outs
  proof (induction outs rule: mask_bytes.induct)
    case (1 outs)
    show ?case
    proof (cases "outs = []")
      case False
      then have "length (mask_bytes outs) = Suc (length (mask_bytes (drop 8 outs)))" "0 < length outs"
        by (simp_all add: mask_bytes.simps [of outs])
      moreover have "8 * length (mask_bytes (drop 8 outs)) \<le> (length outs - 8) + 7 \<and>
          length outs - 8 \<le> 8 * length (mask_bytes (drop 8 outs))"
        using 1 [OF False] by simp
      ultimately show ?thesis by presburger
    qed (simp add: mask_bytes.simps)
  qed
  have "k \<le> length B" unfolding mk(2) by (rule length_filter_le)
  moreover have "8 * length B \<le> length ?ws + 7" using nb [of ?ws] by (simp only: B_def)
  moreover have "length ?ws \<le> length (c_vout c)" by simp
  ultimately show "8 * k \<le> length (c_vout c) + 8" by linarith
  have rest: "CTxOut_IsNull (c_vout c ! i)" if i: "2 + 8 * m \<le> i" "i < length (c_vout c)" for i
  proof -
    define b where "b = (i - 2) div 8"
    have bi: "i = 2 + 8 * b + (i - 2) mod 8" "m \<le> b" using i by (auto simp: b_def)
    have "8 * b \<le> i - 2" by (simp add: b_def)
    moreover have "length ?ws \<le> 8 * length B" using nb [of ?ws] unfolding B_def by blast
    moreover have "i - 2 < length ?ws" using i by simp
    ultimately have bl: "b < length B" by linarith
    then have "B ! b = 0" using bi(2) Z0(2) unfolding B mk(1)
      by (simp add: nth_append) (metis length_rev nth_mem set_rev diff_less_mono length_append add_diff_cancel_left' B)
    then have "list_all CTxOut_IsNull (take 8 (drop (2 + 8 * b) (c_vout c)))"
      using Bm [OF bl] by (simp add: avail_byte_0)
    moreover obtain r where r: "i = 2 + 8 * b + r" "r < 8" using bi(1) by (metis mod_less_divisor zero_less_numeral)
    ultimately show ?thesis using i(2) by (auto simp: list_all_length)
  qed
  then show "list_all CTxOut_IsNull (drop (2 + 8 * m) (c_vout c))" by (auto simp: list_all_length)
qed


lemma coins_code_flags:
  assumes "8 * k \<le> n + 8" "n < 2 ^ 30" "fFirst c \<or> fSecond c \<or> k \<noteq> 0"
  defines "x \<equiv> coins_code 16 c k"
  shows "x AND 1 \<noteq> 0 \<longleftrightarrow> c_fCoinBase c" "x AND 2 \<noteq> 0 \<longleftrightarrow> c_fCoinStake c"
    "x AND 4 \<noteq> 0 \<longleftrightarrow> fFirst c" "x AND 8 \<noteq> 0 \<longleftrightarrow> fSecond c"
    "unat (x div 16 + (if x AND 12 \<noteq> 0 then 0 else 1)) = k"
proof -
  define q where "q = k - (if fFirst c \<or> fSecond c then 0 else 1)"
  have q: "(of_nat k - (if fFirst c \<or> fSecond c then 0 else 1) :: u32) = of_nat q"
    using assms(3) by (auto simp: q_def of_nat_diff)
  define v where "v = 16 * q + (if c_fCoinBase c then 1 else 0) + (if c_fCoinStake c then 2 else 0) +
    (if fFirst c then 4 else 0) + (if fSecond c then 8 else 0)"
  have kk: "q \<le> k" "k < 2 ^ 27 + 1" using assms(1,2) by (simp_all add: q_def)
  then have "v < 2 ^ 32" by (simp add: v_def)
  moreover have "x = of_nat v" unfolding x_def coins_code_def q v_def by simp
  ultimately have u: "unat x = v" by (simp add: unat_of_nat)
  note fl = flag_arith [OF v_def]
  show f: "x AND 1 \<noteq> 0 \<longleftrightarrow> c_fCoinBase c" "x AND 2 \<noteq> 0 \<longleftrightarrow> c_fCoinStake c"
    "x AND 4 \<noteq> 0 \<longleftrightarrow> fFirst c" "x AND 8 \<noteq> 0 \<longleftrightarrow> fSecond c"
    unfolding and_flags u fl by simp_all
  have "x AND 12 \<noteq> 0 \<longleftrightarrow> fFirst c \<or> fSecond c" unfolding and_flags u fl ..
  moreover have "x div 16 = of_nat q"
    by (rule unsigned_word_eqI [where ?'a = nat]) (use kk in \<open>simp add: unat_div u fl unat_of_nat\<close>)
  moreover have "of_nat q + (if fFirst c \<or> fSecond c then 0 else 1) = (of_nat k :: u32)"
    using q by (auto simp: diff_eq_eq)
  ultimately have "x div 16 + (if x AND 12 \<noteq> 0 then 0 else 1) = of_nat k" by simp
  then show "unat (x div 16 + (if x AND 12 \<noteq> 0 then 0 else 1)) = k" using kk by (simp add: unat_of_nat)
qed


definition good_coins :: "CCoins \<Rightarrow> bool" where
  "good_coins c \<longleftrightarrow> list_all storable (c_vout c) \<and> length (c_vout c) < 2 ^ 30 \<and>
     0 \<le> sint (c_nHeight c) \<and> 0 \<le> sint (c_nVersion c)"

lemma not_pruned_mask:
  assumes "CalcMaskSize c = (m, k)" "\<not> IsPruned c"
  shows "fFirst c \<or> fSecond c \<or> k \<noteq> 0"
proof (rule ccontr)
  assume n: "\<not> (fFirst c \<or> fSecond c \<or> k \<noteq> 0)"
  note M = CalcMaskSize_val [OF assms(1)]
  have "m = 0"
  proof (rule ccontr)
    assume "m \<noteq> 0"
    let ?B = "map (\<lambda>b. avail_byte (drop (2 + 8 * b) (c_vout c))) [0..<m]"
    have "?B \<noteq> []" using \<open>m \<noteq> 0\<close> by simp
    then have "last ?B \<in> set ?B" by (rule last_in_set)
    then have "last ?B \<in> set (filter (\<lambda>b. b \<noteq> 0) ?B)"
      using M(2) \<open>m \<noteq> 0\<close> by (simp only: set_filter mem_Collect_eq) blast
    then show False using M(1) n by (metis length_0_conv empty_iff list.set(1))
  qed
  then have late: "list_all CTxOut_IsNull (drop 2 (c_vout c))" using M(3) by simp
  have "CTxOut_IsNull (c_vout c ! i)" if i: "i < length (c_vout c)" for i
  proof -
    consider "i = 0" | "i = 1" | "2 \<le> i" by linarith
    then show ?thesis
    proof cases
      case 3
      then obtain j where j: "i = 2 + j" using le_Suc_ex by blast
      then have "drop 2 (c_vout c) ! j = c_vout c ! i" "j < length (drop 2 (c_vout c))" using i by simp_all
      then show ?thesis using late unfolding list_all_length by metis
    qed (use n i in \<open>simp_all add: fFirst_def fSecond_def\<close>)
  qed
  then show False using assms(2) by (simp add: IsPruned_def list_all_length)
qed

theorem unser_coins_ser_coins:
  assumes "curve_recovers K" "good_coins c" "\<not> IsPruned c"
  shows "\<exists>b. ser_coins K c = Some b \<and> unser_coins K (b @ s) = Inr (Cleanup c, s)"
proof -
  obtain m k where mk: "CalcMaskSize c = (m, k)" by fastforce
  note M = CalcMaskSize_val [OF mk]
  have g: "list_all storable (c_vout c)" "length (c_vout c) < 2 ^ 30" "0 \<le> sint (c_nHeight c)" "0 \<le> sint (c_nVersion c)"
    using assms(2) by (auto simp: good_coins_def)
  have nz: "fFirst c \<or> fSecond c \<or> k \<noteq> 0" by (rule not_pruned_mask [OF mk assms(3)])
  obtain outs where outs: "ser_available K (c_vout c) = Some outs" using ser_available_total [OF assms(1) g(1)] by blast
  define B where "B = map (\<lambda>b. avail_byte (drop (2 + 8 * b) (c_vout c))) [0..<m]"
  let ?b = "WriteVarInt_int (c_nVersion c) @ WriteVarInt (coins_code 16 c k) @ B @ outs @ WriteVarInt_int (c_nHeight c)"
  have ser: "ser_coins K c = Some ?b" using mk nz outs by (simp add: ser_coins_def B_def)
  note code = coins_code_flags [OF M(4) g(2) nz]
  have "B = [] \<or> last B \<noteq> 0" using M(2) unfolding B_def [symmetric] by (auto simp: B_def)
  then have rm: "read_mask k (B @ t) = Inr (concat (map byte_bits B), t)" for t
    using read_mask_bits [of B t] M(1) unfolding B_def [symmetric] by simp
  have bits: "concat (map byte_bits B) = map (\<lambda>i. avail (c_vout c) (i + 2)) [0..<8 * m]"
  proof -
    have "concat (map byte_bits B) = concat (map (\<lambda>b. byte_bits (avail_byte (drop (8 * b) (drop 2 (c_vout c))))) [0..<m])"
      by (simp add: B_def comp_def add.commute)
    also have "\<dots> = map (\<lambda>i. avail (c_vout c) (i + 2)) [0..<8 * m]"
      unfolding concat_byte_bits avail_def by (rule map_cong) (auto simp: add.commute)
    finally show ?thesis .
  qed
  have flags: "[fFirst c, fSecond c] @ concat (map byte_bits B) =
      map (\<lambda>out. \<not> CTxOut_IsNull out) (pad (2 + 8 * m) (c_vout c))"
  proof -
    have "[0..<2 + 8 * m] = [0, 1] @ map (\<lambda>i. i + 2) [0..<8 * m]"
      using map_add_upt [of 2 "8 * m"] by (simp add: upt_conv_Cons numeral_2_eq_2 del: upt_Suc)
    then show ?thesis unfolding pad_flags bits by (simp add: fFirst_def fSecond_def avail_def del: upt_Suc)
  qed
  have ua: "unser_available K ([fFirst c, fSecond c] @ concat (map byte_bits B)) (outs @ t) =
      Inr (pad (2 + 8 * m) (c_vout c), t)" for t
    unfolding flags using unser_available_ser [OF assms(1)] pad_facts [OF M(3)] g(1) outs by metis
  have dn: "drop_null (pad (2 + 8 * m) (c_vout c)) = drop_null (c_vout c)" by (rule pad_facts(2) [OF M(3)])
  define N where "N = 2 + 8 * m"
  have "unser_coins K (?b @ s) = Inr (Cleanup c, s)"
    unfolding unser_coins_def
    by (simp add: varint_int.unser_ser g(3,4) varint32.unser_ser Let_def code Cleanup_def rm
        ua [folded N_def, unfolded append_Cons append_Nil] dn [folded N_def]
        del: unser_available.simps)
  then show ?thesis using ser by blast
qed

lemma undo_code_flags:
  assumes "unat (u_nHeight u) < 2 ^ 30"
  shows "undo_code u AND 1 \<noteq> 0 \<longleftrightarrow> u_fCoinStake u" "undo_code u AND 2 \<noteq> 0 \<longleftrightarrow> u_fCoinBase u"
    "drop_bit 2 (undo_code u) = u_nHeight u"
proof -
  have "unat (u_nHeight u * 4 :: u32) = unat (u_nHeight u) * 4"
    using assms by (subst unat_word_ariths) simp
  then have v: "unat (undo_code u) = unat (u_nHeight u) * 4 + ((if u_fCoinBase u then 2 else 0) + (if u_fCoinStake u then 1 else 0))"
    using assms unfolding undo_code_def add.assoc by (subst unat_word_ariths) (simp add: unat_word_ariths)
  define x where "x = (if u_fCoinBase u then 2 else 0 :: nat) + (if u_fCoinStake u then 1 else 0)"
  have x: "odd x = u_fCoinStake u" "odd (x div 2) = u_fCoinBase u" "x div 4 = 0" by (simp_all add: x_def)
  have w: "unat (undo_code u) = x + 2 * (2 * unat (u_nHeight u))" "unat (undo_code u) = x + 4 * unat (u_nHeight u)"
    using v by (simp_all add: x_def)
  show "undo_code u AND 1 \<noteq> 0 \<longleftrightarrow> u_fCoinStake u" unfolding and_flags w(1) using x by simp
  show "undo_code u AND 2 \<noteq> 0 \<longleftrightarrow> u_fCoinBase u"
    unfolding and_flags w(1) using x div_mult_self2 [of 2 x "2 * unat (u_nHeight u)"] by simp
  show "drop_bit 2 (undo_code u) = u_nHeight u"
    by (rule unsigned_word_eqI [where ?'a = nat]) (simp add: unat_drop_bit w(2) x(3))
qed

theorem unser_undo_ser_undo:
  assumes "curve_recovers K" "storable (u_txout u)" "u_txout u \<noteq> CTxOut_SetNull" "unat (u_nHeight u) < 2 ^ 30"
    and "0 \<le> sint (u_nVersion u)" "u_nHeight u = 0 \<Longrightarrow> u_nVersion u = 0"
  shows "\<exists>b. ser_undo K u = Some b \<and> unser_undo K (b @ s) = Inr (u, s)"
proof -
  have "0 \<le> nValue (u_txout u)" "nValue (u_txout u) < 2 ^ 60" "length (scriptPubKey (u_txout u)) < 2 ^ 31"
    using assms(2,3) by (auto simp: storable_def)
  from unser_txout_compressed_ser [OF assms(1) this, of s] obtain b where
    b: "ser_txout_compressed K (u_txout u) = Some b" "unser_txout_compressed K (b @ s) = Inr (u_txout u, s)" by blast
  note f = undo_code_flags [OF assms(4)]
  show ?thesis
    using assms(5,6) b
    by (cases "u_nHeight u = 0")
      (auto simp: ser_undo_def unser_undo_def f varint32.unser_ser varint_int.unser_ser Let_def word_gt_0)
qed

subsection \<open>Spending\<close>

text \<open>The outputs a record still offers.\<close>

definition out_at :: "CTxOut list \<Rightarrow> nat \<Rightarrow> CTxOut option" where
  "out_at outs n = (if n < length outs \<and> \<not> CTxOut_IsNull (outs ! n) then Some (outs ! n) else None)"

lemma out_at_append_null: "list_all CTxOut_IsNull ys \<Longrightarrow> out_at (xs @ ys) n = out_at xs n"
proof (cases "n < length xs")
  case False
  assume "list_all CTxOut_IsNull ys"
  then have "n - length xs < length ys \<Longrightarrow> CTxOut_IsNull (ys ! (n - length xs))" by (simp add: list_all_length)
  then show ?thesis using False by (auto simp: out_at_def nth_append)
qed (simp add: out_at_def nth_append)

lemma out_at_drop_null [simp]: "out_at (drop_null xs) n = out_at xs n"
  using drop_null_split [of xs] out_at_append_null by metis

lemma out_at_update: "i < length xs \<Longrightarrow>
  out_at (xs[i := x]) n = (if n = i then (if CTxOut_IsNull x then None else Some x) else out_at xs n)"
  by (auto simp: out_at_def)

lemma IsAvailable_out_at: "IsAvailable c n \<longleftrightarrow> out_at (c_vout c) (unat n) \<noteq> None"
  by (simp add: IsAvailable_def out_at_def)

lemma IsAvailable_Cleanup [simp]: "IsAvailable (Cleanup c) n \<longleftrightarrow> IsAvailable c n"
  by (simp add: IsAvailable_out_at Cleanup_def)

lemma IsPruned_out_at: "IsPruned c \<longleftrightarrow> (\<forall>n. out_at (c_vout c) n = None)"
  by (auto simp: IsPruned_def out_at_def list_all_length)

lemma IsPruned_Cleanup [simp]: "IsPruned (Cleanup c) \<longleftrightarrow> IsPruned c"
  by (simp add: IsPruned_out_at Cleanup_def)

lemma drop_null_Nil: "drop_null xs = [] \<longleftrightarrow> list_all CTxOut_IsNull xs"
  by (auto simp: drop_null_def dropWhile_eq_Nil_conv list_all_iff)

lemma IsPruned_Nil: "IsPruned c \<longleftrightarrow> c_vout (Cleanup c) = []"
  by (simp add: IsPruned_def Cleanup_def drop_null_Nil)

lemma Spend_Some_iff: "(\<exists>r. Spend c out = Some r) \<longleftrightarrow> IsAvailable c (op_n out)"
  by (auto simp: Spend_def IsAvailable_def Let_def)

lemma Spend_SomeD:
  assumes "Spend c out = Some (c', u)"
  shows "c' = Cleanup (c\<lparr>c_vout := (c_vout c)[unat (op_n out) := CTxOut_SetNull]\<rparr>)"
    "out_at (c_vout c) (unat (op_n out)) = Some (u_txout u)" "unat (op_n out) < length (c_vout c)"
    "u_nHeight u = (if IsPruned c' then c_nHeight c else 0)" "u_nVersion u = (if IsPruned c' then c_nVersion c else 0)"
    "u_fCoinBase u \<longleftrightarrow> IsPruned c' \<and> c_fCoinBase c" "u_fCoinStake u \<longleftrightarrow> IsPruned c' \<and> c_fCoinStake c"
proof -
  let ?d = "c\<lparr>c_vout := (c_vout c)[unat (op_n out) := CTxOut_SetNull]\<rparr>"
  have c': "c' = Cleanup ?d" using assms by (auto simp: Spend_def Let_def split: if_splits)
  then have p: "IsPruned c' \<longleftrightarrow> length (c_vout (Cleanup ?d)) = 0" using IsPruned_Nil [of ?d] by simp
  show "c' = Cleanup ?d" by (rule c')
  show "out_at (c_vout c) (unat (op_n out)) = Some (u_txout u)" "unat (op_n out) < length (c_vout c)"
    "u_nHeight u = (if IsPruned c' then c_nHeight c else 0)" "u_nVersion u = (if IsPruned c' then c_nVersion c else 0)"
    "u_fCoinBase u \<longleftrightarrow> IsPruned c' \<and> c_fCoinBase c" "u_fCoinStake u \<longleftrightarrow> IsPruned c' \<and> c_fCoinStake c"
    unfolding p using assms by (auto simp: Spend_def Let_def out_at_def Cleanup_def split: if_splits)
qed

lemma Spend_out_at:
  assumes "Spend c out = Some (c', u)"
  shows "out_at (c_vout c') n = (if n = unat (op_n out) then None else out_at (c_vout c) n)"
  using Spend_SomeD(1,3) [OF assms] by (simp add: Cleanup_def out_at_update)

end
