(* ===== verification/Coins_View.thy ===== *)
theory Coins_View
  imports Coins
begin

text \<open>
  The views on the unspent outputs (\<^verbatim>\<open>coins.h\<close>, \<^verbatim>\<open>coins.cpp\<close>, \<^verbatim>\<open>txdb.cpp\<close>): the database, and
  the cache over any other view. A view's state is passed explicitly, since reading fills the
  caches. The interface every view keeps is the locale \<open>coins_view\<close>; a cache on a view is
  such a view again.
\<close>

subsection \<open>The cache\<close>

text \<open>The two bits of \<^verbatim>\<open>flags\<close> are \<open>e_dirty\<close> and \<open>e_fresh\<close>.\<close>

record CCoinsCacheEntry =
  e_coins :: CCoins
  e_dirty :: bool
  e_fresh :: bool

type_synonym CCoinsMap = "(uint256 \<times> CCoinsCacheEntry) list"

record 'b CCoinsViewCache =
  base :: 'b
  hasModifier :: bool
  cc_hashBlock :: uint256
  cacheCoins :: CCoinsMap

definition new_cache :: "'b \<Rightarrow> 'b CCoinsViewCache" where
  "new_cache b = \<lparr>base = b, hasModifier = False, cc_hashBlock = bu_zero 8, cacheCoins = []\<rparr>"

definition FetchCoins ::
  "('b \<Rightarrow> uint256 \<Rightarrow> CCoins option \<times> 'b) \<Rightarrow> 'b CCoinsViewCache \<Rightarrow> uint256 \<Rightarrow>
   CCoinsCacheEntry option \<times> 'b CCoinsViewCache" where
  "FetchCoins bget c txid =
     (case map_of (cacheCoins c) txid of
        Some e \<Rightarrow> (Some e, c)
      | None \<Rightarrow> (case bget (base c) txid of
          (None, b) \<Rightarrow> (None, c\<lparr>base := b\<rparr>)
        | (Some tmp, b) \<Rightarrow>
            (let e = \<lparr>e_coins = tmp, e_dirty = False, e_fresh = IsPruned tmp\<rparr>
             in (Some e, c\<lparr>base := b, cacheCoins := AList.update txid e (cacheCoins c)\<rparr>))))"

definition AccessCoins ::
  "('b \<Rightarrow> uint256 \<Rightarrow> CCoins option \<times> 'b) \<Rightarrow> 'b CCoinsViewCache \<Rightarrow> uint256 \<Rightarrow>
   CCoins option \<times> 'b CCoinsViewCache" where
  "AccessCoins bget c txid = (case FetchCoins bget c txid of (e, c) \<Rightarrow> (map_option e_coins e, c))"

definition cache_GetCoins ::
  "('b \<Rightarrow> uint256 \<Rightarrow> CCoins option \<times> 'b) \<Rightarrow> 'b CCoinsViewCache \<Rightarrow> uint256 \<Rightarrow>
   CCoins option \<times> 'b CCoinsViewCache" where
  "cache_GetCoins bget c txid =
     (case FetchCoins bget c txid of (Some e, c) \<Rightarrow> (Some (e_coins e), c) | (None, c) \<Rightarrow> (None, c))"

definition HaveCoins ::
  "('b \<Rightarrow> uint256 \<Rightarrow> CCoins option \<times> 'b) \<Rightarrow> 'b CCoinsViewCache \<Rightarrow> uint256 \<Rightarrow> bool \<times> 'b CCoinsViewCache" where
  "HaveCoins bget c txid =
     (case FetchCoins bget c txid of (Some e, c) \<Rightarrow> (c_vout (e_coins e) \<noteq> [], c) | (None, c) \<Rightarrow> (False, c))"

definition cache_GetBestBlock ::
  "('b \<Rightarrow> uint256 \<times> 'b) \<Rightarrow> 'b CCoinsViewCache \<Rightarrow> uint256 \<times> 'b CCoinsViewCache" where
  "cache_GetBestBlock bbest c =
     (if cc_hashBlock c = bu_zero 8
      then (case bbest (base c) of (h, b) \<Rightarrow> (h, c\<lparr>base := b, cc_hashBlock := h\<rparr>))
      else (cc_hashBlock c, c))"

definition SetBestBlock :: "uint256 \<Rightarrow> 'b CCoinsViewCache \<Rightarrow> 'b CCoinsViewCache" where
  "SetBestBlock h c = c\<lparr>cc_hashBlock := h\<rparr>"

text \<open>
  \<^verbatim>\<open>ModifyCoins\<close> gives the coins to change and the cache in which the modifier is active;
  \<open>release\<close> is the modifier's destructor, for the changed coins. \<open>None\<close> is a failed assertion.
\<close>

definition ModifyCoins ::
  "('b \<Rightarrow> uint256 \<Rightarrow> CCoins option \<times> 'b) \<Rightarrow> 'b CCoinsViewCache \<Rightarrow> uint256 \<Rightarrow>
   (CCoins \<times> 'b CCoinsViewCache) option" where
  "ModifyCoins bget c txid =
     (if hasModifier c then None
      else let (e, c) = (case map_of (cacheCoins c) txid of
              Some e \<Rightarrow> (e, c)
            | None \<Rightarrow> (case bget (base c) txid of
                (None, b) \<Rightarrow> (\<lparr>e_coins = CCoins_empty, e_dirty = False, e_fresh = True\<rparr>, c\<lparr>base := b\<rparr>)
              | (Some coins, b) \<Rightarrow> (\<lparr>e_coins = coins, e_dirty = False, e_fresh = IsPruned coins\<rparr>, c\<lparr>base := b\<rparr>)))
      in Some (e_coins e, c\<lparr>hasModifier := True,
                             cacheCoins := AList.update txid (e\<lparr>e_dirty := True\<rparr>) (cacheCoins c)\<rparr>))"

definition release :: "'b CCoinsViewCache \<Rightarrow> uint256 \<Rightarrow> CCoins \<Rightarrow> 'b CCoinsViewCache option" where
  "release c txid coins =
     (if \<not> hasModifier c then None
      else case map_of (cacheCoins c) txid of
        None \<Rightarrow> None
      | Some e \<Rightarrow>
          let coins = Cleanup coins in
          Some (c\<lparr>hasModifier := False,
                  cacheCoins := (if e_fresh e \<and> IsPruned coins then AList.delete txid (cacheCoins c)
                                 else AList.update txid (e\<lparr>e_coins := coins\<rparr>) (cacheCoins c))\<rparr>))"

definition batch_entry :: "uint256 \<times> CCoinsCacheEntry \<Rightarrow> CCoinsMap \<Rightarrow> CCoinsMap option" where
  "batch_entry = (\<lambda>(txid, it) us.
     if e_dirty it then
       (case map_of us txid of
          None \<Rightarrow>
            if \<not> IsPruned (e_coins it) then
              (if e_fresh it
               then Some (AList.update txid \<lparr>e_coins = e_coins it, e_dirty = True, e_fresh = True\<rparr> us)
               else None)
            else Some us
        | Some itUs \<Rightarrow>
            if e_fresh itUs \<and> IsPruned (e_coins it) then Some (AList.delete txid us)
            else Some (AList.update txid (itUs\<lparr>e_coins := e_coins it, e_dirty := True\<rparr>) us))
     else Some us)"

fun batch_loop :: "CCoinsMap \<Rightarrow> CCoinsMap \<Rightarrow> CCoinsMap option" where
  "batch_loop [] us = Some us"
| "batch_loop (it # its) us = (case batch_entry it us of None \<Rightarrow> None | Some us \<Rightarrow> batch_loop its us)"

definition cache_BatchWrite :: "'b CCoinsViewCache \<Rightarrow> CCoinsMap \<Rightarrow> uint256 \<Rightarrow> 'b CCoinsViewCache option" where
  "cache_BatchWrite c mapCoins hashBlockIn =
     (if hasModifier c then None
      else case batch_loop mapCoins (cacheCoins c) of
        None \<Rightarrow> None
      | Some us \<Rightarrow> Some (c\<lparr>cacheCoins := us, cc_hashBlock := hashBlockIn\<rparr>))"

definition Flush ::
  "('b \<Rightarrow> CCoinsMap \<Rightarrow> uint256 \<Rightarrow> 'b option) \<Rightarrow> 'b CCoinsViewCache \<Rightarrow> 'b CCoinsViewCache option" where
  "Flush bwrite c =
     (case bwrite (base c) (cacheCoins c) (cc_hashBlock c) of
        None \<Rightarrow> None
      | Some b \<Rightarrow> Some (c\<lparr>base := b, cacheCoins := []\<rparr>))"

subsection \<open>Inputs of a transaction\<close>

text \<open>\<open>None\<close> is the failed assertion that the output is there.\<close>

definition GetOutputFor ::
  "('b \<Rightarrow> uint256 \<Rightarrow> CCoins option \<times> 'b) \<Rightarrow> 'b CCoinsViewCache \<Rightarrow> CTxIn \<Rightarrow>
   (CTxOut \<times> 'b CCoinsViewCache) option" where
  "GetOutputFor bget c input =
     (case AccessCoins bget c (op_hash (prevout input)) of
        (Some coins, c) \<Rightarrow>
          if IsAvailable coins (op_n (prevout input))
          then Some (c_vout coins ! unat (op_n (prevout input)), c) else None
      | (None, c) \<Rightarrow> None)"

fun value_in_loop ::
  "('b \<Rightarrow> uint256 \<Rightarrow> CCoins option \<times> 'b) \<Rightarrow> 'b CCoinsViewCache \<Rightarrow> CTxIn list \<Rightarrow> int \<Rightarrow>
   (int \<times> 'b CCoinsViewCache) option" where
  "value_in_loop bget c [] nResult = Some (nResult, c)"
| "value_in_loop bget c (txin # ins) nResult =
     (case GetOutputFor bget c txin of
        None \<Rightarrow> None
      | Some (out, c) \<Rightarrow> value_in_loop bget c ins (wrap64 (nResult + nValue out)))"

definition GetValueIn ::
  "('b \<Rightarrow> uint256 \<Rightarrow> CCoins option \<times> 'b) \<Rightarrow> 'b CCoinsViewCache \<Rightarrow> CTransaction \<Rightarrow>
   (int \<times> 'b CCoinsViewCache) option" where
  "GetValueIn bget c tx = (if IsCoinBase tx then Some (0, c) else value_in_loop bget c (vin tx) 0)"

fun have_inputs_loop ::
  "('b \<Rightarrow> uint256 \<Rightarrow> CCoins option \<times> 'b) \<Rightarrow> 'b CCoinsViewCache \<Rightarrow> CTxIn list \<Rightarrow> bool \<times> 'b CCoinsViewCache" where
  "have_inputs_loop bget c [] = (True, c)"
| "have_inputs_loop bget c (txin # ins) =
     (case AccessCoins bget c (op_hash (prevout txin)) of
        (None, c) \<Rightarrow> (False, c)
      | (Some coins, c) \<Rightarrow>
          if \<not> IsAvailable coins (op_n (prevout txin)) then (False, c) else have_inputs_loop bget c ins)"

definition HaveInputs ::
  "('b \<Rightarrow> uint256 \<Rightarrow> CCoins option \<times> 'b) \<Rightarrow> 'b CCoinsViewCache \<Rightarrow> CTransaction \<Rightarrow> bool \<times> 'b CCoinsViewCache" where
  "HaveInputs bget c tx = (if \<not> IsCoinBase tx then have_inputs_loop bget c (vin tx) else (True, c))"

subsection \<open>The database\<close>

text \<open>The chain state database: the records under the keys \<^verbatim>\<open>'c'\<close> and the one under \<^verbatim>\<open>'B'\<close>.\<close>

record CCoinsViewDB =
  db_coins :: "uint256 \<Rightarrow> bytes option"
  db_best :: "uint256 option"

definition db_GetCoins :: "curve \<Rightarrow> CCoinsViewDB \<Rightarrow> uint256 \<Rightarrow> CCoins option \<times> CCoinsViewDB" where
  "db_GetCoins K db txid =
     (case db_coins db txid of
        None \<Rightarrow> (None, db)
      | Some b \<Rightarrow> (case unser_coins K b of Inr (c, _) \<Rightarrow> (Some c, db) | Inl _ \<Rightarrow> (None, db)))"

definition db_HaveCoins :: "CCoinsViewDB \<Rightarrow> uint256 \<Rightarrow> bool" where
  "db_HaveCoins db txid \<longleftrightarrow> db_coins db txid \<noteq> None"

definition db_GetBestBlock :: "CCoinsViewDB \<Rightarrow> uint256 \<times> CCoinsViewDB" where
  "db_GetBestBlock db = (case db_best db of None \<Rightarrow> bu_zero 8 | Some h \<Rightarrow> h, db)"

definition BatchWriteCoins ::
  "curve \<Rightarrow> uint256 \<Rightarrow> CCoins \<Rightarrow> (uint256 \<Rightarrow> bytes option) \<Rightarrow> (uint256 \<Rightarrow> bytes option) option" where
  "BatchWriteCoins K h coins m =
     (if IsPruned coins then Some (m(h := None))
      else case ser_coins K coins of None \<Rightarrow> None | Some b \<Rightarrow> Some (m(h := Some b)))"

fun db_batch_loop ::
  "curve \<Rightarrow> CCoinsMap \<Rightarrow> (uint256 \<Rightarrow> bytes option) \<Rightarrow> (uint256 \<Rightarrow> bytes option) option" where
  "db_batch_loop K [] m = Some m"
| "db_batch_loop K ((txid, it) # its) m =
     (if e_dirty it
      then (case BatchWriteCoins K txid (e_coins it) m of None \<Rightarrow> None | Some m \<Rightarrow> db_batch_loop K its m)
      else db_batch_loop K its m)"

definition db_BatchWrite :: "curve \<Rightarrow> CCoinsViewDB \<Rightarrow> CCoinsMap \<Rightarrow> uint256 \<Rightarrow> CCoinsViewDB option" where
  "db_BatchWrite K db mapCoins hashBlock =
     (case db_batch_loop K mapCoins (db_coins db) of
        None \<Rightarrow> None
      | Some m \<Rightarrow> Some (db\<lparr>db_coins := m,
                           db_best := (if hashBlock \<noteq> bu_zero 8 then Some hashBlock else db_best db)\<rparr>))"

subsection \<open>The interface of a view\<close>

text \<open>What a view holds for a transaction: nothing, or coins that are not all spent.\<close>

definition live :: "CCoins \<Rightarrow> CCoins option" where
  "live c = (if IsPruned c then None else Some (Cleanup c))"

lemma live_Cleanup [simp]: "live (Cleanup c) = live c"
  by (simp add: live_def)

lemma live_empty [simp]: "live CCoins_empty = None"
  by (simp add: live_def CCoins_empty_def IsPruned_def)

lemma Cleanup_empty [simp]: "Cleanup CCoins_empty = CCoins_empty"
  by (simp add: Cleanup_def CCoins_empty_def drop_null_def)

lemma live_None: "live c = None \<longleftrightarrow> IsPruned c"
  by (simp add: live_def)

definition overlay :: "CCoinsMap \<Rightarrow> (uint256 \<Rightarrow> CCoins option) \<Rightarrow> uint256 \<Rightarrow> CCoins option" where
  "overlay m \<sigma> = (\<lambda>t. case map_of m t of
     Some e \<Rightarrow> if e_dirty e then live (e_coins e) else \<sigma> t | None \<Rightarrow> \<sigma> t)"

text \<open>An entry that a cache may hold over a view with content \<open>\<sigma>\<close> that has looked up \<open>kn\<close>.\<close>

definition entry_ok ::
  "(CCoins \<Rightarrow> bool) \<Rightarrow> (uint256 \<Rightarrow> CCoins option) \<Rightarrow> uint256 set \<Rightarrow> uint256 \<Rightarrow> CCoinsCacheEntry \<Rightarrow> bool" where
  "entry_ok ok \<sigma> kn t e \<longleftrightarrow> Cleanup (e_coins e) = e_coins e \<and>
     (e_fresh e \<longrightarrow> \<sigma> t = None) \<and> (\<not> e_fresh e \<longrightarrow> t \<in> kn) \<and>
     (if e_dirty e then \<forall>c. live (e_coins e) = Some c \<longrightarrow> ok c else live (e_coins e) = \<sigma> t)"

definition map_ok ::
  "(CCoins \<Rightarrow> bool) \<Rightarrow> (uint256 \<Rightarrow> CCoins option) \<Rightarrow> uint256 set \<Rightarrow> CCoinsMap \<Rightarrow> bool" where
  "map_ok ok \<sigma> kn m \<longleftrightarrow> distinct (map fst m) \<and> (\<forall>t e. map_of m t = Some e \<longrightarrow> entry_ok ok \<sigma> kn t e)"

locale coins_view =
  fixes get :: "'s \<Rightarrow> uint256 \<Rightarrow> CCoins option \<times> 's"
    and put :: "'s \<Rightarrow> CCoinsMap \<Rightarrow> uint256 \<Rightarrow> 's option"
    and best :: "'s \<Rightarrow> uint256 \<times> 's"
    and vinv :: "'s \<Rightarrow> bool"
    and content :: "'s \<Rightarrow> uint256 \<Rightarrow> CCoins option"
    and tip :: "'s \<Rightarrow> uint256"
    and known :: "'s \<Rightarrow> uint256 set"
    and ok :: "CCoins \<Rightarrow> bool"
  assumes content_ok: "vinv s \<Longrightarrow> content s t = Some c \<Longrightarrow> ok c"
    and get_law: "vinv s \<Longrightarrow> get s t = (r, s') \<Longrightarrow>
      vinv s' \<and> content s' = content s \<and> tip s' = tip s \<and> known s \<subseteq> known s' \<and>
      (case r of None \<Rightarrow> content s t = None | Some c \<Rightarrow> live c = content s t \<and> Cleanup c = c \<and> t \<in> known s')"
    and best_law: "vinv s \<Longrightarrow> best s = (h, s') \<Longrightarrow>
      h = tip s \<and> vinv s' \<and> content s' = content s \<and> tip s' = tip s \<and> known s \<subseteq> known s'"
    and put_law: "vinv s \<Longrightarrow> map_ok ok (content s) (known s) m \<Longrightarrow>
      \<exists>s'. put s m h = Some s' \<and> vinv s' \<and> content s' = overlay m (content s) \<and> (h \<noteq> bu_zero 8 \<longrightarrow> tip s' = h)"

subsection \<open>A cache on a view\<close>

definition under :: "CCoinsMap \<Rightarrow> (uint256 \<Rightarrow> CCoins option) \<Rightarrow> uint256 \<Rightarrow> CCoins option" where
  "under m \<sigma> = (\<lambda>t. case map_of m t of Some e \<Rightarrow> live (e_coins e) | None \<Rightarrow> \<sigma> t)"

lemma under_eq: "map_of m t = Some e \<Longrightarrow> under m \<sigma> t = live (e_coins e)" "map_of m t = None \<Longrightarrow> under m \<sigma> t = \<sigma> t"
  by (simp_all add: under_def)

lemma under_update: "under (AList.update t e m) \<sigma> = (under m \<sigma>)(t := live (e_coins e))"
  by (auto simp: under_def update_conv' fun_eq_iff)

lemma under_delete: "under (AList.delete t m) \<sigma> = (under m \<sigma>)(t := \<sigma> t)"
  by (auto simp: under_def delete_conv' fun_eq_iff)

definition cache_content :: "('b \<Rightarrow> uint256 \<Rightarrow> CCoins option) \<Rightarrow> 'b CCoinsViewCache \<Rightarrow> uint256 \<Rightarrow> CCoins option" where
  "cache_content bcontent c = under (cacheCoins c) (bcontent (base c))"

definition cache_tip :: "('b \<Rightarrow> uint256) \<Rightarrow> 'b CCoinsViewCache \<Rightarrow> uint256" where
  "cache_tip btip c = (if cc_hashBlock c = bu_zero 8 then btip (base c) else cc_hashBlock c)"

definition cache_known :: "'b CCoinsViewCache \<Rightarrow> uint256 set" where
  "cache_known c = fst ` set (cacheCoins c)"

definition cache_inv ::
  "('b \<Rightarrow> bool) \<Rightarrow> ('b \<Rightarrow> uint256 \<Rightarrow> CCoins option) \<Rightarrow> ('b \<Rightarrow> uint256 set) \<Rightarrow> (CCoins \<Rightarrow> bool) \<Rightarrow>
   'b CCoinsViewCache \<Rightarrow> bool" where
  "cache_inv binv bcontent bknown ok c \<longleftrightarrow>
     binv (base c) \<and> \<not> hasModifier c \<and> map_ok ok (bcontent (base c)) (bknown (base c)) (cacheCoins c)"

lemma cache_known_iff: "t \<in> cache_known c \<longleftrightarrow> map_of (cacheCoins c) t \<noteq> None"
  by (simp add: cache_known_def map_of_eq_None_iff)

lemma map_ok_update:
  "map_ok ok \<sigma> kn m \<Longrightarrow> entry_ok ok \<sigma> kn t e \<Longrightarrow> map_ok ok \<sigma> kn (AList.update t e m)"
  by (auto simp: map_ok_def update_conv' distinct_update)

lemma map_ok_delete: "map_ok ok \<sigma> kn m \<Longrightarrow> map_ok ok \<sigma> kn (AList.delete t m)"
  by (auto simp: map_ok_def delete_conv' distinct_delete split: if_splits)

lemma map_ok_mono: "map_ok ok \<sigma> kn m \<Longrightarrow> kn \<subseteq> kn' \<Longrightarrow> map_ok ok \<sigma> kn' m"
  by (auto simp: map_ok_def entry_ok_def subset_iff)

lemma map_ok_entry: "map_ok ok \<sigma> kn m \<Longrightarrow> map_of m t = Some e \<Longrightarrow> entry_ok ok \<sigma> kn t e"
  by (auto simp: map_ok_def)

text \<open>A batch of entries that fit the cache is applied, one entry at a time, without a failed assertion.\<close>

lemma batch_entry_ok:
  assumes us: "map_ok ok \<sigma> kn us" and \<tau>: "\<And>t. \<tau> t = under us \<sigma> t"
    and e: "entry_ok ok (\<lambda>_. \<tau> txid) {t. map_of us t \<noteq> None} txid e"
  shows "\<exists>us'. batch_entry (txid, e) us = Some us' \<and> map_ok ok \<sigma> kn us' \<and>
    (\<forall>t. under us' \<sigma> t =
      (if t = txid \<and> e_dirty e then live (e_coins e) else \<tau> t)) \<and>
    (\<forall>t. t \<noteq> txid \<longrightarrow> map_of us' t = map_of us t)"
proof (cases "e_dirty e")
  case False
  then show ?thesis using us \<tau> by (auto simp: under_def batch_entry_def)
next
  case True
  show ?thesis
  proof (cases "map_of us txid")
    case None
    then have f: "e_fresh e" "\<sigma> txid = None" using e \<tau> [of txid] by (auto simp: entry_ok_def under_def)
    show ?thesis
    proof (cases "IsPruned (e_coins e)")
      case p: True
      then show ?thesis using us \<tau> None True f by (auto simp: under_def batch_entry_def live_def)
    next
      case p: False
      let ?e = "\<lparr>e_coins = e_coins e, e_dirty = True, e_fresh = True\<rparr>"
      have "entry_ok ok \<sigma> kn txid ?e" using e True f by (simp add: entry_ok_def)
      then show ?thesis using map_ok_update [OF us] None True f p \<tau>
        by (auto simp: under_def batch_entry_def update_conv')
    qed
  next
    case (Some u)
    note u = map_ok_entry [OF us Some]
    show ?thesis
    proof (cases "e_fresh u \<and> IsPruned (e_coins e)")
      case p: True
      then show ?thesis using map_ok_delete [OF us] Some True u \<tau>
        by (auto simp: under_def batch_entry_def delete_conv' entry_ok_def live_def)
    next
      case p: False
      have "entry_ok ok \<sigma> kn txid (u\<lparr>e_coins := e_coins e, e_dirty := True\<rparr>)"
        using u e True by (auto simp: entry_ok_def)
      then show ?thesis using map_ok_update [OF us] Some True p \<tau>
        by (auto simp: under_def batch_entry_def update_conv')
    qed
  qed
qed

lemma batch_loop_ok:
  assumes "map_ok ok \<sigma> kn us" and "\<And>t. \<tau> t = under us \<sigma> t"
    and "map_ok ok \<tau> {t. map_of us t \<noteq> None} m"
  shows "\<exists>us'. batch_loop m us = Some us' \<and> map_ok ok \<sigma> kn us' \<and>
    (\<forall>t. under us' \<sigma> t = overlay m \<tau> t)"
  using assms
proof (induction m arbitrary: us \<tau>)
  case Nil
  then show ?case by (auto simp: overlay_def)
next
  case (Cons x m)
  obtain txid e where x: "x = (txid, e)" by fastforce
  have d: "map_of m txid = None" "distinct (map fst m)" using Cons.prems(3) x by (auto simp: map_ok_def map_of_eq_None_iff)
  have "entry_ok ok (\<lambda>_. \<tau> txid) {t. map_of us t \<noteq> None} txid e"
    using Cons.prems(3) x by (auto simp: map_ok_def entry_ok_def split: if_splits)
  from batch_entry_ok [OF Cons.prems(1,2) this] obtain us1 where
    us1: "batch_entry (txid, e) us = Some us1" "map_ok ok \<sigma> kn us1"
      "\<And>t. under us1 \<sigma> t =
        (if t = txid \<and> e_dirty e then live (e_coins e) else \<tau> t)"
      "\<And>t. t \<noteq> txid \<Longrightarrow> map_of us1 t = map_of us t" by blast
  define \<tau>1 where "\<tau>1 t = (if t = txid \<and> e_dirty e then live (e_coins e) else \<tau> t)" for t
  have "map_ok ok \<tau>1 {t. map_of us1 t \<noteq> None} m"
    unfolding map_ok_def
  proof (intro conjI allI impI)
    fix t e' assume "map_of m t = Some e'"
    moreover from this d have t: "t \<noteq> txid" by auto
    ultimately have "entry_ok ok \<tau> {t. map_of us t \<noteq> None} t e'" using Cons.prems(3) x by (auto simp: map_ok_def)
    then show "entry_ok ok \<tau>1 {t. map_of us1 t \<noteq> None} t e'"
      using t us1(4) [OF t] by (simp add: entry_ok_def \<tau>1_def)
  qed (rule d(2))
  note ok1 = this
  have "\<tau>1 t = under us1 \<sigma> t" for t
    unfolding us1(3) \<tau>1_def ..
  from Cons.IH [OF us1(2) this ok1] obtain us' where
    us': "batch_loop m us1 = Some us'" "map_ok ok \<sigma> kn us'"
      "\<And>t. under us' \<sigma> t = overlay m \<tau>1 t" by blast
  have "overlay m \<tau>1 t = overlay (x # m) \<tau> t" for t
    using d(1) by (auto simp: overlay_def x \<tau>1_def split: option.split)
  then show ?case using us' us1(1) x by auto
qed


locale cache_on_view = coins_view
begin

abbreviation "cinv \<equiv> cache_inv vinv content known ok"
abbreviation "ccontent \<equiv> cache_content content"

lemma FetchCoins_law:
  assumes "cinv c" "FetchCoins get c t = (r, c')"
  shows "cinv c' \<and> ccontent c' = ccontent c \<and> cache_tip tip c' = cache_tip tip c \<and>
    cache_known c \<subseteq> cache_known c' \<and>
    (case r of None \<Rightarrow> ccontent c t = None | Some e \<Rightarrow> live (e_coins e) = ccontent c t \<and> Cleanup (e_coins e) = e_coins e \<and> t \<in> cache_known c')"
proof (cases "map_of (cacheCoins c) t")
  case (Some e)
  moreover have "Cleanup (e_coins e) = e_coins e"
    using assms(1) map_ok_entry [OF _ Some] by (auto simp: cache_inv_def entry_ok_def)
  ultimately show ?thesis using assms by (auto simp: FetchCoins_def cache_content_def cache_known_iff under_eq split: option.split)
next
  case None
  obtain r1 b where g: "get (base c) t = (r1, b)" by fastforce
  have i: "vinv (base c)" "\<not> hasModifier c" "map_ok ok (content (base c)) (known (base c)) (cacheCoins c)"
    using assms(1) by (auto simp: cache_inv_def)
  note G = get_law [OF i(1) g]
  have m: "map_ok ok (content b) (known b) (cacheCoins c)" using G map_ok_mono [OF i(3)] by auto
  show ?thesis
  proof (cases r1)
    case None
    then show ?thesis using assms(2) \<open>map_of (cacheCoins c) t = None\<close> g G m i
      by (auto simp: FetchCoins_def cache_content_def under_eq cache_known_def cache_inv_def cache_tip_def)
  next
    case (Some tmp)
    let ?e = "\<lparr>e_coins = tmp, e_dirty = False, e_fresh = IsPruned tmp\<rparr>"
    have l: "live tmp = content (base c) t" "t \<in> known b" "Cleanup tmp = tmp" using G Some by auto
    have "entry_ok ok (content b) (known b) t ?e" using l G live_None [of tmp] by (auto simp: entry_ok_def)
    from map_ok_update [OF m this] have "map_ok ok (content b) (known b) (AList.update t ?e (cacheCoins c))" .
    moreover have "r = Some ?e" "c' = c\<lparr>base := b, cacheCoins := AList.update t ?e (cacheCoins c)\<rparr>"
      using assms(2) None g Some by (auto simp: FetchCoins_def Let_def)
    moreover have "under (cacheCoins c) (content (base c)) t = content (base c) t" using None by (rule under_eq)
    ultimately show ?thesis using G i l None
      by (auto simp: cache_content_def under_update cache_known_iff cache_inv_def cache_tip_def update_conv')
  qed
qed

lemma cache_put_law:
  assumes "cinv c" "map_ok ok (ccontent c) (cache_known c) m"
  shows "\<exists>c'. cache_BatchWrite c m h = Some c' \<and> cinv c' \<and> ccontent c' = overlay m (ccontent c) \<and>
    (h \<noteq> bu_zero 8 \<longrightarrow> cache_tip tip c' = h)"
proof -
  have i: "vinv (base c)" "\<not> hasModifier c" "map_ok ok (content (base c)) (known (base c)) (cacheCoins c)"
    using assms(1) by (auto simp: cache_inv_def)
  have k: "cache_known c = {t. map_of (cacheCoins c) t \<noteq> None}" using cache_known_iff by auto
  from batch_loop_ok [OF i(3), of "ccontent c" m] assms(2) k obtain us where
    "batch_loop m (cacheCoins c) = Some us" "map_ok ok (content (base c)) (known (base c)) us"
    "\<And>t. under us (content (base c)) t = overlay m (ccontent c) t"
    by (auto simp: cache_content_def)
  then show ?thesis using i by (auto simp: cache_BatchWrite_def cache_inv_def cache_content_def cache_tip_def fun_eq_iff)
qed

lemma cache_content_ok: "cinv c \<Longrightarrow> ccontent c t = Some x \<Longrightarrow> ok x"
  using content_ok by (fastforce simp: under_def cache_inv_def cache_content_def map_ok_def entry_ok_def split: option.splits if_splits)

lemma cache_best_law:
  assumes "cinv c" "cache_GetBestBlock best c = (h, c')"
  shows "h = cache_tip tip c \<and> cinv c' \<and> ccontent c' = ccontent c \<and> cache_tip tip c' = cache_tip tip c \<and>
    cache_known c \<subseteq> cache_known c'"
proof (cases "cc_hashBlock c = bu_zero 8")
  case True
  obtain h1 b where b: "best (base c) = (h1, b)" by fastforce
  have i: "vinv (base c)" "map_ok ok (content (base c)) (known (base c)) (cacheCoins c)"
    using assms(1) by (auto simp: cache_inv_def)
  note B = best_law [OF i(1) b]
  show ?thesis using assms True b B map_ok_mono [OF i(2)]
    by (auto simp: cache_GetBestBlock_def cache_inv_def cache_content_def cache_tip_def cache_known_def)
next
  case False
  then show ?thesis using assms by (auto simp: cache_GetBestBlock_def cache_tip_def)
qed

end

sublocale cache_on_view \<subseteq> cached: coins_view "cache_GetCoins get" cache_BatchWrite "cache_GetBestBlock best"
  "cache_inv vinv content known ok" "cache_content content" "cache_tip tip" cache_known ok
proof
  fix s t r s' assume "cinv s" "cache_GetCoins get s t = (r, s')"
  then show "cinv s' \<and> ccontent s' = ccontent s \<and> cache_tip tip s' = cache_tip tip s \<and>
      cache_known s \<subseteq> cache_known s' \<and>
      (case r of None \<Rightarrow> ccontent s t = None | Some c \<Rightarrow> live c = ccontent s t \<and> Cleanup c = c \<and> t \<in> cache_known s')"
    using FetchCoins_law [of s t] by (cases "FetchCoins get s t") (auto simp: cache_GetCoins_def split: option.splits)
qed (simp_all add: cache_content_ok cache_best_law cache_put_law)

subsection \<open>Changing and reading coins through a cache\<close>

definition utxo :: "(uint256 \<Rightarrow> CCoins option) \<Rightarrow> COutPoint \<Rightarrow> CTxOut option" where
  "utxo \<sigma> p = (case \<sigma> (op_hash p) of None \<Rightarrow> None | Some c \<Rightarrow> out_at (c_vout c) (unat (op_n p)))"

lemma utxo_live: "live c = \<sigma> (op_hash p) \<Longrightarrow> utxo \<sigma> p = out_at (c_vout c) (unat (op_n p))"
  by (auto simp: utxo_def live_def IsPruned_out_at Cleanup_def split: if_splits option.splits)

context cache_on_view
begin

lemma modify_law:
  assumes "cinv c"
  shows "\<exists>coins c1. ModifyCoins get c t = Some (coins, c1) \<and> live coins = ccontent c t \<and> Cleanup coins = coins \<and>
    (\<forall>coins'. (\<forall>x. live coins' = Some x \<longrightarrow> ok x) \<longrightarrow>
      (\<exists>c2. release c1 t coins' = Some c2 \<and> cinv c2 \<and> ccontent c2 = (ccontent c)(t := live coins') \<and>
        cache_tip tip c2 = cache_tip tip c))"
proof -
  have i: "vinv (base c)" "\<not> hasModifier c" "map_ok ok (content (base c)) (known (base c)) (cacheCoins c)"
    using assms by (auto simp: cache_inv_def)
  have "\<exists>e b. ModifyCoins get c t = Some (e_coins e, c\<lparr>hasModifier := True, base := b,
        cacheCoins := AList.update t (e\<lparr>e_dirty := True\<rparr>) (cacheCoins c)\<rparr>) \<and>
      live (e_coins e) = ccontent c t \<and> Cleanup (e_coins e) = e_coins e \<and> vinv b \<and> content b = content (base c) \<and> tip b = tip (base c) \<and>
      known (base c) \<subseteq> known b \<and> (e_fresh e \<longrightarrow> content b t = None) \<and> (\<not> e_fresh e \<longrightarrow> t \<in> known b)"
  proof (cases "map_of (cacheCoins c) t")
    case (Some e)
    then show ?thesis using i map_ok_entry [OF i(3) Some]
      by (intro exI [of _ e] exI [of _ "base c"]) (auto simp: ModifyCoins_def cache_content_def under_eq entry_ok_def)
  next
    case None
    obtain r b where g: "get (base c) t = (r, b)" by fastforce
    note G = get_law [OF i(1) g]
    show ?thesis
    proof (cases r)
      case r: None
      show ?thesis using None r g G i
        by (intro exI [of _ "\<lparr>e_coins = CCoins_empty, e_dirty = False, e_fresh = True\<rparr>"] exI [of _ b])
          (auto simp: ModifyCoins_def cache_content_def under_eq)
    next
      case (Some coins)
      have "IsPruned coins \<Longrightarrow> content (base c) t = None" using G Some live_None [of coins] by auto
      then show ?thesis using None Some g G i
        by (intro exI [of _ "\<lparr>e_coins = coins, e_dirty = False, e_fresh = IsPruned coins\<rparr>"] exI [of _ b])
          (auto simp: ModifyCoins_def cache_content_def under_eq)
    qed
  qed
  then obtain e b where e: "ModifyCoins get c t = Some (e_coins e, c\<lparr>hasModifier := True, base := b,
        cacheCoins := AList.update t (e\<lparr>e_dirty := True\<rparr>) (cacheCoins c)\<rparr>)"
    and l: "live (e_coins e) = ccontent c t" "Cleanup (e_coins e) = e_coins e" and b: "vinv b" "content b = content (base c)" "tip b = tip (base c)" "known (base c) \<subseteq> known b"
    and f: "e_fresh e \<longrightarrow> content b t = None" "\<not> e_fresh e \<longrightarrow> t \<in> known b" by blast
  have m: "map_ok ok (content b) (known b) (cacheCoins c)" using map_ok_mono [OF i(3) b(4)] b(2) by simp
  have "\<exists>c2. release (c\<lparr>hasModifier := True, base := b,
        cacheCoins := AList.update t (e\<lparr>e_dirty := True\<rparr>) (cacheCoins c)\<rparr>) t coins' = Some c2 \<and> cinv c2 \<and>
      ccontent c2 = (ccontent c)(t := live coins') \<and> cache_tip tip c2 = cache_tip tip c"
    if o: "\<forall>x. live coins' = Some x \<longrightarrow> ok x" for coins'
  proof -
    let ?e = "e\<lparr>e_dirty := True, e_coins := Cleanup coins'\<rparr>"
    have "entry_ok ok (content b) (known b) t ?e" using f o by (auto simp: entry_ok_def)
    from map_ok_update [OF m this] map_ok_delete [OF m, of t] show ?thesis
      using i(2) b(1,3) f b(2) [symmetric] live_None [of coins']
      by (auto simp: release_def update_conv' cache_inv_def cache_content_def cache_tip_def under_update under_delete delete_update_same Let_def)
  qed
  then show ?thesis using e l by blast
qed

lemma AccessCoins_law:
  assumes "cinv c" "AccessCoins get c t = (r, c')"
  shows "cinv c' \<and> ccontent c' = ccontent c \<and> cache_tip tip c' = cache_tip tip c \<and>
    (case r of None \<Rightarrow> ccontent c t = None | Some x \<Rightarrow> live x = ccontent c t)"
  using FetchCoins_law [OF assms(1), of t] assms(2)
  by (cases "FetchCoins get c t") (auto simp: AccessCoins_def split: option.splits)

lemma have_inputs_law:
  "cinv c \<Longrightarrow> have_inputs_loop get c ins = (b, c') \<Longrightarrow>
   cinv c' \<and> ccontent c' = ccontent c \<and> (b \<longleftrightarrow> (\<forall>i \<in> set ins. utxo (ccontent c) (prevout i) \<noteq> None))"
proof (induction ins arbitrary: c)
  case (Cons i ins)
  obtain r c1 where a: "AccessCoins get c (op_hash (prevout i)) = (r, c1)" by fastforce
  note A = AccessCoins_law [OF Cons.prems(1) a]
  show ?case
  proof (cases r)
    case None
    then show ?thesis using A a Cons.prems(2) by (auto simp: utxo_def)
  next
    case (Some x)
    then have u: "utxo (ccontent c) (prevout i) = out_at (c_vout x) (unat (op_n (prevout i)))"
      using A by (intro utxo_live) simp
    then show ?thesis using A a Some Cons.prems(2) Cons.IH [of c1]
      by (auto simp: IsAvailable_out_at split: if_splits)
  qed
qed simp

lemma HaveInputs_law:
  assumes "cinv c" "HaveInputs get c tx = (b, c')"
  shows "cinv c' \<and> ccontent c' = ccontent c \<and>
    (b \<longleftrightarrow> IsCoinBase tx \<or> (\<forall>i \<in> set (vin tx). utxo (ccontent c) (prevout i) \<noteq> None))"
  using assms have_inputs_law [of c "vin tx" b c'] by (auto simp: HaveInputs_def split: if_splits)

lemma GetOutputFor_law:
  assumes "cinv c"
  shows "case utxo (ccontent c) (prevout i) of
      None \<Rightarrow> GetOutputFor get c i = None
    | Some out \<Rightarrow> \<exists>c'. GetOutputFor get c i = Some (out, c') \<and> cinv c' \<and> ccontent c' = ccontent c"
proof -
  obtain r c1 where a: "AccessCoins get c (op_hash (prevout i)) = (r, c1)" by fastforce
  note A = AccessCoins_law [OF assms a]
  show ?thesis
  proof (cases r)
    case None
    then show ?thesis using A a by (auto simp: utxo_def GetOutputFor_def)
  next
    case (Some x)
    then have "utxo (ccontent c) (prevout i) = out_at (c_vout x) (unat (op_n (prevout i)))"
      using A by (intro utxo_live) simp
    then show ?thesis using A a Some
      by (auto simp: GetOutputFor_def IsAvailable_out_at out_at_def split: option.splits)
  qed
qed


end

subsection \<open>The database is a view, and so are the caches stacked on it\<close>

definition db_content :: "curve \<Rightarrow> CCoinsViewDB \<Rightarrow> uint256 \<Rightarrow> CCoins option" where
  "db_content K db t = fst (db_GetCoins K db t)"

definition stored :: "curve \<Rightarrow> bytes \<Rightarrow> CCoins \<Rightarrow> bool" where
  "stored K b c \<longleftrightarrow> good_coins c \<and> \<not> IsPruned c \<and> Cleanup c = c \<and> ser_coins K c = Some b"

definition db_inv :: "curve \<Rightarrow> CCoinsViewDB \<Rightarrow> bool" where
  "db_inv K db \<longleftrightarrow> curve_recovers K \<and> (\<forall>t b. db_coins db t = Some b \<longrightarrow> (\<exists>c. stored K b c))"

lemma stored_read: "curve_recovers K \<Longrightarrow> stored K b c \<Longrightarrow> unser_coins K b = Inr (c, [])"
  using unser_coins_ser_coins [of K c "[]"] by (auto simp: stored_def)

lemma good_coins_Cleanup: "good_coins c \<Longrightarrow> good_coins (Cleanup c)"
proof -
  obtain ys where "c_vout c = drop_null (c_vout c) @ ys" using drop_null_split by blast
  then show "good_coins c \<Longrightarrow> good_coins (Cleanup c)"
    by (auto simp: good_coins_def Cleanup_def) (metis list_all_append, metis length_append trans_less_add1 not_less le_add1 le_less_trans)
qed

lemma stored_live:
  assumes "live c = Some c'" "Cleanup c = c" "good_coins c'" "curve_recovers K"
  shows "\<exists>b. ser_coins K c = Some b \<and> stored K b c \<and> c' = c"
proof -
  have "\<not> IsPruned c" "c' = c" using assms(1,2) by (auto simp: live_def split: if_splits)
  then show ?thesis using unser_coins_ser_coins [of K c] assms(2-4) by (auto simp: stored_def)
qed

definition read_db :: "curve \<Rightarrow> (uint256 \<Rightarrow> bytes option) \<Rightarrow> uint256 \<Rightarrow> CCoins option" where
  "read_db K m t = (case m t of None \<Rightarrow> None
     | Some b \<Rightarrow> (case unser_coins K b of Inr (c, _) \<Rightarrow> Some c | Inl _ \<Rightarrow> None))"

lemma db_content_read: "db_content K db = read_db K (db_coins db)"
  by (auto simp: fun_eq_iff db_content_def db_GetCoins_def read_db_def split: option.split sum.split)

lemma read_db_update:
  "read_db K (m(t := None)) = (read_db K m)(t := None)"
  "curve_recovers K \<Longrightarrow> stored K b c \<Longrightarrow> read_db K (m(t := Some b)) = (read_db K m)(t := Some c)"
  by (auto simp: read_db_def fun_eq_iff stored_read)


lemma BatchWriteCoins_law:
  assumes "curve_recovers K" "Cleanup c = c" "\<forall>x. live c = Some x \<longrightarrow> good_coins x"
    and "\<forall>t b. m t = Some b \<longrightarrow> (\<exists>c. stored K b c)"
  shows "\<exists>m'. BatchWriteCoins K t c m = Some m' \<and> (\<forall>t b. m' t = Some b \<longrightarrow> (\<exists>c. stored K b c)) \<and>
    read_db K m' = (read_db K m)(t := live c)"
proof (cases "live c")
  case None
  then have "IsPruned c" by (simp add: live_None)
  then show ?thesis using None assms(4) by (auto simp: BatchWriteCoins_def read_db_update)
next
  case (Some c')
  from stored_live [OF Some assms(2) _ assms(1)] assms(3) Some obtain b where
    b: "ser_coins K c = Some b" "stored K b c" "c' = c" by blast
  moreover have "\<not> IsPruned c" using Some live_None [of c] by auto
  ultimately show ?thesis using Some assms(1,4)
    by (auto simp: BatchWriteCoins_def read_db_update)
qed

lemma overlay_Cons:
  "map_of m t = None \<Longrightarrow> overlay ((t, e) # m) \<sigma> = (if e_dirty e then (overlay m \<sigma>)(t := live (e_coins e)) else overlay m \<sigma>)"
  by (auto simp: overlay_def fun_eq_iff)

lemma overlay_update: "map_of m t = None \<Longrightarrow> overlay m (\<sigma>(t := x)) = (overlay m \<sigma>)(t := x)"
  by (auto simp: overlay_def fun_eq_iff split: option.split)

lemma db_batch_law:
  assumes "curve_recovers K" "distinct (map fst its)"
    and "\<forall>(t, e) \<in> set its. e_dirty e \<longrightarrow> Cleanup (e_coins e) = e_coins e \<and> (\<forall>x. live (e_coins e) = Some x \<longrightarrow> good_coins x)"
    and "\<forall>t b. m t = Some b \<longrightarrow> (\<exists>c. stored K b c)"
  shows "\<exists>m'. db_batch_loop K its m = Some m' \<and> (\<forall>t b. m' t = Some b \<longrightarrow> (\<exists>c. stored K b c)) \<and>
    read_db K m' = overlay its (read_db K m)"
  using assms(2-4)
proof (induction its arbitrary: m)
  case Nil
  then show ?case by (auto simp: overlay_def)
next
  case (Cons x its)
  obtain t e where x: "x = (t, e)" by fastforce
  have n: "map_of its t = None" using Cons.prems(1) x by (simp add: map_of_eq_None_iff)
  show ?case
  proof (cases "e_dirty e")
    case False
    then show ?thesis using Cons.IH [of m] Cons.prems x n by (auto simp: overlay_Cons)
  next
    case True
    then have c: "Cleanup (e_coins e) = e_coins e" "\<forall>y. live (e_coins e) = Some y \<longrightarrow> good_coins y"
      using Cons.prems(2) x by auto
    from BatchWriteCoins_law [OF assms(1) c Cons.prems(3), of t] obtain m1 where
      m1: "BatchWriteCoins K t (e_coins e) m = Some m1" "\<forall>t b. m1 t = Some b \<longrightarrow> (\<exists>c. stored K b c)"
        "read_db K m1 = (read_db K m)(t := live (e_coins e))" by blast
    from Cons.IH [OF _ _ m1(2)] Cons.prems obtain m' where
      "db_batch_loop K its m1 = Some m'" "\<forall>t b. m' t = Some b \<longrightarrow> (\<exists>c. stored K b c)"
      "read_db K m' = overlay its (read_db K m1)" by auto
    then show ?thesis using m1 x True n by (auto simp: overlay_Cons overlay_update)
  qed
qed

interpretation db: coins_view "db_GetCoins K" "db_BatchWrite K" db_GetBestBlock "db_inv K" "db_content K"
  "\<lambda>db. fst (db_GetBestBlock db)" "\<lambda>_. UNIV" good_coins for K
proof
  fix s t c assume "db_inv K s" "db_content K s t = Some c"
  then show "good_coins c"
    by (auto simp: db_inv_def db_content_read read_db_def stored_read stored_def split: option.splits sum.splits)
      (metis stored_def stored_read Inr_inject Pair_inject)
next
  fix s t r s' assume a: "db_inv K s" "db_GetCoins K s t = (r, s')"
  then have "r = db_content K s t" "s' = s"
    by (auto simp: db_content_def) (auto simp: db_GetCoins_def split: option.splits sum.splits)
  moreover have "live c = Some c \<and> Cleanup c = c" if d: "db_content K s t = Some c" for c
  proof -
    obtain b where "db_coins s t = Some b" using d
      by (cases "db_coins s t") (simp_all add: db_content_read read_db_def)
    moreover from this a(1) obtain c1 where "stored K b c1" "curve_recovers K" by (auto simp: db_inv_def)
    ultimately have "stored K b c" using d by (auto simp: db_content_read read_db_def stored_read)
    then show ?thesis by (simp add: stored_def live_def)
  qed
  ultimately show "db_inv K s' \<and> db_content K s' = db_content K s \<and>
      fst (db_GetBestBlock s') = fst (db_GetBestBlock s) \<and> UNIV \<subseteq> UNIV \<and>
      (case r of None \<Rightarrow> db_content K s t = None
       | Some c \<Rightarrow> live c = db_content K s t \<and> Cleanup c = c \<and> t \<in> UNIV)"
    using a(1) by (auto split: option.split)
next
  fix s h s' assume "db_inv K s" "db_GetBestBlock s = (h, s')"
  then show "h = fst (db_GetBestBlock s) \<and> db_inv K s' \<and> db_content K s' = db_content K s \<and>
      fst (db_GetBestBlock s') = fst (db_GetBestBlock s) \<and> UNIV \<subseteq> UNIV"
    by (auto simp: db_GetBestBlock_def)
next
  fix s m h assume a: "db_inv K s" "map_ok good_coins (db_content K s) UNIV m"
  have "\<forall>(t, e) \<in> set m. e_dirty e \<longrightarrow>
      Cleanup (e_coins e) = e_coins e \<and> (\<forall>x. live (e_coins e) = Some x \<longrightarrow> good_coins x)"
    using a(2) by (auto simp: map_ok_def entry_ok_def dest!: map_of_is_SomeI [rotated])
  from db_batch_law [OF _ _ this, of K "db_coins s"] a obtain m' where
    "db_batch_loop K m (db_coins s) = Some m'" "\<forall>t b. m' t = Some b \<longrightarrow> (\<exists>c. stored K b c)"
    "read_db K m' = overlay m (read_db K (db_coins s))"
    by (auto simp: db_inv_def map_ok_def)
  then show "\<exists>s'. db_BatchWrite K s m h = Some s' \<and> db_inv K s' \<and> db_content K s' = overlay m (db_content K s) \<and>
      (h \<noteq> bu_zero 8 \<longrightarrow> fst (db_GetBestBlock s') = h)"
    using a(1) by (auto simp: db_BatchWrite_def db_inv_def db_content_read db_GetBestBlock_def)
qed

text \<open>\<^verbatim>\<open>pcoinsTip\<close> is a cache on the database, and the view of a block being connected a cache on that.\<close>

interpretation coins_tip: cache_on_view "db_GetCoins K" "db_BatchWrite K" db_GetBestBlock "db_inv K" "db_content K"
  "\<lambda>db. fst (db_GetBestBlock db)" "\<lambda>_. UNIV" good_coins for K ..

interpretation block_view: cache_on_view "cache_GetCoins (db_GetCoins K)" cache_BatchWrite
  "cache_GetBestBlock db_GetBestBlock" "cache_inv (db_inv K) (db_content K) (\<lambda>_. UNIV) good_coins"
  "cache_content (db_content K)" "cache_tip (\<lambda>db. fst (db_GetBestBlock db))" cache_known good_coins for K ..

subsection \<open>Writing a cache back\<close>

lemma overlay_under: "map_ok ok \<sigma> kn m \<Longrightarrow> overlay m \<sigma> = under m \<sigma>"
  by (auto simp: overlay_def under_def fun_eq_iff entry_ok_def dest: map_ok_entry split: option.splits if_splits)

context cache_on_view
begin

lemma Flush_law:
  assumes "cinv c"
  shows "\<exists>c'. Flush put c = Some c' \<and> cinv c' \<and> content (base c') = ccontent c \<and> ccontent c' = ccontent c \<and>
    cacheCoins c' = [] \<and> (cc_hashBlock c \<noteq> bu_zero 8 \<longrightarrow> tip (base c') = cc_hashBlock c \<and> cache_tip tip c' = cc_hashBlock c)"
proof -
  have i: "vinv (base c)" "\<not> hasModifier c" "map_ok ok (content (base c)) (known (base c)) (cacheCoins c)"
    using assms by (auto simp: cache_inv_def)
  from put_law [OF i(1,3)] obtain b where
    b: "put (base c) (cacheCoins c) (cc_hashBlock c) = Some b" "vinv b"
      "content b = overlay (cacheCoins c) (content (base c))" "cc_hashBlock c \<noteq> bu_zero 8 \<longrightarrow> tip b = cc_hashBlock c"
    by blast
  then show ?thesis using i
    by (auto simp: Flush_def cache_inv_def cache_content_def overlay_under map_ok_def under_def cache_tip_def)
qed

lemma SetBestBlock_law:
  "cinv c \<Longrightarrow> cinv (SetBestBlock h c) \<and> ccontent (SetBestBlock h c) = ccontent c \<and>
    (h \<noteq> bu_zero 8 \<longrightarrow> cache_tip tip (SetBestBlock h c) = h)"
  by (simp add: SetBestBlock_def cache_inv_def cache_content_def cache_tip_def)

end

subsection \<open>The view of a block, down to the database\<close>

definition tip_inv :: "curve \<Rightarrow> CCoinsViewDB CCoinsViewCache \<Rightarrow> bool" where
  "tip_inv K = cache_inv (db_inv K) (db_content K) (\<lambda>_. UNIV) good_coins"

definition tip_content :: "curve \<Rightarrow> CCoinsViewDB CCoinsViewCache \<Rightarrow> uint256 \<Rightarrow> CCoins option" where
  "tip_content K = cache_content (db_content K)"

definition block_inv :: "curve \<Rightarrow> CCoinsViewDB CCoinsViewCache CCoinsViewCache \<Rightarrow> bool" where
  "block_inv K = cache_inv (tip_inv K) (tip_content K) cache_known good_coins"

definition block_content :: "curve \<Rightarrow> CCoinsViewDB CCoinsViewCache CCoinsViewCache \<Rightarrow> uint256 \<Rightarrow> CCoins option" where
  "block_content K = cache_content (tip_content K)"

lemmas view_defs = tip_inv_def tip_content_def block_inv_def block_content_def

lemma block_inv_base: "block_inv K v \<Longrightarrow> tip_inv K (base v)"
  by (simp add: block_inv_def cache_inv_def)

lemma flush_to_database:
  assumes "block_inv K v"
  shows "\<exists>v' tip'. Flush cache_BatchWrite v = Some v' \<and> Flush (db_BatchWrite K) (base v') = Some tip' \<and>
    tip_inv K tip' \<and> tip_content K tip' = block_content K v \<and> db_content K (base tip') = block_content K v \<and>
    (cc_hashBlock v \<noteq> bu_zero 8 \<longrightarrow> cache_tip (\<lambda>db. fst (db_GetBestBlock db)) (base v') = cc_hashBlock v)"
proof -
  from block_view.Flush_law [of K v] assms obtain v' where
    v: "Flush cache_BatchWrite v = Some v'" "block_inv K v'" "tip_content K (base v') = block_content K v"
      "cc_hashBlock v \<noteq> bu_zero 8 \<longrightarrow> cache_tip (\<lambda>db. fst (db_GetBestBlock db)) (base v') = cc_hashBlock v"
    unfolding view_defs by blast
  from block_inv_base [OF v(2)] coins_tip.Flush_law [of K "base v'"] obtain t where
    "Flush (db_BatchWrite K) (base v') = Some t" "tip_inv K t" "tip_content K t = tip_content K (base v')"
    "db_content K (base t) = tip_content K (base v')"
    unfolding view_defs by blast
  with v show ?thesis by metis
qed

lemma modify_block_view:
  assumes "block_inv K v"
  shows "\<exists>coins v1. ModifyCoins (cache_GetCoins (db_GetCoins K)) v t = Some (coins, v1) \<and>
    live coins = block_content K v t \<and> Cleanup coins = coins \<and>
    (\<forall>coins'. (\<forall>x. live coins' = Some x \<longrightarrow> good_coins x) \<longrightarrow>
      (\<exists>v2. release v1 t coins' = Some v2 \<and> block_inv K v2 \<and> block_content K v2 = (block_content K v)(t := live coins')))"
  using block_view.modify_law [of K v t] assms unfolding view_defs by blast

end
