(* ===== verification/Chain_Coins.thy ===== *)
theory Chain_Coins
  imports Coins_View Pow
begin

text \<open>
  What blocks do to the unspent outputs (\<^verbatim>\<open>main.cpp\<close>, \<^verbatim>\<open>undo.h\<close>): applying a transaction to
  a cache with the undo data it leaves, and disconnecting a block. The functions work on a cache
  over any view; \<open>spend\<close>, \<open>apply_tx\<close> and \<open>apply_block\<close> say what they do to its content.
\<close>

subsection \<open>Applying a transaction\<close>

type_synonym CTxUndo = "CTxInUndo list"
type_synonym CBlockUndo = "CTxUndo list"

text \<open>The life of a \<^verbatim>\<open>CCoinsModifier\<close>: get the coins, change them, and release them.\<close>

definition modifying ::
  "('b \<Rightarrow> uint256 \<Rightarrow> CCoins option \<times> 'b) \<Rightarrow> 'b CCoinsViewCache \<Rightarrow> uint256 \<Rightarrow>
   (CCoins \<Rightarrow> (CCoins \<times> 'x) option) \<Rightarrow> ('x \<times> 'b CCoinsViewCache) option" where
  "modifying bget c txid f =
     (case ModifyCoins bget c txid of
        None \<Rightarrow> None
      | Some (coins, c) \<Rightarrow>
          (case f coins of
             None \<Rightarrow> None
           | Some (coins, x) \<Rightarrow> map_option (\<lambda>c. (x, c)) (release c txid coins)))"

fun spend_inputs ::
  "('b \<Rightarrow> uint256 \<Rightarrow> CCoins option \<times> 'b) \<Rightarrow> CTxIn list \<Rightarrow> CTxUndo \<Rightarrow> 'b CCoinsViewCache \<Rightarrow>
   (CTxUndo \<times> 'b CCoinsViewCache) option" where
  "spend_inputs bget [] vprevout inputs = Some (vprevout, inputs)"
| "spend_inputs bget (txin # ins) vprevout inputs =
     (case modifying bget inputs (op_hash (prevout txin)) (\<lambda>coins. Spend coins (prevout txin)) of
        None \<Rightarrow> None
      | Some (undo, inputs) \<Rightarrow> spend_inputs bget ins (vprevout @ [undo]) inputs)"

definition UpdateCoins ::
  "(bytes \<Rightarrow> bytes) \<Rightarrow> ('b \<Rightarrow> uint256 \<Rightarrow> CCoins option \<times> 'b) \<Rightarrow> CTransaction \<Rightarrow> 'b CCoinsViewCache \<Rightarrow> int \<Rightarrow>
   (CTxUndo \<times> 'b CCoinsViewCache) option" where
  "UpdateCoins Hash bget tx inputs nHeightIn =
     (case (if \<not> IsCoinBase tx then spend_inputs bget (vin tx) [] inputs else Some ([], inputs)) of
        None \<Rightarrow> None
      | Some (txundo, inputs) \<Rightarrow>
          map_option (\<lambda>(_, inputs). (txundo, inputs))
            (modifying bget inputs (tx_GetHash Hash tx) (\<lambda>_. Some (FromTx tx (word_of_int nHeightIn), ()))))"

subsection \<open>Disconnecting a block\<close>

text \<open>
  Putting one input back. The position \<^verbatim>\<open>out.n + 1\<close> is computed on 32 bits; \<open>None\<close> is the write
  out of range that follows when it wraps.
\<close>

definition restore_input :: "CTxInUndo \<Rightarrow> COutPoint \<Rightarrow> bool \<Rightarrow> CCoins \<Rightarrow> (CCoins \<times> bool) option" where
  "restore_input undo out fClean coins =
     (let (coins, fClean) =
            (if u_nHeight undo \<noteq> 0
             then (CCoins_empty\<lparr>c_fCoinBase := u_fCoinBase undo, c_nHeight := u_nHeight undo, c_nVersion := u_nVersion undo\<rparr>,
                   fClean \<and> IsPruned coins)
             else (coins, fClean \<and> \<not> IsPruned coins));
          fClean = (fClean \<and> \<not> IsAvailable coins (op_n out));
          n = unat (op_n out + 1);
          outs = c_vout coins @ replicate (n - length (c_vout coins)) CTxOut_SetNull
      in if unat (op_n out) < length outs
         then Some (coins\<lparr>c_vout := outs[unat (op_n out) := u_txout undo]\<rparr>, fClean)
         else None)"

text \<open>From the last input to the first: the arguments are the inputs and their undo data reversed.\<close>

fun restore_inputs ::
  "('b \<Rightarrow> uint256 \<Rightarrow> CCoins option \<times> 'b) \<Rightarrow> (COutPoint \<times> CTxInUndo) list \<Rightarrow> bool \<Rightarrow> 'b CCoinsViewCache \<Rightarrow>
   (bool \<times> 'b CCoinsViewCache) option" where
  "restore_inputs bget [] fClean view = Some (fClean, view)"
| "restore_inputs bget ((out, undo) # rest) fClean view =
     (case modifying bget view (op_hash out) (restore_input undo out fClean) of
        None \<Rightarrow> None
      | Some (fClean, view) \<Rightarrow> restore_inputs bget rest fClean view)"

definition remove_outputs :: "CTransaction \<Rightarrow> u32 \<Rightarrow> CCoins \<Rightarrow> (CCoins \<times> bool) option" where
  "remove_outputs tx nHeightIn outs =
     (let outs = ClearUnspendable outs;
          outsBlock = FromTx tx nHeightIn;
          outs = (if sint (c_nVersion outsBlock) < 0 then outs\<lparr>c_nVersion := c_nVersion outsBlock\<rparr> else outs)
      in Some (CCoins_empty, CCoins_eq outs outsBlock))"

text \<open>
  The loop over the transactions, from the number of those left: whether the undo data fits the
  transactions, the flag \<^verbatim>\<open>fClean\<close>, and the view.
\<close>

fun disconnect_loop ::
  "(bytes \<Rightarrow> bytes) \<Rightarrow> ('b \<Rightarrow> uint256 \<Rightarrow> CCoins option \<times> 'b) \<Rightarrow> CTransaction list \<Rightarrow> CBlockUndo \<Rightarrow> u32 \<Rightarrow> nat \<Rightarrow>
   bool \<Rightarrow> 'b CCoinsViewCache \<Rightarrow> (bool \<times> bool \<times> 'b CCoinsViewCache) option" where
  "disconnect_loop Hash bget txs vtxundo nHeightIn 0 fClean view = Some (True, fClean, view)"
| "disconnect_loop Hash bget txs vtxundo nHeightIn (Suc i) fClean view =
     (case modifying bget view (tx_GetHash Hash (txs ! i)) (remove_outputs (txs ! i) nHeightIn) of
        None \<Rightarrow> None
      | Some (same, view) \<Rightarrow>
          let fClean = (fClean \<and> same) in
          if i > 0 then
            (let vprevout = vtxundo ! (i - 1) in
             if length vprevout \<noteq> length (vin (txs ! i)) then Some (False, fClean, view)
             else case restore_inputs bget (rev (zip (map prevout (vin (txs ! i))) vprevout)) fClean view of
                    None \<Rightarrow> None
                  | Some (fClean, view) \<Rightarrow> disconnect_loop Hash bget txs vtxundo nHeightIn i fClean view)
          else disconnect_loop Hash bget txs vtxundo nHeightIn i fClean view)"

text \<open>
  \<open>ReadUndo\<close> reads the undo data at a position of the undo files, for a block hash. The result is
  the value returned, what \<^verbatim>\<open>*pfClean\<close> is set to when the pointer is given, and the view;
  \<open>None\<close> is a failed assertion.
\<close>

definition DisconnectBlock ::
  "(bytes \<Rightarrow> bytes) \<Rightarrow> ('b \<Rightarrow> uint256 \<Rightarrow> CCoins option \<times> 'b) \<Rightarrow> ('b \<Rightarrow> uint256 \<times> 'b) \<Rightarrow>
   (CDiskBlockPos \<Rightarrow> uint256 \<Rightarrow> CBlockUndo option) \<Rightarrow> CBlock \<Rightarrow> CBlockIndex \<Rightarrow> bool \<Rightarrow> 'b CCoinsViewCache \<Rightarrow>
   (bool \<times> bool option \<times> 'b CCoinsViewCache) option" where
  "DisconnectBlock Hash bget bbest ReadUndo block pindex pfClean view =
     (let failed = (\<lambda>view. Some (False, if pfClean then Some False else None, view)) in
      case (GetBlockHash pindex, cache_GetBestBlock bbest view) of
        (None, _) \<Rightarrow> None
      | (Some hash, best, view) \<Rightarrow>
          if hash \<noteq> best then None
          else if CDiskBlockPos_IsNull (GetUndoPos pindex) then failed view
          else case Option.bind (pprev pindex) GetBlockHash of
            None \<Rightarrow> None
          | Some hashPrev \<Rightarrow>
              (case ReadUndo (GetUndoPos pindex) hashPrev of
                 None \<Rightarrow> failed view
               | Some vtxundo \<Rightarrow>
                   if length vtxundo + 1 \<noteq> length (vtx block) then failed view
                   else case disconnect_loop Hash bget (vtx block) vtxundo (word_of_int (nHeight (entry pindex)))
                               (length (vtx block)) True view of
                     None \<Rightarrow> None
                   | Some (False, _, view) \<Rightarrow> failed view
                   | Some (True, fClean, view) \<Rightarrow>
                       let view = SetBestBlock hashPrev view in
                       if pfClean then Some (True, Some fClean, view) else Some (fClean, None, view)))"

subsection \<open>What happens to the content of a view\<close>

definition spend ::
  "(uint256 \<Rightarrow> CCoins option) \<Rightarrow> COutPoint \<Rightarrow> (CTxInUndo \<times> (uint256 \<Rightarrow> CCoins option)) option" where
  "spend \<sigma> p = (case \<sigma> (op_hash p) of
     None \<Rightarrow> None
   | Some c \<Rightarrow> (case Spend c p of None \<Rightarrow> None | Some (c', u) \<Rightarrow> Some (u, \<sigma>(op_hash p := live c'))))"

fun spend_all ::
  "(uint256 \<Rightarrow> CCoins option) \<Rightarrow> COutPoint list \<Rightarrow> (CTxUndo \<times> (uint256 \<Rightarrow> CCoins option)) option" where
  "spend_all \<sigma> [] = Some ([], \<sigma>)"
| "spend_all \<sigma> (p # ps) = (case spend \<sigma> p of
     None \<Rightarrow> None
   | Some (u, \<sigma>) \<Rightarrow> map_option (\<lambda>(us, \<sigma>). (u # us, \<sigma>)) (spend_all \<sigma> ps))"

definition apply_tx ::
  "(bytes \<Rightarrow> bytes) \<Rightarrow> u32 \<Rightarrow> (uint256 \<Rightarrow> CCoins option) \<Rightarrow> CTransaction \<Rightarrow> (CTxUndo \<times> (uint256 \<Rightarrow> CCoins option)) option" where
  "apply_tx Hash h \<sigma> tx =
     map_option (\<lambda>(us, \<sigma>). (us, \<sigma>(tx_GetHash Hash tx := live (FromTx tx h))))
       (if \<not> IsCoinBase tx then spend_all \<sigma> (map prevout (vin tx)) else Some ([], \<sigma>))"

fun apply_txs ::
  "(bytes \<Rightarrow> bytes) \<Rightarrow> u32 \<Rightarrow> (uint256 \<Rightarrow> CCoins option) \<Rightarrow> CTransaction list \<Rightarrow> (CBlockUndo \<times> (uint256 \<Rightarrow> CCoins option)) option" where
  "apply_txs Hash h \<sigma> [] = Some ([], \<sigma>)"
| "apply_txs Hash h \<sigma> (tx # txs) = (case apply_tx Hash h \<sigma> tx of
     None \<Rightarrow> None
   | Some (us, \<sigma>) \<Rightarrow> map_option (\<lambda>(uss, \<sigma>). (us # uss, \<sigma>)) (apply_txs Hash h \<sigma> txs))"

context cache_on_view
begin

lemma modifying_law:
  assumes "cinv c"
  shows "\<exists>coins. live coins = ccontent c t \<and> Cleanup coins = coins \<and>
    (case f coins of
       None \<Rightarrow> modifying get c t f = None
     | Some (coins', x) \<Rightarrow> (\<forall>y. live coins' = Some y \<longrightarrow> ok y) \<longrightarrow>
         (\<exists>c'. modifying get c t f = Some (x, c') \<and> cinv c' \<and> ccontent c' = (ccontent c)(t := live coins') \<and>
           cache_tip tip c' = cache_tip tip c))"
proof -
  from modify_law [OF assms, of t] obtain coins c1 where
    m: "ModifyCoins get c t = Some (coins, c1)" "live coins = ccontent c t" "Cleanup coins = coins"
    and r: "\<And>coins'. (\<forall>x. live coins' = Some x \<longrightarrow> ok x) \<Longrightarrow>
      \<exists>c2. release c1 t coins' = Some c2 \<and> cinv c2 \<and> ccontent c2 = (ccontent c)(t := live coins') \<and>
        cache_tip tip c2 = cache_tip tip c" by blast
  show ?thesis
  proof (cases "f coins")
    case None
    then show ?thesis using m by (intro exI [of _ coins]) (simp add: modifying_def)
  next
    case (Some y)
    then show ?thesis using m r [of "fst y"] by (intro exI [of _ coins]) (cases y, auto simp: modifying_def)
  qed
qed

end

locale coins_changes = cache_on_view +
  assumes ok_spend: "ok c \<Longrightarrow> Spend c p = Some (c', u) \<Longrightarrow> live c' = Some x \<Longrightarrow> ok x"
begin

lemma content_ok_cached: "cinv c \<Longrightarrow> ccontent c t = Some x \<Longrightarrow> ok x"
  by (rule cached.content_ok)

lemma spend_law:
  assumes "cinv c"
  shows "case spend (ccontent c) p of
      None \<Rightarrow> modifying get c (op_hash p) (\<lambda>coins. Spend coins p) = None
    | Some (u, \<sigma>) \<Rightarrow> \<exists>c'. modifying get c (op_hash p) (\<lambda>coins. Spend coins p) = Some (u, c') \<and> cinv c' \<and>
        ccontent c' = \<sigma> \<and> cache_tip tip c' = cache_tip tip c"
proof -
  from modifying_law [OF assms, of "op_hash p" "\<lambda>coins. Spend coins p"] obtain coins where
    l: "live coins = ccontent c (op_hash p)" "Cleanup coins = coins"
    and m: "case Spend coins p of
       None \<Rightarrow> modifying get c (op_hash p) (\<lambda>coins. Spend coins p) = None
     | Some (coins', x) \<Rightarrow> (\<forall>y. live coins' = Some y \<longrightarrow> ok y) \<longrightarrow>
         (\<exists>c'. modifying get c (op_hash p) (\<lambda>coins. Spend coins p) = Some (x, c') \<and> cinv c' \<and>
           ccontent c' = (ccontent c)(op_hash p := live coins') \<and> cache_tip tip c' = cache_tip tip c)" by blast
  show ?thesis
  proof (cases "ccontent c (op_hash p)")
    case None
    then have "IsPruned coins" using l(1) by (simp add: live_None)
    then have "\<not> IsAvailable coins (op_n p)" by (simp add: IsAvailable_out_at IsPruned_out_at)
    then have "Spend coins p = None" using Spend_Some_iff [of coins p] by (metis option.exhaust)
    then show ?thesis using None m by (simp add: spend_def)
  next
    case (Some x)
    then have "coins = x" using l by (auto simp: live_def split: if_splits)
    then show ?thesis using Some m ok_spend [of coins p] content_ok_cached [OF assms Some]
      by (cases "Spend coins p") (auto simp: spend_def)
  qed
qed

lemma spend_inputs_law:
  assumes "cinv c"
  shows "case spend_all (ccontent c) (map prevout ins) of
      None \<Rightarrow> spend_inputs get ins vprevout c = None
    | Some (us, \<sigma>) \<Rightarrow> \<exists>c'. spend_inputs get ins vprevout c = Some (vprevout @ us, c') \<and> cinv c' \<and>
        ccontent c' = \<sigma> \<and> cache_tip tip c' = cache_tip tip c"
  using assms
proof (induction ins arbitrary: c vprevout)
  case (Cons i ins)
  note s = spend_law [OF Cons.prems, of "prevout i"]
  show ?case
  proof (cases "spend (ccontent c) (prevout i)")
    case None
    then show ?thesis using s by simp
  next
    case (Some a)
    obtain u \<sigma> where a: "a = (u, \<sigma>)" by fastforce
    from s Some a obtain c1 where
      c1: "modifying get c (op_hash (prevout i)) (\<lambda>coins. Spend coins (prevout i)) = Some (u, c1)" "cinv c1"
        "ccontent c1 = \<sigma>" "cache_tip tip c1 = cache_tip tip c" by auto
    show ?thesis using Cons.IH [OF c1(2), of "vprevout @ [u]"] c1 Some a
      by (cases "spend_all \<sigma> (map prevout ins)") auto
  qed
qed simp

lemma UpdateCoins_law:
  assumes "cinv c" "\<And>x. live (FromTx tx (word_of_int h)) = Some x \<Longrightarrow> ok x"
  shows "case apply_tx Hash (word_of_int h) (ccontent c) tx of
      None \<Rightarrow> UpdateCoins Hash get tx c h = None
    | Some (us, \<sigma>) \<Rightarrow> \<exists>c'. UpdateCoins Hash get tx c h = Some (us, c') \<and> cinv c' \<and> ccontent c' = \<sigma> \<and>
        cache_tip tip c' = cache_tip tip c"
proof -
  have add: "\<exists>c'. modifying get c1 (tx_GetHash Hash tx) (\<lambda>_. Some (FromTx tx (word_of_int h), ())) = Some ((), c') \<and> cinv c' \<and>
      ccontent c' = (ccontent c1)(tx_GetHash Hash tx := live (FromTx tx (word_of_int h))) \<and>
      cache_tip tip c' = cache_tip tip c1" if "cinv c1" for c1
    using modifying_law [OF that, of "tx_GetHash Hash tx" "\<lambda>_. Some (FromTx tx (word_of_int h), ())"] assms(2) by auto
  show ?thesis
  proof (cases "IsCoinBase tx")
    case True
    from add [OF assms(1)] obtain c' where
      "modifying get c (tx_GetHash Hash tx) (\<lambda>_. Some (FromTx tx (word_of_int h), ())) = Some ((), c')" "cinv c'"
      "ccontent c' = (ccontent c)(tx_GetHash Hash tx := live (FromTx tx (word_of_int h)))"
      "cache_tip tip c' = cache_tip tip c" by blast
    then show ?thesis using True by (simp add: apply_tx_def UpdateCoins_def)
  next
    case False
    note s = spend_inputs_law [OF assms(1), of "vin tx" "[]"]
    show ?thesis
    proof (cases "spend_all (ccontent c) (map prevout (vin tx))")
      case None
      then show ?thesis using s False by (simp add: apply_tx_def UpdateCoins_def)
    next
      case (Some a)
      obtain us \<sigma> where a: "a = (us, \<sigma>)" by fastforce
      from s Some a obtain c1 where "spend_inputs get (vin tx) [] c = Some (us, c1)" "cinv c1" "ccontent c1 = \<sigma>"
        "cache_tip tip c1 = cache_tip tip c" by auto
      moreover from add [OF this(2)] obtain c' where
        "modifying get c1 (tx_GetHash Hash tx) (\<lambda>_. Some (FromTx tx (word_of_int h), ())) = Some ((), c')" "cinv c'"
        "ccontent c' = (ccontent c1)(tx_GetHash Hash tx := live (FromTx tx (word_of_int h)))"
        "cache_tip tip c' = cache_tip tip c1" by blast
      ultimately show ?thesis using Some a False by (simp add: apply_tx_def UpdateCoins_def)
    qed
  qed
qed

end

subsection \<open>Disconnecting undoes connecting\<close>

text \<open>Outputs are told apart by what they offer when spent ones are all written the same way.\<close>

definition nulls_ok :: "CTxOut list \<Rightarrow> bool" where
  "nulls_ok outs \<longleftrightarrow> (\<forall>x \<in> set outs. CTxOut_IsNull x \<longrightarrow> x = CTxOut_SetNull)"

lemma length_drop_null: "length (drop_null xs) \<le> length xs"
  using length_dropWhile_le [of CTxOut_IsNull "rev xs"] by (simp add: drop_null_def)

lemma vout_eqI:
  assumes "drop_null xs = xs" "drop_null ys = ys" "nulls_ok xs" "nulls_ok ys"
    and "\<And>n. out_at xs n = out_at ys n"
  shows "xs = ys"
proof -
  have last: "length xs \<le> length ys" if "drop_null xs = xs" "\<And>n. out_at xs n = out_at ys n" for xs ys
  proof (rule ccontr)
    assume l: "\<not> ?thesis"
    then have ne: "xs \<noteq> []" by auto
    have "\<not> CTxOut_IsNull (last xs)"
    proof
      assume "CTxOut_IsNull (last xs)"
      then have "drop_null xs = drop_null (butlast xs)"
        using ne drop_null_append [of "[last xs]" "butlast xs"] by simp
      moreover have "length (drop_null (butlast xs)) \<le> length (butlast xs)"
        by (rule length_drop_null)
      ultimately show False using that(1) ne by (metis diff_less length_butlast length_greater_0_conv not_less zero_less_one)
    qed
    then have "out_at xs (length xs - 1) \<noteq> None" using ne by (simp add: out_at_def last_conv_nth)
    moreover have "out_at ys (length xs - 1) = None" using l by (simp add: out_at_def) linarith
    ultimately show False using that(2) by simp
  qed
  have len: "length xs = length ys" using last [of xs ys] last [of ys xs] assms(1,2,5) by simp
  show ?thesis
  proof (rule nth_equalityI [OF len])
    fix i assume i: "i < length xs"
    have n: "CTxOut_IsNull (xs ! i) \<Longrightarrow> xs ! i = CTxOut_SetNull" "CTxOut_IsNull (ys ! i) \<Longrightarrow> ys ! i = CTxOut_SetNull"
      using assms(3,4) i len by (auto simp: nulls_ok_def)
    show "xs ! i = ys ! i" using assms(5) [of i] i len n by (auto simp: out_at_def split: if_splits)
  qed
qed

text \<open>Coins that \<^verbatim>\<open>DisconnectBlock\<close> can put back.\<close>

definition restorable :: "CCoins \<Rightarrow> bool" where
  "restorable c \<longleftrightarrow> Cleanup c = c \<and> nulls_ok (c_vout c) \<and> c_nHeight c \<noteq> 0 \<and> length (c_vout c) < 2 ^ 32"

lemma set_drop_null: "set (drop_null xs) \<subseteq> set xs"
  by (auto simp: drop_null_def dest: set_dropWhileD)

lemma nulls_ok_drop: "nulls_ok xs \<Longrightarrow> nulls_ok (drop_null xs)"
  using set_drop_null [of xs] by (auto simp: nulls_ok_def)

lemma restorable_vout: "restorable c \<Longrightarrow> drop_null (c_vout c) = c_vout c"
proof -
  assume "restorable c"
  then have "c_vout (Cleanup c) = c_vout c" by (metis restorable_def)
  then show ?thesis by (simp add: Cleanup_def)
qed

lemma nulls_ok_update: "nulls_ok xs \<Longrightarrow> \<not> CTxOut_IsNull x \<or> x = CTxOut_SetNull \<Longrightarrow> nulls_ok (xs[i := x])"
  by (auto simp: nulls_ok_def dest!: set_update_subset_insert [THEN subsetD])

lemma Spend_restorable:
  assumes "restorable c" "Spend c p = Some (c', u)" "live c' = Some x"
  shows "restorable x"
proof -
  let ?outs = "drop_null ((c_vout c)[unat (op_n p) := CTxOut_SetNull])"
  note s = Spend_SomeD [OF assms(2)]
  have x: "x = c'" "c' = c\<lparr>c_vout := ?outs\<rparr>"
    using assms(3) s(1) by (auto simp: live_def Cleanup_def split: if_splits)
  have "length ?outs \<le> length (c_vout c)"
    using length_drop_null [of "(c_vout c)[unat (op_n p) := CTxOut_SetNull]"] by simp
  then show ?thesis using assms(1) x nulls_ok_drop nulls_ok_update
    by (auto simp: restorable_def Cleanup_def)
qed

lemma live_eqI:
  assumes "restorable x" "nulls_ok (c_vout r)" "\<And>m. out_at (c_vout r) m = out_at (c_vout x) m" "out_at (c_vout x) n \<noteq> None"
    and "c_fCoinBase r = c_fCoinBase x" "c_fCoinStake r = c_fCoinStake x" "c_nHeight r = c_nHeight x" "c_nVersion r = c_nVersion x"
  shows "live r = Some x"
proof -
  have n: "nulls_ok (c_vout x)" using assms(1) by (simp add: restorable_def)
  have "drop_null (c_vout r) = c_vout x"
    by (rule vout_eqI) (simp_all add: restorable_vout [OF assms(1)] nulls_ok_drop n assms(2,3))
  then have "Cleanup r = x" using assms(5-8) by (simp add: Cleanup_def)
  moreover have "\<not> IsPruned r" using assms(3,4) by (auto simp: IsPruned_out_at)
  ultimately show ?thesis by (simp add: live_def)
qed

lemma restore_spend_flag:
  assumes x: "restorable x" and s: "Spend x p = Some (c', u)"
    and l: "live coins = live c'" "Cleanup coins = coins"
  shows "\<exists>r. restore_input u p True coins = Some (r, True) \<and> live r = Some (if u_fCoinStake u then x\<lparr>c_fCoinStake := False\<rparr> else x)"
proof -
  define y where "y = (if u_fCoinStake u then x\<lparr>c_fCoinStake := False\<rparr> else x)"
  have y: "restorable y" "c_vout y = c_vout x" 
    using x restorable_vout [OF x] by (cases x, auto simp: y_def restorable_def Cleanup_def)+
  have y2: "c_fCoinBase y = c_fCoinBase x" "c_nHeight y = c_nHeight x" "c_nVersion y = c_nVersion x" by (auto simp: y_def)
  let ?n = "unat (op_n p)"
  note S = Spend_SomeD [OF s] and O = Spend_out_at [OF s]
  have "?n < 2 ^ 32 - 1" using S(3) x by (simp add: restorable_def)
  then have n1: "unat (op_n p + 1) = ?n + 1" using unat_add_lem [of "op_n p" 1] by simp
  have t: "\<not> CTxOut_IsNull (u_txout u)" using S(2) by (auto simp: out_at_def split: if_splits)
  define base where "base = (if u_nHeight u \<noteq> 0
    then CCoins_empty\<lparr>c_fCoinBase := u_fCoinBase u, c_nHeight := u_nHeight u, c_nVersion := u_nVersion u\<rparr> else coins)"
  define outs where "outs = (c_vout base @ replicate (?n + 1 - length (c_vout base)) CTxOut_SetNull)[?n := u_txout u]"
  have cc: "Cleanup c' = c'" using S(1) by simp
  have key: "(\<forall>m. out_at (c_vout base) m = out_at (c_vout c') m) \<and> nulls_ok (c_vout base) \<and>
      c_fCoinBase base = c_fCoinBase y \<and> c_fCoinStake base = c_fCoinStake y \<and> c_nHeight base = c_nHeight y \<and>
      c_nVersion base = c_nVersion y \<and> (u_nHeight u \<noteq> 0 \<longrightarrow> IsPruned coins) \<and> (u_nHeight u = 0 \<longrightarrow> \<not> IsPruned coins)"
  proof (cases "IsPruned c'")
    case True
    then have "live coins = None" using l(1) by (simp add: live_None)
    then have "IsPruned coins" by (simp add: live_None)
    moreover have "u_nHeight u \<noteq> 0" "base = CCoins_empty\<lparr>c_fCoinBase := c_fCoinBase x, c_nHeight := c_nHeight x, c_nVersion := c_nVersion x\<rparr>"
      "\<not> c_fCoinStake y"
      using S(4-7) True x by (auto simp: base_def restorable_def y_def)
    moreover have "out_at (c_vout c') m = None" for m using True by (simp add: IsPruned_out_at)
    ultimately show ?thesis by (simp add: CCoins_empty_def out_at_def nulls_ok_def y2)
  next
    case False
    then have "live coins = Some c'" using l(1) cc by (simp add: live_def)
    then have c: "coins = c'" "\<not> IsPruned coins" using l(2) by (auto simp: live_def split: if_splits)
    have b: "base = c'" "u_nHeight u = 0" using S(4) False c by (auto simp: base_def)
    have "restorable c'" using Spend_restorable [OF x s] False cc by (simp add: live_def)
    moreover have "y = x" using S(7) False by (simp add: y_def)
    ultimately show ?thesis using b c S(1) by (auto simp: restorable_def Cleanup_def)
  qed
  have nl: "?n < length (c_vout base @ replicate (?n + 1 - length (c_vout base)) CTxOut_SetNull)" by auto
  have oa: "out_at outs m = out_at (c_vout x) m" for m
  proof -
    have "out_at outs m = (if m = ?n then Some (u_txout u) else out_at (c_vout base) m)"
      using nl t by (simp add: outs_def out_at_update out_at_append_null)
    then show ?thesis using key O [of m] S(2) by auto
  qed
  have "nulls_ok (c_vout base @ replicate (?n + 1 - length (c_vout base)) CTxOut_SetNull)"
    using key by (auto simp: nulls_ok_def)
  then have nk: "nulls_ok outs" using t by (auto simp: outs_def intro: nulls_ok_update)
  have "\<not> IsAvailable base (op_n p)" using key O [of ?n] by (simp add: IsAvailable_out_at)
  then have "restore_input u p True coins = Some (base\<lparr>c_vout := outs\<rparr>, True)"
    using key nl by (auto simp: restore_input_def base_def outs_def n1 Let_def)
  moreover have "live (base\<lparr>c_vout := outs\<rparr>) = Some y"
    using key oa nk S(2) y(2) by (intro live_eqI [OF y(1), where n = ?n]) auto
  ultimately show ?thesis unfolding y_def by blast
qed

lemma restore_spend:
  assumes "restorable x" "Spend x p = Some (c', u)" "\<not> u_fCoinStake u" "live coins = live c'" "Cleanup coins = coins"
  shows "\<exists>r. restore_input u p True coins = Some (r, True) \<and> live r = Some x"
  using restore_spend_flag [OF assms(1,2,4,5)] assms(3) by simp

lemma spend_SomeD:
  assumes "spend \<sigma> p = Some (u, \<sigma>')"
  obtains x c' where "\<sigma> (op_hash p) = Some x" "Spend x p = Some (c', u)" "\<sigma>' = \<sigma>(op_hash p := live c')"
  using assms by (auto simp: spend_def split: option.splits)

lemma spend_None: "spend \<sigma> p = Some (u, \<sigma>') \<Longrightarrow> \<sigma> t = None \<Longrightarrow> \<sigma>' t = None"
  by (erule spend_SomeD) auto

lemma spend_all_None: "spend_all \<sigma> ps = Some (us, \<sigma>') \<Longrightarrow> \<sigma> t = None \<Longrightarrow> \<sigma>' t = None"
  by (induction ps arbitrary: \<sigma> us) (auto split: option.splits dest: spend_None)

lemma spend_all_length: "spend_all \<sigma> ps = Some (us, \<sigma>') \<Longrightarrow> length us = length ps"
  by (induction ps arbitrary: \<sigma> us) (auto split: option.splits)

definition sound :: "(CCoins \<Rightarrow> bool) \<Rightarrow> (uint256 \<Rightarrow> CCoins option) \<Rightarrow> bool" where
  "sound ok \<sigma> \<longleftrightarrow> (\<forall>t x. \<sigma> t = Some x \<longrightarrow> ok x \<and> restorable x)"

lemma restore_inputs_append:
  "restore_inputs g (xs @ ys) f c =
     (case restore_inputs g xs f c of None \<Rightarrow> None | Some (f, c) \<Rightarrow> restore_inputs g ys f c)"
  by (induction xs arbitrary: f c) (auto split: option.splits)

lemma ClearUnspendable_idem:
  "ClearUnspendable (FromTx tx h) = FromTx tx h"
proof -
  define f where "f = (\<lambda>out. if IsUnspendable (scriptPubKey out) then CTxOut_SetNull else out)"
  have ff: "f (f x) = f x" for x by (simp add: f_def)
  have "map f (drop_null (map f (vout tx))) = drop_null (map f (vout tx))"
    using set_drop_null [of "map f (vout tx)"] by (intro map_idI) (auto simp: ff)
  then show ?thesis by (simp add: FromTx_def ClearUnspendable_def Cleanup_def flip: f_def)
qed

lemma Cleanup_FromTx [simp]: "Cleanup (FromTx tx h) = FromTx tx h"
  by (simp add: FromTx_def ClearUnspendable_def)

lemma IsPruned_ClearUnspendable: "IsPruned c \<Longrightarrow> IsPruned (ClearUnspendable c)"
  by (auto simp: ClearUnspendable_def) (auto simp: IsPruned_def list_all_iff)

lemma remove_outputs_same:
  assumes "live coins = live (FromTx tx h)" "Cleanup coins = coins"
  shows "remove_outputs tx h coins = Some (CCoins_empty, True)"
proof (cases "IsPruned (FromTx tx h)")
  case True
  then have "live coins = None" using assms(1) by (simp add: live_None)
  then have "IsPruned (ClearUnspendable coins)" by (simp add: live_None IsPruned_ClearUnspendable)
  then have "IsPruned (ClearUnspendable coins\<lparr>c_nVersion := v\<rparr>)" for v by (simp add: IsPruned_def)
  then show ?thesis using True \<open>IsPruned (ClearUnspendable coins)\<close>
    by (simp add: remove_outputs_def CCoins_eq_def Let_def)
next
  case False
  then have "live coins = Some (FromTx tx h)" using assms(1) by (simp add: live_def)
  then have "coins = FromTx tx h" using assms(2) by (auto simp: live_def split: if_splits)
  then show ?thesis by (simp add: remove_outputs_def CCoins_eq_def Let_def ClearUnspendable_idem)
qed

text \<open>Transactions whose outputs have the spent form only if it is the one of \<^verbatim>\<open>SetNull\<close>; none has by the rules.\<close>

definition plain_tx :: "CTransaction \<Rightarrow> bool" where
  "plain_tx tx \<longleftrightarrow> nulls_ok (vout tx) \<and> length (vout tx) < 2 ^ 32"

lemma FromTx_restorable:
  assumes "plain_tx tx" "h \<noteq> 0"
  shows "restorable (FromTx tx h)"
proof -
  let ?outs = "map (\<lambda>out. if IsUnspendable (scriptPubKey out) then CTxOut_SetNull else out) (vout tx)"
  have "nulls_ok ?outs" using assms(1) by (auto simp: plain_tx_def nulls_ok_def)
  moreover have "length (drop_null ?outs) \<le> length ?outs"
    by (rule length_drop_null)
  moreover have "c_vout (FromTx tx h) = drop_null ?outs" "c_nHeight (FromTx tx h) = h"
    by (simp_all add: FromTx_def ClearUnspendable_def Cleanup_def)
  ultimately show ?thesis using assms unfolding restorable_def plain_tx_def
    by (simp add: nulls_ok_drop)
qed

lemma live_FromTx: "live (FromTx tx h) = Some x \<Longrightarrow> x = FromTx tx h"
  by (auto simp: live_def split: if_splits)

context coins_changes
begin

lemma sound_spend: "sound ok \<sigma> \<Longrightarrow> spend \<sigma> p = Some (u, \<sigma>') \<Longrightarrow> sound ok \<sigma>'"
  by (erule spend_SomeD) (auto simp: sound_def intro: ok_spend Spend_restorable)

lemma sound_spend_all: "sound ok \<sigma> \<Longrightarrow> spend_all \<sigma> ps = Some (us, \<sigma>') \<Longrightarrow> sound ok \<sigma>'"
  by (induction ps arbitrary: \<sigma> us) (auto split: option.splits dest: sound_spend)

lemma restore_input_law:
  assumes "cinv c" "sound ok \<sigma>" "spend \<sigma> p = Some (u, ccontent c)" "\<not> u_fCoinStake u"
  shows "\<exists>c'. modifying get c (op_hash p) (restore_input u p True) = Some (True, c') \<and> cinv c' \<and> ccontent c' = \<sigma> \<and>
    cache_tip tip c' = cache_tip tip c"
proof -
  from assms(3) obtain x c1 where x: "\<sigma> (op_hash p) = Some x" "Spend x p = Some (c1, u)" "ccontent c = \<sigma>(op_hash p := live c1)"
    by (rule spend_SomeD)
  have r: "restorable x" "ok x" using assms(2) x(1) by (auto simp: sound_def)
  from modifying_law [OF assms(1), of "op_hash p" "restore_input u p True"] obtain coins where
    l: "live coins = ccontent c (op_hash p)" "Cleanup coins = coins"
    and m: "case restore_input u p True coins of
       None \<Rightarrow> modifying get c (op_hash p) (restore_input u p True) = None
     | Some (coins', x) \<Rightarrow> (\<forall>y. live coins' = Some y \<longrightarrow> ok y) \<longrightarrow>
         (\<exists>c'. modifying get c (op_hash p) (restore_input u p True) = Some (x, c') \<and> cinv c' \<and>
           ccontent c' = (ccontent c)(op_hash p := live coins') \<and> cache_tip tip c' = cache_tip tip c)" by blast
  have "live coins = live c1" using l(1) x(3) by simp
  from restore_spend [OF r(1) x(2) assms(4) this l(2)] obtain r where
    "restore_input u p True coins = Some (r, True)" "live r = Some x" by blast
  moreover have "\<sigma>(op_hash p := Some x) = \<sigma>" using x(1) by auto
  ultimately show ?thesis using m r(2) x(3) by auto
qed

lemma restore_inputs_law:
  assumes "cinv c" "sound ok \<sigma>" "spend_all \<sigma> ps = Some (us, ccontent c)" "\<forall>u \<in> set us. \<not> u_fCoinStake u"
  shows "\<exists>c'. restore_inputs get (rev (zip ps us)) True c = Some (True, c') \<and> cinv c' \<and> ccontent c' = \<sigma> \<and>
    cache_tip tip c' = cache_tip tip c"
  using assms(2-)
proof (induction ps arbitrary: \<sigma> us)
  case Nil
  then show ?case using assms(1) by auto
next
  case (Cons p ps)
  from Cons.prems(2) obtain u \<sigma>1 us' where
    u: "spend \<sigma> p = Some (u, \<sigma>1)" "spend_all \<sigma>1 ps = Some (us', ccontent c)" "us = u # us'"
    by (auto split: option.splits)
  from Cons.IH [OF sound_spend [OF Cons.prems(1) u(1)] u(2)] Cons.prems(3) u(3) obtain c1 where
    c1: "restore_inputs get (rev (zip ps us')) True c = Some (True, c1)" "cinv c1" "ccontent c1 = \<sigma>1"
      "cache_tip tip c1 = cache_tip tip c" by auto
  from restore_input_law [OF c1(2) Cons.prems(1), of p u] u c1(3) Cons.prems(3) obtain c2 where
    "modifying get c1 (op_hash p) (restore_input u p True) = Some (True, c2)" "cinv c2" "ccontent c2 = \<sigma>"
    "cache_tip tip c2 = cache_tip tip c1" by auto
  then show ?case using c1 u(3) by (simp add: restore_inputs_append)
qed

lemma remove_outputs_law:
  assumes "cinv c" "ccontent c = \<sigma>(tx_GetHash Hash tx := live (FromTx tx h))" "\<sigma> (tx_GetHash Hash tx) = None"
  shows "\<exists>c'. modifying get c (tx_GetHash Hash tx) (remove_outputs tx h) = Some (True, c') \<and> cinv c' \<and> ccontent c' = \<sigma> \<and>
    cache_tip tip c' = cache_tip tip c"
proof -
  let ?t = "tx_GetHash Hash tx"
  from modifying_law [OF assms(1), of ?t "remove_outputs tx h"] obtain coins where
    l: "live coins = ccontent c ?t" "Cleanup coins = coins"
    and m: "case remove_outputs tx h coins of
       None \<Rightarrow> modifying get c ?t (remove_outputs tx h) = None
     | Some (coins', x) \<Rightarrow> (\<forall>y. live coins' = Some y \<longrightarrow> ok y) \<longrightarrow>
         (\<exists>c'. modifying get c ?t (remove_outputs tx h) = Some (x, c') \<and> cinv c' \<and>
           ccontent c' = (ccontent c)(?t := live coins') \<and> cache_tip tip c' = cache_tip tip c)" by blast
  have "remove_outputs tx h coins = Some (CCoins_empty, True)"
    using remove_outputs_same l assms(2) by simp
  moreover have "\<sigma>(?t := None) = \<sigma>" using assms(3) by auto
  ultimately show ?thesis using m assms(2) by auto
qed

end

subsection \<open>Whole blocks\<close>

lemma apply_tx_SomeD:
  assumes "apply_tx Hash h \<sigma> tx = Some (us, \<sigma>')"
  obtains \<sigma>1 where "\<sigma>' = \<sigma>1(tx_GetHash Hash tx := live (FromTx tx h))"
    "if IsCoinBase tx then us = [] \<and> \<sigma>1 = \<sigma> else spend_all \<sigma> (map prevout (vin tx)) = Some (us, \<sigma>1)"
  using assms by (auto simp: apply_tx_def split: if_splits)

lemma apply_tx_None:
  "apply_tx Hash h \<sigma> tx = Some (us, \<sigma>') \<Longrightarrow> \<sigma> t = None \<Longrightarrow> t \<noteq> tx_GetHash Hash tx \<Longrightarrow> \<sigma>' t = None"
  by (erule apply_tx_SomeD) (auto split: if_splits dest: spend_all_None)

lemma apply_txs_snoc:
  "apply_txs Hash h \<sigma> (txs @ [tx]) = (case apply_txs Hash h \<sigma> txs of
     None \<Rightarrow> None
   | Some (uss, \<sigma>') \<Rightarrow> map_option (\<lambda>(us, \<sigma>''). (uss @ [us], \<sigma>'')) (apply_tx Hash h \<sigma>' tx))"
  by (induction txs arbitrary: \<sigma>) (auto simp: map_option_case split: option.splits prod.splits)

lemma apply_txs_None:
  "apply_txs Hash h \<sigma> txs = Some (uss, \<sigma>') \<Longrightarrow> \<sigma> t = None \<Longrightarrow> t \<notin> tx_GetHash Hash ` set txs \<Longrightarrow> \<sigma>' t = None"
  by (induction txs arbitrary: \<sigma> uss) (auto split: option.splits dest: apply_tx_None)

lemma apply_txs_length: "apply_txs Hash h \<sigma> txs = Some (uss, \<sigma>') \<Longrightarrow> length uss = length txs"
  by (induction txs arbitrary: \<sigma> uss) (auto split: option.splits)

text \<open>
  The transactions of a block on a content: one coinbase, first; no transaction is in the content
  or twice in the block; outputs as the rules ask.
\<close>

definition block_txs_ok ::
  "(bytes \<Rightarrow> bytes) \<Rightarrow> (uint256 \<Rightarrow> CCoins option) \<Rightarrow> CTransaction list \<Rightarrow> bool" where
  "block_txs_ok Hash \<sigma> txs \<longleftrightarrow> txs \<noteq> [] \<and> distinct (map (tx_GetHash Hash) txs) \<and>
     (\<forall>tx \<in> set txs. plain_tx tx \<and> \<sigma> (tx_GetHash Hash tx) = None) \<and>
     (\<forall>i < length txs. IsCoinBase (txs ! i) \<longleftrightarrow> i = 0)"

context coins_changes
begin

lemma sound_apply_tx:
  assumes "sound ok \<sigma>" "apply_tx Hash h \<sigma> tx = Some (us, \<sigma>')" "plain_tx tx" "h \<noteq> 0"
    and "\<And>x. live (FromTx tx h) = Some x \<Longrightarrow> ok x"
  shows "sound ok \<sigma>'"
proof -
  from assms(2) obtain \<sigma>1 where s: "\<sigma>' = \<sigma>1(tx_GetHash Hash tx := live (FromTx tx h))"
    "if IsCoinBase tx then us = [] \<and> \<sigma>1 = \<sigma> else spend_all \<sigma> (map prevout (vin tx)) = Some (us, \<sigma>1)"
    by (rule apply_tx_SomeD)
  have "sound ok \<sigma>1" using s(2) assms(1) sound_spend_all by (auto split: if_splits)
  moreover have "restorable x \<and> ok x" if "live (FromTx tx h) = Some x" for x
    using that live_FromTx [OF that] FromTx_restorable [OF assms(3,4)] assms(5) by simp
  ultimately show ?thesis using s(1) by (auto simp: sound_def)
qed

lemma sound_apply_txs:
  assumes "sound ok \<sigma>" "apply_txs Hash h \<sigma> txs = Some (uss, \<sigma>')" "h \<noteq> 0"
    and "\<And>tx. tx \<in> set txs \<Longrightarrow> plain_tx tx" "\<And>tx x. tx \<in> set txs \<Longrightarrow> live (FromTx tx h) = Some x \<Longrightarrow> ok x"
  shows "sound ok \<sigma>'"
  using assms(1,2,4,5)
proof (induction txs arbitrary: \<sigma> uss)
  case (Cons tx txs)
  from Cons.prems(2) obtain us \<sigma>1 uss' where "apply_tx Hash h \<sigma> tx = Some (us, \<sigma>1)"
    "apply_txs Hash h \<sigma>1 txs = Some (uss', \<sigma>')" by (auto split: option.splits)
  then show ?case
    using Cons.IH [of \<sigma>1 uss'] sound_apply_tx [OF Cons.prems(1), of Hash h tx us \<sigma>1] Cons.prems(3,4) assms(3) by auto
qed simp

lemma disconnect_loop_law:
  fixes txs Hash h
  assumes "sound ok \<sigma>" "h \<noteq> 0" "\<And>tx. tx \<in> set txs \<Longrightarrow> plain_tx tx"
    and "\<And>tx x. tx \<in> set txs \<Longrightarrow> live (FromTx tx h) = Some x \<Longrightarrow> ok x"
    and "distinct (map (tx_GetHash Hash) txs)" "\<And>tx. tx \<in> set txs \<Longrightarrow> \<sigma> (tx_GetHash Hash tx) = None"
    and "\<And>i. i < length txs \<Longrightarrow> IsCoinBase (txs ! i) \<longleftrightarrow> i = 0"
    and "\<forall>us \<in> set uss. \<forall>u \<in> set us. \<not> u_fCoinStake u"
    and "length uss = length txs"
  shows "i \<le> length txs \<Longrightarrow> cinv c \<Longrightarrow> apply_txs Hash h \<sigma> (take i txs) = Some (take i uss, ccontent c) \<Longrightarrow>
    \<exists>c'. disconnect_loop Hash get txs (tl uss) h i True c = Some (True, True, c') \<and> cinv c' \<and> ccontent c' = \<sigma> \<and>
      cache_tip tip c' = cache_tip tip c"
proof (induction i arbitrary: c)
  case 0
  then show ?case by auto
next
  case (Suc i)
  let ?tx = "txs ! i" and ?t = "tx_GetHash Hash (txs ! i)"
  have i: "i < length txs" "i < length uss" "?tx \<in> set txs" using Suc.prems(1) assms(9) by auto
  have "take (Suc i) txs = take i txs @ [?tx]" using i by (simp add: take_Suc_conv_app_nth)
  then obtain uss1 us \<sigma>1 where "apply_txs Hash h \<sigma> (take i txs) = Some (uss1, \<sigma>1)"
    "apply_tx Hash h \<sigma>1 ?tx = Some (us, ccontent c)" "uss1 @ [us] = take (Suc i) uss"
    using Suc.prems(3) by (auto simp: apply_txs_snoc split: option.splits)
  moreover from this(3) have "uss1 = take i uss" "us = uss ! i" using i(2) by (simp_all add: take_Suc_conv_app_nth)
  ultimately have s1: "apply_txs Hash h \<sigma> (take i txs) = Some (take i uss, \<sigma>1)"
    "apply_tx Hash h \<sigma>1 ?tx = Some (uss ! i, ccontent c)" by simp_all
  have "?t \<notin> tx_GetHash Hash ` set (take i txs)"
  proof
    assume "?t \<in> tx_GetHash Hash ` set (take i txs)"
    then obtain j where "j < i" "tx_GetHash Hash (txs ! j) = ?t" by (auto simp: in_set_conv_nth)
    then show False using nth_eq_iff_index_eq [OF assms(5), of j i] i(1) by simp
  qed
  then have n1: "\<sigma>1 ?t = None" using apply_txs_None [OF s1(1)] assms(6) i by auto
  have so1: "sound ok \<sigma>1"
    by (rule sound_apply_txs [OF assms(1) s1(1) assms(2)]) (use assms(3,4) in \<open>auto dest: in_set_takeD\<close>)
  from s1(2) obtain \<sigma>2 where s2: "ccontent c = \<sigma>2(?t := live (FromTx ?tx h))"
    "if IsCoinBase ?tx then uss ! i = [] \<and> \<sigma>2 = \<sigma>1 else spend_all \<sigma>1 (map prevout (vin ?tx)) = Some (uss ! i, \<sigma>2)"
    by (rule apply_tx_SomeD)
  have "\<sigma>2 ?t = None" using s2(2) n1 by (auto split: if_splits dest: spend_all_None)
  from remove_outputs_law [OF Suc.prems(2) s2(1) this] obtain c2 where
    c2: "modifying get c ?t (remove_outputs ?tx h) = Some (True, c2)" "cinv c2" "ccontent c2 = \<sigma>2"
      "cache_tip tip c2 = cache_tip tip c" by blast
  show ?case
  proof (cases "i = 0")
    case True
    then have "IsCoinBase ?tx" using assms(7) [OF i(1)] by simp
    then have "ccontent c2 = \<sigma>" using s2(2) s1(1) c2(3) True by simp
    then show ?thesis using c2 True by simp
  next
    case False
    then have nc: "\<not> IsCoinBase ?tx" using assms(7) [OF i(1)] by simp
    have sp: "spend_all \<sigma>1 (map prevout (vin ?tx)) = Some (uss ! i, ccontent c2)" using s2(2) nc c2(3) by simp
    have u: "tl uss ! (i - 1) = uss ! i" "length (uss ! i) = length (vin ?tx)"
      using False i(2) spend_all_length [OF sp] by (auto simp: nth_tl)
    have "\<forall>u \<in> set (uss ! i). \<not> u_fCoinStake u" using assms(8) nth_mem [OF i(2)] by blast
    from restore_inputs_law [OF c2(2) so1 sp this] obtain c3 where
      c3: "restore_inputs get (rev (zip (map prevout (vin ?tx)) (uss ! i))) True c2 = Some (True, c3)" "cinv c3"
        "ccontent c3 = \<sigma>1" "cache_tip tip c3 = cache_tip tip c2" by blast
    from Suc.IH [OF _ c3(2)] s1(1) c3(3) i obtain c4 where
      "disconnect_loop Hash get txs (tl uss) h i True c3 = Some (True, True, c4)" "cinv c4" "ccontent c4 = \<sigma>"
      "cache_tip tip c4 = cache_tip tip c3" by auto
    then show ?thesis using c2(1,4) c3(1,4) u False by simp
  qed
qed

lemma DisconnectBlock_law:
  assumes "cinv c" "sound ok (ccontent c)" "block_txs_ok Hash (ccontent c) (vtx block)"
    and h: "word_of_int (nHeight (entry pindex)) = h" "h \<noteq> 0"
    and okf: "\<forall>tx \<in> set (vtx block). \<forall>x. live (FromTx tx h) = Some x \<longrightarrow> ok x"
    and a: "apply_txs Hash h (ccontent c) (vtx block) = Some (uss, ccontent c1)" "cinv c1"
    and ns: "\<forall>us \<in> set uss. \<forall>u \<in> set us. \<not> u_fCoinStake u"
    and hash: "GetBlockHash pindex = Some hash" "hash \<noteq> bu_zero 8" "pprev pindex = Some p" "GetBlockHash p = Some hashPrev" "hashPrev \<noteq> bu_zero 8"
    and undo: "\<not> CDiskBlockPos_IsNull (GetUndoPos pindex)" "ReadUndo (GetUndoPos pindex) hashPrev = Some (tl uss)"
  shows "\<exists>c2. DisconnectBlock Hash get best ReadUndo block pindex True (SetBestBlock hash c1) = Some (True, Some True, c2) \<and>
    cinv c2 \<and> ccontent c2 = ccontent c \<and> cache_tip tip c2 = hashPrev"
proof -
  note B = assms(3) [unfolded block_txs_ok_def]
  have len: "length uss = length (vtx block)" by (rule apply_txs_length [OF a(1)])
  let ?c = "SetBestBlock hash c1"
  have c: "cinv ?c" "ccontent ?c = ccontent c1" "cache_tip tip ?c = hash"
    using SetBestBlock_law [OF a(2), of hash] hash(2) by auto
  obtain b c3 where gb: "cache_GetBestBlock best ?c = (b, c3)" by fastforce
  note g = cache_best_law [OF c(1) gb]
  have c3: "cinv c3" "apply_txs Hash h (ccontent c) (take (length (vtx block)) (vtx block)) = Some (take (length (vtx block)) uss, ccontent c3)"
    using g c a len by auto
  have "\<exists>c'. disconnect_loop Hash get (vtx block) (tl uss) h (length (vtx block)) True c3 = Some (True, True, c') \<and> cinv c' \<and>
      ccontent c' = ccontent c \<and> cache_tip tip c' = cache_tip tip c3"
    by (rule disconnect_loop_law [OF assms(2) h(2) _ _ _ _ _ ns len _ c3]) (use B okf in auto)
  then obtain c4 where
    c4: "disconnect_loop Hash get (vtx block) (tl uss) h (length (vtx block)) True c3 = Some (True, True, c4)" "cinv c4"
      "ccontent c4 = ccontent c" by blast
  have l1: "length (tl uss) + 1 = length (vtx block)" using len B by (cases uss) auto
  have "DisconnectBlock Hash get best ReadUndo block pindex True ?c = Some (True, Some True, SetBestBlock hashPrev c4)"
    using hash undo gb g c(3) c4(1) h(1) l1 by (simp add: DisconnectBlock_def Let_def)
  then show ?thesis using SetBestBlock_law [OF c4(2), of hashPrev] c4(3) hash(5) by auto
qed

end

subsection \<open>The view of a block on the database\<close>

lemma good_coins_spend:
  assumes "good_coins c" "Spend c p = Some (c', u)" "live c' = Some x"
  shows "good_coins x"
proof -
  let ?outs = "(c_vout c)[unat (op_n p) := CTxOut_SetNull]"
  have "x = c\<lparr>c_vout := drop_null ?outs\<rparr>"
    using assms(3) Spend_SomeD(1) [OF assms(2)] by (auto simp: live_def Cleanup_def split: if_splits)
  moreover have "list_all storable ?outs"
    using assms(1) by (auto simp: good_coins_def list_all_iff storable_def dest!: set_update_subset_insert [THEN subsetD])
  then have "list_all storable (drop_null ?outs)" using set_drop_null [of ?outs] by (auto simp: list_all_iff)
  moreover have "length (drop_null ?outs) < 2 ^ 30"
    using length_drop_null [of ?outs] assms(1) by (simp add: good_coins_def)
  ultimately show ?thesis using assms(1) by (simp add: good_coins_def)
qed

interpretation block_changes: coins_changes "cache_GetCoins (db_GetCoins K)" cache_BatchWrite
  "cache_GetBestBlock db_GetBestBlock" "cache_inv (db_inv K) (db_content K) (\<lambda>_. UNIV) good_coins"
  "cache_content (db_content K)" "cache_tip (\<lambda>db. fst (db_GetBestBlock db))" cache_known good_coins for K
  by unfold_locales (rule good_coins_spend)

end
