(* ===== verification/Consensus.thy ===== *)
theory Consensus
  imports Mn_Payments Chain_Coins
begin

text \<open>
  The rules a transaction and a block obey by themselves or given the block before (\<^verbatim>\<open>main.cpp\<close>):
  the validation state that records why something is refused, \<^verbatim>\<open>CheckTransaction\<close>, final
  transactions, the counts of signature operations, \<^verbatim>\<open>CheckBlock\<close> and the contextual checks. A check
  returns whether it passed and the validation state; \<open>None\<close> is a failed assertion, an exception or
  an access out of range.
\<close>

subsection \<open>The validation state\<close>

datatype mode_state = MODE_VALID | MODE_INVALID | MODE_ERROR

record CValidationState =
  vs_mode :: mode_state
  vs_nDoS :: int
  strRejectReason :: string
  chRejectCode :: byte
  corruptionPossible :: bool

definition CValidationState_new :: CValidationState where
  "CValidationState_new =
     \<lparr>vs_mode = MODE_VALID, vs_nDoS = 0, strRejectReason = '''', chRejectCode = 0, corruptionPossible = False\<rparr>"

definition DoS ::
  "int \<Rightarrow> bool \<Rightarrow> byte \<Rightarrow> string \<Rightarrow> bool \<Rightarrow> 'a CValidationState_scheme \<Rightarrow> bool \<times> 'a CValidationState_scheme" where
  "DoS level ret code reason corruption s =
     (let s = s\<lparr>chRejectCode := code, strRejectReason := reason, corruptionPossible := corruption\<rparr>
      in if vs_mode s = MODE_ERROR then (ret, s)
         else (ret, s\<lparr>vs_nDoS := vs_nDoS s + level, vs_mode := MODE_INVALID\<rparr>))"

definition Invalid :: "bool \<Rightarrow> byte \<Rightarrow> string \<Rightarrow> 'a CValidationState_scheme \<Rightarrow> bool \<times> 'a CValidationState_scheme" where
  "Invalid ret code reason s = DoS 0 ret code reason False s"

definition vs_Error :: "string \<Rightarrow> 'a CValidationState_scheme \<Rightarrow> bool \<times> 'a CValidationState_scheme" where
  "vs_Error reason s =
     (False, (if vs_mode s = MODE_VALID then s\<lparr>strRejectReason := reason\<rparr> else s)\<lparr>vs_mode := MODE_ERROR\<rparr>)"

definition vs_IsInvalid :: "'a CValidationState_scheme \<Rightarrow> int option" where
  "vs_IsInvalid s = (if vs_mode s = MODE_INVALID then Some (vs_nDoS s) else None)"

definition REJECT_INVALID :: byte where "REJECT_INVALID = 0x10"
definition REJECT_OBSOLETE :: byte where "REJECT_OBSOLETE = 0x11"
definition REJECT_NONSTANDARD :: byte where "REJECT_NONSTANDARD = 0x40"
definition REJECT_CHECKPOINT :: byte where "REJECT_CHECKPOINT = 0x43"

text \<open>A refusal without the corruption flag.\<close>

abbreviation refuse :: "int \<Rightarrow> byte \<Rightarrow> string \<Rightarrow> 'a CValidationState_scheme \<Rightarrow> bool \<times> 'a CValidationState_scheme" where
  "refuse level code reason \<equiv> DoS level False code reason False"

subsection \<open>Transactions\<close>

definition MAX_BLOCK_SIGOPS :: u32 where "MAX_BLOCK_SIGOPS = of_nat MAX_BLOCK_SIZE div 50"
definition LOCKTIME_THRESHOLD :: int where "LOCKTIME_THRESHOLD = 500000000"

text \<open>The loop over the outputs: \<open>None\<close> when all pass, otherwise what is reported.\<close>

fun check_outputs :: "CChainParams \<Rightarrow> CTransaction \<Rightarrow> int \<Rightarrow> CTxOut list \<Rightarrow> (byte \<times> string) option" where
  "check_outputs P tx nValueOut [] = None"
| "check_outputs P tx nValueOut (txout # outs) =
     (if CTxOut_IsEmpty txout \<and> \<not> IsCoinBase tx \<and> \<not> IsCoinStake tx then Some (0, '''')
      else if nValue txout < 0 then Some (REJECT_INVALID, ''bad-txns-vout-negative'')
      else if nValue txout > nMaxMoneyOut P then Some (REJECT_INVALID, ''bad-txns-vout-toolarge'')
      else let nValueOut = wrap64 (nValueOut + nValue txout)
      in if \<not> MoneyRange P nValueOut then Some (REJECT_INVALID, ''bad-txns-txouttotal-toolarge'')
         else check_outputs P tx nValueOut outs)"

fun duplicate_inputs :: "CTxIn list \<Rightarrow> COutPoint set \<Rightarrow> bool" where
  "duplicate_inputs [] vInOutPoints = False"
| "duplicate_inputs (txin # ins) vInOutPoints =
     (if prevout txin \<in> vInOutPoints then True else duplicate_inputs ins (insert (prevout txin) vInOutPoints))"

definition CheckTransaction ::
  "CChainParams \<Rightarrow> CTransaction \<Rightarrow> 'a CValidationState_scheme \<Rightarrow> bool \<times> 'a CValidationState_scheme" where
  "CheckTransaction P tx state =
     (if vin tx = [] then refuse 10 REJECT_INVALID ''bad-txns-vin-empty'' state
      else if vout tx = [] then refuse 10 REJECT_INVALID ''bad-txns-vout-empty'' state
      else if size_tx tx > MAX_BLOCK_SIZE then refuse 100 REJECT_INVALID ''bad-txns-oversize'' state
      else case check_outputs P tx 0 (vout tx) of
        Some (code, reason) \<Rightarrow> refuse 100 code reason state
      | None \<Rightarrow>
          if duplicate_inputs (vin tx) {} then refuse 100 REJECT_INVALID ''bad-txns-inputs-duplicate'' state
          else if IsCoinBase tx then
            (if length (scriptSig (vin tx ! 0)) < 2 \<or> length (scriptSig (vin tx ! 0)) > 150
             then refuse 100 REJECT_INVALID ''bad-cb-length'' state else (True, state))
          else if list_ex (\<lambda>txin. COutPoint_IsNull (prevout txin)) (vin tx)
          then refuse 10 REJECT_INVALID ''bad-txns-prevout-null'' state
          else (True, state))"

text \<open>\<open>chainHeight\<close> and \<open>adjustedTime\<close> are read when the arguments are zero.\<close>

definition IsFinalTx :: "int \<Rightarrow> int \<Rightarrow> CTransaction \<Rightarrow> int \<Rightarrow> int \<Rightarrow> bool" where
  "IsFinalTx chainHeight adjustedTime tx h time =
     (if nLockTime tx = 0 then True
      else let h = (if h = 0 then chainHeight else h);
               time = (if time = 0 then adjustedTime else time)
      in if uint (nLockTime tx) < (if uint (nLockTime tx) < LOCKTIME_THRESHOLD then h else time) then True
         else list_all CTxIn_IsFinal (vin tx))"

definition GetLegacySigOpCount :: "CTransaction \<Rightarrow> u32" where
  "GetLegacySigOpCount tx =
     fold (\<lambda>txout n. n + GetSigOpCount (scriptPubKey txout) False) (vout tx)
       (fold (\<lambda>txin n. n + GetSigOpCount (scriptSig txin) False) (vin tx) 0)"

fun p2sh_sigops ::
  "('b \<Rightarrow> uint256 \<Rightarrow> CCoins option \<times> 'b) \<Rightarrow> CTxIn list \<Rightarrow> u32 \<Rightarrow> 'b CCoinsViewCache \<Rightarrow> (u32 \<times> 'b CCoinsViewCache) option" where
  "p2sh_sigops bget [] nSigOps inputs = Some (nSigOps, inputs)"
| "p2sh_sigops bget (txin # ins) nSigOps inputs =
     (case GetOutputFor bget inputs txin of
        None \<Rightarrow> None
      | Some (out, inputs) \<Rightarrow>
          p2sh_sigops bget ins
            (if IsPayToScriptHash (scriptPubKey out)
             then nSigOps + GetSigOpCount_sig (scriptPubKey out) (scriptSig txin) else nSigOps) inputs)"

definition GetP2SHSigOpCount ::
  "('b \<Rightarrow> uint256 \<Rightarrow> CCoins option \<times> 'b) \<Rightarrow> CTransaction \<Rightarrow> 'b CCoinsViewCache \<Rightarrow> (u32 \<times> 'b CCoinsViewCache) option" where
  "GetP2SHSigOpCount bget tx inputs =
     (if IsCoinBase tx then Some (0, inputs) else p2sh_sigops bget (vin tx) 0 inputs)"

subsection \<open>Blocks\<close>

definition size_block :: "CBlock \<Rightarrow> nat" where
  "size_block b = 80 + size_vector size_tx (vtx b) +
     (if length (vtx b) > 1 \<and> IsCoinStake (vtx b ! 1) then size_bytes (vchBlockSig b) else 0)"

text \<open>What the block checks read besides the masternode state: the globals of the validation code.\<close>

record chain_env = mn_env +
  ce_adjusted :: int
  ce_swifttx_filter :: bool
  ce_locked :: "COutPoint \<Rightarrow> uint256 option"
  ce_initial_download :: bool
  ce_checkpoint :: "int \<Rightarrow> uint256 \<Rightarrow> bool"
  ce_last_checkpoint :: "int option"
  ce_checkpoint_estimate :: int

definition chain_height :: "'a mn_env_scheme \<Rightarrow> int" where
  "chain_height E = (case me_tip E of None \<Rightarrow> -1 | Some t \<Rightarrow> nHeight (entry t))"

text \<open>With the blocks that were refused although another chain may need them.\<close>

record block_state = CValidationState +
  mapRejectedBlocks :: "(uint256 \<times> int) list"

definition reject_block :: "'a mn_env_scheme \<Rightarrow> uint256 \<Rightarrow> block_state \<Rightarrow> block_state" where
  "reject_block E hash state =
     (if map_of (mapRejectedBlocks state) hash = None
      then state\<lparr>mapRejectedBlocks := AList.update hash (me_time E) (mapRejectedBlocks state)\<rparr> else state)"

definition CheckBlockHeader ::
  "CChainParams \<Rightarrow> (bytes \<Rightarrow> bytes) \<Rightarrow> CBlock \<Rightarrow> 'a CValidationState_scheme \<Rightarrow> bool \<Rightarrow> bool \<times> 'a CValidationState_scheme" where
  "CheckBlockHeader P Quark block state fCheckPOW =
     (if fCheckPOW \<and> \<not> CheckProofOfWork P (CBlockHeader_GetHash Quark block) (bh_nBits block)
      then refuse 50 REJECT_INVALID ''high-hash'' state else (True, state))"

definition CheckBlockHeader_of_block ::
  "CChainParams \<Rightarrow> (bytes \<Rightarrow> bytes) \<Rightarrow> CBlock \<Rightarrow> block_state \<Rightarrow> bool \<times> block_state" where
  "CheckBlockHeader_of_block P Quark block state =
     (case CheckBlockHeader P Quark block state (IsProofOfWork block) of
        (True, state) \<Rightarrow> (True, state)
      | (False, state) \<Rightarrow> DoS 100 False REJECT_INVALID ''bad-header'' True state)"

definition check_merkle :: "(bytes \<Rightarrow> bytes) \<Rightarrow> CBlock \<Rightarrow> block_state \<Rightarrow> bool \<times> block_state" where
  "check_merkle Hash block state =
     (case BuildMerkleTree Hash block of (_, fMutated, root) \<Rightarrow>
        if hashMerkleRoot block \<noteq> root then DoS 100 False REJECT_INVALID ''bad-txnmrklroot'' True state
        else if fMutated then DoS 100 False REJECT_INVALID ''bad-txns-duplicate'' True state
        else (True, state))"

definition check_shape :: "CBlock \<Rightarrow> block_state \<Rightarrow> bool \<times> block_state" where
  "check_shape block state =
     (if vtx block = [] \<or> length (vtx block) > MAX_BLOCK_SIZE \<or> size_block block > MAX_BLOCK_SIZE
      then refuse 100 REJECT_INVALID ''bad-blk-length'' state
      else if vtx block = [] \<or> \<not> IsCoinBase (vtx block ! 0) then refuse 100 REJECT_INVALID ''bad-cb-missing'' state
      else if list_ex IsCoinBase (drop 1 (vtx block)) then refuse 100 REJECT_INVALID ''bad-cb-multiple'' state
      else if IsProofOfStake block then
        (if length (vout (vtx block ! 0)) \<noteq> 1 \<or> \<not> CTxOut_IsEmpty (vout (vtx block ! 0) ! 0) then refuse 100 0 '''' state
         else if vtx block = [] \<or> \<not> IsCoinStake (vtx block ! 1) then refuse 100 0 '''' state
         else if list_ex IsCoinStake (drop 2 (vtx block)) then refuse 100 0 '''' state
         else (True, state))
      else (True, state))"

text \<open>Does the block spend an input that is locked to another transaction?\<close>

definition lock_conflict :: "(bytes \<Rightarrow> bytes) \<Rightarrow> (COutPoint \<Rightarrow> uint256 option) \<Rightarrow> CTransaction \<Rightarrow> bool" where
  "lock_conflict Hash locked tx \<longleftrightarrow> \<not> IsCoinBase tx \<and>
     list_ex (\<lambda>i. case locked (prevout i) of None \<Rightarrow> False | Some h \<Rightarrow> h \<noteq> tx_GetHash Hash tx) (vin tx)"

definition check_locks ::
  "(bytes \<Rightarrow> bytes) \<Rightarrow> (bytes \<Rightarrow> bytes) \<Rightarrow> chain_env \<Rightarrow> CBlock \<Rightarrow> block_state \<Rightarrow> bool \<times> block_state" where
  "check_locks Quark Hash E block state =
     (if ce_swifttx_filter E \<and> list_ex (lock_conflict Hash (ce_locked E)) (vtx block)
      then refuse 0 REJECT_INVALID ''conflicting-tx-ix'' (reject_block E (CBlockHeader_GetHash Quark block) state)
      else (True, state))"

definition check_payee ::
  "(bytes \<Rightarrow> bytes) \<Rightarrow> chain_env \<Rightarrow> mn_state \<Rightarrow> CBlock \<Rightarrow> block_state \<Rightarrow> (bool \<times> block_state) option" where
  "check_payee Quark E mns block state =
     (case me_tip E of
        None \<Rightarrow> Some (True, state)
      | Some tip \<Rightarrow>
          let h = height_of (mn_env.truncate E) tip block
          in if h \<noteq> 0 \<and> \<not> ce_initial_download E then
               (case IsBlockPayeeValid (mn_env.truncate E) mns block h of
                  None \<Rightarrow> None
                | Some True \<Rightarrow> Some (True, state)
                | Some False \<Rightarrow>
                    Some (refuse 0 REJECT_INVALID ''bad-cb-payee'' (reject_block E (CBlockHeader_GetHash Quark block) state)))
             else Some (True, state))"

fun check_transactions :: "CChainParams \<Rightarrow> CTransaction list \<Rightarrow> block_state \<Rightarrow> bool \<times> block_state" where
  "check_transactions P [] state = (True, state)"
| "check_transactions P (tx # txs) state =
     (case CheckTransaction P tx state of
        (True, state) \<Rightarrow> check_transactions P txs state
      | (False, state) \<Rightarrow> (False, state))"

text \<open>
  The arguments \<^verbatim>\<open>fCheckPOW\<close> and \<^verbatim>\<open>fCheckSig\<close> are not used by the code.
\<close>

definition CheckBlock ::
  "(bytes \<Rightarrow> bytes) \<Rightarrow> (bytes \<Rightarrow> bytes) \<Rightarrow> chain_env \<Rightarrow> mn_state \<Rightarrow> CBlock \<Rightarrow> block_state \<Rightarrow> bool \<Rightarrow>
   (bool \<times> block_state) option" where
  "CheckBlock Quark Hash E mns block state fCheckMerkleRoot =
     (case CheckBlockHeader_of_block (me_params E) Quark block state of
        (False, state) \<Rightarrow> Some (False, state)
      | (True, state) \<Rightarrow>
     if GetBlockTime block > ce_adjusted E + (if IsProofOfStake block then 180 else 7200)
     then Some (Invalid False REJECT_INVALID ''time-too-new'' state)
     else (case (if fCheckMerkleRoot then check_merkle Hash block state else (True, state)) of
        (False, state) \<Rightarrow> Some (False, state)
      | (True, state) \<Rightarrow>
     (case check_shape block state of
        (False, state) \<Rightarrow> Some (False, state)
      | (True, state) \<Rightarrow>
     (case check_locks Quark Hash E block state of
        (False, state) \<Rightarrow> Some (False, state)
      | (True, state) \<Rightarrow>
     (case check_payee Quark E mns block state of
        None \<Rightarrow> None
      | Some (False, state) \<Rightarrow> Some (False, state)
      | Some (True, state) \<Rightarrow>
     (case check_transactions (me_params E) (vtx block) state of
        (False, state) \<Rightarrow> Some (False, state)
      | (True, state) \<Rightarrow>
          if fold (\<lambda>tx n. n + GetLegacySigOpCount tx) (vtx block) 0 > MAX_BLOCK_SIGOPS
          then Some (DoS 100 False REJECT_INVALID ''bad-blk-sigops'' True state)
          else Some (True, state)))))))"

subsection \<open>Blocks and the chain before them\<close>

definition ContextualCheckBlockHeader ::
  "(bytes \<Rightarrow> bytes) \<Rightarrow> chain_env \<Rightarrow> CBlock \<Rightarrow> 'a CValidationState_scheme \<Rightarrow> CBlockIndex option \<Rightarrow>
   (bool \<times> 'a CValidationState_scheme) option" where
  "ContextualCheckBlockHeader Quark E block state pindexPrev =
     (let P = me_params E; hash = CBlockHeader_GetHash Quark block;
          majority = IsSuperMajority (nToCheckBlockUpgradeMajority P)
      in if hash = hashGenesisBlock P then Some (True, state)
      else (case pindexPrev of
        None \<Rightarrow> None
      | Some prev \<Rightarrow>
          let h = nHeight (entry prev) + 1 in
          if chain_height E - h \<ge> nMaxReorganizationDepth P then Some (refuse 1 0 '''' state)
          else if GetBlockTime block \<le> GetMedianTimePast prev
          then Some (Invalid False REJECT_INVALID ''time-too-old'' state)
          else if \<not> ce_checkpoint E h hash then Some (refuse 100 REJECT_CHECKPOINT ''checkpoint mismatch'' state)
          else if (case ce_last_checkpoint E of None \<Rightarrow> False | Some c \<Rightarrow> h < c) then Some (refuse 0 0 '''' state)
          else if sint (bh_nVersion block) < 2 \<and> majority 2 pindexPrev (nRejectBlockOutdatedMajority P)
          then Some (Invalid False REJECT_OBSOLETE ''bad-version'' state)
          else if sint (bh_nVersion block) < 3 \<and> majority 3 pindexPrev (nRejectBlockOutdatedMajority P)
          then Some (Invalid False REJECT_OBSOLETE ''bad-version'' state)
          else Some (True, state)))"

definition ContextualCheckBlock ::
  "chain_env \<Rightarrow> CBlock \<Rightarrow> 'a CValidationState_scheme \<Rightarrow> CBlockIndex option \<Rightarrow>
   (bool \<times> 'a CValidationState_scheme) option" where
  "ContextualCheckBlock E block state pindexPrev =
     (let P = me_params E; h = (case pindexPrev of None \<Rightarrow> 0 | Some p \<Rightarrow> nHeight (entry p) + 1)
      in if \<not> list_all (\<lambda>tx. IsFinalTx (chain_height E) (ce_adjusted E) tx h (GetBlockTime block)) (vtx block)
         then Some (refuse 10 REJECT_INVALID ''bad-txns-nonfinal'' state)
         else if sint (bh_nVersion block) \<ge> 2 \<and>
                 IsSuperMajority (nToCheckBlockUpgradeMajority P) 2 pindexPrev (nEnforceBlockUpgradeMajority P) then
           (if vtx block = [] \<or> vin (vtx block ! 0) = [] then None
            else let expect = push_int64 h; sig = scriptSig (vin (vtx block ! 0) ! 0)
            in if length sig < length expect \<or> take (length expect) sig \<noteq> expect
               then Some (refuse 100 REJECT_INVALID ''bad-cb-height'' state)
               else Some (True, state))
         else Some (True, state))"

text \<open>
  \<open>stake\<close> is the hash that \<^verbatim>\<open>CheckProofOfStake\<close> computes when the proof is good; it is remembered for
  the block. \<open>None\<close> is a failed retarget.
\<close>

definition CheckWork ::
  "(bytes \<Rightarrow> bytes) \<Rightarrow> chain_env \<Rightarrow> (CBlock \<Rightarrow> uint256 option) \<Rightarrow> CBlock \<Rightarrow> CBlockIndex option \<Rightarrow>
   (uint256 \<times> uint256) list \<Rightarrow> (bool \<times> (uint256 \<times> uint256) list) option" where
  "CheckWork Quark E stake block pindexPrev mapProofOfStake =
     (case pindexPrev of
        None \<Rightarrow> Some (False, mapProofOfStake)
      | Some prev \<Rightarrow>
          (case GetNextWorkRequired (me_params E) (Some prev) of
             None \<Rightarrow> None
           | Some nBitsRequired \<Rightarrow>
               if bh_nBits block \<noteq> nBitsRequired then
                 Some (bh_nTime block = word_of_int (nLyraBadBlockTime (me_params E)) \<and>
                       bh_nBits block = nLyraBadBlockBits (me_params E), mapProofOfStake)
               else if IsProofOfStake block then
                 (case stake block of
                    None \<Rightarrow> Some (False, mapProofOfStake)
                  | Some proof \<Rightarrow>
                      let hash = CBlockHeader_GetHash Quark block
                      in Some (True, if map_of mapProofOfStake hash = None
                                     then AList.update hash proof mapProofOfStake else mapProofOfStake))
               else Some (True, mapProofOfStake)))"

subsection \<open>What an accepted transaction looks like\<close>

lemma DoS_False [simp]: "fst (DoS level False code reason c s) = False"
  by (simp add: DoS_def Let_def)

lemma Invalid_False [simp]: "fst (Invalid False code reason s) = False"
  by (simp add: Invalid_def)

lemma DoS_pair: "DoS level False code reason c s = (True, s') \<longleftrightarrow> False"
  by (simp add: DoS_def Let_def)

lemma Invalid_pair: "Invalid False code reason s = (True, s') \<longleftrightarrow> False"
  by (simp add: Invalid_def DoS_pair)

lemmas refusals = DoS_pair Invalid_pair

lemma check_outputs_None:
  assumes "0 \<le> acc" "acc \<le> nMaxMoneyOut P" "nMaxMoneyOut P < 2 ^ 62"
  shows "check_outputs P tx acc outs = None \<longleftrightarrow>
    (\<forall>out \<in> set outs. 0 \<le> nValue out \<and> (CTxOut_IsEmpty out \<longrightarrow> IsCoinBase tx \<or> IsCoinStake tx)) \<and>
    acc + output_sum outs \<le> nMaxMoneyOut P"
  using assms(1,2)
proof (induction outs arbitrary: acc)
  case (Cons x xs)
  show ?case
  proof (cases "0 \<le> nValue x \<and> nValue x \<le> nMaxMoneyOut P")
    case True
    then have w: "wrap64 (acc + nValue x) = acc + nValue x"
      using Cons.prems assms(3) by (intro wrap64_id) (simp add: int64_range_def)
    show ?thesis
    proof (cases "acc + nValue x \<le> nMaxMoneyOut P")
      case le: True
      then show ?thesis using True w Cons.IH [of "acc + nValue x"] Cons.prems(1)
        by (auto simp: MoneyRange_def algebra_simps)
    next
      case False
      then show ?thesis using True w output_sum_nonneg [of xs] by (auto simp: MoneyRange_def)
    qed
  next
    case False
    then show ?thesis using Cons.prems(1) output_sum_nonneg [of xs] by auto
  qed
qed simp

lemma duplicate_inputs_iff:
  "\<not> duplicate_inputs ins S \<longleftrightarrow> distinct (map prevout ins) \<and> prevout ` set ins \<inter> S = {}"
  by (induction ins S rule: duplicate_inputs.induct) auto

definition sound_tx :: "CChainParams \<Rightarrow> CTransaction \<Rightarrow> bool" where
  "sound_tx P tx \<longleftrightarrow> vin tx \<noteq> [] \<and> vout tx \<noteq> [] \<and> size_tx tx \<le> MAX_BLOCK_SIZE \<and>
     (\<forall>out \<in> set (vout tx). 0 \<le> nValue out) \<and> output_sum (vout tx) \<le> nMaxMoneyOut P \<and>
     (\<not> IsCoinBase tx \<and> \<not> IsCoinStake tx \<longrightarrow> (\<forall>out \<in> set (vout tx). \<not> CTxOut_IsEmpty out)) \<and>
     distinct (map prevout (vin tx)) \<and>
     (if IsCoinBase tx then 2 \<le> length (scriptSig (vin tx ! 0)) \<and> length (scriptSig (vin tx ! 0)) \<le> 150
      else \<forall>i \<in> set (vin tx). \<not> COutPoint_IsNull (prevout i))"

lemma CheckTransaction_True:
  assumes "0 \<le> nMaxMoneyOut P" "nMaxMoneyOut P < 2 ^ 62"
  shows "CheckTransaction P tx s = (True, s') \<longleftrightarrow> sound_tx P tx \<and> s' = s"
  using check_outputs_None [OF _ _ assms(2), of 0 tx "vout tx"] assms(1) duplicate_inputs_iff [of "vin tx" "{}"]
  by (auto simp: CheckTransaction_def sound_tx_def refusals list_ex_iff split: option.splits)

lemma check_transactions_True:
  assumes "0 \<le> nMaxMoneyOut P" "nMaxMoneyOut P < 2 ^ 62"
  shows "check_transactions P txs s = (True, s') \<longleftrightarrow> (\<forall>tx \<in> set txs. sound_tx P tx) \<and> s' = s"
proof (induction txs arbitrary: s)
  case (Cons tx txs)
  show ?case
  proof (cases "CheckTransaction P tx s")
    case (Pair r s1)
    then show ?thesis using CheckTransaction_True [OF assms, of tx s s1] CheckTransaction_True [OF assms, of tx s s] Cons.IH [of s]
      by (cases r) auto
  qed
qed auto

subsection \<open>What an accepted block looks like\<close>

definition sound_block :: "(bytes \<Rightarrow> bytes) \<Rightarrow> CChainParams \<Rightarrow> CBlock \<Rightarrow> bool" where
  "sound_block Hash P block \<longleftrightarrow>
     (\<exists>coinbase txs. vtx block = coinbase # txs \<and> IsCoinBase coinbase \<and> (\<forall>tx \<in> set txs. \<not> IsCoinBase tx)) \<and>
     (IsProofOfStake block \<longrightarrow> output_sum (vout (vtx block ! 0)) = 0 \<and> (\<forall>tx \<in> set (drop 2 (vtx block)). \<not> IsCoinStake tx)) \<and>
     (\<forall>tx \<in> set (vtx block). sound_tx P tx) \<and> size_block block \<le> MAX_BLOCK_SIZE"

lemma check_shape_True:
  "check_shape block s = (True, s') \<longleftrightarrow> s' = s \<and> length (vtx block) \<le> MAX_BLOCK_SIZE \<and> size_block block \<le> MAX_BLOCK_SIZE \<and>
    (\<exists>coinbase txs. vtx block = coinbase # txs \<and> IsCoinBase coinbase \<and> (\<forall>tx \<in> set txs. \<not> IsCoinBase tx)) \<and>
    (IsProofOfStake block \<longrightarrow> length (vout (vtx block ! 0)) = 1 \<and> CTxOut_IsEmpty (vout (vtx block ! 0) ! 0) \<and>
       (\<forall>tx \<in> set (drop 2 (vtx block)). \<not> IsCoinStake tx))"
  by (cases "vtx block") (auto simp: check_shape_def refusals list_ex_iff IsProofOfStake_def)

lemma CheckBlock_True:
  assumes c: "CheckBlock Quark Hash E mns block s root = Some (True, s')"
    and P: "0 \<le> nMaxMoneyOut (me_params E)" "nMaxMoneyOut (me_params E) < 2 ^ 62"
  shows "sound_block Hash (me_params E) block \<and>
    (root \<longrightarrow> hashMerkleRoot block = snd (snd (BuildMerkleTree Hash block)) \<and> \<not> fst (snd (BuildMerkleTree Hash block))) \<and>
    GetBlockTime block \<le> ce_adjusted E + (if IsProofOfStake block then 180 else 7200) \<and>
    fold (\<lambda>tx n. n + GetLegacySigOpCount tx) (vtx block) 0 \<le> MAX_BLOCK_SIGOPS"
proof -
  obtain s1 where 1: "CheckBlockHeader_of_block (me_params E) Quark block s = (True, s1)"
    and t: "\<not> GetBlockTime block > ce_adjusted E + (if IsProofOfStake block then 180 else 7200)"
    using c by (auto simp: CheckBlock_def refusals split: prod.splits bool.splits if_splits)
  note d = c [unfolded CheckBlock_def 1 prod.case bool.case if_not_P [OF t]]
  obtain s2 where 2: "(if root then check_merkle Hash block s1 else (True, s1)) = (True, s2)"
    using d by (cases "if root then check_merkle Hash block s1 else (True, s1)") (auto split: bool.splits)
  obtain s3 where 3: "check_shape block s2 = (True, s3)"
    using d [unfolded 2] by (cases "check_shape block s2") (auto split: bool.splits)
  obtain s4 where 4: "check_locks Quark Hash E block s3 = (True, s4)"
    using d [unfolded 2 3 prod.case bool.case] by (cases "check_locks Quark Hash E block s3") (auto simp: 3 split: bool.splits)
  obtain s5 where 5: "check_payee Quark E mns block s4 = Some (True, s5)"
    using d by (auto simp: 2 3 4 split: option.splits prod.splits bool.splits)
  obtain s6 where 6: "check_transactions (me_params E) (vtx block) s5 = (True, s6)"
    using d by (cases "check_transactions (me_params E) (vtx block) s5") (auto simp: 2 3 4 5 split: bool.splits)
  have 7: "\<not> fold (\<lambda>tx n. n + GetLegacySigOpCount tx) (vtx block) 0 > MAX_BLOCK_SIGOPS"
    using d by (auto simp: 2 3 4 5 6 refusals split: if_splits)
  have "root \<longrightarrow> hashMerkleRoot block = snd (snd (BuildMerkleTree Hash block)) \<and> \<not> fst (snd (BuildMerkleTree Hash block))"
    using 2 by (auto simp: check_merkle_def refusals split: prod.splits if_splits)
  moreover have "sound_block Hash (me_params E) block"
    using 3 6 check_transactions_True [OF P, of "vtx block" s5 s6] unfolding check_shape_True sound_block_def
    by (cases "vout (vtx block ! 0)") (auto simp: CTxOut_IsEmpty_def)
  ultimately show ?thesis using t 7 by (simp add: not_less)
qed

end
