(* ===== verification/Interpreter.thy ===== *)
theory Interpreter
  imports Script "HOL-Library.Sublist"
begin

text \<open>
  The script interpreter, \<^verbatim>\<open>script/interpreter.cpp\<close>. A stack is a list whose head is
  the top element (the back of the vector); an iterator is the list of the bytes from it
  to the end of the script. A failure is a value: the \<^verbatim>\<open>ScriptError\<close> that
  \<^verbatim>\<open>set_error\<close> reports, or a failed \<^verbatim>\<open>assert\<close>, which ends the process.
  The signature checker is an argument, because \<^verbatim>\<open>BaseSignatureChecker\<close> is virtual.
\<close>

subsection \<open>Results and flags\<close>

datatype ScriptError =
    SCRIPT_ERR_UNKNOWN_ERROR
  | SCRIPT_ERR_EVAL_FALSE
  | SCRIPT_ERR_OP_RETURN
  | SCRIPT_ERR_SCRIPT_SIZE
  | SCRIPT_ERR_PUSH_SIZE
  | SCRIPT_ERR_OP_COUNT
  | SCRIPT_ERR_STACK_SIZE
  | SCRIPT_ERR_SIG_COUNT
  | SCRIPT_ERR_PUBKEY_COUNT
  | SCRIPT_ERR_VERIFY
  | SCRIPT_ERR_EQUALVERIFY
  | SCRIPT_ERR_CHECKMULTISIGVERIFY
  | SCRIPT_ERR_CHECKSIGVERIFY
  | SCRIPT_ERR_NUMEQUALVERIFY
  | SCRIPT_ERR_BAD_OPCODE
  | SCRIPT_ERR_DISABLED_OPCODE
  | SCRIPT_ERR_INVALID_STACK_OPERATION
  | SCRIPT_ERR_INVALID_ALTSTACK_OPERATION
  | SCRIPT_ERR_UNBALANCED_CONDITIONAL
  | SCRIPT_ERR_SIG_HASHTYPE
  | SCRIPT_ERR_SIG_DER
  | SCRIPT_ERR_MINIMALDATA
  | SCRIPT_ERR_SIG_PUSHONLY
  | SCRIPT_ERR_SIG_HIGH_S
  | SCRIPT_ERR_SIG_NULLDUMMY
  | SCRIPT_ERR_PUBKEYTYPE
  | SCRIPT_ERR_DISCOURAGE_UPGRADABLE_NOPS

datatype script_fail = Script_error ScriptError | Assert_failed

type_synonym 'a result = "script_fail + 'a"

abbreviation set_error :: "ScriptError \<Rightarrow> 'a result" where
  "set_error e \<equiv> Inl (Script_error e)"

text \<open>The flags of \<^verbatim>\<open>script/interpreter.h\<close>, one bit each, and the hash types.\<close>

definition SCRIPT_VERIFY_P2SH :: u32 where "SCRIPT_VERIFY_P2SH = 1"
definition SCRIPT_VERIFY_STRICTENC :: u32 where "SCRIPT_VERIFY_STRICTENC = 2"
definition SCRIPT_VERIFY_DERSIG :: u32 where "SCRIPT_VERIFY_DERSIG = 4"
definition SCRIPT_VERIFY_LOW_S :: u32 where "SCRIPT_VERIFY_LOW_S = 8"
definition SCRIPT_VERIFY_NULLDUMMY :: u32 where "SCRIPT_VERIFY_NULLDUMMY = 16"
definition SCRIPT_VERIFY_SIGPUSHONLY :: u32 where "SCRIPT_VERIFY_SIGPUSHONLY = 32"
definition SCRIPT_VERIFY_MINIMALDATA :: u32 where "SCRIPT_VERIFY_MINIMALDATA = 64"
definition SCRIPT_VERIFY_DISCOURAGE_UPGRADABLE_NOPS :: u32 where
  "SCRIPT_VERIFY_DISCOURAGE_UPGRADABLE_NOPS = 128"

definition has_flag :: "u32 \<Rightarrow> u32 \<Rightarrow> bool" where
  "has_flag flags f \<longleftrightarrow> flags AND f \<noteq> 0"

abbreviation (input) SIGHASH_ALL :: byte where "SIGHASH_ALL \<equiv> 1"
abbreviation (input) SIGHASH_NONE :: byte where "SIGHASH_NONE \<equiv> 2"
abbreviation (input) SIGHASH_SINGLE :: byte where "SIGHASH_SINGLE \<equiv> 3"
abbreviation (input) SIGHASH_ANYONECANPAY :: byte where "SIGHASH_ANYONECANPAY \<equiv> 0x80"

subsection \<open>Values, keys and signatures\<close>

text \<open>\<^verbatim>\<open>CastToBool\<close>: false is any sequence of zero bytes, negative zero included.\<close>

fun CastToBool :: "bytes \<Rightarrow> bool" where
  "CastToBool [] = False"
| "CastToBool (b # bs) = (if b \<noteq> 0 then \<not> (bs = [] \<and> b = 0x80) else CastToBool bs)"

definition IsCompressedOrUncompressedPubKey :: "bytes \<Rightarrow> bool" where
  "IsCompressedOrUncompressedPubKey k =
     (if length k < 33 then False
      else if k ! 0 = 0x04 then length k = 65
      else if k ! 0 = 0x02 \<or> k ! 0 = 0x03 then length k = 33
      else False)"

definition IsValidSignatureEncoding :: "bytes \<Rightarrow> bool" where
  "IsValidSignatureEncoding sig =
     (if length sig < 9 then False
      else if length sig > 73 then False
      else if sig ! 0 \<noteq> 0x30 then False
      else if unat (sig ! 1) \<noteq> length sig - 3 then False
      else let lenR = unat (sig ! 3) in
        if 5 + lenR \<ge> length sig then False
        else let lenS = unat (sig ! (5 + lenR)) in
          if lenR + lenS + 7 \<noteq> length sig then False
          else if sig ! 2 \<noteq> 0x02 then False
          else if lenR = 0 then False
          else if sig ! 4 AND 0x80 \<noteq> 0 then False
          else if lenR > 1 \<and> sig ! 4 = 0 \<and> sig ! 5 AND 0x80 = 0 then False
          else if sig ! (lenR + 4) \<noteq> 0x02 then False
          else if lenS = 0 then False
          else if sig ! (lenR + 6) AND 0x80 \<noteq> 0 then False
          else if lenS > 1 \<and> sig ! (lenR + 6) = 0 \<and> sig ! (lenR + 7) AND 0x80 = 0 then False
          else True)"

text \<open>
  \<^verbatim>\<open>eccryptoverify.cpp\<close>: comparison of big-endian numbers of different lengths, and the
  range check of a signature element against the order of the curve.
\<close>

fun strip_longer :: "bytes \<Rightarrow> nat \<Rightarrow> bytes option" where
  "strip_longer [] n = Some []"
| "strip_longer (c # cs) n =
     (if length (c # cs) > n then (if c \<noteq> 0 then None else strip_longer cs n) else Some (c # cs))"

fun compare_same :: "bytes \<Rightarrow> bytes \<Rightarrow> int" where
  "compare_same (a # as) (b # bs) = (if a > b then 1 else if b > a then -1 else compare_same as bs)"
| "compare_same _ _ = 0"

definition CompareBigEndian :: "bytes \<Rightarrow> bytes \<Rightarrow> int" where
  "CompareBigEndian c1 c2 =
     (case strip_longer c1 (length c2) of None \<Rightarrow> 1
      | Some c1' \<Rightarrow> (case strip_longer c2 (length c1') of None \<Rightarrow> -1
                     | Some c2' \<Rightarrow> compare_same c1' c2'))"

definition vchMaxModOrder :: bytes where
  "vchMaxModOrder =
     [0xFF, 0xFF, 0xFF, 0xFF, 0xFF, 0xFF, 0xFF, 0xFF, 0xFF, 0xFF, 0xFF, 0xFF, 0xFF, 0xFF, 0xFF, 0xFE,
      0xBA, 0xAE, 0xDC, 0xE6, 0xAF, 0x48, 0xA0, 0x3B, 0xBF, 0xD2, 0x5E, 0x8C, 0xD0, 0x36, 0x41, 0x40]"

definition vchMaxModHalfOrder :: bytes where
  "vchMaxModHalfOrder =
     [0x7F, 0xFF, 0xFF, 0xFF, 0xFF, 0xFF, 0xFF, 0xFF, 0xFF, 0xFF, 0xFF, 0xFF, 0xFF, 0xFF, 0xFF, 0xFF,
      0x5D, 0x57, 0x6E, 0x73, 0x57, 0xA4, 0x50, 0x1D, 0xDF, 0xE9, 0x2F, 0x46, 0x68, 0x1B, 0x20, 0xA0]"

definition CheckSignatureElement :: "bytes \<Rightarrow> bool \<Rightarrow> bool" where
  "CheckSignatureElement vch half \<longleftrightarrow>
     CompareBigEndian vch [] > 0 \<and>
     CompareBigEndian vch (if half then vchMaxModHalfOrder else vchMaxModOrder) \<le> 0"

definition IsLowDERSignature :: "bytes \<Rightarrow> unit result" where
  "IsLowDERSignature sig =
     (if \<not> IsValidSignatureEncoding sig then set_error SCRIPT_ERR_SIG_DER
      else let nLenR = unat (sig ! 3); nLenS = unat (sig ! (5 + nLenR));
               S = take nLenS (drop (6 + nLenR) sig)
           in if \<not> CheckSignatureElement S True then set_error SCRIPT_ERR_SIG_HIGH_S else Inr ())"

definition IsDefinedHashtypeSignature :: "bytes \<Rightarrow> bool" where
  "IsDefinedHashtypeSignature sig =
     (if length sig = 0 then False
      else let nHashType = sig ! (length sig - 1) AND NOT SIGHASH_ANYONECANPAY
           in \<not> (nHashType < SIGHASH_ALL \<or> nHashType > SIGHASH_SINGLE))"

definition CheckSignatureEncoding :: "bytes \<Rightarrow> u32 \<Rightarrow> unit result" where
  "CheckSignatureEncoding sig flags =
     (if length sig = 0 then Inr ()
      else if has_flag flags (SCRIPT_VERIFY_DERSIG OR SCRIPT_VERIFY_LOW_S OR SCRIPT_VERIFY_STRICTENC) \<and>
              \<not> IsValidSignatureEncoding sig then set_error SCRIPT_ERR_SIG_DER
      else if has_flag flags SCRIPT_VERIFY_LOW_S \<and> IsLowDERSignature sig \<noteq> Inr ()
           then IsLowDERSignature sig
      else if has_flag flags SCRIPT_VERIFY_STRICTENC \<and> \<not> IsDefinedHashtypeSignature sig
           then set_error SCRIPT_ERR_SIG_HASHTYPE
      else Inr ())"

definition CheckPubKeyEncoding :: "bytes \<Rightarrow> u32 \<Rightarrow> unit result" where
  "CheckPubKeyEncoding k flags =
     (if has_flag flags SCRIPT_VERIFY_STRICTENC \<and> \<not> IsCompressedOrUncompressedPubKey k
      then set_error SCRIPT_ERR_PUBKEYTYPE else Inr ())"

definition CheckMinimalPush :: "bytes \<Rightarrow> opcodetype \<Rightarrow> bool" where
  "CheckMinimalPush data opcode =
     (if length data = 0 then opcode = OP_0
      else if length data = 1 \<and> data ! 0 \<ge> 1 \<and> data ! 0 \<le> 16 then opcode = OP_1 + (data ! 0 - 1)
      else if length data = 1 \<and> data ! 0 = 0x81 then opcode = OP_1NEGATE
      else if length data \<le> 75 then unat opcode = length data
      else if length data \<le> 255 then opcode = OP_PUSHDATA1
      else if length data \<le> 65535 then opcode = OP_PUSHDATA2
      else True)"

subsection \<open>The machine\<close>

type_synonym stack = "bytes list"

record machine =
  stack :: "bytes list"
  altstack :: "bytes list"
  vfExec :: "bool list"
  nOpCount :: nat
  pbegincodehash :: bytes

text \<open>
  What the interpreter calls: the three hash functions and the virtual \<^verbatim>\<open>CheckSig\<close> of
  the signature checker (signature, public key, script code). \<^verbatim>\<open>CHash160\<close> and
  \<^verbatim>\<open>CHash256\<close> of \<^verbatim>\<open>hash.h\<close> compose the hash functions.
\<close>

record checker =
  RIPEMD160 :: "bytes \<Rightarrow> bytes"
  SHA1 :: "bytes \<Rightarrow> bytes"
  SHA256 :: "bytes \<Rightarrow> bytes"
  CheckSig :: "bytes \<Rightarrow> bytes \<Rightarrow> script \<Rightarrow> bool"

definition CHash160 :: "checker \<Rightarrow> bytes \<Rightarrow> bytes" where
  "CHash160 C vch = RIPEMD160 C (SHA256 C vch)"

definition CHash256 :: "checker \<Rightarrow> bytes \<Rightarrow> bytes" where
  "CHash256 C vch = SHA256 C (SHA256 C vch)"

definition vchTrue :: bytes where "vchTrue = [1]"
definition vchFalse :: bytes where "vchFalse = []"

abbreviation vch_bool :: "bool \<Rightarrow> bytes" where
  "vch_bool b \<equiv> if b then vchTrue else vchFalse"

text \<open>A \<^verbatim>\<open>scriptnum_error\<close> is caught by the interpreter: an unknown error.\<close>

definition stack_num :: "bytes \<Rightarrow> bool \<Rightarrow> int result" where
  "stack_num vch fRequireMinimal =
     (case CScriptNum_of vch fRequireMinimal of
        Inl _ \<Rightarrow> set_error SCRIPT_ERR_UNKNOWN_ERROR | Inr n \<Rightarrow> Inr n)"

definition assert_some :: "'a option \<Rightarrow> 'a result" where
  "assert_some r = (case r of None \<Rightarrow> Inl Assert_failed | Some x \<Rightarrow> Inr x)"

subsection \<open>Control\<close>

definition op_if :: "bool \<Rightarrow> opcodetype \<Rightarrow> machine \<Rightarrow> machine result" where
  "op_if fExec opcode m =
     (if fExec then
        (case stack m of
           [] \<Rightarrow> set_error SCRIPT_ERR_UNBALANCED_CONDITIONAL
         | vch # st \<Rightarrow>
             (let fValue = (if opcode = OP_NOTIF then \<not> CastToBool vch else CastToBool vch)
              in Inr (m\<lparr>stack := st, vfExec := fValue # vfExec m\<rparr>)))
      else Inr (m\<lparr>vfExec := False # vfExec m\<rparr>))"

definition op_else :: "machine \<Rightarrow> machine result" where
  "op_else m =
     (case vfExec m of
        [] \<Rightarrow> set_error SCRIPT_ERR_UNBALANCED_CONDITIONAL
      | b # bs \<Rightarrow> Inr (m\<lparr>vfExec := (\<not> b) # bs\<rparr>))"

definition op_endif :: "machine \<Rightarrow> machine result" where
  "op_endif m =
     (case vfExec m of
        [] \<Rightarrow> set_error SCRIPT_ERR_UNBALANCED_CONDITIONAL
      | b # bs \<Rightarrow> Inr (m\<lparr>vfExec := bs\<rparr>))"

definition op_verify :: "machine \<Rightarrow> machine result" where
  "op_verify m =
     (case stack m of
        [] \<Rightarrow> set_error SCRIPT_ERR_INVALID_STACK_OPERATION
      | vch # st \<Rightarrow> if CastToBool vch then Inr (m\<lparr>stack := st\<rparr>) else set_error SCRIPT_ERR_VERIFY)"

subsection \<open>Stack operations\<close>

definition op_toaltstack :: "machine \<Rightarrow> machine result" where
  "op_toaltstack m =
     (case stack m of
        [] \<Rightarrow> set_error SCRIPT_ERR_INVALID_STACK_OPERATION
      | vch # st \<Rightarrow> Inr (m\<lparr>stack := st, altstack := vch # altstack m\<rparr>))"

definition op_fromaltstack :: "machine \<Rightarrow> machine result" where
  "op_fromaltstack m =
     (case altstack m of
        [] \<Rightarrow> set_error SCRIPT_ERR_INVALID_ALTSTACK_OPERATION
      | vch # st \<Rightarrow> Inr (m\<lparr>stack := vch # stack m, altstack := st\<rparr>))"

text \<open>The operations that only rearrange the main stack.\<close>

fun stack_2drop :: "stack \<Rightarrow> stack result" where
  "stack_2drop (x2 # x1 # st) = Inr st"
| "stack_2drop _ = set_error SCRIPT_ERR_INVALID_STACK_OPERATION"

fun stack_2dup :: "stack \<Rightarrow> stack result" where
  "stack_2dup (x2 # x1 # st) = Inr (x2 # x1 # x2 # x1 # st)"
| "stack_2dup _ = set_error SCRIPT_ERR_INVALID_STACK_OPERATION"

fun stack_3dup :: "stack \<Rightarrow> stack result" where
  "stack_3dup (x3 # x2 # x1 # st) = Inr (x3 # x2 # x1 # x3 # x2 # x1 # st)"
| "stack_3dup _ = set_error SCRIPT_ERR_INVALID_STACK_OPERATION"

fun stack_2over :: "stack \<Rightarrow> stack result" where
  "stack_2over (x4 # x3 # x2 # x1 # st) = Inr (x2 # x1 # x4 # x3 # x2 # x1 # st)"
| "stack_2over _ = set_error SCRIPT_ERR_INVALID_STACK_OPERATION"

fun stack_2rot :: "stack \<Rightarrow> stack result" where
  "stack_2rot (x6 # x5 # x4 # x3 # x2 # x1 # st) = Inr (x2 # x1 # x6 # x5 # x4 # x3 # st)"
| "stack_2rot _ = set_error SCRIPT_ERR_INVALID_STACK_OPERATION"

fun stack_2swap :: "stack \<Rightarrow> stack result" where
  "stack_2swap (x4 # x3 # x2 # x1 # st) = Inr (x2 # x1 # x4 # x3 # st)"
| "stack_2swap _ = set_error SCRIPT_ERR_INVALID_STACK_OPERATION"

fun stack_ifdup :: "stack \<Rightarrow> stack result" where
  "stack_ifdup (x # st) = Inr (if CastToBool x then x # x # st else x # st)"
| "stack_ifdup _ = set_error SCRIPT_ERR_INVALID_STACK_OPERATION"

definition stack_depth :: "stack \<Rightarrow> stack result" where
  "stack_depth st = Inr (scriptnum_serialize (int (length st)) # st)"

fun stack_drop :: "stack \<Rightarrow> stack result" where
  "stack_drop (x # st) = Inr st"
| "stack_drop _ = set_error SCRIPT_ERR_INVALID_STACK_OPERATION"

fun stack_dup :: "stack \<Rightarrow> stack result" where
  "stack_dup (x # st) = Inr (x # x # st)"
| "stack_dup _ = set_error SCRIPT_ERR_INVALID_STACK_OPERATION"

fun stack_nip :: "stack \<Rightarrow> stack result" where
  "stack_nip (x2 # x1 # st) = Inr (x2 # st)"
| "stack_nip _ = set_error SCRIPT_ERR_INVALID_STACK_OPERATION"

fun stack_over :: "stack \<Rightarrow> stack result" where
  "stack_over (x2 # x1 # st) = Inr (x1 # x2 # x1 # st)"
| "stack_over _ = set_error SCRIPT_ERR_INVALID_STACK_OPERATION"

fun stack_pick_roll :: "bool \<Rightarrow> opcodetype \<Rightarrow> stack \<Rightarrow> stack result" where
  "stack_pick_roll fRequireMinimal opcode (x # y # st) =
     rbind (stack_num x fRequireMinimal) (\<lambda>v.
       let n = scriptnum_getint v; st' = y # st in
       if n < 0 \<or> n \<ge> int (length st') then set_error SCRIPT_ERR_INVALID_STACK_OPERATION
       else let vch = st' ! nat n in
            Inr (vch # (if opcode = OP_ROLL then take (nat n) st' @ drop (Suc (nat n)) st' else st')))"
| "stack_pick_roll _ _ _ = set_error SCRIPT_ERR_INVALID_STACK_OPERATION"

fun stack_rot :: "stack \<Rightarrow> stack result" where
  "stack_rot (x3 # x2 # x1 # st) = Inr (x1 # x3 # x2 # st)"
| "stack_rot _ = set_error SCRIPT_ERR_INVALID_STACK_OPERATION"

fun stack_swap :: "stack \<Rightarrow> stack result" where
  "stack_swap (x2 # x1 # st) = Inr (x1 # x2 # st)"
| "stack_swap _ = set_error SCRIPT_ERR_INVALID_STACK_OPERATION"

fun stack_tuck :: "stack \<Rightarrow> stack result" where
  "stack_tuck (x2 # x1 # st) = Inr (x2 # x1 # x2 # st)"
| "stack_tuck _ = set_error SCRIPT_ERR_INVALID_STACK_OPERATION"

fun stack_size :: "stack \<Rightarrow> stack result" where
  "stack_size (x # st) = Inr (scriptnum_serialize (int (length x)) # x # st)"
| "stack_size _ = set_error SCRIPT_ERR_INVALID_STACK_OPERATION"

subsection \<open>Bitwise logic and arithmetic\<close>

fun stack_equal :: "opcodetype \<Rightarrow> stack \<Rightarrow> stack result" where
  "stack_equal opcode (x2 # x1 # st) =
     (let fEqual = (x1 = x2) in
      if opcode = OP_EQUALVERIFY
      then (if fEqual then Inr st else set_error SCRIPT_ERR_EQUALVERIFY)
      else Inr (vch_bool fEqual # st))"
| "stack_equal _ _ = set_error SCRIPT_ERR_INVALID_STACK_OPERATION"

definition unary_num :: "opcodetype \<Rightarrow> int \<Rightarrow> int result" where
  "unary_num opcode bn =
     (if opcode = OP_1ADD then assert_some (scriptnum_add_assign bn 1)
      else if opcode = OP_1SUB then assert_some (scriptnum_sub_assign bn 1)
      else if opcode = OP_NEGATE then assert_some (scriptnum_negate bn)
      else if opcode = OP_ABS then (if bn < 0 then assert_some (scriptnum_negate bn) else Inr bn)
      else if opcode = OP_NOT then Inr (if bn = 0 then 1 else 0)
      else if opcode = OP_0NOTEQUAL then Inr (if bn \<noteq> 0 then 1 else 0)
      else Inl Assert_failed)"

fun stack_unary :: "bool \<Rightarrow> opcodetype \<Rightarrow> stack \<Rightarrow> stack result" where
  "stack_unary fRequireMinimal opcode (x # st) =
     rbind (stack_num x fRequireMinimal) (\<lambda>bn.
     rbind (unary_num opcode bn) (\<lambda>r. Inr (scriptnum_serialize r # st)))"
| "stack_unary _ _ _ = set_error SCRIPT_ERR_INVALID_STACK_OPERATION"

definition binary_num :: "opcodetype \<Rightarrow> int \<Rightarrow> int \<Rightarrow> int result" where
  "binary_num opcode bn1 bn2 =
     (if opcode = OP_ADD then Inr (bn1 + bn2)
      else if opcode = OP_SUB then Inr (bn1 - bn2)
      else if opcode = OP_BOOLAND then Inr (of_bool (bn1 \<noteq> 0 \<and> bn2 \<noteq> 0))
      else if opcode = OP_BOOLOR then Inr (of_bool (bn1 \<noteq> 0 \<or> bn2 \<noteq> 0))
      else if opcode = OP_NUMEQUAL then Inr (of_bool (bn1 = bn2))
      else if opcode = OP_NUMEQUALVERIFY then Inr (of_bool (bn1 = bn2))
      else if opcode = OP_NUMNOTEQUAL then Inr (of_bool (bn1 \<noteq> bn2))
      else if opcode = OP_LESSTHAN then Inr (of_bool (bn1 < bn2))
      else if opcode = OP_GREATERTHAN then Inr (of_bool (bn1 > bn2))
      else if opcode = OP_LESSTHANOREQUAL then Inr (of_bool (bn1 \<le> bn2))
      else if opcode = OP_GREATERTHANOREQUAL then Inr (of_bool (bn1 \<ge> bn2))
      else if opcode = OP_MIN then Inr (if bn1 < bn2 then bn1 else bn2)
      else if opcode = OP_MAX then Inr (if bn1 > bn2 then bn1 else bn2)
      else Inl Assert_failed)"

fun stack_binary :: "bool \<Rightarrow> opcodetype \<Rightarrow> stack \<Rightarrow> stack result" where
  "stack_binary fRequireMinimal opcode (x2 # x1 # st) =
     rbind (stack_num x1 fRequireMinimal) (\<lambda>bn1.
     rbind (stack_num x2 fRequireMinimal) (\<lambda>bn2.
     rbind (binary_num opcode bn1 bn2) (\<lambda>bn.
       let r = scriptnum_serialize bn in
       if opcode = OP_NUMEQUALVERIFY
       then (if CastToBool r then Inr st else set_error SCRIPT_ERR_NUMEQUALVERIFY)
       else Inr (r # st))))"
| "stack_binary _ _ _ = set_error SCRIPT_ERR_INVALID_STACK_OPERATION"

fun stack_within :: "bool \<Rightarrow> stack \<Rightarrow> stack result" where
  "stack_within fRequireMinimal (x3 # x2 # x1 # st) =
     rbind (stack_num x1 fRequireMinimal) (\<lambda>bn1.
     rbind (stack_num x2 fRequireMinimal) (\<lambda>bn2.
     rbind (stack_num x3 fRequireMinimal) (\<lambda>bn3.
       Inr (vch_bool (bn2 \<le> bn1 \<and> bn1 < bn3) # st))))"
| "stack_within _ _ = set_error SCRIPT_ERR_INVALID_STACK_OPERATION"

subsection \<open>Crypto\<close>

definition hash_op :: "checker \<Rightarrow> opcodetype \<Rightarrow> bytes \<Rightarrow> bytes" where
  "hash_op C opcode vch =
     (if opcode = OP_RIPEMD160 then RIPEMD160 C vch
      else if opcode = OP_SHA1 then SHA1 C vch
      else if opcode = OP_SHA256 then SHA256 C vch
      else if opcode = OP_HASH160 then CHash160 C vch
      else CHash256 C vch)"

fun stack_hash :: "checker \<Rightarrow> opcodetype \<Rightarrow> stack \<Rightarrow> stack result" where
  "stack_hash C opcode (x # st) = Inr (hash_op C opcode x # st)"
| "stack_hash _ _ _ = set_error SCRIPT_ERR_INVALID_STACK_OPERATION"

fun stack_checksig :: "checker \<Rightarrow> u32 \<Rightarrow> opcodetype \<Rightarrow> bytes \<Rightarrow> stack \<Rightarrow> stack result" where
  "stack_checksig C flags opcode codehash (vchPubKey # vchSig # st) =
     (let scriptCode = fst (FindAndDelete codehash (push_data vchSig)) in
      rbind (CheckSignatureEncoding vchSig flags) (\<lambda>_.
      rbind (CheckPubKeyEncoding vchPubKey flags) (\<lambda>_.
        let fSuccess = CheckSig C vchSig vchPubKey scriptCode in
        if opcode = OP_CHECKSIGVERIFY
        then (if fSuccess then Inr st else set_error SCRIPT_ERR_CHECKSIGVERIFY)
        else Inr (vch_bool fSuccess # st))))"
| "stack_checksig _ _ _ _ _ = set_error SCRIPT_ERR_INVALID_STACK_OPERATION"

text \<open>
  \<^verbatim>\<open>OP_CHECKMULTISIG\<close>: the greedy loop over the signatures and the keys still to try,
  each list from the top of the stack down.
\<close>

fun multisig_loop :: "checker \<Rightarrow> u32 \<Rightarrow> script \<Rightarrow> bytes list \<Rightarrow> bytes list \<Rightarrow> bool result" where
  "multisig_loop C flags scriptCode [] keys = Inr True"
| "multisig_loop C flags scriptCode (vchSig # sigs) [] = Inr False"
| "multisig_loop C flags scriptCode (vchSig # sigs) (vchPubKey # keys) =
     rbind (CheckSignatureEncoding vchSig flags) (\<lambda>_.
     rbind (CheckPubKeyEncoding vchPubKey flags) (\<lambda>_.
       let fOk = CheckSig C vchSig vchPubKey scriptCode;
           sigs' = (if fOk then sigs else vchSig # sigs)
       in if length sigs' > length keys then Inr False
          else multisig_loop C flags scriptCode sigs' keys))"

definition op_checkmultisig ::
  "checker \<Rightarrow> u32 \<Rightarrow> opcodetype \<Rightarrow> machine \<Rightarrow> machine result" where
  "op_checkmultisig C flags opcode m =
     (let st = stack m; fRequireMinimal = has_flag flags SCRIPT_VERIFY_MINIMALDATA in
      if length st < 1 then set_error SCRIPT_ERR_INVALID_STACK_OPERATION
      else rbind (stack_num (st ! 0) fRequireMinimal) (\<lambda>kv.
        let keysCount = scriptnum_getint kv in
        if keysCount < 0 \<or> keysCount > 20 then set_error SCRIPT_ERR_PUBKEY_COUNT
        else let nKeysCount = nat keysCount; opCount = nOpCount m + nKeysCount in
        if opCount > 201 then set_error SCRIPT_ERR_OP_COUNT
        else let i = 2 + nKeysCount in
        if length st < i then set_error SCRIPT_ERR_INVALID_STACK_OPERATION
        else rbind (stack_num (st ! (i - 1)) fRequireMinimal) (\<lambda>sv.
        let sigsCount = scriptnum_getint sv in
        if sigsCount < 0 \<or> sigsCount > keysCount then set_error SCRIPT_ERR_SIG_COUNT
        else let nSigsCount = nat sigsCount; isig = Suc i; i' = isig + nSigsCount in
        if length st < i' then set_error SCRIPT_ERR_INVALID_STACK_OPERATION
        else let keys = take nKeysCount (drop 1 st);
                 sigs = take nSigsCount (drop (isig - 1) st);
                 scriptCode = fold (\<lambda>s code. fst (FindAndDelete code (push_data s))) sigs (pbegincodehash m)
        in rbind (multisig_loop C flags scriptCode sigs keys) (\<lambda>fSuccess.
        case drop (i' - 1) st of
          [] \<Rightarrow> set_error SCRIPT_ERR_INVALID_STACK_OPERATION
        | dummy # st' \<Rightarrow>
            if has_flag flags SCRIPT_VERIFY_NULLDUMMY \<and> length dummy \<noteq> 0
            then set_error SCRIPT_ERR_SIG_NULLDUMMY
            else let m' = m\<lparr>nOpCount := opCount\<rparr> in
              if opcode = OP_CHECKMULTISIGVERIFY
              then (if fSuccess then Inr (m'\<lparr>stack := st'\<rparr>) else set_error SCRIPT_ERR_CHECKMULTISIGVERIFY)
              else Inr (m'\<lparr>stack := vch_bool fSuccess # st'\<rparr>)))))"

subsection \<open>The switch\<close>

definition disabled_opcode :: "opcodetype \<Rightarrow> bool" where
  "disabled_opcode opcode \<longleftrightarrow>
     opcode = OP_CAT \<or> opcode = OP_SUBSTR \<or> opcode = OP_LEFT \<or> opcode = OP_RIGHT \<or>
     opcode = OP_INVERT \<or> opcode = OP_AND \<or> opcode = OP_OR \<or> opcode = OP_XOR \<or>
     opcode = OP_2MUL \<or> opcode = OP_2DIV \<or> opcode = OP_MUL \<or> opcode = OP_DIV \<or>
     opcode = OP_MOD \<or> opcode = OP_LSHIFT \<or> opcode = OP_RSHIFT"

definition on_stack :: "(stack \<Rightarrow> stack result) \<Rightarrow> machine \<Rightarrow> machine result" where
  "on_stack f m = rbind (f (stack m)) (\<lambda>st. Inr (m\<lparr>stack := st\<rparr>))"

text \<open>The cases that touch the main stack only, by opcode.\<close>

definition stack_case :: "checker \<Rightarrow> u32 \<Rightarrow> bytes \<Rightarrow> opcodetype \<Rightarrow> (stack \<Rightarrow> stack result) option" where
  "stack_case C flags codehash opcode =
     (let fRequireMinimal = has_flag flags SCRIPT_VERIFY_MINIMALDATA in
      if opcode = OP_1NEGATE \<or> (OP_1 \<le> opcode \<and> opcode \<le> OP_16)
        then Some (\<lambda>st. Inr (scriptnum_serialize (uint opcode - (uint OP_1 - 1)) # st))
      else if opcode = OP_NOP then Some Inr
      else if opcode \<in> {OP_NOP1, OP_NOP2, OP_NOP3, OP_NOP4, OP_NOP5,
                        OP_NOP6, OP_NOP7, OP_NOP8, OP_NOP9, OP_NOP10}
        then Some (\<lambda>st. if has_flag flags SCRIPT_VERIFY_DISCOURAGE_UPGRADABLE_NOPS
                        then set_error SCRIPT_ERR_DISCOURAGE_UPGRADABLE_NOPS else Inr st)
      else if opcode = OP_RETURN then Some (\<lambda>st. set_error SCRIPT_ERR_OP_RETURN)
      else if opcode = OP_2DROP then Some stack_2drop
      else if opcode = OP_2DUP then Some stack_2dup
      else if opcode = OP_3DUP then Some stack_3dup
      else if opcode = OP_2OVER then Some stack_2over
      else if opcode = OP_2ROT then Some stack_2rot
      else if opcode = OP_2SWAP then Some stack_2swap
      else if opcode = OP_IFDUP then Some stack_ifdup
      else if opcode = OP_DEPTH then Some stack_depth
      else if opcode = OP_DROP then Some stack_drop
      else if opcode = OP_DUP then Some stack_dup
      else if opcode = OP_NIP then Some stack_nip
      else if opcode = OP_OVER then Some stack_over
      else if opcode = OP_PICK \<or> opcode = OP_ROLL then Some (stack_pick_roll fRequireMinimal opcode)
      else if opcode = OP_ROT then Some stack_rot
      else if opcode = OP_SWAP then Some stack_swap
      else if opcode = OP_TUCK then Some stack_tuck
      else if opcode = OP_SIZE then Some stack_size
      else if opcode = OP_EQUAL \<or> opcode = OP_EQUALVERIFY then Some (stack_equal opcode)
      else if opcode \<in> {OP_1ADD, OP_1SUB, OP_NEGATE, OP_ABS, OP_NOT, OP_0NOTEQUAL}
        then Some (stack_unary fRequireMinimal opcode)
      else if opcode \<in> {OP_ADD, OP_SUB, OP_BOOLAND, OP_BOOLOR, OP_NUMEQUAL, OP_NUMEQUALVERIFY,
                        OP_NUMNOTEQUAL, OP_LESSTHAN, OP_GREATERTHAN, OP_LESSTHANOREQUAL,
                        OP_GREATERTHANOREQUAL, OP_MIN, OP_MAX}
        then Some (stack_binary fRequireMinimal opcode)
      else if opcode = OP_WITHIN then Some (stack_within fRequireMinimal)
      else if opcode \<in> {OP_RIPEMD160, OP_SHA1, OP_SHA256, OP_HASH160, OP_HASH256}
        then Some (stack_hash C opcode)
      else if opcode = OP_CHECKSIG \<or> opcode = OP_CHECKSIGVERIFY
        then Some (stack_checksig C flags opcode codehash)
      else None)"

definition exec_opcode ::
  "checker \<Rightarrow> u32 \<Rightarrow> bool \<Rightarrow> opcodetype \<Rightarrow> bytes \<Rightarrow> machine \<Rightarrow> machine result" where
  "exec_opcode C flags fExec opcode pc m =
     (if opcode = OP_IF \<or> opcode = OP_NOTIF then op_if fExec opcode m
      else if opcode = OP_ELSE then op_else m
      else if opcode = OP_ENDIF then op_endif m
      else if opcode = OP_VERIFY then op_verify m
      else if opcode = OP_TOALTSTACK then op_toaltstack m
      else if opcode = OP_FROMALTSTACK then op_fromaltstack m
      else if opcode = OP_CODESEPARATOR then Inr (m\<lparr>pbegincodehash := pc\<rparr>)
      else if opcode = OP_CHECKMULTISIG \<or> opcode = OP_CHECKMULTISIGVERIFY
        then op_checkmultisig C flags opcode m
      else case stack_case C flags (pbegincodehash m) opcode of
             None \<Rightarrow> set_error SCRIPT_ERR_BAD_OPCODE
           | Some f \<Rightarrow> on_stack f m)"

subsection \<open>One step and the loop\<close>

definition check_limits :: "machine \<Rightarrow> machine result" where
  "check_limits m =
     (if length (stack m) + length (altstack m) > 1000 then set_error SCRIPT_ERR_STACK_SIZE else Inr m)"

text \<open>
  The body of the loop: reading the operation and counting it, then either pushing its data
  or, when executed (or one of the conditionals), running its case of the switch.
\<close>

definition dispatch :: "checker \<Rightarrow> u32 \<Rightarrow> opcodetype \<Rightarrow> bytes \<Rightarrow> bytes \<Rightarrow> machine \<Rightarrow> machine result" where
  "dispatch C flags opcode vchPushValue pc m =
     (let fExec = (False \<notin> set (vfExec m)) in
      if fExec \<and> opcode \<le> OP_PUSHDATA4 then
        (if has_flag flags SCRIPT_VERIFY_MINIMALDATA \<and> \<not> CheckMinimalPush vchPushValue opcode
         then set_error SCRIPT_ERR_MINIMALDATA
         else Inr (m\<lparr>stack := vchPushValue # stack m\<rparr>))
      else if fExec \<or> (OP_IF \<le> opcode \<and> opcode \<le> OP_ENDIF)
      then exec_opcode C flags fExec opcode pc m
      else Inr m)"

definition counted :: "opcodetype \<Rightarrow> machine \<Rightarrow> machine" where
  "counted opcode m = (if opcode > OP_16 then m\<lparr>nOpCount := Suc (nOpCount m)\<rparr> else m)"

definition eval_step :: "checker \<Rightarrow> u32 \<Rightarrow> machine \<Rightarrow> bytes \<Rightarrow> (machine \<times> bytes) result" where
  "eval_step C flags m pc =
     (case GetOp2 pc of (ok, opcode, vchPushValue, pc') \<Rightarrow>
      if \<not> ok then set_error SCRIPT_ERR_BAD_OPCODE
      else if length vchPushValue > MAX_SCRIPT_ELEMENT_SIZE then set_error SCRIPT_ERR_PUSH_SIZE
      else let m = counted opcode m in
      if opcode > OP_16 \<and> nOpCount m > 201 then set_error SCRIPT_ERR_OP_COUNT
      else if disabled_opcode opcode then set_error SCRIPT_ERR_DISABLED_OPCODE
      else rbind (dispatch C flags opcode vchPushValue pc' m) (\<lambda>m.
           rbind (check_limits m) (\<lambda>m. Inr (m, pc'))))"

lemma eval_step_progress:
  assumes "eval_step C flags m pc = Inr (m', pc')" shows "length pc' < length pc"
proof -
  obtain ok opcode data pc1 where g: "GetOp2 pc = (ok, opcode, data, pc1)" by (cases "GetOp2 pc")
  have "pc1 = pc'" "ok"
    using assms by (auto simp: eval_step_def g rbind_eq_Inr Let_def split: if_splits)
  moreover from this have "pc \<noteq> []" using g by (cases pc) auto
  ultimately show ?thesis using GetOp2_shorter g by blast
qed

function eval_loop :: "checker \<Rightarrow> u32 \<Rightarrow> machine \<Rightarrow> bytes \<Rightarrow> machine result" where
  "eval_loop C flags m pc =
     (if pc = [] then Inr m
      else case eval_step C flags m pc of
             Inl e \<Rightarrow> Inl e
           | Inr (m', pc') \<Rightarrow> eval_loop C flags m' pc')"
  by pat_completeness auto
termination by (relation "measure (\<lambda>(_, _, _, pc). length pc)") (auto dest: eval_step_progress)

declare eval_loop.simps [simp del]

definition EvalScript :: "checker \<Rightarrow> u32 \<Rightarrow> stack \<Rightarrow> script \<Rightarrow> stack result" where
  "EvalScript C flags st script =
     (if length script > 10000 then set_error SCRIPT_ERR_SCRIPT_SIZE
      else rbind (eval_loop C flags
                    \<lparr>stack = st, altstack = [], vfExec = [], nOpCount = 0, pbegincodehash = script\<rparr> script)
             (\<lambda>m. if vfExec m \<noteq> [] then set_error SCRIPT_ERR_UNBALANCED_CONDITIONAL else Inr (stack m)))"

fun top_is_true :: "stack \<Rightarrow> unit result" where
  "top_is_true [] = set_error SCRIPT_ERR_EVAL_FALSE"
| "top_is_true (x # st) = (if CastToBool x then Inr () else set_error SCRIPT_ERR_EVAL_FALSE)"

definition VerifyScript :: "checker \<Rightarrow> u32 \<Rightarrow> script \<Rightarrow> script \<Rightarrow> unit result" where
  "VerifyScript C flags scriptSig scriptPubKey =
     (if has_flag flags SCRIPT_VERIFY_SIGPUSHONLY \<and> \<not> IsPushOnly scriptSig
      then set_error SCRIPT_ERR_SIG_PUSHONLY
      else rbind (EvalScript C flags [] scriptSig) (\<lambda>stackCopy.
           rbind (EvalScript C flags stackCopy scriptPubKey) (\<lambda>st.
           rbind (top_is_true st) (\<lambda>_.
             if has_flag flags SCRIPT_VERIFY_P2SH \<and> IsPayToScriptHash scriptPubKey then
               (if \<not> IsPushOnly scriptSig then set_error SCRIPT_ERR_SIG_PUSHONLY
                else case stackCopy of
                       [] \<Rightarrow> Inl Assert_failed
                     | pubKeySerialized # stackCopy' \<Rightarrow>
                         rbind (EvalScript C flags stackCopy' pubKeySerialized) top_is_true)
             else Inr ()))))"

subsection \<open>Every operation keeps the element size, and none aborts\<close>

definition small_stack :: "stack \<Rightarrow> bool" where
  "small_stack st \<longleftrightarrow> (\<forall>x \<in> set st. length x \<le> MAX_SCRIPT_ELEMENT_SIZE)"

definition hash_lengths :: "checker \<Rightarrow> bool" where
  "hash_lengths C \<longleftrightarrow> (\<forall>x. length (RIPEMD160 C x) = 20 \<and> length (SHA1 C x) = 20 \<and> length (SHA256 C x) = 32)"

text \<open>
  An operation is safe when it never aborts and, on a stack of at most 1000 elements that
  are all small, leaves only small elements.
\<close>

definition safe_op :: "(stack \<Rightarrow> stack result) \<Rightarrow> bool" where
  "safe_op f \<longleftrightarrow> (\<forall>st. f st \<noteq> Inl Assert_failed \<and>
     (\<forall>st'. small_stack st \<longrightarrow> length st \<le> 1000 \<longrightarrow> f st = Inr st' \<longrightarrow> small_stack st'))"

named_theorems safe_ops

lemma small_stack_simps [simp]:
  "small_stack []"
  "small_stack (x # st) \<longleftrightarrow> length x \<le> MAX_SCRIPT_ELEMENT_SIZE \<and> small_stack st"
  by (auto simp: small_stack_def)

lemma small_serialize:
  assumes "\<bar>v\<bar> < 2 ^ 40" shows "length (scriptnum_serialize v) \<le> MAX_SCRIPT_ELEMENT_SIZE"
  using scriptnum_serialize_length [of v 5] assms by (simp add: MAX_SCRIPT_ELEMENT_SIZE_def)

lemma small_vch_bool [simp]: "length (vch_bool b) \<le> MAX_SCRIPT_ELEMENT_SIZE"
  by (simp add: vchTrue_def vchFalse_def MAX_SCRIPT_ELEMENT_SIZE_def)

lemma stack_num_bound: "stack_num x m = Inr v \<Longrightarrow> \<bar>v\<bar> < 2 ^ 31"
  using CScriptNum_of_bound by (auto simp: stack_num_def split: sum.splits)

lemma stack_num_safe [simp]: "stack_num x m \<noteq> Inl Assert_failed"
  by (simp add: stack_num_def split: sum.splits)

lemma safe_opI:
  assumes "\<And>st. f st \<noteq> Inl Assert_failed"
    and "\<And>st st'. small_stack st \<Longrightarrow> length st \<le> 1000 \<Longrightarrow> f st = Inr st' \<Longrightarrow> small_stack st'"
  shows "safe_op f"
  using assms by (simp add: safe_op_def)

lemma safe_shuffles [safe_ops]:
  "safe_op stack_2drop"
  "safe_op stack_2dup"
  "safe_op stack_3dup"
  "safe_op stack_2over"
  "safe_op stack_2rot"
  "safe_op stack_2swap"
  "safe_op stack_ifdup"
  "safe_op stack_drop"
  "safe_op stack_dup"
  "safe_op stack_nip"
  "safe_op stack_over"
  "safe_op stack_rot"
  "safe_op stack_swap"
  "safe_op stack_tuck"
  "safe_op Inr"
  by (auto simp: safe_op_def 
    elim!: stack_2drop.elims stack_2dup.elims stack_3dup.elims stack_2over.elims stack_2rot.elims stack_2swap.elims stack_ifdup.elims stack_drop.elims stack_dup.elims stack_nip.elims stack_over.elims stack_rot.elims stack_swap.elims stack_tuck.elims)

lemma safe_depth [safe_ops]: "safe_op stack_depth"
  by (rule safe_opI) (auto simp: stack_depth_def intro!: small_serialize)

lemma safe_size [safe_ops]: "safe_op stack_size"
  by (rule safe_opI) (auto simp: MAX_SCRIPT_ELEMENT_SIZE_def elim!: stack_size.elims
      intro!: small_serialize [unfolded MAX_SCRIPT_ELEMENT_SIZE_def])

lemma small_stack_subset: "set st' \<subseteq> set st \<Longrightarrow> small_stack st \<Longrightarrow> small_stack st'"
  by (auto simp: small_stack_def)

lemma stack_pick_roll_Inr:
  assumes "stack_pick_roll r opcode st = Inr st'"
  obtains x st0 n where "st = x # st0" "n < length st0"
    "st' = st0 ! n # (if opcode = OP_ROLL then take n st0 @ drop (Suc n) st0 else st0)"
proof -
  obtain x y st1 v where st: "st = x # y # st1" "\<not> scriptnum_getint v < 0"
    "\<not> int (length (y # st1)) \<le> scriptnum_getint v"
    "st' = (let n = nat (scriptnum_getint v); st0 = y # st1 in
       st0 ! n # (if opcode = OP_ROLL then take n st0 @ drop (Suc n) st0 else st0))"
    using assms by (auto elim!: stack_pick_roll.elims simp: rbind_iffs Let_def split: if_splits)
  then show ?thesis by (intro that [of x "y # st1" "nat (scriptnum_getint v)"]) (simp_all add: Let_def)
qed

lemma safe_pick_roll [safe_ops]: "safe_op (stack_pick_roll r opcode)"
proof (rule safe_opI)
  fix st
  show "stack_pick_roll r opcode st \<noteq> Inl Assert_failed"
    by (cases "(r, opcode, st)" rule: stack_pick_roll.cases)
      (auto simp: rbind_iffs Let_def split: if_splits)
next
  fix st st' assume s: "small_stack st" "stack_pick_roll r opcode st = Inr st'"
  then obtain x st0 n where st: "st = x # st0" "n < length st0"
    "st' = st0 ! n # (if opcode = OP_ROLL then take n st0 @ drop (Suc n) st0 else st0)"
    by (elim stack_pick_roll_Inr)
  then have "set st' \<subseteq> set st0"
    using set_take_subset [of n st0] set_drop_subset [of "Suc n" st0] by auto
  then show "small_stack st'" using s(1) st(1) small_stack_subset by auto
qed

lemma safe_equal [safe_ops]: "safe_op (stack_equal opcode)"
  by (rule safe_opI) (auto elim!: stack_equal.elims simp: Let_def split: if_splits
      simp: vchTrue_def vchFalse_def MAX_SCRIPT_ELEMENT_SIZE_def)

lemma unary_num_safe:
  assumes "\<bar>v\<bar> < 2 ^ 31"
    and "opcode \<in> {OP_1ADD, OP_1SUB, OP_NEGATE, OP_ABS, OP_NOT, OP_0NOTEQUAL}"
  shows "\<exists>r. unary_num opcode v = Inr r \<and> \<bar>r\<bar> < 2 ^ 32"
proof -
  have "scriptnum_add_assign v 1 = Some (v + 1)" "scriptnum_sub_assign v 1 = Some (v - 1)"
    "scriptnum_negate v = Some (- v)"
    using assms(1) by (auto simp: scriptnum_add_assign_def scriptnum_sub_assign_def
        scriptnum_negate_def int64_max_def int64_min_def)
  then show ?thesis using assms by (auto simp: unary_num_def assert_some_def)
qed

lemma safe_unary [safe_ops]:
  assumes "opcode \<in> {OP_1ADD, OP_1SUB, OP_NEGATE, OP_ABS, OP_NOT, OP_0NOTEQUAL}"
  shows "safe_op (stack_unary r opcode)"
proof (rule safe_opI)
  have unary: "stack_num x m = Inr v \<Longrightarrow> unary_num opcode v \<noteq> Inl e" for x m v e
    using unary_num_safe [OF stack_num_bound assms] by fastforce
  fix st
  show "stack_unary r opcode st \<noteq> Inl Assert_failed"
    by (cases "(r, opcode, st)" rule: stack_unary.cases) (auto simp: rbind_iffs dest: unary)
next
  fix st st' assume s: "small_stack st" "stack_unary r opcode st = Inr st'"
  then obtain x rest v n where st: "st = x # rest" "stack_num x r = Inr v"
    "unary_num opcode v = Inr n" "st' = scriptnum_serialize n # rest"
    by (auto elim!: stack_unary.elims simp: rbind_iffs)
  then have "\<bar>n\<bar> < 2 ^ 40" using unary_num_safe [OF stack_num_bound assms] by fastforce
  then show "small_stack st'" using s st small_serialize by simp
qed

lemma binary_num_safe:
  assumes "\<bar>v\<bar> < 2 ^ 31" "\<bar>w\<bar> < 2 ^ 31"
    and "opcode \<in> {OP_ADD, OP_SUB, OP_BOOLAND, OP_BOOLOR, OP_NUMEQUAL, OP_NUMEQUALVERIFY,
                   OP_NUMNOTEQUAL, OP_LESSTHAN, OP_GREATERTHAN, OP_LESSTHANOREQUAL,
                   OP_GREATERTHANOREQUAL, OP_MIN, OP_MAX}"
  shows "\<exists>r. binary_num opcode v w = Inr r \<and> \<bar>r\<bar> < 2 ^ 32"
  using assms(3) unfolding insert_iff
  by (elim disjE) (use assms(1,2) in \<open>simp_all add: binary_num_def\<close>)

lemma safe_binary [safe_ops]:
  assumes "opcode \<in> {OP_ADD, OP_SUB, OP_BOOLAND, OP_BOOLOR, OP_NUMEQUAL, OP_NUMEQUALVERIFY,
                   OP_NUMNOTEQUAL, OP_LESSTHAN, OP_GREATERTHAN, OP_LESSTHANOREQUAL,
                   OP_GREATERTHANOREQUAL, OP_MIN, OP_MAX}"
  shows "safe_op (stack_binary r opcode)"
proof (rule safe_opI)
  have binary: "stack_num x m = Inr v \<Longrightarrow> stack_num y m' = Inr w \<Longrightarrow> binary_num opcode v w \<noteq> Inl e"
    for x m v y m' w e
    using binary_num_safe [OF stack_num_bound stack_num_bound assms] by fastforce
  fix st
  show "stack_binary r opcode st \<noteq> Inl Assert_failed"
    by (cases "(r, opcode, st)" rule: stack_binary.cases)
      (auto simp: rbind_iffs Let_def dest: binary split: if_splits)
next
  fix st st' assume s: "small_stack st" "stack_binary r opcode st = Inr st'"
  then obtain x y rest v w n where st: "st = x # y # rest" "stack_num y r = Inr v"
    "stack_num x r = Inr w" "binary_num opcode v w = Inr n"
    "st' = scriptnum_serialize n # rest \<or> st' = rest"
    by (auto elim!: stack_binary.elims simp: rbind_iffs Let_def split: if_splits)
  then have "\<bar>n\<bar> < 2 ^ 40" using binary_num_safe [OF stack_num_bound stack_num_bound assms] by fastforce
  then show "small_stack st'" using s st small_serialize by auto
qed

lemma safe_within [safe_ops]: "safe_op (stack_within r)"
proof (rule safe_opI)
  fix st
  show "stack_within r st \<noteq> Inl Assert_failed"
    by (cases "(r, st)" rule: stack_within.cases) (auto simp: rbind_iffs)
next
  fix st st' assume "small_stack st" "stack_within r st = Inr st'"
  then show "small_stack st'"
    by (auto elim!: stack_within.elims simp: rbind_iffs vchTrue_def vchFalse_def MAX_SCRIPT_ELEMENT_SIZE_def)
qed

lemma safe_hash [safe_ops]:
  assumes "hash_lengths C" shows "safe_op (stack_hash C opcode)"
proof (rule safe_opI)
  fix st
  show "stack_hash C opcode st \<noteq> Inl Assert_failed"
    by (cases "(C, opcode, st)" rule: stack_hash.cases) auto
next
  fix st st' assume "small_stack st" "stack_hash C opcode st = Inr st'"
  then show "small_stack st'" using assms
    by (auto elim!: stack_hash.elims simp: hash_op_def CHash160_def CHash256_def
        hash_lengths_def MAX_SCRIPT_ELEMENT_SIZE_def)
qed

lemma encoding_safe [simp]:
  "CheckSignatureEncoding s f \<noteq> Inl Assert_failed" "CheckPubKeyEncoding k f \<noteq> Inl Assert_failed"
  by (auto simp: CheckSignatureEncoding_def CheckPubKeyEncoding_def IsLowDERSignature_def Let_def)

lemma safe_checksig [safe_ops]: "safe_op (stack_checksig C flags opcode codehash)"
proof (rule safe_opI)
  fix st
  show "stack_checksig C flags opcode codehash st \<noteq> Inl Assert_failed"
    by (cases "(C, flags, opcode, codehash, st)" rule: stack_checksig.cases)
      (auto simp: rbind_iffs Let_def split: if_splits)
next
  fix st st' assume "small_stack st" "stack_checksig C flags opcode codehash st = Inr st'"
  then show "small_stack st'"
    by (auto elim!: stack_checksig.elims simp: rbind_iffs Let_def split: if_splits
        simp: vchTrue_def vchFalse_def MAX_SCRIPT_ELEMENT_SIZE_def)
qed

lemma safe_const [safe_ops]:
  "safe_op (\<lambda>st. set_error e)" "safe_op (\<lambda>st. if c then set_error e else Inr st)"
  by (auto simp: safe_op_def)

lemma safe_push_small [safe_ops]:
  assumes "\<bar>v\<bar> < 2 ^ 40" shows "safe_op (\<lambda>st. Inr (scriptnum_serialize v # st))"
  using small_serialize [OF assms] by (auto simp: safe_op_def)

lemma if_SomeE:
  assumes "(if c then Some a else r) = Some f"
  obtains c "a = f" | "\<not> c" "r = Some f"
  using assms by (auto split: if_splits)

lemma small_int_op: "\<bar>uint (opcode :: opcodetype) - (uint OP_1 - 1)\<bar> < 2 ^ 40"
proof -
  define v where "v = uint opcode"
  have "0 \<le> v" "v < 256" using unsigned_less [of opcode, where ?'a = int] by (auto simp: v_def)
  then show ?thesis by (simp flip: v_def)
qed

lemma stack_case_safe:
  assumes "hash_lengths C" "stack_case C flags codehash opcode = Some f"
  shows "safe_op f"
  using assms(2) unfolding stack_case_def Let_def
  by (elim if_SomeE; (simp only: option.distinct)?; hypsubst;
      (intro safe_ops assms(1) small_int_op)?; assumption?)

lemma multisig_loop_safe: "multisig_loop C flags code sigs keys \<noteq> Inl Assert_failed"
proof (induction C flags code sigs keys rule: multisig_loop.induct)
  case (3 C flags code vchSig sigs vchPubKey keys)
  then show ?case by (auto simp: rbind_iffs Let_def split: if_splits)
qed auto

lemma small_stack_drop: "small_stack st \<Longrightarrow> small_stack (drop n st)"
  by (rule small_stack_subset [OF set_drop_subset])

lemma op_checkmultisig_safe: "op_checkmultisig C flags opcode m \<noteq> Inl Assert_failed"
  using multisig_loop_safe
  by (auto simp: op_checkmultisig_def rbind_iffs Let_def split: if_splits list.splits)

lemma drop_eq_Cons: "drop n xs = y # ys \<Longrightarrow> n < length xs \<and> ys = drop (Suc n) xs"
  by (metis drop_eq_Nil drop_Suc list.discI list.sel(3) not_le tl_drop)

lemma list_case_Inr:
  "(case xs of [] \<Rightarrow> Inl e | y # ys \<Rightarrow> f y ys) = Inr r \<longleftrightarrow> (\<exists>y ys. xs = y # ys \<and> f y ys = Inr r)"
  by (cases xs) auto

lemma if_error_Inr: "(if c then Inl e else r) = Inr x \<longleftrightarrow> \<not> c \<and> r = Inr x"
  by simp

lemma verify_result_Inr:
  "(if v then (if b then Inr x else Inl e) else Inr y) = Inr z \<Longrightarrow> z = x \<or> z = y"
  by (auto split: if_splits)

lemma op_checkmultisig_Inr:
  assumes "op_checkmultisig C flags opcode m = Inr m'"
  obtains n k st b where "n < length (stack m)" "nOpCount m \<le> k" "k \<le> 201" "st = drop (Suc n) (stack m)"
    "m' = m\<lparr>nOpCount := k, stack := st\<rparr> \<or> m' = m\<lparr>nOpCount := k, stack := vch_bool b # st\<rparr>"
proof -
  obtain n k y st b where *: "drop n (stack m) = y # st" "nOpCount m + k \<le> 201"
    "m' = m\<lparr>nOpCount := nOpCount m + k, stack := st\<rparr> \<or>
     m' = m\<lparr>nOpCount := nOpCount m + k, stack := vch_bool b # st\<rparr>"
    using assms unfolding op_checkmultisig_def Let_def
    by (simp only: rbind_eq_Inr list_case_Inr if_error_Inr not_less, elim exE conjE) (blast dest: verify_result_Inr)
  from drop_eq_Cons [OF *(1)] show ?thesis using *(2,3) by (intro that [of n "nOpCount m + k" st b]) auto
qed

subsection \<open>The invariant of the machine\<close>

definition machine_ok :: "machine \<Rightarrow> bool" where
  "machine_ok m \<longleftrightarrow> small_stack (stack m) \<and> small_stack (altstack m) \<and>
     length (stack m) + length (altstack m) \<le> 1000 \<and> nOpCount m \<le> 201"

text \<open>Before the size limit is checked again, the machine is well-formed but for the sizes.\<close>

definition machine_ok' :: "machine \<Rightarrow> bool" where
  "machine_ok' m \<longleftrightarrow> small_stack (stack m) \<and> small_stack (altstack m) \<and> nOpCount m \<le> 201"

lemma exec_opcode_safe:
  assumes "hash_lengths C" shows "exec_opcode C flags fExec opcode pc m \<noteq> Inl Assert_failed"
proof -
  have "on_stack f m \<noteq> Inl Assert_failed" if "stack_case C flags (pbegincodehash m) opcode = Some f" for f
    using stack_case_safe [OF assms that] by (auto simp: safe_op_def on_stack_def rbind_iffs)
  then show ?thesis
    unfolding exec_opcode_def using op_checkmultisig_safe
    by (auto simp: op_if_def op_else_def op_endif_def op_verify_def op_toaltstack_def
        op_fromaltstack_def Let_def split: list.splits option.splits)
qed

lemma exec_opcode_ok:
  assumes "hash_lengths C" "machine_ok m" "exec_opcode C flags fExec opcode pc m = Inr m'"
  shows "machine_ok' m'"
proof -
  have ok: "small_stack (stack m)" "small_stack (altstack m)" "length (stack m) \<le> 1000" "nOpCount m \<le> 201"
    using assms(2) by (auto simp: machine_ok_def)
  have multi: "machine_ok' m'" if "op_checkmultisig C flags opcode m = Inr m'"
    using that ok small_stack_drop [OF ok(1)]
    by (elim op_checkmultisig_Inr) (auto simp: machine_ok'_def vchTrue_def vchFalse_def MAX_SCRIPT_ELEMENT_SIZE_def)
  have "machine_ok' m'" if "stack_case C flags (pbegincodehash m) opcode = Some f" "on_stack f m = Inr m'" for f
    using stack_case_safe [OF assms(1) that(1)] that(2) ok
    by (auto simp: safe_op_def on_stack_def rbind_iffs machine_ok'_def)
  then show ?thesis
    using assms(3) ok multi unfolding exec_opcode_def
    by (auto simp: op_if_def op_else_def op_endif_def op_verify_def op_toaltstack_def machine_ok'_def
        op_fromaltstack_def Let_def split: list.splits option.splits if_splits)
qed

lemma check_limits_Inr: "check_limits m = Inr m' \<longleftrightarrow> m' = m \<and> length (stack m) + length (altstack m) \<le> 1000"
  by (auto simp: check_limits_def)

lemma eval_step_cases:
  assumes "eval_step C flags m pc = Inr (m', pc')" "GetOp2 pc = (ok, opcode, data, pc1)"
  obtains "ok" "pc1 = pc'" "length data \<le> MAX_SCRIPT_ELEMENT_SIZE" "\<not> disabled_opcode opcode"
    "opcode > OP_16 \<Longrightarrow> nOpCount (counted opcode m) \<le> 201"
    "length (stack m') + length (altstack m') \<le> 1000"
    "dispatch C flags opcode data pc' (counted opcode m) = Inr m'"
  using assms(1) unfolding eval_step_def assms(2) prod.case
  by (intro that) (auto simp: rbind_iffs check_limits_Inr Let_def not_less split: if_splits)

lemma dispatch_ok:
  assumes "hash_lengths C" "machine_ok m" "length data \<le> MAX_SCRIPT_ELEMENT_SIZE"
    and "dispatch C flags opcode data pc m = Inr m'"
  shows "machine_ok' m'"
  using assms(4) exec_opcode_ok [OF assms(1,2)] assms(2,3)
  by (auto simp: dispatch_def Let_def machine_ok_def machine_ok'_def split: if_splits)

lemma eval_step_ok:
  assumes "hash_lengths C" "machine_ok m" "eval_step C flags m pc = Inr (m', pc')"
  shows "machine_ok m'"
proof -
  obtain ok opcode data pc1 where g: "GetOp2 pc = (ok, opcode, data, pc1)" by (cases "GetOp2 pc")
  from assms(3) g show ?thesis
  proof (rule eval_step_cases)
    assume *: "length data \<le> MAX_SCRIPT_ELEMENT_SIZE" "length (stack m') + length (altstack m') \<le> 1000"
      "dispatch C flags opcode data pc' (counted opcode m) = Inr m'"
      "opcode > OP_16 \<Longrightarrow> nOpCount (counted opcode m) \<le> 201"
    have "machine_ok (counted opcode m)"
      using assms(2) *(4) by (auto simp: machine_ok_def counted_def)
    from dispatch_ok [OF assms(1) this *(1,3)] *(2) show "machine_ok m'"
      by (simp add: machine_ok_def machine_ok'_def)
  qed
qed

lemma dispatch_safe: "hash_lengths C \<Longrightarrow> dispatch C flags opcode data pc m \<noteq> Inl Assert_failed"
  using exec_opcode_safe by (simp add: dispatch_def Let_def)

lemma eval_step_safe:
  assumes "hash_lengths C" shows "eval_step C flags m pc \<noteq> Inl Assert_failed"
  using dispatch_safe [OF assms]
  by (auto simp: eval_step_def rbind_iffs check_limits_def Let_def split: if_splits prod.splits)

lemma eval_loop_ok:
  "hash_lengths C \<Longrightarrow> machine_ok m \<Longrightarrow> eval_loop C flags m pc = Inr m' \<Longrightarrow> machine_ok m'"
proof (induction C flags m pc rule: eval_loop.induct)
  case (1 C flags m pc)
  show ?case
  proof (cases "pc = []")
    case True
    then show ?thesis using 1 by (simp add: eval_loop.simps)
  next
    case False
    then obtain m1 pc1 where s: "eval_step C flags m pc = Inr (m1, pc1)" "eval_loop C flags m1 pc1 = Inr m'"
      using 1(4) by (auto simp: eval_loop.simps [of C flags m pc] split: sum.splits prod.splits)
    show ?thesis using 1(1) [OF False s(1) refl] eval_step_ok 1(2,3) s by blast
  qed
qed

lemma eval_loop_safe: "hash_lengths C \<Longrightarrow> eval_loop C flags m pc \<noteq> Inl Assert_failed"
proof (induction C flags m pc rule: eval_loop.induct)
  case (1 C flags m pc)
  have "eval_step C flags m pc = Inl e \<Longrightarrow> e \<noteq> Assert_failed" for e
    using eval_step_safe [OF 1(2), of flags m pc] by auto
  then show ?case
    using 1(1) [OF _ _ refl] 1(2) by (simp add: eval_loop.simps [of C flags m pc] split: sum.split prod.split)
qed

theorem EvalScript_bounds:
  assumes "hash_lengths C" "small_stack st" "length st \<le> 1000" "EvalScript C flags st script = Inr st'"
  shows "small_stack st' \<and> length st' \<le> 1000"
proof -
  let ?m = "\<lparr>stack = st, altstack = [], vfExec = [], nOpCount = 0, pbegincodehash = script\<rparr>"
  have "machine_ok ?m" using assms by (simp add: machine_ok_def)
  then show ?thesis using assms(1,4) eval_loop_ok [of C ?m flags script]
    by (auto simp: EvalScript_def rbind_iffs machine_ok_def split: if_splits)
qed

lemma EvalScript_safe: "hash_lengths C \<Longrightarrow> EvalScript C flags st script \<noteq> Inl Assert_failed"
  using eval_loop_safe by (auto simp: EvalScript_def rbind_iffs split: if_splits)

subsection \<open>Unspendable and pay-to-script-hash scripts\<close>

lemma eval_loop_step:
  assumes "pc \<noteq> []"
  shows "eval_loop C flags m pc = rbind (eval_step C flags m pc) (\<lambda>r. eval_loop C flags (fst r) (snd r))"
  using assms by (subst eval_loop.simps) (auto split: sum.split)

lemma eval_loop_Nil [simp]: "eval_loop C flags m [] = Inr m"
  by (subst eval_loop.simps) simp

lemma EvalScript_OP_RETURN:
  assumes "IsUnspendable s" shows "\<exists>e. EvalScript C flags st s = Inl e"
proof -
  obtain r where s: "s = OP_RETURN # r" using assms by (cases s) (auto simp: IsUnspendable_def)
  have "eval_step C flags \<lparr>stack = st, altstack = [], vfExec = [], nOpCount = 0, pbegincodehash = s\<rparr> s =
    set_error SCRIPT_ERR_OP_RETURN"
    by (simp add: s eval_step_def counted_def dispatch_def disabled_opcode_def exec_opcode_def stack_case_def on_stack_def MAX_SCRIPT_ELEMENT_SIZE_def)
  then show ?thesis using s by (auto simp: EvalScript_def eval_loop_step)
qed

theorem VerifyScript_unspendable:
  assumes "IsUnspendable scriptPubKey" shows "VerifyScript C flags scriptSig scriptPubKey \<noteq> Inr ()"
proof
  assume "VerifyScript C flags scriptSig scriptPubKey = Inr ()"
  then obtain st st' where "EvalScript C flags st scriptPubKey = Inr st'"
    by (auto simp: VerifyScript_def rbind_iffs split: if_splits)
  then show False using EvalScript_OP_RETURN [OF assms, of C flags st] by auto
qed

lemma EvalScript_p2sh_empty:
  assumes "IsPayToScriptHash s" shows "\<exists>e. EvalScript C flags [] s = Inl e"
proof -
  obtain r where s: "s = OP_HASH160 # r" using assms by (auto simp: IsPayToScriptHash_iff)
  have "eval_step C flags \<lparr>stack = [], altstack = [], vfExec = [], nOpCount = 0, pbegincodehash = s\<rparr> s =
    set_error SCRIPT_ERR_INVALID_STACK_OPERATION"
    by (simp add: s eval_step_def counted_def dispatch_def disabled_opcode_def exec_opcode_def stack_case_def on_stack_def MAX_SCRIPT_ELEMENT_SIZE_def)
  then show ?thesis using s by (auto simp: EvalScript_def eval_loop_step)
qed

theorem VerifyScript_no_abort:
  assumes "hash_lengths C" shows "VerifyScript C flags scriptSig scriptPubKey \<noteq> Inl Assert_failed"
proof -
  have top: "top_is_true st \<noteq> Inl Assert_failed" for st by (cases st) auto
  show ?thesis
    using EvalScript_safe [OF assms] EvalScript_p2sh_empty [of scriptPubKey C flags] top
    by (fastforce simp: VerifyScript_def rbind_iffs split: if_splits list.splits)
qed

subsection \<open>Unexecuted branches\<close>

theorem unexecuted_step:
  assumes "False \<in> set (vfExec m)" "eval_step C flags m pc = Inr (m', pc')"
  shows "stack m' = stack m \<and> altstack m' = altstack m \<and> pbegincodehash m' = pbegincodehash m"
proof -
  obtain ok opcode data pc1 where g: "GetOp2 pc = (ok, opcode, data, pc1)" by (cases "GetOp2 pc")
  have r: "opcode = 0x63 \<or> opcode = 0x64 \<or> opcode = 0x65 \<or> opcode = 0x66 \<or> opcode = 0x67 \<or> opcode = 0x68"
    if "OP_IF \<le> opcode" "opcode \<le> OP_ENDIF"
  proof -
    have "unat opcode = 99 \<or> unat opcode = 100 \<or> unat opcode = 101 \<or> unat opcode = 102 \<or>
      unat opcode = 103 \<or> unat opcode = 104" using that by (simp add: word_le_nat_alt) presburger
    then show ?thesis by (simp add: word_unat_eq_iff)
  qed
  have e: "stack m2 = stack m1 \<and> altstack m2 = altstack m1 \<and> pbegincodehash m2 = pbegincodehash m1"
    if "OP_IF \<le> opcode" "opcode \<le> OP_ENDIF" "exec_opcode C flags False opcode p m1 = Inr m2" for p m1 m2
    using r [OF that(1,2)] that(3)
    by (elim disjE) (auto simp: exec_opcode_def op_if_def op_else_def op_endif_def stack_case_def split: list.splits)
  from assms(2) g show ?thesis
    by (rule eval_step_cases)
      (use assms(1) in \<open>auto simp: dispatch_def counted_def Let_def split: if_splits dest: e\<close>)
qed

subsection \<open>What a successful run says of the whole script\<close>

lemma exec_opcode_count:
  assumes "exec_opcode C flags fExec opcode pc m = Inr m'"
  shows "nOpCount m \<le> nOpCount m' \<and> (nOpCount m \<le> 201 \<longrightarrow> nOpCount m' \<le> 201)"
proof -
  have "nOpCount m \<le> nOpCount m' \<and> (nOpCount m \<le> 201 \<longrightarrow> nOpCount m' \<le> 201)"
    if "op_checkmultisig C flags opcode m = Inr m'"
    using that by (elim op_checkmultisig_Inr) auto
  then show ?thesis using assms unfolding exec_opcode_def
    by (auto simp: op_if_def op_else_def op_endif_def op_verify_def op_toaltstack_def on_stack_def rbind_iffs
        op_fromaltstack_def Let_def split: list.splits option.splits if_splits)
qed

lemma exec_opcode_verif:
  "exec_opcode C flags fExec OP_VERIF pc m = set_error SCRIPT_ERR_BAD_OPCODE"
  "exec_opcode C flags fExec OP_VERNOTIF pc m = set_error SCRIPT_ERR_BAD_OPCODE"
  by (simp_all add: exec_opcode_def stack_case_def)

lemma dispatch_count:
  assumes "dispatch C flags opcode data pc m = Inr m'"
  shows "nOpCount m \<le> nOpCount m' \<and> (nOpCount m \<le> 201 \<longrightarrow> nOpCount m' \<le> 201)"
  using assms by (auto simp: dispatch_def Let_def split: if_splits dest: exec_opcode_count)

lemma dispatch_verif:
  "dispatch C flags OP_VERIF data pc m \<noteq> Inr m'" "dispatch C flags OP_VERNOTIF data pc m \<noteq> Inr m'"
  by (simp_all add: dispatch_def exec_opcode_verif Let_def)

lemma eval_step_ops:
  assumes "eval_step C flags m pc = Inr (m', pc')"
  obtains c where "single_op c" "pc = c @ pc'" "\<not> disabled_opcode (hd c)"
    "hd c \<noteq> OP_VERIF" "hd c \<noteq> OP_VERNOTIF"
    "nOpCount m + (if hd c > OP_16 then 1 else 0) \<le> nOpCount m'"
    "nOpCount m \<le> 201 \<Longrightarrow> nOpCount m' \<le> 201"
proof -
  obtain ok opcode data pc1 where g: "GetOp2 pc = (ok, opcode, data, pc1)" by (cases "GetOp2 pc")
  from assms g show ?thesis
  proof (rule eval_step_cases)
    assume *: "ok" "pc1 = pc'" "\<not> disabled_opcode opcode"
      "opcode > OP_16 \<Longrightarrow> nOpCount (counted opcode m) \<le> 201"
      "dispatch C flags opcode data pc' (counted opcode m) = Inr m'"
    have "GetOp2 pc = (True, opcode, data, pc')" using g *(1,2) by simp
    from GetOp2_frame [OF this] obtain c where c: "c \<noteq> []" "hd c = opcode" "pc = c @ pc'"
      "\<forall>s. GetOp2 (c @ s) = (True, opcode, data, s)" by blast
    have n: "nOpCount m + (if opcode > OP_16 then 1 else 0) \<le> nOpCount m'"
      using dispatch_count [OF *(5)] by (simp add: counted_def split: if_splits)
    have n2: "nOpCount m \<le> 201 \<Longrightarrow> nOpCount m' \<le> 201"
      using dispatch_count [OF *(5)] *(4) by (simp add: counted_def split: if_splits)
    show ?thesis
    proof (rule that [of c])
      show "single_op c" using spec [OF c(4), of "[]"] by (simp add: single_op_def)
      show "pc = c @ pc'" by (rule c(3))
      show "hd c \<noteq> OP_VERIF" "hd c \<noteq> OP_VERNOTIF"
        using *(5) dispatch_verif [of C flags data pc' "counted opcode m"] unfolding c(2) by metis+
    qed (use n n2 *(3) in \<open>simp_all add: c(2) del: not_le\<close>)
  qed
qed

text \<open>The opcodes a script may not contain anywhere, executed or not.\<close>

definition forbidden_opcode :: "opcodetype \<Rightarrow> bool" where
  "forbidden_opcode opcode \<longleftrightarrow>
     opcode \<in> {0x65, 0x66, 0x7e, 0x7f, 0x80, 0x81, 0x83, 0x84, 0x85, 0x86, 0x8d, 0x8e, 0x95, 0x96, 0x97, 0x98, 0x99}"

lemma forbidden_opcode_iff: "forbidden_opcode opcode \<longleftrightarrow> disabled_opcode opcode \<or> opcode = OP_VERIF \<or> opcode = OP_VERNOTIF"
  by (auto simp: forbidden_opcode_def disabled_opcode_def)

lemma eval_loop_ops:
  "eval_loop C flags m pc = Inr m' \<Longrightarrow> nOpCount m \<le> 201 \<Longrightarrow>
   snd (chunks pc) = [] \<and> (\<forall>c \<in> set (fst (chunks pc)). \<not> forbidden_opcode (hd c)) \<and>
   nOpCount m + length (filter (\<lambda>c. hd c > OP_16) (fst (chunks pc))) \<le> 201"
proof (induction C flags m pc rule: eval_loop.induct)
  case (1 C flags m pc)
  show ?case
  proof (cases "pc = []")
    case False
    then obtain m1 pc1 where s: "eval_step C flags m pc = Inr (m1, pc1)" "eval_loop C flags m1 pc1 = Inr m'"
      using 1(2) by (auto simp: eval_loop.simps [of C flags m pc] split: sum.splits prod.splits)
    from s(1) obtain c where c: "single_op c" "pc = c @ pc1" "\<not> disabled_opcode (hd c)"
      "hd c \<noteq> OP_VERIF" "hd c \<noteq> OP_VERNOTIF"
      "nOpCount m + (if hd c > OP_16 then 1 else 0) \<le> nOpCount m1" "nOpCount m1 \<le> 201"
      using 1(3) by (elim eval_step_ops) auto
    from 1(1) [OF False s(1) refl s(2) c(7)] show ?thesis
      using c by (auto simp: chunks_op forbidden_opcode_iff split: if_splits)
  qed (use 1(3) in \<open>simp add: chunks_Nil\<close>)
qed

theorem EvalScript_static:
  assumes "EvalScript C flags st s = Inr st'"
  shows "length s \<le> 10000 \<and> snd (chunks s) = [] \<and>
    (\<forall>c \<in> set (fst (chunks s)). \<not> forbidden_opcode (hd c)) \<and>
    length (filter (\<lambda>c. hd c > OP_16) (fst (chunks s))) \<le> 201"
  using assms by (auto simp: EvalScript_def rbind_iffs split: if_splits dest!: eval_loop_ops)

subsection \<open>Multiple signatures\<close>

text \<open>The greedy loop finds a match exactly when one exists in the order of the keys.\<close>

definition sig_match :: "checker \<Rightarrow> script \<Rightarrow> bytes list \<Rightarrow> bytes list \<Rightarrow> bool" where
  "sig_match C code sigs keys \<longleftrightarrow>
     (\<exists>ks. subseq ks keys \<and> list_all2 (\<lambda>s k. CheckSig C s k code) sigs ks)"

lemma sig_match_length: "sig_match C code sigs keys \<Longrightarrow> length sigs \<le> length keys"
  unfolding sig_match_def by (metis list_all2_lengthD list_emb_length)

lemma sig_match_Nil: "sig_match C code [] keys"
  by (auto simp: sig_match_def)

lemma sig_match_hit:
  assumes "CheckSig C s k code"
  shows "sig_match C code (s # sigs) (k # keys) \<longleftrightarrow> sig_match C code sigs keys"
proof
  assume "sig_match C code (s # sigs) (k # keys)"
  then obtain k' ks where "subseq (k' # ks) (k # keys)" "list_all2 (\<lambda>s k. CheckSig C s k code) sigs ks"
    by (auto simp: sig_match_def list_all2_Cons1)
  moreover from this(1) have "subseq ks keys" by (metis subseq_Cons2' subseq_Cons' list_emb_Cons list.inject subseq_Cons2_iff)
  ultimately show "sig_match C code sigs keys" by (auto simp: sig_match_def)
next
  assume "sig_match C code sigs keys"
  then obtain ks where "subseq ks keys" "list_all2 (\<lambda>s k. CheckSig C s k code) sigs ks"
    by (auto simp: sig_match_def)
  then show "sig_match C code (s # sigs) (k # keys)"
    using assms unfolding sig_match_def by (intro exI [of _ "k # ks"]) simp
qed

lemma sig_match_miss:
  assumes "\<not> CheckSig C s k code"
  shows "sig_match C code (s # sigs) (k # keys) \<longleftrightarrow> sig_match C code (s # sigs) keys"
proof
  assume "sig_match C code (s # sigs) (k # keys)"
  then obtain k' ks where *: "subseq (k' # ks) (k # keys)" "CheckSig C s k' code"
    "list_all2 (\<lambda>s k. CheckSig C s k code) sigs ks"
    by (auto simp: sig_match_def list_all2_Cons1)
  then have "k' \<noteq> k" using assms by auto
  then have "subseq (k' # ks) keys" using *(1) by (simp add: subseq_Cons2_neq)
  then show "sig_match C code (s # sigs) keys"
    using * unfolding sig_match_def by (intro exI [of _ "k' # ks"]) simp
next
  assume "sig_match C code (s # sigs) keys"
  then show "sig_match C code (s # sigs) (k # keys)"
    unfolding sig_match_def by (auto intro: list_emb_Cons)
qed

theorem multisig_loop_match:
  assumes "multisig_loop C flags code sigs keys = Inr b"
  shows "b \<longleftrightarrow> sig_match C code sigs keys"
  using assms
proof (induction C flags code sigs keys rule: multisig_loop.induct)
  case (1 C flags code keys)
  then show ?case by (simp add: sig_match_Nil)
next
  case (2 C flags code s sigs)
  then show ?case using sig_match_length [of C code "s # sigs" "[]"] by auto
next
  case (3 C flags code s sigs k keys)
  let ?sigs = "if CheckSig C s k code then sigs else s # sigs"
  have m: "sig_match C code (s # sigs) (k # keys) \<longleftrightarrow> sig_match C code ?sigs keys"
    using sig_match_hit sig_match_miss by (cases "CheckSig C s k code") auto
  show ?case
  proof (cases "length ?sigs > length keys")
    case True
    then have "\<not> sig_match C code ?sigs keys" using sig_match_length by (meson not_less)
    moreover have "\<not> b" using 3(2) True by (auto simp: rbind_iffs Let_def split: if_splits)
    ultimately show ?thesis using m by blast
  next
    case False
    then show ?thesis unfolding m
      using 3 by (auto simp: rbind_iffs Let_def split: if_splits)
  qed
qed

text \<open>It fails only on a signature or a key that is not encoded as the flags ask.\<close>

lemma multisig_loop_error:
  "multisig_loop C flags code sigs keys = Inl e \<Longrightarrow>
   \<exists>sig \<in> set sigs. \<exists>key \<in> set keys. CheckSignatureEncoding sig flags = Inl e \<or> CheckPubKeyEncoding key flags = Inl e"
proof (induction C flags code sigs keys rule: multisig_loop.induct)
  case (3 C flags code s sigs k keys)
  then show ?case by (fastforce simp: rbind_eq_Inl Let_def split: if_splits)
qed simp_all

theorem multisig_loop_spec:
  "case multisig_loop C flags code sigs keys of
     Inr b \<Rightarrow> b \<longleftrightarrow> sig_match C code sigs keys
   | Inl e \<Rightarrow> \<exists>sig \<in> set sigs. \<exists>key \<in> set keys. CheckSignatureEncoding sig flags = Inl e \<or> CheckPubKeyEncoding key flags = Inl e"
  using multisig_loop_match [of C flags code sigs keys] multisig_loop_error [of C flags code sigs keys] by (simp split: sum.split)

subsection \<open>Big-endian comparison and the DER form\<close>

lemma wval_rev_Cons: "wval (rev (c # cs)) = wval (rev cs) + 2 ^ (8 * length cs) * unat (c :: byte)"
  by (simp add: wval_append)

lemma wval_rev_less: "wval (rev cs) < 2 ^ (8 * length (cs :: bytes))"
  using wval_bound [of "rev cs"] by simp

lemma strip_longer_None: "strip_longer cs n = None \<Longrightarrow> 2 ^ (8 * n) \<le> wval (rev cs)"
proof (induction cs n rule: strip_longer.induct)
  case (2 c cs n)
  show ?case
  proof (cases "c = 0")
    case False
    then have "1 \<le> unat c" by (simp add: Suc_le_eq unat_gt_0)
    have n: "n \<le> length cs" using 2(2) by (simp split: if_splits)
    have "(2::nat) ^ (8 * n) \<le> 2 ^ (8 * length cs)" using n by (intro power_increasing) auto
    also have "\<dots> \<le> 2 ^ (8 * length cs) * unat c" using \<open>1 \<le> unat c\<close> by simp
    also have "\<dots> \<le> wval (rev (c # cs))" unfolding wval_rev_Cons by simp
    finally show ?thesis .
  next
    case True
    then have "2 ^ (8 * n) \<le> wval (rev cs)" using 2 by (auto split: if_splits)
    then show ?thesis unfolding wval_rev_Cons by simp
  qed
qed simp

lemma strip_longer_Some:
  "strip_longer cs n = Some cs' \<Longrightarrow>
   wval (rev cs') = wval (rev cs) \<and> length cs' = min n (length cs)"
proof (induction cs n rule: strip_longer.induct)
  case (2 c cs n)
  then show ?case by (cases "length (c # cs) > n") (auto simp: wval_append split: if_splits)
qed simp

lemma sgn_diff:
  "b < a \<Longrightarrow> sgn (int a - int b) = 1" "a < b \<Longrightarrow> sgn (int a - int b) = -1"
  by simp_all

lemma compare_same_val:
  "length a = length b \<Longrightarrow>
   compare_same a b = sgn (int (wval (rev a)) - int (wval (rev b)))"
proof (induction a b rule: list_induct2)
  case (Cons x xs y ys)
  let ?B = "2 ^ (8 * length xs) :: nat"
  have b: "wval (rev xs) < ?B" "wval (rev ys) < ?B"
    using wval_rev_less [of xs] wval_rev_less [of ys] Cons by simp_all
  have v: "wval (rev (x # xs)) = wval (rev xs) + ?B * unat x" "wval (rev (y # ys)) = wval (rev ys) + ?B * unat y"
    using Cons by (simp_all only: wval_rev_Cons)
  have less: "p + ?B * u < q + ?B * w" if "p < ?B" "u < w" for p q u w
  proof -
    have "p + ?B * u < ?B + ?B * u" using that by simp
    also have "\<dots> = ?B * Suc u" by simp
    also have "\<dots> \<le> ?B * w" using that by (intro mult_le_mono2) simp
    finally show ?thesis by simp
  qed
  consider "unat x > unat y" | "unat y > unat x" | "x = y" by (metis linorder_neqE_nat unsigned_word_eqI)
  then show ?case
  proof cases
    case 1
    then have "wval (rev (y # ys)) < wval (rev (x # xs))" unfolding v by (intro less b)
    from sgn_diff(1) [OF this] show ?thesis using 1 by (simp only: compare_same.simps word_less_nat_alt if_True)
  next
    case 2
    then have "wval (rev (x # xs)) < wval (rev (y # ys))" unfolding v by (intro less b)
    moreover have "\<not> unat y < unat x" using 2 by simp
    ultimately show ?thesis using 2 sgn_diff(2)
      by (simp only: compare_same.simps word_less_nat_alt if_False if_True)
  next
    case 3
    then show ?thesis using Cons unfolding v by simp
  qed
qed simp

theorem CompareBigEndian_val:
  "CompareBigEndian a b = sgn (int (wval (rev a)) - int (wval (rev b)))"
proof (cases "strip_longer a (length b)")
  case None
  then show ?thesis using strip_longer_None [OF None] wval_rev_less [of b]
    by (simp add: CompareBigEndian_def)
next
  case (Some a')
  note a = strip_longer_Some [OF Some]
  show ?thesis
  proof (cases "strip_longer b (length a')")
    case None
    then show ?thesis using strip_longer_None [OF None] wval_rev_less [of a'] a Some
      by (simp add: CompareBigEndian_def)
  next
    case (Some b')
    then show ?thesis using strip_longer_Some [OF Some] a \<open>strip_longer a (length b) = Some a'\<close>
      by (simp add: CompareBigEndian_def compare_same_val)
  qed
qed

definition secp256k1_order :: nat where
  "secp256k1_order = 0xFFFFFFFFFFFFFFFFFFFFFFFFFFFFFFFEBAAEDCE6AF48A03BBFD25E8CD0364141"

lemma order_vals:
  "wval (rev vchMaxModOrder) = secp256k1_order - 1"
  "wval (rev vchMaxModHalfOrder) = (secp256k1_order - 1) div 2"
  by (simp_all add: vchMaxModOrder_def vchMaxModHalfOrder_def secp256k1_order_def)

theorem CheckSignatureElement_val:
  "CheckSignatureElement S half \<longleftrightarrow>
     0 < wval (rev S) \<and> wval (rev S) \<le> (if half then (secp256k1_order - 1) div 2 else secp256k1_order - 1)"
  unfolding CheckSignatureElement_def CompareBigEndian_val
  by (cases half) (auto simp: order_vals sgn_if)

text \<open>A positive integer in the shortest big-endian form of DER.\<close>

definition der_int :: "bytes \<Rightarrow> bool" where
  "der_int R \<longleftrightarrow> R \<noteq> [] \<and> hd R AND 0x80 = 0 \<and>
     (length R > 1 \<longrightarrow> hd R = 0 \<longrightarrow> R ! 1 AND 0x80 \<noteq> 0)"

definition der_signature :: "bytes \<Rightarrow> bytes \<Rightarrow> byte \<Rightarrow> bytes" where
  "der_signature R S hashtype =
     [0x30, of_nat (length R + length S + 4), 0x02, of_nat (length R)] @ R @
     [0x02, of_nat (length S)] @ S @ [hashtype]"


lemma of_nat_byte: "n < 256 \<Longrightarrow> unat (of_nat n :: byte) = n"
  by (simp add: unat_of_nat)

lemma byte_of_unat: "(of_nat (unat (b :: byte)) :: byte) = b"
  by simp

lemma take4: "4 \<le> length xs \<Longrightarrow> take 4 xs = [xs ! 0, xs ! 1, xs ! 2, xs ! 3]"
  by (cases xs; cases "tl xs"; cases "tl (tl xs)"; cases "tl (tl (tl xs))") auto

lemma take2_drop: "k + 2 \<le> length xs \<Longrightarrow> take 2 (drop k xs) = [xs ! k, xs ! (k + 1)]"
  using Cons_nth_drop_Suc [of k xs] Cons_nth_drop_Suc [of "Suc k" xs]
  by (metis Suc_eq_plus1 Suc_le_lessD add_2_eq_Suc' less_imp_le_nat less_Suc_eq_le take_Suc_Cons take_0 numeral_2_eq_2)

lemma split_five:
  "xs = take a xs @ take b (drop a xs) @ take c (drop (a + b) xs) @ take d (drop (a + b + c) xs) @
        drop (a + b + c + d) xs"
proof -
  have "drop (a + b) xs = drop b (drop a xs)" "drop (a + b + c) xs = drop c (drop (a + b) xs)"
    "drop (a + b + c + d) xs = drop d (drop (a + b + c) xs)" by (simp_all add: add.commute add.left_commute)
  then show ?thesis by (metis append_take_drop_id)
qed

lemma drop_last_one: "xs \<noteq> [] \<Longrightarrow> k = length xs - 1 \<Longrightarrow> drop k xs = [last xs]"
  by (metis append_butlast_last_id append_eq_conv_conj length_butlast)

theorem IsValidSignatureEncoding_der:
  "IsValidSignatureEncoding sig \<longleftrightarrow>
     (\<exists>R S hashtype. sig = der_signature R S hashtype \<and> der_int R \<and> der_int S \<and> length sig \<le> 73)"
proof
  assume v: "IsValidSignatureEncoding sig"
  define lenR where "lenR = unat (sig ! 3)"
  define lenS where "lenS = unat (sig ! (5 + lenR))"
  have f: "9 \<le> length sig" "length sig \<le> 73" "sig ! 0 = 0x30" "unat (sig ! 1) = length sig - 3"
    "5 + lenR < length sig" "lenR + lenS + 7 = length sig" "sig ! 2 = 0x02" "lenR \<noteq> 0"
    "sig ! 4 AND 0x80 = 0" "lenR > 1 \<Longrightarrow> sig ! 4 = 0 \<Longrightarrow> sig ! 5 AND 0x80 \<noteq> 0"
    "sig ! (lenR + 4) = 0x02" "lenS \<noteq> 0" "sig ! (lenR + 6) AND 0x80 = 0"
    "lenS > 1 \<Longrightarrow> sig ! (lenR + 6) = 0 \<Longrightarrow> sig ! (lenR + 7) AND 0x80 \<noteq> 0"
    using v by (simp_all add: IsValidSignatureEncoding_def Let_def lenR_def lenS_def split: if_splits)
  define R where "R = take lenR (drop 4 sig)"
  define S where "S = take lenS (drop (lenR + 6) sig)"
  have len: "length R = lenR" "length S = lenS" using f by (simp_all add: R_def S_def)
  have "sig = take 4 sig @ R @ take 2 (drop (lenR + 4) sig) @ S @ drop (lenR + lenS + 6) sig"
    using split_five [of sig 4 lenR 2 lenS] by (simp add: R_def S_def ac_simps)
  moreover have "take 4 sig = [0x30, of_nat (length R + length S + 4), 0x02, of_nat (length R)]"
  proof -
    have "length R + length S + 4 = unat (sig ! 1)" using f(4,6) len by simp
    then have "sig ! 1 = of_nat (length R + length S + 4)" by (simp only: byte_of_unat)
    moreover have "sig ! 3 = of_nat (length R)" using len by (simp add: lenR_def)
    moreover have "4 \<le> length sig" using f(1) by simp
    ultimately show ?thesis using take4 [of sig] f(3,7) by metis
  qed
  moreover have "take 2 (drop (lenR + 4) sig) = [0x02, of_nat (length S)]"
    using f len take2_drop [of "lenR + 4" sig] by (simp add: lenS_def add.commute)
  moreover have "drop (lenR + lenS + 6) sig = [last sig]"
    using f by (intro drop_last_one) auto
  ultimately have "sig = der_signature R S (last sig)" by (simp add: der_signature_def)
  moreover have "der_int R" "der_int S"
    using f len by (auto simp: der_int_def R_def S_def hd_take hd_drop_conv_nth add.commute)
  ultimately show "\<exists>R S hashtype. sig = der_signature R S hashtype \<and> der_int R \<and> der_int S \<and> length sig \<le> 73"
    using f by blast
next
  assume "\<exists>R S hashtype. sig = der_signature R S hashtype \<and> der_int R \<and> der_int S \<and> length sig \<le> 73"
  then obtain R S h where s: "sig = der_signature R S h" and d: "der_int R" "der_int S" and l: "length sig \<le> 73"
    by blast
  have len: "length sig = length R + length S + 7" by (simp add: s der_signature_def)
  have n: "unat (of_nat (length R + length S + 4) :: byte) = length R + length S + 4"
    "unat (of_nat (length R) :: byte) = length R" "unat (of_nat (length S) :: byte) = length S"
    using l len by (simp_all only: of_nat_byte)
  have i: "sig ! 0 = 0x30" "sig ! 1 = of_nat (length R + length S + 4)" "sig ! 2 = 0x02"
    "sig ! 3 = of_nat (length R)" "sig ! (length R + 4) = 0x02" "sig ! (5 + length R) = of_nat (length S)"
    by (simp_all add: s der_signature_def nth_append)
  have r: "sig ! 4 = hd R" "length R > 1 \<Longrightarrow> sig ! 5 = R ! 1"
    "sig ! (length R + 6) = hd S" "length S > 1 \<Longrightarrow> sig ! (length R + 7) = S ! 1"
    using d by (auto simp: s der_signature_def nth_append der_int_def hd_conv_nth)
  have "\<not> length R + length S < 2" using d by (cases R; cases S) (auto simp: der_int_def)
  then show "IsValidSignatureEncoding sig"
    using d l len n i r unfolding IsValidSignatureEncoding_def Let_def der_int_def
    by (auto simp: Suc_le_eq)
qed

subsection \<open>Pay to public key hash\<close>

text \<open>What \<^verbatim>\<open>operator<<\<close> emits is minimal, except for the bytes that have an opcode of their own.\<close>

definition minimal_push :: "bytes \<Rightarrow> bool" where
  "minimal_push b \<longleftrightarrow> \<not> (length b = 1 \<and> (1 \<le> b ! 0 \<and> b ! 0 \<le> 16 \<or> b ! 0 = 0x81))"

lemma CheckMinimalPush_push_data:
  assumes "length b \<le> 65535"
  shows "CheckMinimalPush b (hd (push_data b)) \<longleftrightarrow> minimal_push b"
proof (cases "length b = 1 \<and> (1 \<le> b ! 0 \<and> b ! 0 \<le> 16 \<or> b ! 0 = 0x81)")
  case True
  then have l: "length b = 1" and c: "1 \<le> b ! 0 \<and> b ! 0 \<le> 16 \<or> b ! 0 = 0x81" by auto
  have "hd (push_data b) = 1" using l by (simp add: push_data_def)
  moreover have "OP_1 + (x - 1) \<noteq> 1" if "1 \<le> x" "x \<le> 16" for x :: byte
  proof
    assume "OP_1 + (x - 1) = 1"
    then have "unat (79 + x) = 0" by simp
    then have "unat x + 79 = 256 \<or> unat x + 79 = 0" using that(2) by (simp add: unat_word_ariths word_le_nat_alt)
    then show False using that(2) by (simp add: word_le_nat_alt)
  qed
  ultimately show ?thesis using c l True by (auto simp: CheckMinimalPush_def minimal_push_def)
next
  case False
  have "unat (of_nat (length b) :: byte) = length b" if "length b < 0x4c" using that by (simp add: unat_of_nat)
  then show ?thesis using False assms by (auto simp: CheckMinimalPush_def minimal_push_def push_data_def)
qed

definition pushable :: "u32 \<Rightarrow> bytes \<Rightarrow> bool" where
  "pushable flags b \<longleftrightarrow> length b \<le> MAX_SCRIPT_ELEMENT_SIZE \<and> (has_flag flags SCRIPT_VERIFY_MINIMALDATA \<longrightarrow> minimal_push b)"

lemma eval_step_push:
  assumes "length b < 2 ^ 32" "False \<notin> set (vfExec m)" "length (stack m) + length (altstack m) < 1000"
  shows "pushable flags b \<Longrightarrow> eval_step C flags m (push_data b @ s) = Inr (m\<lparr>stack := b # stack m\<rparr>, s)"
    and "\<not> pushable flags b \<Longrightarrow> \<exists>e. eval_step C flags m (push_data b @ s) = Inl e"
proof -
  obtain op where g: "GetOp2 (push_data b @ s) = (True, op, b, s)" "op \<le> OP_PUSHDATA4"
    using GetOp2_push_data [OF assms(1)] by auto
  obtain c where "c \<noteq> []" "hd c = op" "push_data b @ s = c @ s" using GetOp2_frame [OF g(1)] by blast
  then have op: "op = hd (push_data b)" by simp
  have "\<not> op > OP_16" "\<not> disabled_opcode op"
    using g(2) by (auto simp: disabled_opcode_def word_le_nat_alt word_less_nat_alt)
  moreover have "CheckMinimalPush b op \<longleftrightarrow> minimal_push b" if "length b \<le> MAX_SCRIPT_ELEMENT_SIZE"
    unfolding op using that by (intro CheckMinimalPush_push_data) (simp add: MAX_SCRIPT_ELEMENT_SIZE_def)
  ultimately show "pushable flags b \<Longrightarrow> eval_step C flags m (push_data b @ s) = Inr (m\<lparr>stack := b # stack m\<rparr>, s)"
    and "\<not> pushable flags b \<Longrightarrow> \<exists>e. eval_step C flags m (push_data b @ s) = Inl e"
    using assms g by (auto simp: eval_step_def counted_def dispatch_def check_limits_def Let_def pushable_def)
qed

lemma eval_loop_push:
  assumes "length b < 2 ^ 32" "False \<notin> set (vfExec m)" "length (stack m) + length (altstack m) < 1000"
  shows "pushable flags b \<Longrightarrow> eval_loop C flags m (push_data b @ s) = eval_loop C flags (m\<lparr>stack := b # stack m\<rparr>) s"
    and "\<not> pushable flags b \<Longrightarrow> \<exists>e. eval_loop C flags m (push_data b @ s) = Inl e"
proof -
  have n: "push_data b @ s \<noteq> []" by (simp add: push_data_def)
  show "pushable flags b \<Longrightarrow> eval_loop C flags m (push_data b @ s) = eval_loop C flags (m\<lparr>stack := b # stack m\<rparr>) s"
    using eval_step_push(1) [OF assms] n by (simp add: eval_loop_step)
  show "\<not> pushable flags b \<Longrightarrow> \<exists>e. eval_loop C flags m (push_data b @ s) = Inl e"
    using eval_step_push(2) [OF assms, of flags C s] n by (auto simp: eval_loop_step)
qed

text \<open>An executed operation that acts on the main stack only.\<close>

lemma eval_loop_op:
  assumes "op > OP_16" "\<not> disabled_opcode op" "vfExec m = []" "nOpCount m < 201"
    and "\<And>m. exec_opcode C flags True op s m = on_stack (f (pbegincodehash m)) m"
  shows "eval_loop C flags m (op # s) =
    rbind (f (pbegincodehash m) (stack m)) (\<lambda>st.
      if length st + length (altstack m) > 1000 then set_error SCRIPT_ERR_STACK_SIZE
      else eval_loop C flags (m\<lparr>nOpCount := Suc (nOpCount m), stack := st\<rparr>) s)"
proof -
  have n: "\<not> op \<le> OP_PUSHDATA4" using assms(1) by (auto simp: word_le_nat_alt word_less_nat_alt)
  then have g: "GetOp2 (op # s) = (True, op, [], s)" by simp
  have "eval_step C flags m (op # s) =
    rbind (f (pbegincodehash m) (stack m)) (\<lambda>st.
      if length st + length (altstack m) > 1000 then set_error SCRIPT_ERR_STACK_SIZE
      else Inr (m\<lparr>nOpCount := Suc (nOpCount m), stack := st\<rparr>, s))"
    unfolding eval_step_def g prod.case using assms n
    by (cases "f (pbegincodehash m) (stack m)")
      (simp_all add: counted_def dispatch_def on_stack_def check_limits_def Let_def)
  then show ?thesis
    by (cases "f (pbegincodehash m) (stack m)") (simp_all add: eval_loop_step)
qed

lemma exec_dup: "exec_opcode C flags True OP_DUP s m = on_stack stack_dup m"
  and exec_hash160: "exec_opcode C flags True OP_HASH160 s m = on_stack (stack_hash C OP_HASH160) m"
  and exec_equalverify: "exec_opcode C flags True OP_EQUALVERIFY s m = on_stack (stack_equal OP_EQUALVERIFY) m"
  and exec_checksig: "exec_opcode C flags True OP_CHECKSIG s m =
    on_stack (stack_checksig C flags OP_CHECKSIG (pbegincodehash m)) m"
  by (simp_all add: exec_opcode_def stack_case_def)

lemma enabled_ops:
  "\<not> disabled_opcode OP_DUP" "\<not> disabled_opcode OP_HASH160" "\<not> disabled_opcode OP_EQUALVERIFY"
  "\<not> disabled_opcode OP_CHECKSIG"
  by (simp_all add: disabled_opcode_def)

lemma chunks_p2pkh:
  assumes "length h = 20"
  shows "chunks (pay_to_pubkey_hash h) =
    ([[OP_DUP], [OP_HASH160], push_data h, [OP_EQUALVERIFY], [OP_CHECKSIG]], [])"
proof -
  have s: "single_op (push_data h)" using assms by (intro single_op_push_data) simp
  have b: "single_op [OP_DUP]" "single_op [OP_HASH160]" "single_op [OP_EQUALVERIFY]" "single_op [OP_CHECKSIG]"
    by (simp_all add: single_op_byte)
  have "pay_to_pubkey_hash h = [OP_DUP] @ [OP_HASH160] @ push_data h @ [OP_EQUALVERIFY] @ [OP_CHECKSIG] @ []"
    by (simp add: pay_to_pubkey_hash_def)
  then show ?thesis
    by (simp only: chunks_op [OF s] b [THEN chunks_op] chunks_Nil fst_conv snd_conv)
qed

lemma push_data_inject:
  assumes "length a < 2 ^ 32" "length b < 2 ^ 32" "push_data a = push_data b" shows "a = b"
proof -
  obtain x y where "GetOp2 (push_data a @ []) = (True, x, a, [])" "GetOp2 (push_data b @ []) = (True, y, b, [])"
    using GetOp2_push_data [OF assms(1)] GetOp2_push_data [OF assms(2)] by blast
  then show ?thesis unfolding assms(3) by (metis prod.inject)
qed

lemma push_data_hd: "hd (push_data b) \<le> OP_PUSHDATA4"
proof (cases "length b < 76")
  case True
  then have "unat (of_nat (length b) :: byte) \<le> 78" by (simp add: unat_of_nat)
  with True show ?thesis by (simp add: push_data_def word_le_nat_alt)
next
  case False
  then show ?thesis by (auto simp: push_data_def)
qed

text \<open>The script code that is signed: a signature that equals the hash is cut out of it.\<close>

definition p2pkh_code :: "bytes \<Rightarrow> bytes \<Rightarrow> script" where
  "p2pkh_code h sig = (if sig = h then [OP_DUP, OP_HASH160, OP_EQUALVERIFY, OP_CHECKSIG] else pay_to_pubkey_hash h)"

lemma FindAndDelete_p2pkh:
  assumes "length h = 20" "length sig < 2 ^ 32"
  shows "fst (FindAndDelete (pay_to_pubkey_hash h) (push_data sig)) = p2pkh_code h sig"
proof -
  have ne: "push_data sig = push_data h \<longleftrightarrow> sig = h" using push_data_inject [of sig h] assms by auto
  have b: "push_data sig \<noteq> [op]" if "\<not> op \<le> OP_PUSHDATA4" for op
    using push_data_hd [of sig] that by auto
  have c: "chunks (pay_to_pubkey_hash h) =
    ([[OP_DUP], [OP_HASH160], push_data h, [OP_EQUALVERIFY], [OP_CHECKSIG]], [])"
    by (rule chunks_p2pkh [OF assms(1)])
  show ?thesis
    unfolding FindAndDelete_chunks [OF single_op_push_data [OF assms(2)]] c
    using ne b [of OP_DUP] b [of OP_HASH160] b [of OP_EQUALVERIFY] b [of OP_CHECKSIG]
    by (auto simp: p2pkh_code_def pay_to_pubkey_hash_def eq_commute)
qed

lemma push_data_length: "length (push_data b) \<le> length b + 5"
  by (simp add: push_data_def length_wdigits)

lemma eval_p2pkh:
  assumes "length h = 20"
  shows "EvalScript C flags [pubkey, sig] (pay_to_pubkey_hash h) =
    (if CHash160 C pubkey = h
     then stack_checksig C flags OP_CHECKSIG (pay_to_pubkey_hash h) [pubkey, sig]
     else set_error SCRIPT_ERR_EQUALVERIFY)"
proof -
  let ?s = "pay_to_pubkey_hash h"
  let ?m = "\<lambda>n st. \<lparr>stack = st, altstack = [], vfExec = [], nOpCount = n, pbegincodehash = ?s\<rparr>"
  have l: "length ?s \<le> 10000"
    using push_data_length [of h] assms(1) by (simp add: pay_to_pubkey_hash_def)
  have h: "length h < 2 ^ 32" "pushable flags h"
    using assms by (simp_all add: MAX_SCRIPT_ELEMENT_SIZE_def pushable_def minimal_push_def)
  have "eval_loop C flags (?m 0 [pubkey, sig]) ?s =
    eval_loop C flags (?m (Suc (Suc 0)) [h, CHash160 C pubkey, pubkey, sig]) [OP_EQUALVERIFY, OP_CHECKSIG]"
    unfolding pay_to_pubkey_hash_def using assms h
    by (simp add: eval_loop_op [OF _ enabled_ops(1) _ _ exec_dup] eval_loop_op [OF _ enabled_ops(2) _ _ exec_hash160]
        eval_loop_push hash_op_def)
  also have "\<dots> = (if CHash160 C pubkey = h
    then eval_loop C flags (?m (Suc (Suc (Suc 0))) [pubkey, sig]) [OP_CHECKSIG] else set_error SCRIPT_ERR_EQUALVERIFY)"
    by (simp add: eval_loop_op [OF _ enabled_ops(3) _ _ exec_equalverify])
  also have "eval_loop C flags (?m (Suc (Suc (Suc 0))) [pubkey, sig]) [OP_CHECKSIG] =
    rbind (stack_checksig C flags OP_CHECKSIG ?s [pubkey, sig]) (\<lambda>st.
      if length st > 1000 then set_error SCRIPT_ERR_STACK_SIZE else Inr (?m (Suc (Suc (Suc (Suc 0)))) st))"
    by (cases "stack_checksig C flags OP_CHECKSIG ?s [pubkey, sig]")
      (simp_all add: eval_loop_op [OF _ enabled_ops(4) _ _ exec_checksig] del: stack_checksig.simps)
  finally show ?thesis using l
    by (auto simp: EvalScript_def rbind_assoc Let_def intro!: rbind_cong)
qed

theorem VerifyScript_p2pkh:
  assumes "length h = 20"
  shows "VerifyScript C flags (push_data sig @ push_data pubkey) (pay_to_pubkey_hash h) = Inr () \<longleftrightarrow>
    pushable flags sig \<and> pushable flags pubkey \<and> CHash160 C pubkey = h \<and> CheckSignatureEncoding sig flags = Inr () \<and>
    CheckPubKeyEncoding pubkey flags = Inr () \<and> CheckSig C sig pubkey (p2pkh_code h sig)"
proof (cases "length (push_data sig @ push_data pubkey) > 10000")
  case True
  then have "\<not> (pushable flags sig \<and> pushable flags pubkey)"
    using push_data_length [of sig] push_data_length [of pubkey] by (auto simp: pushable_def MAX_SCRIPT_ELEMENT_SIZE_def)
  moreover have "EvalScript C flags [] (push_data sig @ push_data pubkey) = set_error SCRIPT_ERR_SCRIPT_SIZE"
    using True by (simp add: EvalScript_def)
  ultimately show ?thesis by (auto simp: VerifyScript_def)
next
  case False
  have "length b \<le> length (push_data b)" for b by (simp add: push_data_def)
  from this [of sig] this [of pubkey] have le: "length sig < 2 ^ 32" "length pubkey < 2 ^ 32" using False by simp_all
  have "IsPushOnly (push_data sig @ push_data pubkey @ [])"
    using push_data_hd [of sig] push_data_hd [of pubkey]
    by (simp only: IsPushOnly_op single_op_push_data le) (auto simp: IsPushOnly.simps word_le_nat_alt)
  then have po: "IsPushOnly (push_data sig @ push_data pubkey)" by simp
  let ?m = "\<lambda>st. \<lparr>stack = st, altstack = [], vfExec = [], nOpCount = 0, pbegincodehash = push_data sig @ push_data pubkey\<rparr>"
  have e: "EvalScript C flags [] (push_data sig @ push_data pubkey) =
      rbind (eval_loop C flags (?m []) (push_data sig @ push_data pubkey)) (\<lambda>m. if vfExec m \<noteq> [] then set_error SCRIPT_ERR_UNBALANCED_CONDITIONAL else Inr (stack m))"
    using False by (simp add: EvalScript_def)
  show ?thesis
  proof (cases "pushable flags sig \<and> pushable flags pubkey")
    case True
    have "eval_loop C flags (?m []) (push_data sig @ push_data pubkey @ []) = Inr (?m [pubkey, sig])"
      using True le by (simp add: eval_loop_push(1) del: append_Nil2)
    then have e: "EvalScript C flags [] (push_data sig @ push_data pubkey) = Inr [pubkey, sig]" using e by simp
    have np: "\<not> IsPayToScriptHash (pay_to_pubkey_hash h)"
      by (simp add: IsPayToScriptHash_def pay_to_pubkey_hash_def)
    show ?thesis
      using po np FindAndDelete_p2pkh [OF assms le(1)] True
      by (auto simp: VerifyScript_def e eval_p2pkh [OF assms] rbind_iffs Let_def vchTrue_def vchFalse_def split: if_splits)
  next
    case np: False
    have "\<exists>err. eval_loop C flags (?m []) (push_data sig @ push_data pubkey @ []) = Inl err"
    proof (cases "pushable flags sig")
      case True
      then have "eval_loop C flags (?m []) (push_data sig @ push_data pubkey @ []) = eval_loop C flags (?m [sig]) (push_data pubkey @ [])"
        using le by (simp add: eval_loop_push(1) del: append_Nil2)
      then show ?thesis using eval_loop_push(2) [OF le(2), of "?m [sig]" flags C "[]"] np True by simp
    next
      case False
      then show ?thesis using eval_loop_push(2) [OF le(1), of "?m []" flags C "push_data pubkey @ []"] by simp
    qed
    then obtain err where "EvalScript C flags [] (push_data sig @ push_data pubkey) = Inl err" using e by auto
    then show ?thesis using np by (auto simp: VerifyScript_def)
  qed
qed

end
