(* ===== verification/Sighash.thy ===== *)
theory Sighash
  imports Transaction Interpreter
begin

text \<open>
  The hash a signature signs, \<^verbatim>\<open>CTransactionSignatureSerializer\<close> and \<^verbatim>\<open>SignatureHash\<close> of
  \<^verbatim>\<open>script/interpreter.cpp\<close>, and the signature checker that uses it. The hash function
  and the signature verification of a public key are arguments.
\<close>

subsection \<open>The serialiser\<close>

definition fAnyoneCanPay :: "u32 \<Rightarrow> bool" where
  "fAnyoneCanPay nHashType \<longleftrightarrow> nHashType AND 0x80 \<noteq> 0"

definition fHashSingle :: "u32 \<Rightarrow> bool" where
  "fHashSingle nHashType \<longleftrightarrow> nHashType AND 0x1f = 3"

definition fHashNone :: "u32 \<Rightarrow> bool" where
  "fHashNone nHashType \<longleftrightarrow> nHashType AND 0x1f = 2"

function count_separators :: "script \<Rightarrow> nat" where
  "count_separators it =
     (if it = [] then 0
      else case GetOp2 it of (ok, opcode, data, it') \<Rightarrow>
        if \<not> ok then 0
        else (if opcode = OP_CODESEPARATOR then 1 else 0) + count_separators it')"
  by pat_completeness auto
termination by (relation "measure length") (auto dest: GetOp2_progress)

function write_script_code :: "bytes \<Rightarrow> bytes \<Rightarrow> bytes" where
  "write_script_code itBegin it =
     (if it = [] then (if itBegin \<noteq> [] then itBegin else [])
      else case GetOp2 it of (ok, opcode, data, it') \<Rightarrow>
        if \<not> ok then (if itBegin \<noteq> [] then take (length itBegin - length it') itBegin else [])
        else if opcode = OP_CODESEPARATOR
        then take (length itBegin - length it' - 1) itBegin @ write_script_code it' it'
        else write_script_code itBegin it')"
  by pat_completeness auto
termination by (relation "measure (\<lambda>(_, it). length it)") (auto dest: GetOp2_progress)

declare count_separators.simps [simp del] write_script_code.simps [simp del]

definition SerializeScriptCode :: "script \<Rightarrow> bytes" where
  "SerializeScriptCode scriptCode =
     WriteCompactSize (of_nat (length scriptCode - count_separators scriptCode)) @
     write_script_code scriptCode scriptCode"

definition SerializeInput ::
  "CTransaction \<Rightarrow> script \<Rightarrow> nat \<Rightarrow> u32 \<Rightarrow> nat \<Rightarrow> bytes" where
  "SerializeInput txTo scriptCode nIn nHashType nInput0 =
     (let nInput = (if fAnyoneCanPay nHashType then nIn else nInput0) in
      ser_outpoint (prevout (vin txTo ! nInput)) @
      (if nInput \<noteq> nIn then ser_bytes [] else SerializeScriptCode scriptCode) @
      (if nInput \<noteq> nIn \<and> (fHashSingle nHashType \<or> fHashNone nHashType)
       then ser_word (0 :: u32) else ser_word (nSequence (vin txTo ! nInput))))"

definition SerializeOutput :: "CTransaction \<Rightarrow> nat \<Rightarrow> u32 \<Rightarrow> nat \<Rightarrow> bytes" where
  "SerializeOutput txTo nIn nHashType nOutput =
     (if fHashSingle nHashType \<and> nOutput \<noteq> nIn then ser_txout CTxOut_SetNull
      else ser_txout (vout txTo ! nOutput))"

definition SerializeSighash :: "CTransaction \<Rightarrow> script \<Rightarrow> nat \<Rightarrow> u32 \<Rightarrow> bytes" where
  "SerializeSighash txTo scriptCode nIn nHashType =
     (let nInputs = (if fAnyoneCanPay nHashType then 1 else length (vin txTo));
          nOutputs = (if fHashNone nHashType then 0
                      else if fHashSingle nHashType then nIn + 1 else length (vout txTo))
      in ser_word (tx_nVersion txTo) @
         WriteCompactSize (of_nat nInputs) @
         concat (map (SerializeInput txTo scriptCode nIn nHashType) [0..<nInputs]) @
         WriteCompactSize (of_nat nOutputs) @
         concat (map (SerializeOutput txTo nIn nHashType) [0..<nOutputs]) @
         ser_word (nLockTime txTo))"

definition SignatureHash ::
  "(bytes \<Rightarrow> bytes) \<Rightarrow> script \<Rightarrow> CTransaction \<Rightarrow> nat \<Rightarrow> u32 \<Rightarrow> uint256" where
  "SignatureHash Hash scriptCode txTo nIn nHashType =
     (if nIn \<ge> length (vin txTo) then bu_of_u64 8 1
      else if fHashSingle nHashType \<and> nIn \<ge> length (vout txTo) then bu_of_u64 8 1
      else bu_of_bytes (Hash (SerializeSighash txTo scriptCode nIn nHashType @ ser_word nHashType)))"

text \<open>
  \<^verbatim>\<open>TransactionSignatureChecker::CheckSig\<close>: \<open>IsValid\<close> and \<open>Verify\<close> are those of the
  public key class.
\<close>

definition transaction_CheckSig ::
  "(bytes \<Rightarrow> bytes) \<Rightarrow> (bytes \<Rightarrow> bool) \<Rightarrow> (bytes \<Rightarrow> uint256 \<Rightarrow> bytes \<Rightarrow> bool) \<Rightarrow>
   CTransaction \<Rightarrow> nat \<Rightarrow> bytes \<Rightarrow> bytes \<Rightarrow> script \<Rightarrow> bool" where
  "transaction_CheckSig Hash IsValid Verify txTo nIn vchSigIn vchPubKey scriptCode =
     (if \<not> IsValid vchPubKey then False
      else if vchSigIn = [] then False
      else let nHashType = ucast (last vchSigIn) :: u32; vchSig = butlast vchSigIn;
               sighash = SignatureHash Hash scriptCode txTo nIn nHashType
           in Verify vchPubKey sighash vchSig)"

subsection \<open>The script code\<close>

text \<open>The code without its separators, each an operation of its own.\<close>

definition strip_separators :: "script \<Rightarrow> script" where
  "strip_separators s =
     concat (filter (\<lambda>c. c \<noteq> [OP_CODESEPARATOR]) (fst (chunks s))) @ snd (chunks s)"

lemma separator_op: "single_op [OP_CODESEPARATOR]"
  by (simp add: single_op_byte)

lemma single_op_separator: "single_op c \<Longrightarrow> hd c = OP_CODESEPARATOR \<Longrightarrow> c = [OP_CODESEPARATOR]"
  using single_op_prefix [OF separator_op, of c "tl c" "[]"] by (cases c) (auto simp: single_op_def)

lemma separator_iff: "single_op c \<Longrightarrow> hd c = OP_CODESEPARATOR \<longleftrightarrow> c = [OP_CODESEPARATOR]"
  by (metis list.sel(1) single_op_separator)

lemmas chunks_separator = chunks_op [OF separator_op, simplified]

lemma count_separators_op:
  assumes "single_op c"
  shows "count_separators (c @ s) = (if c = [OP_CODESEPARATOR] then 1 else 0) + count_separators s"
proof -
  obtain op d where "GetOp2 c = (True, op, d, [])"
    using assms by (cases "GetOp2 c") (auto simp: single_op_def)
  from GetOp2_frame [OF this] have "c \<noteq> []" "GetOp2 (c @ s) = (True, hd c, d, s)" by auto
  then show ?thesis by (subst count_separators.simps) (simp add: separator_iff [OF assms])
qed

lemma count_separators_val:
  "snd (chunks s) = [] \<Longrightarrow> length s - count_separators s = length (strip_separators s) \<and>
   count_separators s \<le> length s"
proof (induction s rule: script_op_induct)
  case (op c s)
  then show ?case
    by (auto simp: count_separators_op chunks_op strip_separators_def)
next
  case (stop s)
  then show ?case by (simp add: chunks_stop count_separators.simps strip_separators_def chunks_Nil)
qed

lemma write_script_code_val:
  "snd (chunks s) = [] \<Longrightarrow> write_script_code (p @ s) s = p @ strip_separators s"
proof (induction s arbitrary: p rule: script_op_induct)
  case (op c s)
  obtain opc d where "GetOp2 c = (True, opc, d, [])"
    using op(1) by (cases "GetOp2 c") (auto simp: single_op_def)
  from GetOp2_frame [OF this] have g: "c \<noteq> []" "GetOp2 (c @ s) = (True, hd c, d, s)" by auto
  have s: "snd (chunks s) = []" using op by (simp add: chunks_op)
  show ?case
  proof (cases "c = [OP_CODESEPARATOR]")
    case True
    then show ?thesis using g op(3) [OF s, of "[]"] op(1)
      by (subst write_script_code.simps) (simp add: strip_separators_def chunks_separator)
  next
    case False
    then have "hd c \<noteq> OP_CODESEPARATOR" by (simp add: separator_iff [OF op(1)])
    then show ?thesis using g op(3) [OF s, of "p @ c"] op(1) False
      by (subst write_script_code.simps) (simp add: strip_separators_def chunks_op)
  qed
next
  case (stop s)
  then show ?case by (simp add: chunks_stop write_script_code.simps strip_separators_def chunks_Nil)
qed

theorem SerializeScriptCode_val:
  assumes "snd (chunks s) = []"
  shows "SerializeScriptCode s = ser_bytes (fst (FindAndDelete s [OP_CODESEPARATOR]))"
  using count_separators_val [OF assms] write_script_code_val [OF assms, of "[]"]
  by (simp add: SerializeScriptCode_def ser_bytes_def FindAndDelete_chunks [OF separator_op] strip_separators_def)

subsection \<open>The transaction that is signed\<close>

text \<open>
  What the serialiser writes is an ordinary transaction: the one being signed, with the
  script code in the input at hand and everything the hash type leaves out blanked.
\<close>

definition signed_input :: "CTransaction \<Rightarrow> script \<Rightarrow> nat \<Rightarrow> u32 \<Rightarrow> nat \<Rightarrow> CTxIn" where
  "signed_input tx code nIn nHashType i =
     \<lparr>prevout = prevout (vin tx ! i),
      scriptSig = (if i = nIn then strip_separators code else []),
      nSequence = (if i \<noteq> nIn \<and> (fHashSingle nHashType \<or> fHashNone nHashType)
                   then 0 else nSequence (vin tx ! i))\<rparr>"

definition signed_tx :: "CTransaction \<Rightarrow> script \<Rightarrow> nat \<Rightarrow> u32 \<Rightarrow> CTransaction" where
  "signed_tx tx code nIn nHashType =
     \<lparr>tx_nVersion = tx_nVersion tx,
      vin = map (signed_input tx code nIn nHashType)
              (if fAnyoneCanPay nHashType then [nIn] else [0..<length (vin tx)]),
      vout = (if fHashNone nHashType then []
              else if fHashSingle nHashType then replicate nIn CTxOut_SetNull @ [vout tx ! nIn]
              else vout tx),
      nLockTime = nLockTime tx\<rparr>"

lemma SerializeInput_signed:
  assumes "snd (chunks code) = []" "\<not> fAnyoneCanPay ht \<or> i = 0"
  shows "SerializeInput tx code nIn ht i =
    ser_txin (signed_input tx code nIn ht (if fAnyoneCanPay ht then nIn else i))"
proof -
  have "SerializeScriptCode code = ser_bytes (strip_separators code)"
    using SerializeScriptCode_val [OF assms(1)]
    by (simp add: FindAndDelete_chunks [OF separator_op] strip_separators_def)
  then show ?thesis using assms(2)
    by (auto simp: SerializeInput_def ser_txin_def signed_input_def Let_def)
qed

lemma outputs_single:
  "nIn < length outs \<Longrightarrow> fHashSingle ht \<Longrightarrow> vout tx = outs \<Longrightarrow>
   concat (map (SerializeOutput tx nIn ht) [0..<Suc nIn]) =
   concat (map ser_txout (replicate nIn CTxOut_SetNull @ [outs ! nIn]))"
proof -
  assume *: "nIn < length outs" "fHashSingle ht" "vout tx = outs"
  have "map (SerializeOutput tx nIn ht) [0..<nIn] = map ser_txout (replicate nIn CTxOut_SetNull)"
    by (rule nth_equalityI) (use * in \<open>auto simp: SerializeOutput_def\<close>)
  then show ?thesis using * by (simp add: SerializeOutput_def)
qed

theorem SerializeSighash_signed:
  assumes "snd (chunks code) = []" "nIn < length (vin tx)"
    and "fHashSingle ht \<Longrightarrow> nIn < length (vout tx)"
  shows "SerializeSighash tx code nIn ht = ser_tx (signed_tx tx code nIn ht)"
proof -
  have ins: "concat (map (SerializeInput tx code nIn ht) [0..<(if fAnyoneCanPay ht then 1 else length (vin tx))]) =
    concat (map ser_txin (vin (signed_tx tx code nIn ht)))"
  proof (cases "fAnyoneCanPay ht")
    case True
    then show ?thesis using assms(1) by (simp add: signed_tx_def SerializeInput_signed)
  next
    case False
    then have "SerializeInput tx code nIn ht = ser_txin \<circ> signed_input tx code nIn ht"
      using assms(1) by (auto simp: SerializeInput_signed)
    then show ?thesis using False by (simp add: signed_tx_def)
  qed
  have outs: "concat (map (SerializeOutput tx nIn ht)
      [0..<(if fHashNone ht then 0 else if fHashSingle ht then nIn + 1 else length (vout tx))]) =
    concat (map ser_txout (vout (signed_tx tx code nIn ht)))"
  proof (cases "fHashNone ht \<or> fHashSingle ht")
    case True
    then show ?thesis using assms(3) outputs_single [of nIn "vout tx" ht tx] by (auto simp: signed_tx_def)
  next
    case False
    have "map (SerializeOutput tx nIn ht) [0..<length (vout tx)] = map ser_txout (vout tx)"
      by (rule nth_equalityI) (use False in \<open>auto simp: SerializeOutput_def\<close>)
    then show ?thesis using False by (simp add: signed_tx_def)
  qed
  have l: "length (vin (signed_tx tx code nIn ht)) = (if fAnyoneCanPay ht then 1 else length (vin tx))"
    "length (vout (signed_tx tx code nIn ht)) =
      (if fHashNone ht then 0 else if fHashSingle ht then nIn + 1 else length (vout tx))"
    by (simp_all add: signed_tx_def)
  show ?thesis
    unfolding SerializeSighash_def Let_def ser_tx_def ser_vector_def l ins outs
    by (simp add: signed_tx_def)
qed

lemma small_strip: "small code \<Longrightarrow> small (strip_separators code)"
proof -
  have "length (strip_separators code) \<le> length code"
  proof (induction code rule: script_op_induct)
    case (op c s)
    then show ?case by (simp add: strip_separators_def chunks_op)
  next
    case (stop s)
    then show ?case by (simp add: strip_separators_def chunks_stop)
  qed
  then show "small code \<Longrightarrow> small (strip_separators code)" by (simp add: small_def)
qed

lemma valid_signed_tx:
  assumes "valid_tx tx" "small code" "nIn < length (vin tx)"
    and "fHashSingle ht \<Longrightarrow> nIn < length (vout tx)"
  shows "valid_tx (signed_tx tx code nIn ht)"
proof -
  have i: "valid_txin (signed_input tx code nIn ht i)" if "i < length (vin tx)" for i
    using that assms(1) small_strip [OF assms(2)]
    by (auto simp: valid_tx_def valid_txin_def signed_input_def list_all_length small_def)
  have o: "valid_txout CTxOut_SetNull" by (simp add: CTxOut_SetNull_def valid_txout_def int64_range_def small_def)
  show ?thesis
    using assms i o by (auto simp: valid_tx_def signed_tx_def list_all_iff small_def)
qed

text \<open>A signature with \<^verbatim>\<open>SIGHASH_ALL\<close> commits to the whole transaction but the other scripts.\<close>

theorem sighash_all_commits:
  assumes "valid_tx tx" "valid_tx tx'" "small code" "small code'"
    and "snd (chunks code) = []" "snd (chunks code') = []"
    and "nIn < length (vin tx)" "nIn < length (vin tx')"
    and "\<not> fAnyoneCanPay ht" "\<not> fHashSingle ht" "\<not> fHashNone ht"
    and "SerializeSighash tx code nIn ht = SerializeSighash tx' code' nIn ht"
  shows "tx_nVersion tx = tx_nVersion tx' \<and> nLockTime tx = nLockTime tx' \<and> vout tx = vout tx' \<and>
    map prevout (vin tx) = map prevout (vin tx') \<and> map nSequence (vin tx) = map nSequence (vin tx') \<and>
    strip_separators code = strip_separators code'"
proof -
  have "signed_tx tx code nIn ht = signed_tx tx' code' nIn ht"
    using assms SerializeSighash_signed [of code nIn tx ht] SerializeSighash_signed [of code' nIn tx' ht]
      valid_signed_tx [of tx code nIn ht] valid_signed_tx [of tx' code' nIn ht] tx.ser_inject
    by metis
  then have e: "tx_nVersion tx = tx_nVersion tx'" "nLockTime tx = nLockTime tx'" "vout tx = vout tx'"
    and m: "map (signed_input tx code nIn ht) [0..<length (vin tx)] =
            map (signed_input tx' code' nIn ht) [0..<length (vin tx')]"
    using assms(9-11) by (simp_all add: signed_tx_def)
  then have len: "length (vin tx) = length (vin tx')" using map_eq_imp_length_eq by fastforce
  have i: "signed_input tx code nIn ht i = signed_input tx' code' nIn ht i" if "i < length (vin tx)" for i
    using m that len by (metis add_0 diff_zero length_upt nth_map nth_upt)
  have "map prevout (vin tx) = map prevout (vin tx')" "map nSequence (vin tx) = map nSequence (vin tx')"
    using i len assms(10,11) by (auto simp: signed_input_def list_eq_iff_nth_eq)
  moreover have "strip_separators code = strip_separators code'"
    using i [OF assms(7)] by (simp add: signed_input_def)
  ultimately show ?thesis using e by blast
qed

end
