(* ===== verification/Connect.thy ===== *)
theory Connect
  imports Consensus Sighash
begin

text \<open>
  Connecting a block (\<^verbatim>\<open>main.cpp\<close>): the checks of a transaction against the unspent outputs, the
  script checks, done at once or queued for other threads, and \<^verbatim>\<open>ConnectBlock\<close>. Signed sums that leave
  64 bits wrap. \<open>None\<close> is a failed assertion, an exception, or an access through a null pointer or out
  of range.
\<close>

subsection \<open>Script checks\<close>

text \<open>What checking a signature takes: the hash functions, and the public key operations.\<close>

record sig_env =
  se_hashes :: checker
  se_Hash :: "bytes \<Rightarrow> bytes"
  se_IsValid :: "bytes \<Rightarrow> bool"
  se_Verify :: "bytes \<Rightarrow> uint256 \<Rightarrow> bytes \<Rightarrow> bool"

definition transaction_checker :: "sig_env \<Rightarrow> CTransaction \<Rightarrow> nat \<Rightarrow> checker" where
  "transaction_checker S tx nIn =
     (se_hashes S)\<lparr>CheckSig := transaction_CheckSig (se_Hash S) (se_IsValid S) (se_Verify S) tx nIn\<rparr>"

record CScriptCheck =
  cs_scriptPubKey :: script
  cs_ptxTo :: CTransaction
  cs_nIn :: nat
  cs_nFlags :: u32

definition CScriptCheck_new :: "CCoins \<Rightarrow> CTransaction \<Rightarrow> nat \<Rightarrow> u32 \<Rightarrow> CScriptCheck option" where
  "CScriptCheck_new txFrom txTo nIn flags =
     (let n = unat (op_n (prevout (vin txTo ! nIn)))
      in if n < length (c_vout txFrom)
         then Some \<lparr>cs_scriptPubKey = scriptPubKey (c_vout txFrom ! n), cs_ptxTo = txTo, cs_nIn = nIn, cs_nFlags = flags\<rparr>
         else None)"

text \<open>
  The result, or the error of the script. The cache of valid signatures does not change the result
  and is left out.
\<close>

definition run_check :: "sig_env \<Rightarrow> CScriptCheck \<Rightarrow> unit result" where
  "run_check S c =
     VerifyScript (transaction_checker S (cs_ptxTo c) (cs_nIn c)) (cs_nFlags c)
       (scriptSig (vin (cs_ptxTo c) ! cs_nIn c)) (cs_scriptPubKey c)"

definition MANDATORY_SCRIPT_VERIFY_FLAGS :: u32 where
  "MANDATORY_SCRIPT_VERIFY_FLAGS = SCRIPT_VERIFY_P2SH"

definition STANDARD_SCRIPT_VERIFY_FLAGS :: u32 where
  "STANDARD_SCRIPT_VERIFY_FLAGS = MANDATORY_SCRIPT_VERIFY_FLAGS OR SCRIPT_VERIFY_DERSIG OR SCRIPT_VERIFY_STRICTENC OR
     SCRIPT_VERIFY_MINIMALDATA OR SCRIPT_VERIFY_NULLDUMMY OR SCRIPT_VERIFY_DISCOURAGE_UPGRADABLE_NOPS"

definition STANDARD_NOT_MANDATORY_VERIFY_FLAGS :: u32 where
  "STANDARD_NOT_MANDATORY_VERIFY_FLAGS = STANDARD_SCRIPT_VERIFY_FLAGS AND NOT MANDATORY_SCRIPT_VERIFY_FLAGS"

text \<open>\<open>None\<close> is \<^verbatim>\<open>SCRIPT_ERR_OK\<close>.\<close>

fun ScriptErrorString :: "ScriptError option \<Rightarrow> string" where
  "ScriptErrorString None = ''No error''"
| "ScriptErrorString (Some SCRIPT_ERR_EVAL_FALSE) = ''Script evaluated without error but finished with a false/empty top stack element''"
| "ScriptErrorString (Some SCRIPT_ERR_VERIFY) = ''Script failed an OP_VERIFY operation''"
| "ScriptErrorString (Some SCRIPT_ERR_EQUALVERIFY) = ''Script failed an OP_EQUALVERIFY operation''"
| "ScriptErrorString (Some SCRIPT_ERR_CHECKMULTISIGVERIFY) = ''Script failed an OP_CHECKMULTISIGVERIFY operation''"
| "ScriptErrorString (Some SCRIPT_ERR_CHECKSIGVERIFY) = ''Script failed an OP_CHECKSIGVERIFY operation''"
| "ScriptErrorString (Some SCRIPT_ERR_NUMEQUALVERIFY) = ''Script failed an OP_NUMEQUALVERIFY operation''"
| "ScriptErrorString (Some SCRIPT_ERR_SCRIPT_SIZE) = ''Script is too big''"
| "ScriptErrorString (Some SCRIPT_ERR_PUSH_SIZE) = ''Push value size limit exceeded''"
| "ScriptErrorString (Some SCRIPT_ERR_OP_COUNT) = ''Operation limit exceeded''"
| "ScriptErrorString (Some SCRIPT_ERR_STACK_SIZE) = ''Stack size limit exceeded''"
| "ScriptErrorString (Some SCRIPT_ERR_SIG_COUNT) = ''Signature count negative or greater than pubkey count''"
| "ScriptErrorString (Some SCRIPT_ERR_PUBKEY_COUNT) = ''Pubkey count negative or limit exceeded''"
| "ScriptErrorString (Some SCRIPT_ERR_BAD_OPCODE) = ''Opcode missing or not understood''"
| "ScriptErrorString (Some SCRIPT_ERR_DISABLED_OPCODE) = ''Attempted to use a disabled opcode''"
| "ScriptErrorString (Some SCRIPT_ERR_INVALID_STACK_OPERATION) = ''Operation not valid with the current stack size''"
| "ScriptErrorString (Some SCRIPT_ERR_INVALID_ALTSTACK_OPERATION) = ''Operation not valid with the current altstack size''"
| "ScriptErrorString (Some SCRIPT_ERR_OP_RETURN) = ''OP_RETURN was encountered''"
| "ScriptErrorString (Some SCRIPT_ERR_UNBALANCED_CONDITIONAL) = ''Invalid OP_IF construction''"
| "ScriptErrorString (Some SCRIPT_ERR_SIG_HASHTYPE) = ''Signature hash type missing or not understood''"
| "ScriptErrorString (Some SCRIPT_ERR_SIG_DER) = ''Non-canonical DER signature''"
| "ScriptErrorString (Some SCRIPT_ERR_MINIMALDATA) = ''Data push larger than necessary''"
| "ScriptErrorString (Some SCRIPT_ERR_SIG_PUSHONLY) = ''Only non-push operators allowed in signatures''"
| "ScriptErrorString (Some SCRIPT_ERR_SIG_HIGH_S) = ''Non-canonical signature: S value is unnecessarily high''"
| "ScriptErrorString (Some SCRIPT_ERR_SIG_NULLDUMMY) = ''Dummy CHECKMULTISIG argument must be zero''"
| "ScriptErrorString (Some SCRIPT_ERR_DISCOURAGE_UPGRADABLE_NOPS) = ''NOPx reserved for soft-fork upgrades''"
| "ScriptErrorString (Some SCRIPT_ERR_PUBKEYTYPE) = ''Public key is neither compressed or uncompressed''"
| "ScriptErrorString (Some SCRIPT_ERR_UNKNOWN_ERROR) = ''unknown error''"

subsection \<open>The inputs of a transaction\<close>

text \<open>
  The loop over the inputs, from the value so far: \<open>Inl\<close> what is reported, \<open>Inr\<close> the value.
\<close>

fun check_values ::
  "('b \<Rightarrow> uint256 \<Rightarrow> CCoins option \<times> 'b) \<Rightarrow> CChainParams \<Rightarrow> int \<Rightarrow> CTxIn list \<Rightarrow> int \<Rightarrow> 'b CCoinsViewCache \<Rightarrow>
   ((int \<times> string) + int) option \<times> 'b CCoinsViewCache" where
  "check_values bget P nSpendHeight [] nValueIn inputs = (Some (Inr nValueIn), inputs)"
| "check_values bget P nSpendHeight (txin # ins) nValueIn inputs =
     (case AccessCoins bget inputs (op_hash (prevout txin)) of
        (None, inputs) \<Rightarrow> (None, inputs)
      | (Some coins, inputs) \<Rightarrow>
          if (c_fCoinBase coins \<or> c_fCoinStake coins) \<and> nSpendHeight - sint (c_nHeight coins) < nMaturity P
          then (Some (Inl (0, ''bad-txns-premature-spend-of-coinbase'')), inputs)
          else if \<not> unat (op_n (prevout txin)) < length (c_vout coins) then (None, inputs)
          else let v = nValue (c_vout coins ! unat (op_n (prevout txin))); nValueIn = wrap64 (nValueIn + v)
          in if \<not> MoneyRange P v \<or> \<not> MoneyRange P nValueIn
             then (Some (Inl (100, ''bad-txns-inputvalues-outofrange'')), inputs)
             else check_values bget P nSpendHeight ins nValueIn inputs)"

text \<open>
  The loop over the scripts from the input \<open>i\<close>, with the queue of checks when there is one: whether it
  passed, the validation state, the view and the queue. The message for a flag that is not mandatory
  reads the error of the second check, which passed.
\<close>

fun check_scripts ::
  "('b \<Rightarrow> uint256 \<Rightarrow> CCoins option \<times> 'b) \<Rightarrow> sig_env \<Rightarrow> CTransaction \<Rightarrow> u32 \<Rightarrow> nat \<Rightarrow> CTxIn list \<Rightarrow>
   block_state \<Rightarrow> 'b CCoinsViewCache \<Rightarrow> CScriptCheck list option \<Rightarrow>
   (bool \<times> block_state \<times> 'b CCoinsViewCache \<times> CScriptCheck list option) option" where
  "check_scripts bget S tx flags i [] state inputs pvChecks = Some (True, state, inputs, pvChecks)"
| "check_scripts bget S tx flags i (txin # ins) state inputs pvChecks =
     (case AccessCoins bget inputs (op_hash (prevout txin)) of
        (None, inputs) \<Rightarrow> None
      | (Some coins, inputs) \<Rightarrow>
     (case CScriptCheck_new coins tx i flags of
        None \<Rightarrow> None
      | Some check \<Rightarrow>
     (case pvChecks of
        Some checks \<Rightarrow> check_scripts bget S tx flags (i + 1) ins state inputs (Some (checks @ [check]))
      | None \<Rightarrow>
          (case run_check S check of
             Inr _ \<Rightarrow> check_scripts bget S tx flags (i + 1) ins state inputs None
           | Inl Assert_failed \<Rightarrow> None
           | Inl (Script_error e) \<Rightarrow>
               (case (if flags AND STANDARD_NOT_MANDATORY_VERIFY_FLAGS \<noteq> 0
                      then run_check S (check\<lparr>cs_nFlags := flags AND NOT STANDARD_NOT_MANDATORY_VERIFY_FLAGS\<rparr>)
                      else Inl (Script_error e)) of
                  Inl Assert_failed \<Rightarrow> None
                | Inr _ \<Rightarrow>
                    Some (case Invalid False REJECT_NONSTANDARD
                            (''non-mandatory-script-verify-flag ('' @ ScriptErrorString None @ '')'') state of
                          (r, state) \<Rightarrow> (r, state, inputs, None))
                | Inl (Script_error _) \<Rightarrow>
                    Some (case refuse 100 REJECT_INVALID
                            (''mandatory-script-verify-flag-failed ('' @ ScriptErrorString (Some e) @ '')'') state of
                          (r, state) \<Rightarrow> (r, state, inputs, None)))))))"

text \<open>The fee of a transaction that is not a coinstake, given the value that goes in.\<close>

definition check_fee :: "CChainParams \<Rightarrow> CTransaction \<Rightarrow> int \<Rightarrow> block_state \<Rightarrow> (bool \<times> block_state) option" where
  "check_fee P tx nValueIn state =
     (if IsCoinStake tx then Some (True, state)
      else case GetValueOut tx of
        Inl _ \<Rightarrow> None
      | Inr nValueOut \<Rightarrow>
          Some (if nValueIn < nValueOut then refuse 100 REJECT_INVALID ''bad-txns-in-belowout'' state
                else let nTxFee = wrap64 (nValueIn - nValueOut)
                in if nTxFee < 0 then refuse 100 REJECT_INVALID ''bad-txns-fee-negative'' state
                   else if \<not> MoneyRange P (wrap64 (0 + nTxFee)) then refuse 100 REJECT_INVALID ''bad-txns-fee-outofrange'' state
                   else (True, state)))"

definition CheckInputs ::
  "('b \<Rightarrow> uint256 \<Rightarrow> CCoins option \<times> 'b) \<Rightarrow> ('b \<Rightarrow> uint256 \<times> 'b) \<Rightarrow> sig_env \<Rightarrow> chain_env \<Rightarrow>
   CTransaction \<Rightarrow> block_state \<Rightarrow> 'b CCoinsViewCache \<Rightarrow> bool \<Rightarrow> u32 \<Rightarrow> CScriptCheck list option \<Rightarrow>
   (bool \<times> block_state \<times> 'b CCoinsViewCache \<times> CScriptCheck list option) option" where
  "CheckInputs bget bbest S E tx state inputs fScriptChecks flags pvChecks =
     (if IsCoinBase tx then Some (True, state, inputs, pvChecks)
      else (case HaveInputs bget inputs tx of
        (False, inputs) \<Rightarrow> Some (case Invalid False 0 '''' state of (r, state) \<Rightarrow> (r, state, inputs, pvChecks))
      | (True, inputs) \<Rightarrow>
     (case cache_GetBestBlock bbest inputs of
        (best, inputs) \<Rightarrow>
     (case me_lookup E best of
        None \<Rightarrow> None
      | Some pindexPrev \<Rightarrow>
     (case check_values bget (me_params E) (nHeight (entry pindexPrev) + 1) (vin tx) 0 inputs of
        (None, inputs) \<Rightarrow> None
      | (Some (Inl (level, reason)), inputs) \<Rightarrow>
          Some (case refuse level REJECT_INVALID reason state of (r, state) \<Rightarrow> (r, state, inputs, pvChecks))
      | (Some (Inr nValueIn), inputs) \<Rightarrow>
     (case check_fee (me_params E) tx nValueIn state of
        None \<Rightarrow> None
      | Some (False, state) \<Rightarrow> Some (False, state, inputs, pvChecks)
      | Some (True, state) \<Rightarrow>
          if fScriptChecks then check_scripts bget S tx flags 0 (vin tx) state inputs pvChecks
          else Some (True, state, inputs, pvChecks)))))))"

subsection \<open>Connecting a block\<close>

text \<open>
  \<open>xe_undo_pos\<close> is the place that \<^verbatim>\<open>FindUndoPos\<close> finds for undo data and \<open>xe_write_undo\<close> where it is
  after it was written; the other members tell whether a write succeeds or a feature is on.
\<close>

record connect_env = chain_env +
  xe_sig :: sig_env
  xe_threads :: bool
  xe_recipient_spork :: bool
  xe_write_index :: bool
  xe_undo_pos :: "int \<Rightarrow> CBlockUndo \<Rightarrow> CDiskBlockPos option"
  xe_write_undo :: "CDiskBlockPos \<Rightarrow> CDiskBlockPos option"
  xe_txindex :: bool
  xe_write_txindex :: bool

text \<open>What the loop over the transactions carries along, and what it leaves.\<close>

record 'b connecting =
  k_nSigOps :: u32
  k_nFees :: int
  k_nValueOut :: int
  k_nValueIn :: int
  k_vtxundo :: CBlockUndo
  k_nTxOffset :: u32
  k_vPos :: "(uint256 \<times> CDiskBlockPos \<times> u32) list"
  k_control :: "CScriptCheck list"
  k_view :: "'b CCoinsViewCache"

fun check_bip30 ::
  "(bytes \<Rightarrow> bytes) \<Rightarrow> ('b \<Rightarrow> uint256 \<Rightarrow> CCoins option \<times> 'b) \<Rightarrow> CTransaction list \<Rightarrow> 'b CCoinsViewCache \<Rightarrow>
   bool \<times> 'b CCoinsViewCache" where
  "check_bip30 Hash bget [] view = (True, view)"
| "check_bip30 Hash bget (tx # txs) view =
     (case AccessCoins bget view (tx_GetHash Hash tx) of
        (Some coins, view) \<Rightarrow> if \<not> IsPruned coins then (False, view) else check_bip30 Hash bget txs view
      | (None, view) \<Rightarrow> check_bip30 Hash bget txs view)"

definition enforce_bip30 :: "CBlockIndex \<Rightarrow> bool" where
  "enforce_bip30 pindex \<longleftrightarrow>
     (case GetBlockHash pindex of
        None \<Rightarrow> True
      | Some hash \<Rightarrow>
          \<not> ((nHeight (entry pindex) = 91842 \<and>
              hash = set_hex 8 ''0x00000000000a4d0a398161ffc163c503763b1f4360639393e0e4c8e300e0caec'') \<or>
             (nHeight (entry pindex) = 91880 \<and>
              hash = set_hex 8 ''0x00000000000743f190a18c5577a3c2d2a1f610ae9601ac046a38084ccb7cd721'')))"

definition script_flags :: "CChainParams \<Rightarrow> CBlock \<Rightarrow> CBlockIndex \<Rightarrow> u32" where
  "script_flags P block pindex =
     (let flags = (if bi_GetBlockTime pindex \<ge> 1333238400 then SCRIPT_VERIFY_P2SH else 0)
      in if sint (bh_nVersion block) \<ge> 3 \<and>
            IsSuperMajority (nToCheckBlockUpgradeMajority P) 3 (pprev pindex) (nEnforceBlockUpgradeMajority P)
         then flags OR SCRIPT_VERIFY_DERSIG else flags)"

text \<open>The part of a round for a transaction that spends: signature operations, fees, the inputs.\<close>

definition connect_inputs ::
  "(bytes \<Rightarrow> bytes) \<Rightarrow> ('b \<Rightarrow> uint256 \<Rightarrow> CCoins option \<times> 'b) \<Rightarrow> ('b \<Rightarrow> uint256 \<times> 'b) \<Rightarrow> connect_env \<Rightarrow>
   bool \<Rightarrow> u32 \<Rightarrow> bool \<Rightarrow> CTransaction \<Rightarrow> block_state \<Rightarrow> 'b connecting \<Rightarrow> (bool \<times> block_state \<times> 'b connecting) option" where
  "connect_inputs Hash bget bbest E fScriptChecks flags fStrictPayToScriptHash tx state k =
     (if IsCoinBase tx then Some (True, state, k)
      else (case HaveInputs bget (k_view k) tx of
        (False, view) \<Rightarrow>
          Some (case refuse 100 REJECT_INVALID ''bad-txns-inputs-missingorspent'' state of
                  (r, state) \<Rightarrow> (r, state, k\<lparr>k_view := view\<rparr>))
      | (True, view) \<Rightarrow>
     (case (if fStrictPayToScriptHash then GetP2SHSigOpCount bget tx view else Some (0, view)) of
        None \<Rightarrow> None
      | Some (n, view) \<Rightarrow>
          let k = k\<lparr>k_view := view, k_nSigOps := k_nSigOps k + n\<rparr>
          in if fStrictPayToScriptHash \<and> k_nSigOps k > MAX_BLOCK_SIGOPS
             then Some (case refuse 100 REJECT_INVALID ''bad-blk-sigops'' state of (r, state) \<Rightarrow> (r, state, k))
             else
     (case GetValueIn bget view tx of
        None \<Rightarrow> None
      | Some (valueIn, view) \<Rightarrow>
     (case (if IsCoinStake tx then Inr 0 else GetValueOut tx) of
        Inl _ \<Rightarrow> None
      | Inr valueOut \<Rightarrow>
          let k = k\<lparr>k_nFees := (if IsCoinStake tx then k_nFees k else wrap64 (k_nFees k + wrap64 (valueIn - valueOut))),
                    k_nValueIn := wrap64 (k_nValueIn k + valueIn)\<rparr>
          in (case CheckInputs bget bbest (xe_sig E) (chain_env.truncate E) tx state view fScriptChecks flags
                     (if xe_threads E then Some [] else None) of
                None \<Rightarrow> None
              | Some (False, state, view, _) \<Rightarrow> Some (False, state, k\<lparr>k_view := view\<rparr>)
              | Some (True, state, view, vChecks) \<Rightarrow>
                  Some (True, state, k\<lparr>k_view := view,
                    k_control := k_control k @ (case vChecks of None \<Rightarrow> [] | Some cs \<Rightarrow> cs)\<rparr>)))))))"

definition connect_tx ::
  "(bytes \<Rightarrow> bytes) \<Rightarrow> ('b \<Rightarrow> uint256 \<Rightarrow> CCoins option \<times> 'b) \<Rightarrow> ('b \<Rightarrow> uint256 \<times> 'b) \<Rightarrow> connect_env \<Rightarrow> CBlockIndex \<Rightarrow>
   bool \<Rightarrow> u32 \<Rightarrow> bool \<Rightarrow> nat \<Rightarrow> CTransaction \<Rightarrow> block_state \<Rightarrow> 'b connecting \<Rightarrow>
   (bool \<times> block_state \<times> 'b connecting) option" where
  "connect_tx Hash bget bbest E pindex fScriptChecks flags fStrictPayToScriptHash i tx state k =
     (let k = k\<lparr>k_nSigOps := k_nSigOps k + GetLegacySigOpCount tx\<rparr>
      in if k_nSigOps k > MAX_BLOCK_SIGOPS
         then Some (case refuse 100 REJECT_INVALID ''bad-blk-sigops'' state of (r, state) \<Rightarrow> (r, state, k))
         else (case connect_inputs Hash bget bbest E fScriptChecks flags fStrictPayToScriptHash tx state k of
           None \<Rightarrow> None
         | Some (False, state, k) \<Rightarrow> Some (False, state, k)
         | Some (True, state, k) \<Rightarrow>
        (case GetValueOut tx of
           Inl _ \<Rightarrow> None
         | Inr valueOut \<Rightarrow>
        (case UpdateCoins Hash bget tx (k_view k) (nHeight (entry pindex)) of
           None \<Rightarrow> None
         | Some (txundo, view) \<Rightarrow>
             Some (True, state,
               k\<lparr>k_view := view, k_nValueOut := wrap64 (k_nValueOut k + valueOut),
                 k_vtxundo := (if i > 0 then k_vtxundo k @ [txundo] else k_vtxundo k),
                 k_vPos := k_vPos k @ [(tx_GetHash Hash tx, GetBlockPos pindex, k_nTxOffset k)],
                 k_nTxOffset := k_nTxOffset k + of_nat (size_tx tx)\<rparr>)))))"

fun connect_txs ::
  "(bytes \<Rightarrow> bytes) \<Rightarrow> ('b \<Rightarrow> uint256 \<Rightarrow> CCoins option \<times> 'b) \<Rightarrow> ('b \<Rightarrow> uint256 \<times> 'b) \<Rightarrow> connect_env \<Rightarrow> CBlockIndex \<Rightarrow>
   bool \<Rightarrow> u32 \<Rightarrow> bool \<Rightarrow> nat \<Rightarrow> CTransaction list \<Rightarrow> block_state \<Rightarrow> 'b connecting \<Rightarrow>
   (bool \<times> block_state \<times> 'b connecting) option" where
  "connect_txs Hash bget bbest E pindex sc flags p2sh i [] state k = Some (True, state, k)"
| "connect_txs Hash bget bbest E pindex sc flags p2sh i (tx # txs) state k =
     (case connect_tx Hash bget bbest E pindex sc flags p2sh i tx state k of
        None \<Rightarrow> None
      | Some (False, state, k) \<Rightarrow> Some (False, state, k)
      | Some (True, state, k) \<Rightarrow> connect_txs Hash bget bbest E pindex sc flags p2sh (i + 1) txs state k)"

text \<open>The check of who the stake pays, when its spork is active: whether the block is refused.\<close>

definition recipient_refused :: "connect_env \<Rightarrow> CBlock \<Rightarrow> CBlockIndex \<Rightarrow> int \<Rightarrow> bool option" where
  "recipient_refused E block pindex nExpectedMint =
     (let j = (if bh_nNonce block = 0 then 1 else 0)
      in if j \<ge> length (vtx block) then None
         else let size = of_nat (length (vout (vtx block ! j))) - of_nat j :: u32
         in if size = 1 then Some True
            else if length (vtx block) \<le> 1 \<or> unat size \<ge> length (vout (vtx block ! 1)) then None
            else (case mn_payment (mn_env.truncate E) (nHeight (entry pindex)) nExpectedMint 0 of
                    None \<Rightarrow> None
                  | Some mnExp \<Rightarrow> Some (wrap64 (mnExp - nValue (vout (vtx block ! 1) ! unat size)) > 100)))"

text \<open>What \<^verbatim>\<open>ConnectBlock\<close> leaves: the block index entry, the view, and what it writes.\<close>

record 'b connected =
  o_index :: CBlockIndex
  o_view :: "'b CCoinsViewCache"
  o_undo :: "(CDiskBlockPos \<times> CBlockUndo \<times> uint256) option"
  o_dirty :: bool
  o_txindex :: "(uint256 \<times> CDiskBlockPos \<times> u32) list"

definition set_entry :: "CBlockIndex \<Rightarrow> block_entry \<Rightarrow> CBlockIndex" where
  "set_entry b e = Index e (pprev b) (pskip b)"

definition supply_before :: "CBlockIndex \<Rightarrow> int" where
  "supply_before pindex = (case pprev pindex of None \<Rightarrow> 0 | Some p \<Rightarrow> nMoneySupply (entry p))"

definition wait_checks :: "sig_env \<Rightarrow> CScriptCheck list \<Rightarrow> bool option" where
  "wait_checks S checks =
     (if list_ex (\<lambda>c. run_check S c = Inl Assert_failed) checks then None
      else Some (list_all (\<lambda>c. run_check S c = Inr ()) checks))"

text \<open>Writing the undo data of a block that has none yet, and raising its validity.\<close>

definition write_undo ::
  "connect_env \<Rightarrow> CBlockUndo \<Rightarrow> block_state \<Rightarrow> 'b connected \<Rightarrow> (bool \<times> block_state \<times> 'b connected) option" where
  "write_undo E vtxundo state out =
     (let pindex = o_index out;
          raise = (\<lambda>out. case RaiseValidity (entry (o_index out)) BLOCK_VALID_SCRIPTS of
                     None \<Rightarrow> None
                   | Some (_, e) \<Rightarrow> Some (True, state, out\<lparr>o_index := set_entry (o_index out) e, o_dirty := True\<rparr>))
      in if CDiskBlockPos_IsNull (GetUndoPos pindex) then
           (case xe_undo_pos E (nFile (entry pindex)) vtxundo of
              None \<Rightarrow> Some (False, state, out)
            | Some pos \<Rightarrow>
           (case Option.bind (pprev pindex) GetBlockHash of
              None \<Rightarrow> None
            | Some hashPrev \<Rightarrow>
           (case xe_write_undo E pos of
              None \<Rightarrow> Some (case vs_Error ''Failed to write undo data'' state of (r, state) \<Rightarrow> (r, state, out))
            | Some pos' \<Rightarrow>
                raise (out\<lparr>o_undo := Some (pos, vtxundo, hashPrev),
                           o_index := set_entry pindex ((entry pindex)\<lparr>nUndoPos := dp_nPos pos',
                                        nStatus := nStatus (entry pindex) OR BLOCK_HAVE_UNDO\<rparr>)\<rparr>))))
         else (case IsValid pindex BLOCK_VALID_SCRIPTS of
                 None \<Rightarrow> None
               | Some valid \<Rightarrow> if \<not> valid then raise out else Some (True, state, out)))"

text \<open>What follows the loop: the money supply, the reward, the queued checks, and what is written.\<close>

definition finish_connect ::
  "connect_env \<Rightarrow> CBlock \<Rightarrow> bool \<Rightarrow> CBlockIndex \<Rightarrow> block_state \<Rightarrow> 'b connecting \<Rightarrow>
   (bool \<times> block_state \<times> 'b connected) option" where
  "finish_connect E block fJustCheck pindex state k =
     (let supply = wrap64 (wrap64 (supply_before pindex + k_nValueOut k) - k_nValueIn k);
          mint = wrap64 (supply - supply_before pindex);
          pindex = set_entry pindex ((entry pindex)\<lparr>nMoneySupply := supply, nMint := mint\<rparr>);
          out = \<lparr>o_index = pindex, o_view = k_view k, o_undo = None, o_dirty = False, o_txindex = []\<rparr>
      in if \<not> xe_write_index E then Some (False, state, out)
         else (case mn_block_value (mn_env.truncate E) (nHeight (entry pindex)) of
           None \<Rightarrow> None
         | Some value \<Rightarrow>
             let nExpectedMint = (if IsProofOfWork block then wrap64 (value + k_nFees k) else value)
             in if \<not> IsBlockValueValid (mn_env.truncate E) block nExpectedMint mint
                then Some (case refuse 100 REJECT_INVALID ''bad-cb-amount'' state of (r, state) \<Rightarrow> (r, state, out))
                else
        (case (if xe_recipient_spork E then recipient_refused E block pindex nExpectedMint else Some False) of
           None \<Rightarrow> None
         | Some True \<Rightarrow> Some (False, state, out)
         | Some False \<Rightarrow>
        (case wait_checks (xe_sig E) (k_control k) of
           None \<Rightarrow> None
         | Some False \<Rightarrow> Some (case refuse 100 0 '''' state of (r, state) \<Rightarrow> (r, state, out))
         | Some True \<Rightarrow>
             if fJustCheck then Some (True, state, out)
             else
        (case write_undo E (k_vtxundo k) state out of
           None \<Rightarrow> None
         | Some (False, state, out) \<Rightarrow> Some (False, state, out)
         | Some (True, state, out) \<Rightarrow>
             if xe_txindex E \<and> \<not> xe_write_txindex E
             then Some (case vs_Error ''Failed to write transaction index'' state of (r, state) \<Rightarrow> (r, state, out))
             else (case GetBlockHash (o_index out) of
                     None \<Rightarrow> None
                   | Some hash \<Rightarrow>
                       Some (True, state, out\<lparr>o_txindex := (if xe_txindex E then k_vPos k else []),
                                               o_view := SetBestBlock hash (o_view out)\<rparr>)))))))"

definition ConnectBlock ::
  "(bytes \<Rightarrow> bytes) \<Rightarrow> (bytes \<Rightarrow> bytes) \<Rightarrow> ('b \<Rightarrow> uint256 \<Rightarrow> CCoins option \<times> 'b) \<Rightarrow> ('b \<Rightarrow> uint256 \<times> 'b) \<Rightarrow>
   connect_env \<Rightarrow> mn_state \<Rightarrow> CBlock \<Rightarrow> block_state \<Rightarrow> CBlockIndex \<Rightarrow> 'b CCoinsViewCache \<Rightarrow> bool \<Rightarrow>
   (bool \<times> block_state \<times> 'b connected) option" where
  "ConnectBlock Quark Hash bget bbest E mns block state pindex view fJustCheck =
     (let P = me_params E;
          out = (\<lambda>view. \<lparr>o_index = pindex, o_view = view, o_undo = None, o_dirty = False, o_txindex = []\<rparr>)
      in case CheckBlock Quark Hash (chain_env.truncate E) mns block state (\<not> fJustCheck) of
        None \<Rightarrow> None
      | Some (False, state) \<Rightarrow> Some (False, state, out view)
      | Some (True, state) \<Rightarrow>
     (case (case pprev pindex of None \<Rightarrow> Some (bu_zero 8) | Some p \<Rightarrow> GetBlockHash p) of
        None \<Rightarrow> None
      | Some hashPrev \<Rightarrow>
     (case cache_GetBestBlock bbest view of
        (best, view) \<Rightarrow>
          if hashPrev \<noteq> best then None
          else if CBlockHeader_GetHash Quark block = hashGenesisBlock P
          then (case GetBlockHash pindex of
                  None \<Rightarrow> None | Some hash \<Rightarrow> Some (True, state, out (SetBestBlock hash view)))
          else if nHeight (entry pindex) \<le> nLastPOWBlock P \<and> IsProofOfStake block
          then Some (case refuse 100 REJECT_INVALID ''PoS-early'' state of (r, state) \<Rightarrow> (r, state, out view))
          else if nHeight (entry pindex) > nLastPOWBlock P \<and> IsProofOfWork block
          then Some (case refuse 100 REJECT_INVALID ''PoW-ended'' state of (r, state) \<Rightarrow> (r, state, out view))
          else
     (case (if enforce_bip30 pindex then check_bip30 Hash bget (vtx block) view else (True, view)) of
        (False, view) \<Rightarrow>
          Some (case refuse 100 REJECT_INVALID ''bad-txns-BIP30'' state of (r, state) \<Rightarrow> (r, state, out view))
      | (True, view) \<Rightarrow>
     (case connect_txs Hash bget bbest E pindex (nHeight (entry pindex) \<ge> ce_checkpoint_estimate E)
             (script_flags P block pindex) (bi_GetBlockTime pindex \<ge> 1333238400) 0 (vtx block) state
             \<lparr>k_nSigOps = 0, k_nFees = 0, k_nValueOut = 0, k_nValueIn = 0, k_vtxundo = [],
              k_nTxOffset = of_nat (GetSizeOfCompactSize (of_nat (length (vtx block)))), k_vPos = [],
              k_control = [], k_view = view\<rparr> of
        None \<Rightarrow> None
      | Some (False, state, k) \<Rightarrow> Some (False, state, out (k_view k))
      | Some (True, state, k) \<Rightarrow> finish_connect E block fJustCheck pindex state k)))))"

subsection \<open>Refusals\<close>

text \<open>A refusal is not an acceptance.\<close>

lemma refuse_case:
  "(case DoS l False c r b st of (r, st) \<Rightarrow> (r, st, x)) = (True, st', y) \<longleftrightarrow> False"
  "(case Invalid False c r st of (r, st) \<Rightarrow> (r, st, x)) = (True, st', y) \<longleftrightarrow> False"
  "(case vs_Error r st of (r, st) \<Rightarrow> (r, st, x)) = (True, st', y) \<longleftrightarrow> False"
  by (simp_all add: Invalid_def DoS_def vs_Error_def Let_def)

lemma vs_Error_True: "vs_Error r st = (True, st') \<longleftrightarrow> False"
  by (simp add: vs_Error_def Let_def)

lemmas refused = refusals vs_Error_True refuse_case

end
