(* ===== verification/Supply.thy ===== *)
theory Supply
  imports Connect
begin

text \<open>
  The money supply: what connecting a block does to the value of all unspent outputs, and the cap on
  it. The laws of the steps of \<^verbatim>\<open>ConnectBlock\<close> hold for a cache over any view and are proved in the
  context of its interface; the view of the block on the database is the instance.
\<close>

subsection \<open>The value of all unspent outputs\<close>

definition outs_value :: "CTxOut list \<Rightarrow> int" where
  "outs_value outs = sum_list (map (\<lambda>out. if CTxOut_IsNull out then 0 else nValue out) outs)"

definition total_value :: "(uint256 \<Rightarrow> CCoins option) \<Rightarrow> int" where
  "total_value \<sigma> = (\<Sum>t \<in> dom \<sigma>. outs_value (c_vout (the (\<sigma> t))))"

definition good_values :: "CTxOut list \<Rightarrow> bool" where
  "good_values outs \<longleftrightarrow> (\<forall>out \<in> set outs. CTxOut_IsNull out \<or> 0 \<le> nValue out)"

definition funds_ok :: "(uint256 \<Rightarrow> CCoins option) \<Rightarrow> bool" where
  "funds_ok \<sigma> \<longleftrightarrow> finite (dom \<sigma>) \<and> (\<forall>t c. \<sigma> t = Some c \<longrightarrow> good_values (c_vout c))"

lemma outs_value_simps [simp]:
  "outs_value [] = 0"
  "outs_value (x # xs) = (if CTxOut_IsNull x then 0 else nValue x) + outs_value xs"
  "outs_value (xs @ ys) = outs_value xs + outs_value ys"
  by (simp_all add: outs_value_def)

lemma outs_value_nonneg: "good_values outs \<Longrightarrow> 0 \<le> outs_value outs"
  by (induction outs) (auto simp: good_values_def)

lemma outs_value_nulls: "list_all CTxOut_IsNull ys \<Longrightarrow> outs_value ys = 0"
  by (induction ys) auto

lemma outs_value_drop_null [simp]: "outs_value (drop_null xs) = outs_value xs"
  using drop_null_split [of xs] outs_value_nulls by (metis add.right_neutral outs_value_simps(3))

lemma outs_value_update:
  "n < length xs \<Longrightarrow> outs_value (xs[n := CTxOut_SetNull]) = outs_value xs - (if CTxOut_IsNull (xs ! n) then 0 else nValue (xs ! n))"
  by (induction xs arbitrary: n) (auto simp: CTxOut_SetNull_def CTxOut_IsNull_def split: nat.splits)

lemma good_values_drop: "good_values xs \<Longrightarrow> good_values (drop_null xs)"
  using set_drop_null [of xs] by (auto simp: good_values_def)

lemma good_values_update: "good_values xs \<Longrightarrow> good_values (xs[n := CTxOut_SetNull])"
  by (auto simp: good_values_def CTxOut_IsNull_def CTxOut_SetNull_def dest!: set_update_subset_insert [THEN subsetD])

lemma total_update:
  assumes "finite (dom \<sigma>)"
  shows "total_value (\<sigma>(t := r)) = total_value \<sigma>
    - (case \<sigma> t of None \<Rightarrow> 0 | Some c \<Rightarrow> outs_value (c_vout c)) + (case r of None \<Rightarrow> 0 | Some c \<Rightarrow> outs_value (c_vout c))"
proof -
  let ?f = "\<lambda>\<sigma> t. outs_value (c_vout (the (\<sigma> t)))"
  have split: "total_value \<tau> = (\<Sum>x \<in> dom \<tau> - {t}. ?f \<tau> x) + (case \<tau> t of None \<Rightarrow> 0 | Some c \<Rightarrow> outs_value (c_vout c))"
    if "finite (dom \<tau>)" for \<tau>
    unfolding total_value_def using that
    by (cases "t \<in> dom \<tau>") (auto simp: sum.remove [of _ t] dom_def split: option.split)
  have "dom (\<sigma>(t := r)) - {t} = dom \<sigma> - {t}" by (auto split: if_splits)
  then have "(\<Sum>x \<in> dom (\<sigma>(t := r)) - {t}. ?f (\<sigma>(t := r)) x) = (\<Sum>x \<in> dom \<sigma> - {t}. ?f \<sigma> x)"
    by (intro sum.cong) auto
  moreover have "finite (dom (\<sigma>(t := r)))" using assms by (cases r) auto
  ultimately show ?thesis using split [OF assms] split [of "\<sigma>(t := r)"] by simp
qed

lemma outs_value_live: "(case live c of None \<Rightarrow> 0 | Some c \<Rightarrow> outs_value (c_vout c)) = outs_value (c_vout c)"
proof (cases "IsPruned c")
  case True
  then have "list_all CTxOut_IsNull (c_vout c)" by (simp add: IsPruned_def list_all_iff list_ex_iff)
  then show ?thesis using True by (simp add: live_def outs_value_nulls)
qed (simp add: live_def Cleanup_def)

lemma live_vout: "live c = Some x \<Longrightarrow> good_values (c_vout c) \<Longrightarrow> good_values (c_vout x)"
  by (auto simp: live_def Cleanup_def good_values_drop split: if_splits)

lemma funds_update: "funds_ok \<sigma> \<Longrightarrow> (\<And>x. r = Some x \<Longrightarrow> good_values (c_vout x)) \<Longrightarrow> funds_ok (\<sigma>(t := r))"
  by (cases r) (auto simp: funds_ok_def)

lemma total_nonneg: "funds_ok \<sigma> \<Longrightarrow> 0 \<le> total_value \<sigma>"
  unfolding total_value_def funds_ok_def by (intro sum_nonneg) (auto simp: dom_def intro: outs_value_nonneg)

lemma spend_total:
  assumes "funds_ok \<sigma>" "spend \<sigma> p = Some (u, \<sigma>')"
  shows "funds_ok \<sigma>'" "total_value \<sigma>' = total_value \<sigma> - nValue (u_txout u)" "utxo \<sigma> p = Some (u_txout u)"
proof -
  from spend_SomeD [OF assms(2)] obtain x c' where
    x: "\<sigma> (op_hash p) = Some x" and s: "Spend x p = Some (c', u)" and \<sigma>': "\<sigma>' = \<sigma>(op_hash p := live c')" by blast
  note S = Spend_SomeD [OF s]
  have g: "good_values (c_vout x)" using assms(1) x by (auto simp: funds_ok_def)
  then have "good_values (c_vout c')" using S(1) by (simp add: Cleanup_def good_values_drop good_values_update)
  then show "funds_ok \<sigma>'" using funds_update [OF assms(1)] live_vout \<sigma>' by blast
  have "outs_value (c_vout c') = outs_value (c_vout x) - nValue (u_txout u)"
    using S(1-3) by (auto simp: Cleanup_def outs_value_update out_at_def split: if_splits)
  then show "total_value \<sigma>' = total_value \<sigma> - nValue (u_txout u)"
    using total_update [of \<sigma> "op_hash p" "live c'"] assms(1) x \<sigma>' outs_value_live [of c'] by (simp add: funds_ok_def)
  show "utxo \<sigma> p = Some (u_txout u)" using x S(2) by (simp add: utxo_def)
qed

lemma spend_all_total:
  "funds_ok \<sigma> \<Longrightarrow> spend_all \<sigma> ps = Some (us, \<sigma>') \<Longrightarrow>
   funds_ok \<sigma>' \<and> total_value \<sigma>' = total_value \<sigma> - sum_list (map (\<lambda>u. nValue (u_txout u)) us)"
proof (induction ps arbitrary: \<sigma> us)
  case (Cons p ps)
  then obtain u \<sigma>1 us' where s: "spend \<sigma> p = Some (u, \<sigma>1)" "spend_all \<sigma>1 ps = Some (us', \<sigma>')" "us = u # us'"
    by (auto split: option.splits)
  then show ?case using Cons.IH [OF spend_total(1) [OF Cons.prems(1) s(1)] s(2)] spend_total(2) [OF Cons.prems(1) s(1)] by simp
qed simp

text \<open>Spending one output leaves the other outputs as they were.\<close>

lemma spend_utxo:
  assumes "spend \<sigma> p = Some (u, \<sigma>')" "q \<noteq> p"
  shows "utxo \<sigma>' q = utxo \<sigma> q"
proof -
  from spend_SomeD [OF assms(1)] obtain x c' where
    x: "\<sigma> (op_hash p) = Some x" and s: "Spend x p = Some (c', u)" and \<sigma>': "\<sigma>' = \<sigma>(op_hash p := live c')" by blast
  note S = Spend_SomeD [OF s]
  show ?thesis
  proof (cases "op_hash q = op_hash p")
    case True
    then have "op_n q \<noteq> op_n p" using assms(2) by (metis COutPoint.surjective old.unit.exhaust)
    then have n: "unat (op_n q) \<noteq> unat (op_n p)" by (metis unsigned_word_eqI)
    have "utxo \<sigma>' q = out_at (c_vout c') (unat (op_n q))"
      using utxo_live [of c' \<sigma>' q] \<sigma>' True by simp
    also have "\<dots> = out_at (c_vout x) (unat (op_n q))"
      using S(1,3) n by (simp add: Cleanup_def out_at_update)
    finally show ?thesis using x True by (simp add: utxo_def)
  qed (simp add: utxo_def \<sigma>')
qed

lemma spend_utxo_self: "spend \<sigma> p = Some (u, \<sigma>') \<Longrightarrow> utxo \<sigma> p = Some (u_txout u)"
  by (erule spend_SomeD) (simp add: utxo_def Spend_SomeD(2))

lemma spend_all_undo:
  "spend_all \<sigma> ps = Some (us, \<sigma>') \<Longrightarrow> distinct ps \<Longrightarrow> map (\<lambda>u. Some (u_txout u)) us = map (utxo \<sigma>) ps"
proof (induction ps arbitrary: \<sigma> us)
  case (Cons p ps)
  then obtain u \<sigma>1 us' where s: "spend \<sigma> p = Some (u, \<sigma>1)" "spend_all \<sigma>1 ps = Some (us', \<sigma>')" "us = u # us'"
    by (auto split: option.splits)
  then have "map (\<lambda>u. Some (u_txout u)) us' = map (utxo \<sigma>1) ps" using Cons by simp
  also have "\<dots> = map (utxo \<sigma>) ps"
  proof (rule map_cong [OF refl])
    fix q assume "q \<in> set ps"
    then show "utxo \<sigma>1 q = utxo \<sigma> q" using Cons.prems(2) spend_utxo [OF s(1), of q] by auto
  qed
  finally show ?case using s(3) spend_utxo_self [OF s(1)] by simp
qed simp

definition input_value :: "(uint256 \<Rightarrow> CCoins option) \<Rightarrow> CTxIn \<Rightarrow> int" where
  "input_value \<sigma> i = (case utxo \<sigma> (prevout i) of None \<Rightarrow> 0 | Some out \<Rightarrow> nValue out)"

definition in_value :: "(uint256 \<Rightarrow> CCoins option) \<Rightarrow> CTransaction \<Rightarrow> int" where
  "in_value \<sigma> tx = (if IsCoinBase tx then 0
     else sum_list (map (input_value \<sigma>) (vin tx)))"

lemma spend_all_value:
  assumes "funds_ok \<sigma>" "spend_all \<sigma> (map prevout (vin tx)) = Some (us, \<sigma>')" "distinct (map prevout (vin tx))" "\<not> IsCoinBase tx"
  shows "funds_ok \<sigma>'" "total_value \<sigma>' = total_value \<sigma> - in_value \<sigma> tx"
proof -
  have "map (\<lambda>u. nValue (u_txout u)) us =
      map (\<lambda>r. case r of None \<Rightarrow> 0 | Some out \<Rightarrow> nValue out) (map (\<lambda>u. Some (u_txout u)) us)" by simp
  also have "\<dots> = map (input_value \<sigma>) (vin tx)"
    unfolding spend_all_undo [OF assms(2,3)] by (simp add: input_value_def)
  finally show "total_value \<sigma>' = total_value \<sigma> - in_value \<sigma> tx" "funds_ok \<sigma>'"
    using spend_all_total [OF assms(1,2)] assms(4) by (simp_all add: in_value_def)
qed

lemma FromTx_value:
  assumes "\<forall>out \<in> set (vout tx). 0 \<le> nValue out"
  shows "good_values (c_vout (FromTx tx h))" "outs_value (c_vout (FromTx tx h)) \<le> output_sum (vout tx)"
proof -
  let ?f = "\<lambda>out. if IsUnspendable (scriptPubKey out) then CTxOut_SetNull else out"
  have v: "c_vout (FromTx tx h) = drop_null (map ?f (vout tx))"
    by (simp add: FromTx_def ClearUnspendable_def Cleanup_def)
  have "outs_value (map ?f outs) \<le> output_sum outs" if "\<forall>out \<in> set outs. 0 \<le> nValue out" for outs
    using that by (induction outs) (auto simp: CTxOut_IsNull_def CTxOut_SetNull_def)
  then show "outs_value (c_vout (FromTx tx h)) \<le> output_sum (vout tx)" using assms by (simp add: v)
  have "good_values (map ?f (vout tx))" using assms by (auto simp: good_values_def CTxOut_IsNull_def CTxOut_SetNull_def)
  then show "good_values (c_vout (FromTx tx h))" by (simp add: v good_values_drop)
qed

lemma apply_tx_total:
  assumes "funds_ok \<sigma>" "apply_tx Hash h \<sigma> tx = Some (us, \<sigma>')"
    and "distinct (map prevout (vin tx))" "\<forall>out \<in> set (vout tx). 0 \<le> nValue out"
  shows "funds_ok \<sigma>'" "total_value \<sigma>' \<le> total_value \<sigma> + output_sum (vout tx) - in_value \<sigma> tx"
proof -
  from apply_tx_SomeD [OF assms(2)] obtain \<sigma>1 where
    \<sigma>': "\<sigma>' = \<sigma>1(tx_GetHash Hash tx := live (FromTx tx h))"
    and 1: "if IsCoinBase tx then us = [] \<and> \<sigma>1 = \<sigma> else spend_all \<sigma> (map prevout (vin tx)) = Some (us, \<sigma>1)" by blast
  have f: "funds_ok \<sigma>1" "total_value \<sigma>1 = total_value \<sigma> - in_value \<sigma> tx"
    using 1 assms(1,3) spend_all_value [of \<sigma> tx us \<sigma>1] by (auto simp: in_value_def split: if_splits)
  note F = FromTx_value [OF assms(4), of h]
  show "funds_ok \<sigma>'" using funds_update [OF f(1)] live_vout F(1) \<sigma>' by blast
  have "0 \<le> (case \<sigma>1 (tx_GetHash Hash tx) of None \<Rightarrow> 0 | Some c \<Rightarrow> outs_value (c_vout c))"
    using f(1) by (auto simp: funds_ok_def outs_value_nonneg split: option.split)
  then show "total_value \<sigma>' \<le> total_value \<sigma> + output_sum (vout tx) - in_value \<sigma> tx"
    using f total_update [of \<sigma>1 "tx_GetHash Hash tx" "live (FromTx tx h)"] outs_value_live [of "FromTx tx h"] F(2) \<sigma>'
    by (simp add: funds_ok_def)
qed

text \<open>The value that comes out of the transactions of a block and the value that goes in.\<close>

fun block_inflow :: "(bytes \<Rightarrow> bytes) \<Rightarrow> u32 \<Rightarrow> (uint256 \<Rightarrow> CCoins option) \<Rightarrow> CTransaction list \<Rightarrow> int" where
  "block_inflow Hash h \<sigma> [] = 0"
| "block_inflow Hash h \<sigma> (tx # txs) =
     in_value \<sigma> tx + (case apply_tx Hash h \<sigma> tx of None \<Rightarrow> 0 | Some (_, \<sigma>) \<Rightarrow> block_inflow Hash h \<sigma> txs)"

definition block_outflow :: "CTransaction list \<Rightarrow> int" where
  "block_outflow txs = sum_list (map (\<lambda>tx. output_sum (vout tx)) txs)"

lemma apply_txs_total:
  assumes "funds_ok \<sigma>" "apply_txs Hash h \<sigma> txs = Some (uss, \<sigma>')"
    and "\<forall>tx \<in> set txs. distinct (map prevout (vin tx)) \<and> (\<forall>out \<in> set (vout tx). 0 \<le> nValue out)"
  shows "funds_ok \<sigma>' \<and> total_value \<sigma>' \<le> total_value \<sigma> + block_outflow txs - block_inflow Hash h \<sigma> txs"
  using assms
proof (induction txs arbitrary: \<sigma> uss)
  case (Cons tx txs)
  from Cons.prems(2) obtain us \<sigma>1 uss' where a: "apply_tx Hash h \<sigma> tx = Some (us, \<sigma>1)" "apply_txs Hash h \<sigma>1 txs = Some (uss', \<sigma>')"
    by (auto split: option.splits)
  have "distinct (map prevout (vin tx))" "\<forall>out \<in> set (vout tx). 0 \<le> nValue out" using Cons.prems(3) by simp_all
  note t = apply_tx_total [OF Cons.prems(1) a(1) this]
  show ?case using Cons.IH [OF t(1) a(2)] Cons.prems(3) t(2) a(1) by (simp add: block_outflow_def)
qed (simp add: block_outflow_def)

subsection \<open>Sums that wrap\<close>

lemma wrap64_add_left: "wrap64 (wrap64 a + b) = wrap64 (a + b)"
  by (simp add: wrap64_def)

lemma wrap64_diff_left: "wrap64 (wrap64 a - b) = wrap64 (a - b)"
  by (simp add: wrap64_def)

lemma wrap64_diff_right: "wrap64 (a - wrap64 b) = wrap64 (a - b)"
  by (simp add: wrap64_def)

lemma wrap64_add_right: "wrap64 (a + wrap64 b) = wrap64 (a + b)"
  by (simp add: wrap64_def)

lemma wrap64_wrap64: "wrap64 (wrap64 a) = wrap64 a"
  by (simp add: wrap64_def)

lemmas wrap64_sums = wrap64_wrap64 wrap64_add_left wrap64_diff_left wrap64_diff_right wrap64_add_right

subsection \<open>The steps of a connection, on the content of the view\<close>

context coins_changes
begin

lemma value_in_law:
  "cinv c \<Longrightarrow> value_in_loop get c ins n = Some (r, c') \<Longrightarrow>
   cinv c' \<and> ccontent c' = ccontent c \<and> wrap64 r = wrap64 (n + sum_list (map (input_value (ccontent c)) ins))"
proof (induction ins arbitrary: c n)
  case (Cons i ins)
  from Cons.prems(2) obtain out c1 where g: "GetOutputFor get c i = Some (out, c1)"
    "value_in_loop get c1 ins (wrap64 (n + nValue out)) = Some (r, c')" by (auto split: option.splits)
  then have u: "utxo (ccontent c) (prevout i) = Some out" "cinv c1" "ccontent c1 = ccontent c"
    using GetOutputFor_law [OF Cons.prems(1), of i] by (auto split: option.splits)
  then show ?case using Cons.IH [OF u(2) g(2)] by (simp add: wrap64_sums input_value_def add.assoc)
qed simp

lemma p2sh_law:
  "cinv c \<Longrightarrow> p2sh_sigops get ins n c = Some (r, c') \<Longrightarrow> cinv c' \<and> ccontent c' = ccontent c"
proof (induction ins arbitrary: c n)
  case (Cons i ins)
  from Cons.prems(2) obtain out c1 n1 where g: "GetOutputFor get c i = Some (out, c1)"
    "p2sh_sigops get ins n1 c1 = Some (r, c')" by (auto split: option.splits)
  then show ?case using GetOutputFor_law [OF Cons.prems(1), of i] Cons.IH [of c1 n1] by (auto split: option.splits)
qed simp

lemma check_values_law:
  assumes "0 \<le> nMaxMoneyOut P" "nMaxMoneyOut P < 2 ^ 62"
  shows "cinv c \<Longrightarrow> 0 \<le> n \<Longrightarrow> n \<le> nMaxMoneyOut P \<Longrightarrow> check_values get P hgt ins n c = (Some (Inr r), c') \<Longrightarrow>
   cinv c' \<and> ccontent c' = ccontent c \<and> r = n + sum_list (map (input_value (ccontent c)) ins) \<and> n \<le> r \<and> r \<le> nMaxMoneyOut P"
proof (induction ins arbitrary: c n)
  case (Cons i ins)
  obtain x c1 where a: "AccessCoins get c (op_hash (prevout i)) = (x, c1)" by fastforce
  note A = AccessCoins_law [OF Cons.prems(1) a]
  let ?k = "unat (op_n (prevout i))"
  from Cons.prems(4) a obtain coins where x: "x = Some coins" by (cases x) auto
  let ?v = "nValue (c_vout coins ! ?k)"
  have v: "?k < length (c_vout coins)" "MoneyRange P ?v" "MoneyRange P (wrap64 (n + ?v))"
    and l: "check_values get P hgt ins (wrap64 (n + ?v)) c1 = (Some (Inr r), c')"
    using Cons.prems(4) a x by (auto simp: Let_def split: if_splits)
  then have w: "wrap64 (n + ?v) = n + ?v" using Cons.prems(2,3) assms
    by (intro wrap64_id) (simp add: MoneyRange_def int64_range_def)
  have "out_at (c_vout coins) ?k = Some (c_vout coins ! ?k)" using v(1,2) by (simp add: out_at_def CTxOut_IsNull_def MoneyRange_def)
  moreover have "utxo (ccontent c) (prevout i) = out_at (c_vout coins) ?k" using A x by (intro utxo_live) simp
  ultimately have "input_value (ccontent c) i = ?v" by (simp add: input_value_def)
  then show ?case using Cons.IH [of c1 "n + ?v"] A v l w Cons.prems(2) by (auto simp: MoneyRange_def)
qed auto

lemma check_scripts_law:
  "cinv c \<Longrightarrow> check_scripts get S tx flags i ins st c q = Some (r, st', c', q') \<Longrightarrow> cinv c' \<and> ccontent c' = ccontent c"
proof (induction ins arbitrary: c i st q)
  case (Cons j ins)
  obtain x c1 where a: "AccessCoins get c (op_hash (prevout j)) = (x, c1)" by fastforce
  note A = AccessCoins_law [OF Cons.prems(1) a]
  have "c' = c1 \<or> (\<exists>i q. check_scripts get S tx flags i ins st c1 q = Some (r, st', c', q'))"
    using Cons.prems(2) a by (auto split: option.splits sum.splits script_fail.splits unit.splits prod.splits)
  then show ?case using A Cons.IH by auto
qed simp

lemma CheckInputs_law:
  assumes P: "0 \<le> nMaxMoneyOut (me_params E)" "nMaxMoneyOut (me_params E) < 2 ^ 62"
    and c: "cinv c" and i: "CheckInputs get best S E tx st c sc flags q = Some (True, st', c', q')"
  shows "cinv c' \<and> ccontent c' = ccontent c \<and> 0 \<le> in_value (ccontent c) tx \<and> in_value (ccontent c) tx \<le> nMaxMoneyOut (me_params E) \<and>
    (\<not> IsCoinBase tx \<and> \<not> IsCoinStake tx \<longrightarrow> (\<exists>v. GetValueOut tx = Inr v \<and> v \<le> in_value (ccontent c) tx))"
proof (cases "IsCoinBase tx")
  case True
  then show ?thesis using i c P by (simp add: CheckInputs_def in_value_def)
next
  case False
  obtain c1 where h: "HaveInputs get c tx = (True, c1)"
    using i False by (auto simp: CheckInputs_def refusals split: prod.splits bool.splits)
  note H = HaveInputs_law [OF c h]
  obtain b c2 where g: "cache_GetBestBlock best c1 = (b, c2)" by fastforce
  have G: "cinv c2" "ccontent c2 = ccontent c" using cache_best_law [OF _ g] H by auto
  obtain prev where p: "me_lookup E b = Some prev"
    using i False h g by (auto simp: CheckInputs_def split: option.splits)
  obtain v c3 where v: "check_values get (me_params E) (nHeight (entry prev) + 1) (vin tx) 0 c2 = (Some (Inr v), c3)"
    using i False h g p by (auto simp: CheckInputs_def refusals split: prod.splits option.splits sum.splits)
  note V = check_values_law [OF P G(1) order_refl P(1) v]
  obtain st1 where f: "check_fee (me_params E) tx v st = Some (True, st1)"
    using i False h g p v by (auto simp: CheckInputs_def split: option.splits prod.splits bool.splits)
  have "c' = c3 \<or> check_scripts get S tx flags 0 (vin tx) st1 c3 q = Some (True, st', c', q')"
    using i False h g p v f by (auto simp: CheckInputs_def split: if_splits)
  then have "cinv c'" "ccontent c' = ccontent c" using V G check_scripts_law by metis+
  moreover have "in_value (ccontent c) tx = v" using V G False by (simp add: in_value_def)
  moreover have "\<not> IsCoinStake tx \<longrightarrow> (\<exists>w. GetValueOut tx = Inr w \<and> w \<le> v)"
    using f by (auto simp: check_fee_def refusals Let_def not_less split: sum.splits if_splits)
  ultimately show ?thesis using V by auto
qed

lemma GetP2SHSigOpCount_law:
  "cinv c \<Longrightarrow> GetP2SHSigOpCount get tx c = Some (r, c') \<Longrightarrow> cinv c' \<and> ccontent c' = ccontent c"
  using p2sh_law [of c "vin tx" 0 r c'] by (auto simp: GetP2SHSigOpCount_def split: if_splits)

lemma GetValueIn_law:
  assumes "cinv c" "GetValueIn get c tx = Some (r, c')"
  shows "cinv c' \<and> ccontent c' = ccontent c \<and> wrap64 r = wrap64 (in_value (ccontent c) tx)"
  using assms value_in_law [OF assms(1), of "vin tx" 0 r c'] by (auto simp: GetValueIn_def in_value_def split: if_splits)

lemma connect_inputs_law:
  assumes P: "0 \<le> nMaxMoneyOut (me_params E)" "nMaxMoneyOut (me_params E) < 2 ^ 62"
    and c: "cinv (k_view k)" and i: "connect_inputs Hash get best E sc flags p2sh tx st k = Some (True, st', k')"
  shows "cinv (k_view k') \<and> ccontent (k_view k') = ccontent (k_view k) \<and> k_vtxundo k' = k_vtxundo k \<and>
    k_nValueOut k' = k_nValueOut k \<and> wrap64 (k_nValueIn k') = wrap64 (k_nValueIn k + in_value (ccontent (k_view k)) tx) \<and>
    0 \<le> in_value (ccontent (k_view k)) tx \<and>
    (\<not> IsCoinBase tx \<and> \<not> IsCoinStake tx \<longrightarrow> (\<exists>v. GetValueOut tx = Inr v \<and> v \<le> in_value (ccontent (k_view k)) tx))"
proof (cases "IsCoinBase tx")
  case True
  then show ?thesis using i c by (simp add: connect_inputs_def in_value_def)
next
  case False
  let ?\<sigma> = "ccontent (k_view k)"
  obtain c1 where h: "HaveInputs get (k_view k) tx = (True, c1)"
    using i False by (auto simp: connect_inputs_def refused split: prod.splits bool.splits)
  note H = HaveInputs_law [OF c h]
  obtain n c2 where n: "(if p2sh then GetP2SHSigOpCount get tx c1 else Some (0, c1)) = Some (n, c2)"
    using i False h by (auto simp: connect_inputs_def split: option.splits)
  have N: "cinv c2" "ccontent c2 = ?\<sigma>" using n H GetP2SHSigOpCount_law [of c1 tx n c2] by (auto split: if_splits)
  let ?k = "k\<lparr>k_view := c2, k_nSigOps := k_nSigOps k + n\<rparr>"
  have l: "\<not> (p2sh \<and> k_nSigOps ?k > MAX_BLOCK_SIGOPS)"
    using i False h n by (auto simp: connect_inputs_def refused Let_def split: if_splits)
  obtain vi c3 where v: "GetValueIn get c2 tx = Some (vi, c3)"
    using i False h n l by (auto simp: connect_inputs_def Let_def split: option.splits if_splits)
  note V = GetValueIn_law [OF N(1) v]
  obtain vo where o: "(if IsCoinStake tx then Inr 0 else GetValueOut tx) = Inr vo"
    using i False h n l v by (auto simp: connect_inputs_def Let_def split: sum.splits if_splits)
  obtain st1 c4 q where ci: "CheckInputs get best (xe_sig E) (chain_env.truncate E) tx st c3 sc flags
      (if xe_threads E then Some [] else None) = Some (True, st1, c4, q)"
    and k': "k_view k' = c4" "k_vtxundo k' = k_vtxundo k" "k_nValueOut k' = k_nValueOut k"
      "k_nValueIn k' = wrap64 (k_nValueIn k + vi)"
    using i False h n l v o
    by (auto simp: connect_inputs_def Let_def split: option.splits prod.splits bool.splits if_splits)
  have P': "0 \<le> nMaxMoneyOut (me_params (chain_env.truncate E))" "nMaxMoneyOut (me_params (chain_env.truncate E)) < 2 ^ 62"
    using P by (simp_all add: chain_env.truncate_def)
  note C = CheckInputs_law [OF P' _ ci]
  have "wrap64 (k_nValueIn k') = wrap64 (k_nValueIn k + wrap64 vi)" using k' by (simp add: wrap64_sums)
  also have "\<dots> = wrap64 (k_nValueIn k + in_value ?\<sigma> tx)" using V N by (simp add: wrap64_sums)
  finally show ?thesis using C V N k' by auto
qed

lemma connect_tx_law:
  assumes P: "0 \<le> nMaxMoneyOut (me_params E)" "nMaxMoneyOut (me_params E) < 2 ^ 62"
    and c: "cinv (k_view k)" and t: "connect_tx Hash get best E pindex sc flags p2sh i tx st k = Some (True, st', k')"
    and ok: "\<And>x. live (FromTx tx (word_of_int (nHeight (entry pindex)))) = Some x \<Longrightarrow> ok x"
    and s: "sound_tx (me_params E) tx"
  shows "\<exists>us. apply_tx Hash (word_of_int (nHeight (entry pindex))) (ccontent (k_view k)) tx = Some (us, ccontent (k_view k')) \<and>
    cinv (k_view k') \<and> k_vtxundo k' = k_vtxundo k @ (if i = 0 then [] else [us]) \<and>
    wrap64 (k_nValueOut k') = wrap64 (k_nValueOut k + output_sum (vout tx)) \<and>
    wrap64 (k_nValueIn k') = wrap64 (k_nValueIn k + in_value (ccontent (k_view k)) tx) \<and>
    (0 \<le> in_value (ccontent (k_view k)) tx) \<and>
    (\<not> IsCoinBase tx \<and> \<not> IsCoinStake tx \<longrightarrow> output_sum (vout tx) \<le> in_value (ccontent (k_view k)) tx)"
proof -
  let ?k = "k\<lparr>k_nSigOps := k_nSigOps k + GetLegacySigOpCount tx\<rparr>"
  have range: "\<forall>out \<in> set (vout tx). int64_range (nValue out)"
  proof
    fix out assume out: "out \<in> set (vout tx)"
    then have "nValue out \<le> output_sum (vout tx)"
      using s member_le_sum_list [of "nValue out" "map nValue (vout tx)"]
      by (induction "vout tx") (auto simp: sound_tx_def output_sum_def)
    then show "int64_range (nValue out)" using s out P(2) by (auto simp: sound_tx_def int64_range_def)
  qed
  have vo: "GetValueOut tx = Inr v \<longleftrightarrow> v = output_sum (vout tx)" for v
    using GetValueOut_exact [OF range, of v] s P(2) by (auto simp: sound_tx_def)
  obtain st1 k1 where 1: "connect_inputs Hash get best E sc flags p2sh tx st ?k = Some (True, st1, k1)"
    using t by (auto simp: connect_tx_def refused Let_def split: if_splits option.splits prod.splits bool.splits)
  have "cinv (k_view ?k)" using c by simp
  note I = connect_inputs_law [OF P this 1]
  obtain us c2 where u: "UpdateCoins Hash get tx (k_view k1) (nHeight (entry pindex)) = Some (us, c2)"
    and k': "k_view k' = c2" "k_nValueOut k' = wrap64 (k_nValueOut k1 + output_sum (vout tx))"
      "k_vtxundo k' = (if i > 0 then k_vtxundo k1 @ [us] else k_vtxundo k1)" "k_nValueIn k' = k_nValueIn k1"
    using t 1 by (auto simp: connect_tx_def Let_def vo refused split: if_splits option.splits sum.splits)
  have "apply_tx Hash (word_of_int (nHeight (entry pindex))) (ccontent (k_view k)) tx = Some (us, ccontent c2) \<and> cinv c2"
    using UpdateCoins_law [of "k_view k1" tx "nHeight (entry pindex)" Hash] I ok u by (auto split: option.splits)
  then show ?thesis using I k' vo by (auto simp: wrap64_sums)
qed

end

definition minted :: "CTransaction list \<Rightarrow> int" where
  "minted txs = sum_list (map (\<lambda>tx. if IsCoinBase tx \<or> IsCoinStake tx then output_sum (vout tx) else 0) txs)"

context coins_changes
begin

lemma connect_txs_law:
  assumes P: "0 \<le> nMaxMoneyOut (me_params E)" "nMaxMoneyOut (me_params E) < 2 ^ 62"
    and ok: "\<And>tx x. tx \<in> set txs \<Longrightarrow> live (FromTx tx (word_of_int (nHeight (entry pindex)))) = Some x \<Longrightarrow> ok x"
    and s: "\<forall>tx \<in> set txs. sound_tx (me_params E) tx"
    and "cinv (k_view k)" "connect_txs Hash get best E pindex sc flags p2sh i txs st k = Some (True, st', k')"
  shows "\<exists>uss. apply_txs Hash (word_of_int (nHeight (entry pindex))) (ccontent (k_view k)) txs = Some (uss, ccontent (k_view k')) \<and>
    cinv (k_view k') \<and> k_vtxundo k' = k_vtxundo k @ (if i = 0 then tl uss else uss) \<and>
    wrap64 (k_nValueOut k') = wrap64 (k_nValueOut k + block_outflow txs) \<and>
    wrap64 (k_nValueIn k') =
      wrap64 (k_nValueIn k + block_inflow Hash (word_of_int (nHeight (entry pindex))) (ccontent (k_view k)) txs) \<and>
    block_outflow txs - block_inflow Hash (word_of_int (nHeight (entry pindex))) (ccontent (k_view k)) txs \<le> minted txs"
  using ok s assms(5,6)
proof (induction txs arbitrary: i st k)
  case Nil
  then show ?case by (auto simp: block_outflow_def minted_def)
next
  case (Cons tx txs)
  let ?h = "word_of_int (nHeight (entry pindex)) :: u32"
  obtain st1 k1 where 1: "connect_tx Hash get best E pindex sc flags p2sh i tx st k = Some (True, st1, k1)"
    and 2: "connect_txs Hash get best E pindex sc flags p2sh (i + 1) txs st1 k1 = Some (True, st', k')"
    using Cons.prems(4) by (auto split: option.splits prod.splits bool.splits)
  have s: "sound_tx (me_params E) tx" using Cons.prems(2) by simp
  have "\<And>x. live (FromTx tx ?h) = Some x \<Longrightarrow> ok x" using Cons.prems(1) [of tx] by simp
  from connect_tx_law [OF P Cons.prems(3) 1 this s] obtain us where
    a: "apply_tx Hash ?h (ccontent (k_view k)) tx = Some (us, ccontent (k_view k1))" "cinv (k_view k1)"
      "k_vtxundo k1 = k_vtxundo k @ (if i = 0 then [] else [us])"
      "wrap64 (k_nValueOut k1) = wrap64 (k_nValueOut k + output_sum (vout tx))"
      "wrap64 (k_nValueIn k1) = wrap64 (k_nValueIn k + in_value (ccontent (k_view k)) tx)"
      "0 \<le> in_value (ccontent (k_view k)) tx"
      "\<not> IsCoinBase tx \<and> \<not> IsCoinStake tx \<longrightarrow> output_sum (vout tx) \<le> in_value (ccontent (k_view k)) tx" by auto
  from Cons.IH [OF _ _ a(2) 2] Cons.prems(1,2) obtain uss where
    b: "apply_txs Hash ?h (ccontent (k_view k1)) txs = Some (uss, ccontent (k_view k'))" "cinv (k_view k')"
      "k_vtxundo k' = k_vtxundo k1 @ uss"
      "wrap64 (k_nValueOut k') = wrap64 (k_nValueOut k1 + block_outflow txs)"
      "wrap64 (k_nValueIn k') = wrap64 (k_nValueIn k1 + block_inflow Hash ?h (ccontent (k_view k1)) txs)"
      "block_outflow txs - block_inflow Hash ?h (ccontent (k_view k1)) txs \<le> minted txs" by auto
  have "wrap64 (k_nValueOut k') = wrap64 (wrap64 (k_nValueOut k1) + block_outflow txs)" using b(4) by (simp add: wrap64_sums)
  also have "\<dots> = wrap64 (k_nValueOut k + block_outflow (tx # txs))" using a(4) by (simp add: wrap64_sums block_outflow_def add.assoc)
  finally have o: "wrap64 (k_nValueOut k') = wrap64 (k_nValueOut k + block_outflow (tx # txs))" .
  have "wrap64 (k_nValueIn k') = wrap64 (wrap64 (k_nValueIn k1) + block_inflow Hash ?h (ccontent (k_view k1)) txs)"
    using b(5) by (simp add: wrap64_sums)
  also have "\<dots> = wrap64 (k_nValueIn k + block_inflow Hash ?h (ccontent (k_view k)) (tx # txs))"
    using a(1,5) by (simp add: wrap64_sums add.assoc)
  finally have n: "wrap64 (k_nValueIn k') = wrap64 (k_nValueIn k + block_inflow Hash ?h (ccontent (k_view k)) (tx # txs))" .
  have "block_outflow (tx # txs) - block_inflow Hash ?h (ccontent (k_view k)) (tx # txs) \<le> minted (tx # txs)"
    using a(1,6,7) b(6) by (auto simp: block_outflow_def minted_def)
  then show ?case using a b o n by (intro exI [of _ "us # uss"]) auto
qed

end

subsection \<open>A connected block\<close>

lemma minted_stake:
  assumes b: "sound_block Hash P block" and s: "IsProofOfStake block" and P: "0 \<le> nMaxMoneyOut P"
  shows "minted (vtx block) \<le> nMaxMoneyOut P"
proof -
  obtain cb txs where v: "vtx block = cb # txs" "IsCoinBase cb" "\<forall>tx \<in> set txs. \<not> IsCoinBase tx"
    using b unfolding sound_block_def by blast
  then obtain cs rest where t: "txs = cs # rest" using s by (cases txs) (auto simp: IsProofOfStake_def)
  have "output_sum (vout cb) = 0" "\<forall>tx \<in> set rest. \<not> IsCoinStake tx" "sound_tx P cs"
    using b s v t by (auto simp: sound_block_def)
  moreover from this have "minted rest = 0" using v t by (auto simp: minted_def intro!: sum_list_0 cong: map_cong)
  ultimately show ?thesis using v t P by (auto simp: minted_def sound_tx_def)
qed

lemma sum_list_length: "\<forall>x \<in> set xs. n \<le> f x \<Longrightarrow> n * length xs \<le> sum_list (map f xs)"
  for f :: "'a \<Rightarrow> nat"
  by (induction xs) auto

text \<open>
  When the value of a block is checked against the expected one: on a synced node, unless superblocks are
  enabled and the budget pays at the height; on a node that is not synced, except at the first hundred
  heights of a budget cycle. The height is the one after the predecessor that the block names.
\<close>

definition value_check_on :: "connect_env \<Rightarrow> CBlock \<Rightarrow> bool" where
  "value_check_on E block \<longleftrightarrow>
     (case me_tip E of
        None \<Rightarrow> False
      | Some tip \<Rightarrow>
          let h = height_of (mn_env.truncate E) tip block
          in if me_synced E then \<not> (me_superblocks E \<and> me_budget_block E h) else \<not> h smod me_budget_cycle E < 100)"

lemma checked_block_value:
  "value_check_on E block \<Longrightarrow> IsBlockValueValid (mn_env.truncate E) block v m \<longleftrightarrow> m \<le> v"
  by (auto simp: value_check_on_def IsBlockValueValid_def mn_env.truncate_def Let_def split: option.splits if_splits)

text \<open>What a transaction that passes the rules leaves can be stored, unless its version is negative.\<close>

lemma good_coins_Cleanup_vout:
  assumes "\<forall>out \<in> set (c_vout c). storable out" "length (c_vout c) < 2 ^ 30" "0 \<le> sint (c_nHeight c)" "0 \<le> sint (c_nVersion c)"
  shows "good_coins (Cleanup c)"
  using assms length_drop_null [of "c_vout c"] set_drop_null [of "c_vout c"]
  by (auto simp: good_coins_def Cleanup_def list_all_iff)

lemma size_member: "x \<in> set xs \<Longrightarrow> f x \<le> size_vector f xs" "(\<And>x. 0 < f x) \<Longrightarrow> length xs \<le> size_vector f xs"
proof -
  assume "x \<in> set xs"
  then have "f x \<le> sum_list (map f xs)" by (simp add: member_le_sum_list)
  then show "f x \<le> size_vector f xs" by (simp add: size_vector_def)
next
  assume "\<And>x. 0 < f x"
  then have "length xs \<le> sum_list (map f xs)" using sum_list_length [of xs 1 f] by (simp add: Suc_le_eq)
  then show "length xs \<le> size_vector f xs" by (simp add: size_vector_def)
qed

lemma sound_tx_good_coins:
  assumes "sound_tx P tx" "nMaxMoneyOut P < 2 ^ 60" "0 \<le> sint h" "0 \<le> sint (tx_nVersion tx)"
  shows "good_coins (FromTx tx h)"
proof -
  have s: "size_vector size_txout (vout tx) \<le> MAX_BLOCK_SIZE" using assms(1) by (simp add: sound_tx_def size_tx_def)
  have "length (scriptPubKey out) < 2 ^ 31 \<and> nValue out < 2 ^ 60 \<and> 0 \<le> nValue out" if o: "out \<in> set (vout tx)" for out
  proof -
    have "length (scriptPubKey out) \<le> size_txout out" by (simp add: size_txout_def size_bytes_def)
    also have "\<dots> \<le> MAX_BLOCK_SIZE" using size_member(1) [OF o, of size_txout] s by simp
    finally have "length (scriptPubKey out) < 2 ^ 31" by (simp add: MAX_BLOCK_SIZE_def)
    moreover have "\<forall>v \<in> set (map nValue (vout tx)). 0 \<le> v" using assms(1) by (auto simp: sound_tx_def)
    then have "nValue out \<le> output_sum (vout tx)" using o member_le_sum_list [of "nValue out" "map nValue (vout tx)"]
      by (auto simp: output_sum_def)
    then have "nValue out < 2 ^ 60" using assms(1,2) by (simp add: sound_tx_def)
    ultimately show ?thesis using assms(1) o by (simp add: sound_tx_def)
  qed
  then have "\<forall>out \<in> set (map (\<lambda>out. if IsUnspendable (scriptPubKey out) then CTxOut_SetNull else out) (vout tx)). storable out"
    by (auto simp: storable_def)
  moreover have "length (vout tx) < 2 ^ 30"
    using size_member(2) [of size_txout "vout tx"] s by (simp add: MAX_BLOCK_SIZE_def size_txout_def)
  ultimately show ?thesis using assms(3,4) unfolding FromTx_def ClearUnspendable_def
    by (intro good_coins_Cleanup_vout) simp_all
qed

lemma ConnectBlock_sound:
  assumes "ConnectBlock Quark Hash get best E mns block st pindex view just = Some (True, st', out)"
    and "0 \<le> nMaxMoneyOut (me_params E)" "nMaxMoneyOut (me_params E) < 2 ^ 62"
    and g: "CBlockHeader_GetHash Quark block \<noteq> hashGenesisBlock (me_params E)"
  shows "sound_block Hash (me_params E) block"
proof -
  obtain st1 where "CheckBlock Quark Hash (chain_env.truncate E) mns block st (\<not> just) = Some (True, st1)"
    using assms(1) g by (auto simp: ConnectBlock_def Let_def split: option.splits bool.splits)
  from CheckBlock_True [OF this] assms(2,3) show ?thesis by (simp add: chain_env.truncate_def)
qed

text \<open>
  What a block leaves in its index entry and in what is written, given the value that came out and
  went in.
\<close>

definition index_updated :: "connect_env \<Rightarrow> CBlock \<Rightarrow> CBlockIndex \<Rightarrow> int \<Rightarrow> 'b connected \<Rightarrow> bool" where
  "index_updated E block pindex funds out \<longleftrightarrow>
     nMoneySupply (entry (o_index out)) = funds \<and> nMint (entry (o_index out)) = wrap64 (funds - supply_before pindex) \<and>
     pprev (o_index out) = pprev pindex \<and> nHeight (entry (o_index out)) = nHeight (entry pindex) \<and>
     GetBlockHash (o_index out) = GetBlockHash pindex \<and>
     (IsProofOfStake block \<longrightarrow> (\<exists>tip. me_tip E = Some tip \<and> IsBlockValueValid (mn_env.truncate E) block
        (GetBlockValue (me_params E) (nMoneySupply (entry tip)) (nHeight (entry pindex))) (wrap64 (funds - supply_before pindex))))"

definition undo_written :: "CBlockIndex \<Rightarrow> CBlockUndo \<Rightarrow> 'b connected \<Rightarrow> bool" where
  "undo_written pindex us out \<longleftrightarrow> CDiskBlockPos_IsNull (GetUndoPos pindex) \<longrightarrow>
     (\<exists>pos hash. o_undo out = Some (pos, us, hash) \<and> Option.bind (pprev pindex) GetBlockHash = Some hash)"

context coins_changes
begin

lemma check_bip30_law:
  "cinv c \<Longrightarrow> check_bip30 Hash get txs c = (r, c') \<Longrightarrow>
   cinv c' \<and> ccontent c' = ccontent c \<and> (r \<longrightarrow> (\<forall>tx \<in> set txs. ccontent c (tx_GetHash Hash tx) = None))"
proof (induction txs arbitrary: c)
  case (Cons tx txs)
  obtain x c1 where a: "AccessCoins get c (tx_GetHash Hash tx) = (x, c1)" by fastforce
  note A = AccessCoins_law [OF Cons.prems(1) a]
  show ?case
  proof (cases x)
    case None
    then show ?thesis using A a Cons.prems(2) Cons.IH [of c1] by auto
  next
    case (Some coins)
    then show ?thesis using A a Cons.prems(2) Cons.IH [of c1] live_None [of coins] by (auto split: if_splits)
  qed
qed simp

lemma write_undo_law:
  assumes "write_undo E us st out = Some (True, st', out')"
  shows "o_view out' = o_view out \<and> pprev (o_index out') = pprev (o_index out) \<and>
    nMoneySupply (entry (o_index out')) = nMoneySupply (entry (o_index out)) \<and>
    nMint (entry (o_index out')) = nMint (entry (o_index out)) \<and> nHeight (entry (o_index out')) = nHeight (entry (o_index out)) \<and>
    phashBlock (entry (o_index out')) = phashBlock (entry (o_index out)) \<and>
    (CDiskBlockPos_IsNull (GetUndoPos (o_index out)) \<longrightarrow>
      (\<exists>pos hash. o_undo out' = Some (pos, us, hash) \<and> Option.bind (pprev (o_index out)) GetBlockHash = Some hash))"
  using assms
  by (auto simp: write_undo_def set_entry_def RaiseValidity_def Let_def refused split: if_splits option.splits)

lemma finish_connect_law:
  assumes f: "finish_connect E block just pindex st k = Some (True, st', out)" and c: "cinv (k_view k)"
  shows "index_updated E block pindex (wrap64 (supply_before pindex + k_nValueOut k - k_nValueIn k)) out \<and>
    (if just then o_view out = k_view k
     else \<exists>hash. GetBlockHash pindex = Some hash \<and> o_view out = SetBestBlock hash (k_view k) \<and> undo_written pindex (k_vtxundo k) out)"
proof -
  define funds where "funds = wrap64 (supply_before pindex + k_nValueOut k - k_nValueIn k)"
  define pi where "pi = set_entry pindex ((entry pindex)\<lparr>nMoneySupply := funds, nMint := wrap64 (funds - supply_before pindex)\<rparr>)"
  define o1 where "o1 = \<lparr>o_index = pi, o_view = k_view k, o_undo = None, o_dirty = False, o_txindex = []\<rparr>"
  have sup: "wrap64 (wrap64 (supply_before pindex + k_nValueOut k) - k_nValueIn k) = funds"
    by (simp add: funds_def wrap64_sums)
  have pi: "nHeight (entry pi) = nHeight (entry pindex)" "pprev pi = pprev pindex" "GetBlockHash pi = GetBlockHash pindex"
    "GetUndoPos pi = GetUndoPos pindex" "nMoneySupply (entry pi) = funds" "nMint (entry pi) = wrap64 (funds - supply_before pindex)"
    by (simp_all add: pi_def set_entry_def GetBlockHash_def GetUndoPos_def)
  note d = f [unfolded finish_connect_def Let_def sup pi_def [symmetric] o1_def [symmetric] pi(1)]
  obtain tip where t: "me_tip E = Some tip"
    using d by (auto simp: mn_block_value_def mn_env.truncate_def split: if_splits option.splits)
  have v: "IsProofOfStake block \<longrightarrow> IsBlockValueValid (mn_env.truncate E) block
        (GetBlockValue (me_params E) (nMoneySupply (entry tip)) (nHeight (entry pindex))) (wrap64 (funds - supply_before pindex))"
    using d t by (auto simp: mn_block_value_def mn_env.truncate_def IsProofOfWork_def refused split: if_splits)
  show ?thesis unfolding funds_def [symmetric]
  proof (cases just)
    case True
    then have "out = o1" using d by (auto simp: refused split: if_splits option.splits bool.splits)
    then show "index_updated E block pindex funds out \<and> (if just then o_view out = k_view k else
        \<exists>hash. GetBlockHash pindex = Some hash \<and> o_view out = SetBestBlock hash (k_view k) \<and> undo_written pindex (k_vtxundo k) out)"
      using True t v pi by (simp add: o1_def index_updated_def)
  next
    case False
    obtain s2 o2 where w: "write_undo E (k_vtxundo k) st o1 = Some (True, s2, o2)"
      using d False by (auto simp: refused split: if_splits option.splits bool.splits)
    note W = write_undo_law [OF w]
    have "\<exists>hash xs. GetBlockHash (o_index o2) = Some hash \<and> out = o2\<lparr>o_txindex := xs, o_view := SetBestBlock hash (o_view o2)\<rparr>"
      using d False w by (auto simp: refused split: if_splits option.splits bool.splits)
    then obtain hash xs where o: "GetBlockHash (o_index o2) = Some hash" "out = o2\<lparr>o_txindex := xs, o_view := SetBestBlock hash (o_view o2)\<rparr>"
      by blast
    then show "index_updated E block pindex funds out \<and> (if just then o_view out = k_view k else
        \<exists>hash. GetBlockHash pindex = Some hash \<and> o_view out = SetBestBlock hash (k_view k) \<and> undo_written pindex (k_vtxundo k) out)"
      using False t v pi W by (simp add: o1_def index_updated_def undo_written_def GetBlockHash_def exI [of _ hash])
  qed
qed

lemma ConnectBlock_law:
  assumes C: "ConnectBlock Quark Hash get best E mns block st pindex view just = Some (True, st', out)"
    and P: "0 \<le> nMaxMoneyOut (me_params E)" "nMaxMoneyOut (me_params E) < 2 ^ 62"
    and c: "cinv view" and g: "CBlockHeader_GetHash Quark block \<noteq> hashGenesisBlock (me_params E)"
    and ok: "\<forall>tx \<in> set (vtx block). \<forall>x. live (FromTx tx (word_of_int (nHeight (entry pindex)))) = Some x \<longrightarrow> ok x"
  defines "h \<equiv> word_of_int (nHeight (entry pindex)) :: u32"
  shows "\<exists>uss \<sigma>. apply_txs Hash h (ccontent view) (vtx block) = Some (uss, \<sigma>) \<and> cinv (o_view out) \<and>
    (if just then ccontent (o_view out) = \<sigma>
     else \<exists>hash c1. GetBlockHash pindex = Some hash \<and> cinv c1 \<and> ccontent c1 = \<sigma> \<and> o_view out = SetBestBlock hash c1 \<and>
       undo_written pindex (tl uss) out) \<and>
    sound_block Hash (me_params E) block \<and>
    (nHeight (entry pindex) > nLastPOWBlock (me_params E) \<longleftrightarrow> IsProofOfStake block) \<and>
    block_outflow (vtx block) - block_inflow Hash h (ccontent view) (vtx block) \<le> minted (vtx block) \<and>
    index_updated E block pindex
      (wrap64 (supply_before pindex + (block_outflow (vtx block) - block_inflow Hash h (ccontent view) (vtx block)))) out"
proof -
  let ?P = "me_params E"
  obtain st1 where chk: "CheckBlock Quark Hash (chain_env.truncate E) mns block st (\<not> just) = Some (True, st1)"
    using C g by (auto simp: ConnectBlock_def Let_def split: option.splits bool.splits)
  have P': "0 \<le> nMaxMoneyOut (me_params (chain_env.truncate E))" "nMaxMoneyOut (me_params (chain_env.truncate E)) < 2 ^ 62"
    using P by (simp_all add: chain_env.truncate_def)
  have sb: "sound_block Hash ?P block" using CheckBlock_True [OF chk P'] by (simp add: chain_env.truncate_def)
  obtain b c1 where b: "cache_GetBestBlock best view = (b, c1)" by fastforce
  note B = cache_best_law [OF c b]
  note d = C [unfolded ConnectBlock_def Let_def chk b, simplified prod.case option.case bool.case g if_False]
  have pos: "nHeight (entry pindex) > nLastPOWBlock ?P \<longleftrightarrow> IsProofOfStake block"
    using d g by (auto simp: refused IsProofOfWork_def split: option.splits if_splits)
  obtain c2 where bip: "(if enforce_bip30 pindex then check_bip30 Hash get (vtx block) c1 else (True, c1)) = (True, c2)"
    using d g by (auto simp: refused split: option.splits if_splits prod.splits bool.splits)
  have c2: "cinv c2" "ccontent c2 = ccontent view"
    using bip B check_bip30_law [of c1 Hash "vtx block" True c2] by (auto split: if_splits)
  define k0 where "k0 = \<lparr>k_nSigOps = 0, k_nFees = 0, k_nValueOut = 0, k_nValueIn = 0, k_vtxundo = [],
              k_nTxOffset = of_nat (GetSizeOfCompactSize (of_nat (length (vtx block)))), k_vPos = [],
              k_control = [], k_view = c2\<rparr>"
  obtain sc flags p2sh st2 k where
    k: "connect_txs Hash get best E pindex sc flags p2sh 0 (vtx block) st1 k0 = Some (True, st2, k)"
    and f: "finish_connect E block just pindex st2 k = Some (True, st', out)"
    using d g unfolding bip prod.case bool.case k0_def [symmetric]
    by (auto simp: refused bip k0_def [symmetric] split: option.splits if_splits prod.splits bool.splits)
  have okf: "tx \<in> set (vtx block) \<Longrightarrow> live (FromTx tx (word_of_int (nHeight (entry pindex)))) = Some x \<Longrightarrow> ok x" for tx x
    using ok h_def by simp
  have s: "\<forall>tx \<in> set (vtx block). sound_tx ?P tx" using sb by (simp add: sound_block_def)
  have k0: "cinv (k_view k0)" "ccontent (k_view k0) = ccontent view" using c2 by (simp_all add: k0_def)
  have "\<exists>uss. apply_txs Hash (word_of_int (nHeight (entry pindex))) (ccontent (k_view k0)) (vtx block) = Some (uss, ccontent (k_view k)) \<and>
    cinv (k_view k) \<and> k_vtxundo k = k_vtxundo k0 @ (if 0 = (0 :: nat) then tl uss else uss) \<and>
    wrap64 (k_nValueOut k) = wrap64 (k_nValueOut k0 + block_outflow (vtx block)) \<and>
    wrap64 (k_nValueIn k) =
      wrap64 (k_nValueIn k0 + block_inflow Hash (word_of_int (nHeight (entry pindex))) (ccontent (k_view k0)) (vtx block)) \<and>
    block_outflow (vtx block) - block_inflow Hash (word_of_int (nHeight (entry pindex))) (ccontent (k_view k0)) (vtx block) \<le> minted (vtx block)"
    by (rule connect_txs_law [OF P _ s k0(1) k]) (rule okf)
  then obtain uss where
    a: "apply_txs Hash h (ccontent view) (vtx block) = Some (uss, ccontent (k_view k))" "cinv (k_view k)" "k_vtxundo k = tl uss"
      "wrap64 (k_nValueOut k) = wrap64 (block_outflow (vtx block))"
      "wrap64 (k_nValueIn k) = wrap64 (block_inflow Hash h (ccontent view) (vtx block))"
      "block_outflow (vtx block) - block_inflow Hash h (ccontent view) (vtx block) \<le> minted (vtx block)"
    unfolding k0(2) h_def [symmetric] by (auto simp: k0_def)
  have "wrap64 (supply_before pindex + k_nValueOut k - k_nValueIn k) =
      wrap64 (supply_before pindex + wrap64 (k_nValueOut k) - wrap64 (k_nValueIn k))"
    by (simp add: wrap64_sums) (simp add: wrap64_def mod_simps algebra_simps)
  also have "\<dots> = wrap64 (supply_before pindex + (block_outflow (vtx block) - block_inflow Hash h (ccontent view) (vtx block)))"
    unfolding a(4,5) by (simp add: wrap64_sums) (simp add: wrap64_def mod_simps algebra_simps)
  finally have w: "wrap64 (supply_before pindex + k_nValueOut k - k_nValueIn k) =
      wrap64 (supply_before pindex + (block_outflow (vtx block) - block_inflow Hash h (ccontent view) (vtx block)))" .
  note F = finish_connect_law [OF f a(2), unfolded w a(3)]
  have "cinv (o_view out)" using F a(2) SetBestBlock_law [OF a(2)] by (auto split: if_splits)
  then show ?thesis using F a sb pos
    by (intro exI [of _ uss] exI [of _ "ccontent (k_view k)"]) (cases just, simp, elim conjE, simp, elim conjE exE, blast)
qed

end

subsection \<open>The cap on the supply\<close>

text \<open>
  The state after a block at a stake height, connected on the tip: what is unspent is worth at most the
  supply the index entry records, and the supply is at most the cap.
\<close>

context coins_changes
begin

lemma supply_capped:
  assumes C: "ConnectBlock Quark Hash get best E mns block st pindex view just = Some (True, st', out)"
    and P: "nMaxMoneyOut (me_params E) < 2 ^ 62"
    and c: "cinv view" and g: "CBlockHeader_GetHash Quark block \<noteq> hashGenesisBlock (me_params E)"
    and ok: "\<forall>tx \<in> set (vtx block). \<forall>x. live (FromTx tx (word_of_int (nHeight (entry pindex)))) = Some x \<longrightarrow> ok x"
    and tip: "me_tip E = pprev pindex" and h: "nHeight (entry pindex) > nLastPOWBlock (me_params E)"
    and v: "value_check_on E block"
    and f: "funds_ok (ccontent view)" "total_value (ccontent view) \<le> supply_before pindex" "supply_before pindex \<le> nMaxMoneyOut (me_params E)"
  shows "funds_ok (ccontent (o_view out)) \<and> total_value (ccontent (o_view out)) \<le> nMoneySupply (entry (o_index out)) \<and>
    nMoneySupply (entry (o_index out)) \<le> nMaxMoneyOut (me_params E) \<and>
    nMint (entry (o_index out)) = nMoneySupply (entry (o_index out)) - supply_before pindex \<and>
    nMint (entry (o_index out)) \<le> GetBlockValue (me_params E) (supply_before pindex) (nHeight (entry pindex))"
proof -
  let ?P = "me_params E" and ?\<sigma> = "ccontent view" and ?h = "word_of_int (nHeight (entry pindex)) :: u32"
  have P0: "0 \<le> nMaxMoneyOut ?P" using f total_nonneg [OF f(1)] by linarith
  from ConnectBlock_law [OF C P0 P c g ok] obtain uss \<sigma>' where
    a: "apply_txs Hash ?h ?\<sigma> (vtx block) = Some (uss, \<sigma>')" and o: "ccontent (o_view out) = \<sigma>'"
    and sb: "sound_block Hash ?P block" and s: "IsProofOfStake block"
    and m: "block_outflow (vtx block) - block_inflow Hash ?h ?\<sigma> (vtx block) \<le> minted (vtx block)"
    and i: "index_updated E block pindex
      (wrap64 (supply_before pindex + (block_outflow (vtx block) - block_inflow Hash ?h ?\<sigma> (vtx block)))) out"
    using h SetBestBlock_law by (cases just) auto
  define d where "d = block_outflow (vtx block) - block_inflow Hash ?h ?\<sigma> (vtx block)"
  have "\<forall>tx \<in> set (vtx block). distinct (map prevout (vin tx)) \<and> (\<forall>out \<in> set (vout tx). 0 \<le> nValue out)"
    using sb by (auto simp: sound_block_def sound_tx_def)
  note t = apply_txs_total [OF f(1) a this]
  have d: "0 \<le> total_value ?\<sigma> + d" "d \<le> nMaxMoneyOut ?P"
    using t total_nonneg [of \<sigma>'] m minted_stake [OF sb s P0] by (auto simp: d_def)
  have "0 \<le> total_value ?\<sigma>" by (rule total_nonneg [OF f(1)])
  then have "wrap64 (supply_before pindex + d) = supply_before pindex + d" "wrap64 d = d"
    using d f P by (auto intro!: wrap64_id simp: int64_range_def)
  then have I: "nMoneySupply (entry (o_index out)) = supply_before pindex + d" "nMint (entry (o_index out)) = d"
    and "\<exists>tip. me_tip E = Some tip \<and> IsBlockValueValid (mn_env.truncate E) block
        (GetBlockValue ?P (nMoneySupply (entry tip)) (nHeight (entry pindex))) d"
    using i s by (simp_all add: index_updated_def d_def [symmetric])
  then have "d \<le> GetBlockValue ?P (supply_before pindex) (nHeight (entry pindex))"
    using checked_block_value [OF v] tip by (auto simp: supply_before_def)
  then show ?thesis using t o I GetBlockValue_cap(2) [OF f(3), of "nHeight (entry pindex)"] f(2)
    by (simp add: d_def)
qed

end

subsection \<open>Disconnecting what was connected\<close>

lemma sound_tx_plain:
  assumes "sound_tx P tx"
  shows "plain_tx tx"
proof -
  have "length (vout tx) \<le> 8 * length (vout tx)" by simp
  also have "\<dots> \<le> sum_list (map size_txout (vout tx))"
    by (rule sum_list_length) (simp add: size_txout_def)
  also have "\<dots> \<le> size_tx tx" by (simp add: size_tx_def size_vector_def)
  also have "\<dots> \<le> 1000000" using assms by (simp add: sound_tx_def MAX_BLOCK_SIZE_def)
  finally have "length (vout tx) < 2 ^ 32" by simp
  moreover have "nulls_ok (vout tx)" using assms by (auto simp: nulls_ok_def sound_tx_def CTxOut_IsNull_def)
  ultimately show ?thesis by (simp add: plain_tx_def)
qed

lemma sound_block_txs_ok:
  assumes "sound_block Hash P block" "distinct (map (tx_GetHash Hash) (vtx block))"
    and "\<forall>tx \<in> set (vtx block). \<sigma> (tx_GetHash Hash tx) = None"
  shows "block_txs_ok Hash \<sigma> (vtx block)"
proof -
  obtain cb txs where v: "vtx block = cb # txs" "IsCoinBase cb" "\<forall>tx \<in> set txs. \<not> IsCoinBase tx"
    using assms(1) unfolding sound_block_def by blast
  have "IsCoinBase ((cb # txs) ! i) \<longleftrightarrow> i = 0" if "i < length (cb # txs)" for i
    using that v by (cases i) auto
  moreover have "\<forall>tx \<in> set (vtx block). plain_tx tx" using assms(1) sound_tx_plain by (auto simp: sound_block_def)
  ultimately show ?thesis using v assms(2,3) by (simp add: block_txs_ok_def)
qed

context coins_changes
begin

lemma ConnectBlock_fresh:
  assumes C: "ConnectBlock Quark Hash get best E mns block st pindex view just = Some (True, st', out)"
    and c: "cinv view" and g: "CBlockHeader_GetHash Quark block \<noteq> hashGenesisBlock (me_params E)" and b: "enforce_bip30 pindex"
  shows "\<forall>tx \<in> set (vtx block). ccontent view (tx_GetHash Hash tx) = None"
proof -
  obtain b1 c1 where b1: "cache_GetBestBlock best view = (b1, c1)" by fastforce
  note B = cache_best_law [OF c b1]
  obtain c2 where "check_bip30 Hash get (vtx block) c1 = (True, c2)"
    using C g b b1 by (auto simp: ConnectBlock_def Let_def refused split: option.splits bool.splits prod.splits if_splits)
  then show ?thesis using B check_bip30_law [of c1 Hash "vtx block" True c2] by simp
qed

lemma Disconnect_Connect_law:
  assumes C: "ConnectBlock Quark Hash get best E mns block st pindex view False = Some (True, st', out)"
    and P: "0 \<le> nMaxMoneyOut (me_params E)" "nMaxMoneyOut (me_params E) < 2 ^ 62"
    and c: "cinv view" "sound ok (ccontent view)" and g: "CBlockHeader_GetHash Quark block \<noteq> hashGenesisBlock (me_params E)"
    and b: "enforce_bip30 pindex" "distinct (map (tx_GetHash Hash) (vtx block))"
    and ok: "\<forall>tx \<in> set (vtx block). \<forall>x. live (FromTx tx (word_of_int (nHeight (entry pindex)))) = Some x \<longrightarrow> ok x"
    and h: "word_of_int (nHeight (entry pindex)) \<noteq> (0 :: u32)"
    and hash: "GetBlockHash pindex \<noteq> Some (bu_zero 8)" "hashPrev \<noteq> bu_zero 8"
    and w: "CDiskBlockPos_IsNull (GetUndoPos pindex)" "o_undo out = Some (pos, undo, hashPrev)"
    and ns: "\<forall>us \<in> set undo. \<forall>u \<in> set us. \<not> u_fCoinStake u"
    and r: "\<not> CDiskBlockPos_IsNull (GetUndoPos (o_index out))" "ReadUndo (GetUndoPos (o_index out)) hashPrev = Some undo"
  shows "\<exists>c2. DisconnectBlock Hash get best ReadUndo block (o_index out) True (o_view out) = Some (True, Some True, c2) \<and>
    cinv c2 \<and> ccontent c2 = ccontent view \<and> cache_tip tip c2 = hashPrev"
proof -
  let ?h = "word_of_int (nHeight (entry pindex)) :: u32"
  from ConnectBlock_law [OF C P c(1) g ok] obtain uss hsh c1 where
    a: "apply_txs Hash ?h (ccontent view) (vtx block) = Some (uss, ccontent c1)" "cinv c1"
    and o: "GetBlockHash pindex = Some hsh" "o_view out = SetBestBlock hsh c1" "undo_written pindex (tl uss) out"
    and s: "sound_block Hash (me_params E) block" and i: "\<exists>m. index_updated E block pindex m out"
    by auto
  have t: "block_txs_ok Hash (ccontent view) (vtx block)"
    by (rule sound_block_txs_ok [OF s b(2) ConnectBlock_fresh [OF C c(1) g b(1)]])
  have u: "undo = tl uss" and hp: "Option.bind (pprev pindex) GetBlockHash = Some hashPrev"
    using o(3) w by (auto simp: undo_written_def)
  obtain p where p: "pprev pindex = Some p" "GetBlockHash p = Some hashPrev" using hp by (cases "pprev pindex") auto
  have i: "word_of_int (nHeight (entry (o_index out))) = ?h" "GetBlockHash (o_index out) = Some hsh" "pprev (o_index out) = Some p"
    using i o(1) p by (auto simp: index_updated_def)
  have hsh: "hsh \<noteq> bu_zero 8" using hash(1) o(1) by simp
  have ns': "\<forall>us \<in> set uss. \<forall>u \<in> set us. \<not> u_fCoinStake u"
  proof -
    obtain cb txs where v: "vtx block = cb # txs" "IsCoinBase cb" using s unfolding sound_block_def by blast
    then obtain us uss' where "uss = us # uss'" "us = []" using a(1) by (auto simp: apply_tx_def split: option.splits)
    then show ?thesis using ns u by simp
  qed
  show ?thesis unfolding o(2)
    by (rule DisconnectBlock_law [OF c t i(1) h ok a ns' i(2) hsh i(3) p(2) hash(2) r(1)]) (use r(2) u in simp)
qed

end

end
