(* ===== verification/Script_Threads.thy ===== *)
theory Script_Threads
  imports Connect
begin

text \<open>
  Script checks on other threads: \<^verbatim>\<open>ConnectBlock\<close> with a queue of checks accepts the same blocks, with
  the same result, as \<^verbatim>\<open>ConnectBlock\<close> that checks the scripts as it goes.
\<close>

subsection \<open>Queued and immediate checks\<close>

definition all_pass :: "sig_env \<Rightarrow> CScriptCheck list \<Rightarrow> bool" where
  "all_pass S cs \<longleftrightarrow> (\<forall>c \<in> set cs. run_check S c = Inr ())"

lemma all_pass_simps [simp]: "all_pass S []" "all_pass S (c # cs) \<longleftrightarrow> run_check S c = Inr () \<and> all_pass S cs"
  "all_pass S (cs @ ds) \<longleftrightarrow> all_pass S cs \<and> all_pass S ds"
  by (auto simp: all_pass_def)

lemma wait_checks_True: "wait_checks S cs = Some True \<longleftrightarrow> all_pass S cs"
  by (auto simp: wait_checks_def all_pass_def list_ex_iff list_all_iff intro: bexI [rotated])

lemma check_scripts_queue:
  "check_scripts get S tx fl i ins st c (Some q) = Some (b, st', c', r) \<longleftrightarrow>
     (\<exists>cs. check_scripts get S tx fl i ins st c (Some []) = Some (b, st', c', Some cs) \<and> r = Some (q @ cs))"
proof (induction ins arbitrary: i c q r)
  case (Cons x xs)
  obtain y c1 where y: "AccessCoins get c (op_hash (prevout x)) = (y, c1)" by fastforce
  show ?case
  proof (cases y)
    case (Some coins)
    show ?thesis
    proof (cases "CScriptCheck_new coins tx i fl")
      case new: (Some ck)
      show ?thesis using y Some new Cons.IH [of "i + 1" c1 "q @ [ck]" r]
        by (simp del: One_nat_def add: Cons.IH [of "i + 1" c1 "[ck]"]) blast
    qed (simp add: y Some)
  qed (simp add: y)
qed auto

lemma check_scripts_immediate:
  "check_scripts get S tx fl i ins st c None = Some (True, st', c', r) \<longleftrightarrow>
     r = None \<and> (\<exists>cs. check_scripts get S tx fl i ins st c (Some []) = Some (True, st', c', Some cs) \<and> all_pass S cs)"
proof (induction ins arbitrary: i c)
  case (Cons x xs)
  obtain y c1 where y: "AccessCoins get c (op_hash (prevout x)) = (y, c1)" by fastforce
  show ?case
  proof (cases y)
    case (Some coins)
    show ?thesis
    proof (cases "CScriptCheck_new coins tx i fl")
      case new: (Some ck)
      show ?thesis
      proof (cases "run_check S ck")
        case (Inr u)
        then show ?thesis using y Some new Cons.IH [of "i + 1" c1]
          by (auto simp del: One_nat_def simp: check_scripts_queue [of _ _ _ _ _ _ _ _ "[ck]"])
      next
        case (Inl e)
        then show ?thesis using y Some new
          by (cases e) (auto simp del: One_nat_def simp: check_scripts_queue [of _ _ _ _ _ _ _ _ "[ck]"] Invalid_def DoS_def Let_def
              split: if_splits sum.splits script_fail.splits)
      qed
    qed (simp add: y Some)
  qed (simp add: y)
qed auto

lemma CheckInputs_immediate:
  "CheckInputs get best S E tx st c sc fl None = Some (True, st', c', r) \<longleftrightarrow>
     r = None \<and> (\<exists>cs. CheckInputs get best S E tx st c sc fl (Some []) = Some (True, st', c', Some cs) \<and> all_pass S cs)"
  by (auto simp: CheckInputs_def check_scripts_immediate Invalid_def DoS_def Let_def
      split: option.splits prod.splits bool.splits sum.splits if_splits)

lemma check_scripts_Some:
  "check_scripts get S tx fl i ins st c (Some q) = Some (b, st', c', r) \<Longrightarrow> \<exists>cs. r = Some cs"
  by (subst (asm) check_scripts_queue) blast

lemma CheckInputs_Some:
  "CheckInputs get best S E tx st c sc fl (Some q) = Some (True, st', c', r) \<Longrightarrow> \<exists>cs. r = Some cs"
  by (auto simp: CheckInputs_def Invalid_def DoS_def Let_def dest: check_scripts_Some
      split: option.splits prod.splits bool.splits sum.splits if_splits)

lemma truncate_threads [simp]: "chain_env.truncate (E\<lparr>xe_threads := b\<rparr>) = chain_env.truncate E"
  "mn_env.truncate (E\<lparr>xe_threads := b\<rparr>) = mn_env.truncate E"
  by (simp_all add: chain_env.truncate_def mn_env.truncate_def)

lemma threads_fields: "me_params (E\<lparr>xe_threads := b\<rparr>) = me_params E"
  "ce_checkpoint_estimate (E\<lparr>xe_threads := b\<rparr>) = ce_checkpoint_estimate E"
  by simp_all

subsection \<open>The rounds of the loop\<close>

text \<open>What an accepted round computes, in order.\<close>

definition inputs_pass ::
  "('b \<Rightarrow> uint256 \<Rightarrow> CCoins option \<times> 'b) \<Rightarrow> bool \<Rightarrow> CTransaction \<Rightarrow> u32 \<Rightarrow> 'b CCoinsViewCache \<Rightarrow> u32 \<Rightarrow> int \<Rightarrow> int \<Rightarrow>
   'b CCoinsViewCache \<Rightarrow> bool" where
  "inputs_pass get p2sh tx sigops c n vi vo c3 \<longleftrightarrow>
     (\<exists>c1 c2. HaveInputs get c tx = (True, c1) \<and>
       (if p2sh then GetP2SHSigOpCount get tx c1 else Some (0, c1)) = Some (n, c2) \<and> \<not> (p2sh \<and> sigops + n > MAX_BLOCK_SIGOPS) \<and>
       GetValueIn get c2 tx = Some (vi, c3) \<and> (if IsCoinStake tx then Inr 0 else GetValueOut tx) = Inr vo)"

definition after_inputs :: "CTransaction \<Rightarrow> u32 \<Rightarrow> int \<Rightarrow> int \<Rightarrow> 'b CCoinsViewCache \<Rightarrow> CScriptCheck list \<Rightarrow> 'b connecting \<Rightarrow> 'b connecting" where
  "after_inputs tx n vi vo c cs k =
     k\<lparr>k_view := c, k_nSigOps := k_nSigOps k + n,
       k_nFees := (if IsCoinStake tx then k_nFees k else wrap64 (k_nFees k + wrap64 (vi - vo))),
       k_nValueIn := wrap64 (k_nValueIn k + vi), k_control := k_control k @ cs\<rparr>"

lemma connect_inputs_TrueE:
  assumes i: "connect_inputs Hash get best E sc fl p2sh tx st k = Some (True, st', k')" and False: "\<not> IsCoinBase tx"
  obtains n vi vo c3 c4 q where "inputs_pass get p2sh tx (k_nSigOps k) (k_view k) n vi vo c3"
    "CheckInputs get best (xe_sig E) (chain_env.truncate E) tx st c3 sc fl (if xe_threads E then Some [] else None) = Some (True, st', c4, q)"
    "k' = after_inputs tx n vi vo c4 (case q of None \<Rightarrow> [] | Some cs \<Rightarrow> cs) k"
proof -
  obtain c1 where h: "HaveInputs get (k_view k) tx = (True, c1)"
    using i False by (auto simp: connect_inputs_def refused split: prod.splits bool.splits)
  obtain n c2 where n: "(if p2sh then GetP2SHSigOpCount get tx c1 else Some (0, c1)) = Some (n, c2)"
    using i False h by (auto simp: connect_inputs_def split: option.splits)
  have l: "\<not> (p2sh \<and> k_nSigOps k + n > MAX_BLOCK_SIGOPS)"
    using i False h n by (auto simp: connect_inputs_def refused Let_def split: if_splits)
  obtain vi c3 where v: "GetValueIn get c2 tx = Some (vi, c3)"
    using i False h n l by (auto simp: connect_inputs_def Let_def split: option.splits if_splits)
  obtain vo where o: "(if IsCoinStake tx then Inr 0 else GetValueOut tx) = Inr vo"
    using i False h n l v by (auto simp: connect_inputs_def Let_def split: sum.splits if_splits)
  have ip: "inputs_pass get p2sh tx (k_nSigOps k) (k_view k) n vi vo c3"
    using h n l v o unfolding inputs_pass_def by blast
  have if_l: "(p2sh \<and> k_nSigOps k + n > MAX_BLOCK_SIGOPS) = False" using l by simp
  show thesis
    using i that [OF ip]
    by (auto simp: connect_inputs_def False h n if_l v o Let_def after_inputs_def cong: if_cong split: option.splits prod.splits bool.splits)
qed

lemma connect_inputs_TrueI:
  assumes "inputs_pass get p2sh tx (k_nSigOps k) (k_view k) n vi vo c3" "\<not> IsCoinBase tx"
    "CheckInputs get best (xe_sig E) (chain_env.truncate E) tx st c3 sc fl (if xe_threads E then Some [] else None) = Some (True, st', c4, q)"
  shows "connect_inputs Hash get best E sc fl p2sh tx st k = Some (True, st', after_inputs tx n vi vo c4 (case q of None \<Rightarrow> [] | Some cs \<Rightarrow> cs) k)"
proof -
  from assms(1) obtain c1 c2 where
    h: "HaveInputs get (k_view k) tx = (True, c1)" and n: "(if p2sh then GetP2SHSigOpCount get tx c1 else Some (0, c1)) = Some (n, c2)"
    and l: "(p2sh \<and> k_nSigOps k + n > MAX_BLOCK_SIGOPS) = False" and v: "GetValueIn get c2 tx = Some (vi, c3)"
    and o: "(if IsCoinStake tx then Inr 0 else GetValueOut tx) = Inr vo" unfolding inputs_pass_def by auto
  show ?thesis by (simp add: connect_inputs_def assms(2,3) h n l v o Let_def after_inputs_def cong: if_cong)
qed

lemma after_inputs_control: "(after_inputs tx n vi vo c [] k)\<lparr>k_control := k_control k\<rparr> = after_inputs tx n vi vo c [] k"
  "after_inputs tx n vi vo c cs (k\<lparr>k_control := q\<rparr>) = (after_inputs tx n vi vo c [] k)\<lparr>k_control := q @ cs\<rparr>"
  "k_control (after_inputs tx n vi vo c cs k) = k_control k @ cs"
  by (cases k, simp add: after_inputs_def)+

lemma connect_inputs_threads:
  assumes "connect_inputs Hash get best (E\<lparr>xe_threads := False\<rparr>) sc fl p2sh tx st k = Some (True, st', k')"
  shows "k_control k' = k_control k \<and> (\<exists>cs. all_pass (xe_sig E) cs \<and>
    connect_inputs Hash get best (E\<lparr>xe_threads := True\<rparr>) sc fl p2sh tx st (k\<lparr>k_control := q\<rparr>) =
      Some (True, st', k'\<lparr>k_control := q @ cs\<rparr>))"
proof (cases "IsCoinBase tx")
  case True
  then show ?thesis using assms by (auto simp: connect_inputs_def intro!: exI [of _ "[]"])
next
  case False
  obtain n vi vo c3 c4 r where
    ip: "inputs_pass get p2sh tx (k_nSigOps k) (k_view k) n vi vo c3"
    and ci: "CheckInputs get best (xe_sig E) (chain_env.truncate E) tx st c3 sc fl None = Some (True, st', c4, r)"
    and k': "k' = after_inputs tx n vi vo c4 (case r of None \<Rightarrow> [] | Some cs \<Rightarrow> cs) k"
    by (rule connect_inputs_TrueE [OF assms False]) (rule that, simp_all)
  from ci [unfolded CheckInputs_immediate] obtain cs where r: "r = None" and
    cs: "CheckInputs get best (xe_sig E) (chain_env.truncate E) tx st c3 sc fl (Some []) = Some (True, st', c4, Some cs)"
      "all_pass (xe_sig E) cs" by blast
  have "connect_inputs Hash get best (E\<lparr>xe_threads := True\<rparr>) sc fl p2sh tx st (k\<lparr>k_control := q\<rparr>) =
      Some (True, st', after_inputs tx n vi vo c4 cs (k\<lparr>k_control := q\<rparr>))"
    using connect_inputs_TrueI [of get p2sh tx "k\<lparr>k_control := q\<rparr>" n vi vo c3 best "E\<lparr>xe_threads := True\<rparr>" st sc fl st' c4 "Some cs" Hash] ip False cs
    by simp
  then show ?thesis using k' r cs(2) by (auto simp: after_inputs_control)
qed

lemma connect_inputs_no_threads:
  assumes "connect_inputs Hash get best (E\<lparr>xe_threads := True\<rparr>) sc fl p2sh tx st (k\<lparr>k_control := q\<rparr>) = Some (True, st', k2)"
  shows "\<exists>cs. k_control k2 = q @ cs \<and> (all_pass (xe_sig E) cs \<longrightarrow>
    connect_inputs Hash get best (E\<lparr>xe_threads := False\<rparr>) sc fl p2sh tx st k = Some (True, st', k2\<lparr>k_control := k_control k\<rparr>))"
proof (cases "IsCoinBase tx")
  case True
  then show ?thesis using assms by (auto simp: connect_inputs_def)
next
  case False
  obtain n vi vo c3 c4 r where
    ip: "inputs_pass get p2sh tx (k_nSigOps k) (k_view k) n vi vo c3"
    and ci: "CheckInputs get best (xe_sig E) (chain_env.truncate E) tx st c3 sc fl (Some []) = Some (True, st', c4, r)"
    and k2: "k2 = after_inputs tx n vi vo c4 (case r of None \<Rightarrow> [] | Some cs \<Rightarrow> cs) (k\<lparr>k_control := q\<rparr>)"
    by (rule connect_inputs_TrueE [OF assms False]) (rule that, simp_all)
  from CheckInputs_Some [OF ci] obtain cs where r: "r = Some cs" by blast
  have "connect_inputs Hash get best (E\<lparr>xe_threads := False\<rparr>) sc fl p2sh tx st k = Some (True, st', after_inputs tx n vi vo c4 [] k)"
    if "all_pass (xe_sig E) cs"
    using connect_inputs_TrueI [of get p2sh tx k n vi vo c3 best "E\<lparr>xe_threads := False\<rparr>" st sc fl st' c4 None Hash] ip False ci that r
    by (simp add: CheckInputs_immediate)
  then show ?thesis using k2 r by (auto simp: after_inputs_control)
qed

text \<open>
  The shape both directions share: a step \<open>f\<close> with threads against the same step \<open>g\<close> without, from the
  queue \<open>q\<close>.
\<close>

definition threads_follow ::
  "sig_env \<Rightarrow> (block_state \<Rightarrow> 'b connecting \<Rightarrow> (bool \<times> block_state \<times> 'b connecting) option) \<Rightarrow>
   (block_state \<Rightarrow> 'b connecting \<Rightarrow> (bool \<times> block_state \<times> 'b connecting) option) \<Rightarrow> bool" where
  "threads_follow S f g \<longleftrightarrow>
     (\<forall>st k st' k' q. g st k = Some (True, st', k') \<longrightarrow> k_control k' = k_control k \<and>
        (\<exists>cs. all_pass S cs \<and> f st (k\<lparr>k_control := q\<rparr>) = Some (True, st', k'\<lparr>k_control := q @ cs\<rparr>))) \<and>
     (\<forall>st k st' k2 q. f st (k\<lparr>k_control := q\<rparr>) = Some (True, st', k2) \<longrightarrow>
        (\<exists>cs. k_control k2 = q @ cs \<and> (all_pass S cs \<longrightarrow> g st k = Some (True, st', k2\<lparr>k_control := k_control k\<rparr>))))"

lemma connect_inputs_follow:
  "threads_follow (xe_sig E) (connect_inputs Hash get best (E\<lparr>xe_threads := True\<rparr>) sc fl p2sh tx)
     (connect_inputs Hash get best (E\<lparr>xe_threads := False\<rparr>) sc fl p2sh tx)"
  unfolding threads_follow_def by (intro conjI allI impI connect_inputs_threads connect_inputs_no_threads) (blast dest: connect_inputs_threads)+

text \<open>A step that does not look at the queue.\<close>

lemma follow_plain:
  assumes "\<And>st k q. f st (k\<lparr>k_control := q\<rparr>) = map_option (\<lambda>(r, st, k'). (r, st, k'\<lparr>k_control := q\<rparr>)) (f st k)"
    and c: "\<And>st k r st' k'. f st k = Some (r, st', k') \<Longrightarrow> k_control k' = k_control k"
  shows "threads_follow S f f"
  unfolding threads_follow_def
proof (intro conjI allI impI)
  fix st k st' k' q
  assume f: "f st k = Some (True, st', k')"
  then show "k_control k' = k_control k" by (rule c)
  show "\<exists>cs. all_pass S cs \<and> f st (k\<lparr>k_control := q\<rparr>) = Some (True, st', k'\<lparr>k_control := q @ cs\<rparr>)"
    using f by (intro exI [of _ "[]"]) (simp add: assms(1))
next
  fix st k st' k2 q
  assume "f st (k\<lparr>k_control := q\<rparr>) = Some (True, st', k2)"
  then obtain k' where k': "f st k = Some (True, st', k')" "k2 = k'\<lparr>k_control := q\<rparr>" by (auto simp: assms(1))
  then show "\<exists>cs. k_control k2 = q @ cs \<and> (all_pass S cs \<longrightarrow> f st k = Some (True, st', k2\<lparr>k_control := k_control k\<rparr>))"
    using c [OF k'(1)] by (intro exI [of _ "[]"]) (cases k', simp)
qed

definition then_step ::
  "('s \<Rightarrow> 'k \<Rightarrow> (bool \<times> 's \<times> 'k) option) \<Rightarrow> ('s \<Rightarrow> 'k \<Rightarrow> (bool \<times> 's \<times> 'k) option) \<Rightarrow> 's \<Rightarrow> 'k \<Rightarrow> (bool \<times> 's \<times> 'k) option" where
  "then_step f g st k = (case f st k of None \<Rightarrow> None | Some (False, st, k) \<Rightarrow> Some (False, st, k) | Some (True, st, k) \<Rightarrow> g st k)"

lemma then_step_True: "then_step f g st k = Some (True, st', k') \<longleftrightarrow> (\<exists>st1 k1. f st k = Some (True, st1, k1) \<and> g st1 k1 = Some (True, st', k'))"
  by (auto simp: then_step_def split: option.split bool.split)

lemma follow_then:
  assumes f: "threads_follow S f f'" and g: "threads_follow S g g'"
  shows "threads_follow S (then_step f g) (then_step f' g')"
  unfolding threads_follow_def
proof (intro conjI allI impI)
  fix st k st' k' q
  assume "then_step f' g' st k = Some (True, st', k')"
  then obtain st1 k1 where 1: "f' st k = Some (True, st1, k1)" "g' st1 k1 = Some (True, st', k')" by (auto simp: then_step_True)
  obtain cs where c: "k_control k1 = k_control k" "all_pass S cs" "f st (k\<lparr>k_control := q\<rparr>) = Some (True, st1, k1\<lparr>k_control := q @ cs\<rparr>)"
    using f 1(1) unfolding threads_follow_def by blast
  obtain ds where d: "k_control k' = k_control k1" "all_pass S ds"
      "g st1 (k1\<lparr>k_control := q @ cs\<rparr>) = Some (True, st', k'\<lparr>k_control := (q @ cs) @ ds\<rparr>)"
    using g 1(2) unfolding threads_follow_def by blast
  show "k_control k' = k_control k" using c d by simp
  show "\<exists>cs. all_pass S cs \<and> then_step f g st (k\<lparr>k_control := q\<rparr>) = Some (True, st', k'\<lparr>k_control := q @ cs\<rparr>)"
    using c d by (intro exI [of _ "cs @ ds"]) (simp add: then_step_def)
next
  fix st k st' k2 q
  assume "then_step f g st (k\<lparr>k_control := q\<rparr>) = Some (True, st', k2)"
  then obtain st1 k1 where 1: "f st (k\<lparr>k_control := q\<rparr>) = Some (True, st1, k1)" "g st1 k1 = Some (True, st', k2)" by (auto simp: then_step_True)
  obtain cs where c: "k_control k1 = q @ cs" "all_pass S cs \<longrightarrow> f' st k = Some (True, st1, k1\<lparr>k_control := k_control k\<rparr>)"
    using f 1(1) unfolding threads_follow_def by blast
  define k0 where "k0 = k1\<lparr>k_control := k_control k\<rparr>"
  have k0: "k_control k0 = k_control k" by (simp add: k0_def)
  have "g st1 (k0\<lparr>k_control := q @ cs\<rparr>) = Some (True, st', k2)"
    using 1(2) c(1) unfolding k0_def by (cases k1) simp
  moreover have "g st1 (k0\<lparr>k_control := q @ cs\<rparr>) = Some (True, st', k2) \<longrightarrow>
      (\<exists>ds. k_control k2 = (q @ cs) @ ds \<and> (all_pass S ds \<longrightarrow> g' st1 k0 = Some (True, st', k2\<lparr>k_control := k_control k0\<rparr>)))"
    using g unfolding threads_follow_def by (elim conjE allE)
  ultimately obtain ds where d: "k_control k2 = (q @ cs) @ ds"
      "all_pass S ds \<longrightarrow> g' st1 k0 = Some (True, st', k2\<lparr>k_control := k_control k\<rparr>)" unfolding k0 by blast
  show "\<exists>cs. k_control k2 = q @ cs \<and> (all_pass S cs \<longrightarrow> then_step f' g' st k = Some (True, st', k2\<lparr>k_control := k_control k\<rparr>))"
    using c d by (intro exI [of _ "cs @ ds"]) (simp add: then_step_def k0_def)
qed

definition count_sigops :: "CTransaction \<Rightarrow> block_state \<Rightarrow> 'b connecting \<Rightarrow> (bool \<times> block_state \<times> 'b connecting) option" where
  "count_sigops tx st k =
     (let k = k\<lparr>k_nSigOps := k_nSigOps k + GetLegacySigOpCount tx\<rparr>
      in Some (if k_nSigOps k > MAX_BLOCK_SIGOPS then (case refuse 100 REJECT_INVALID ''bad-blk-sigops'' st of (r, st) \<Rightarrow> (r, st, k))
               else (True, st, k)))"

definition spend_and_record ::
  "(bytes \<Rightarrow> bytes) \<Rightarrow> ('b \<Rightarrow> uint256 \<Rightarrow> CCoins option \<times> 'b) \<Rightarrow> CBlockIndex \<Rightarrow> nat \<Rightarrow> CTransaction \<Rightarrow> block_state \<Rightarrow>
   'b connecting \<Rightarrow> (bool \<times> block_state \<times> 'b connecting) option" where
  "spend_and_record Hash get pindex i tx st k =
     (case GetValueOut tx of
        Inl _ \<Rightarrow> None
      | Inr v \<Rightarrow>
     (case UpdateCoins Hash get tx (k_view k) (nHeight (entry pindex)) of
        None \<Rightarrow> None
      | Some (txundo, view) \<Rightarrow>
          Some (True, st,
            k\<lparr>k_view := view, k_nValueOut := wrap64 (k_nValueOut k + v),
              k_vtxundo := (if i > 0 then k_vtxundo k @ [txundo] else k_vtxundo k),
              k_vPos := k_vPos k @ [(tx_GetHash Hash tx, GetBlockPos pindex, k_nTxOffset k)],
              k_nTxOffset := k_nTxOffset k + of_nat (size_tx tx)\<rparr>)))"

lemma connect_tx_steps:
  "connect_tx Hash get best E pindex sc fl p2sh i tx =
     then_step (count_sigops tx) (then_step (connect_inputs Hash get best E sc fl p2sh tx) (spend_and_record Hash get pindex i tx))"
  by (rule ext)+
    (simp add: connect_tx_def then_step_def count_sigops_def spend_and_record_def Let_def DoS_def cong: option.case_cong
      split: option.split bool.split)

lemma connect_tx_follow:
  "threads_follow (xe_sig E) (connect_tx Hash get best (E\<lparr>xe_threads := True\<rparr>) pindex sc fl p2sh i tx)
     (connect_tx Hash get best (E\<lparr>xe_threads := False\<rparr>) pindex sc fl p2sh i tx)"
proof -
  have "threads_follow (xe_sig E) (count_sigops tx) (count_sigops tx)"
    by (rule follow_plain) (auto simp: count_sigops_def Let_def DoS_def split: if_splits)
  moreover have "threads_follow (xe_sig E) (spend_and_record Hash get pindex i tx) (spend_and_record Hash get pindex i tx)"
    by (rule follow_plain) (auto simp: spend_and_record_def split: option.splits sum.splits)
  ultimately show ?thesis unfolding connect_tx_steps by (intro follow_then connect_inputs_follow)
qed

lemma connect_txs_follow:
  "threads_follow (xe_sig E) (connect_txs Hash get best (E\<lparr>xe_threads := True\<rparr>) pindex sc fl p2sh i txs)
     (connect_txs Hash get best (E\<lparr>xe_threads := False\<rparr>) pindex sc fl p2sh i txs)"
proof (induction txs arbitrary: i)
  case Nil
  have "connect_txs Hash get best E' pindex sc fl p2sh i [] = (\<lambda>st k. Some (True, st, k))" for E'
    by (rule ext)+ simp
  then show ?case by (simp only:) (rule follow_plain, auto)
next
  case (Cons tx txs)
  have "connect_txs Hash get best E' pindex sc fl p2sh i (tx # txs) =
      then_step (connect_tx Hash get best E' pindex sc fl p2sh i tx) (connect_txs Hash get best E' pindex sc fl p2sh (i + 1) txs)" for E'
    by (rule ext)+ (simp add: then_step_def del: One_nat_def)
  then show ?case by (simp only: follow_then connect_tx_follow Cons.IH)
qed

subsection \<open>The block\<close>

lemma finish_connect_queue:
  "finish_connect (E\<lparr>xe_threads := b\<rparr>) block just pindex st k = Some (True, st', out) \<longleftrightarrow>
     all_pass (xe_sig E) (k_control k) \<and> finish_connect E block just pindex st (k\<lparr>k_control := []\<rparr>) = Some (True, st', out)"
proof -
  have w: "write_undo (E\<lparr>xe_threads := b\<rparr>) = write_undo E" "recipient_refused (E\<lparr>xe_threads := b\<rparr>) = recipient_refused E"
    by ((rule ext)+, simp add: write_undo_def recipient_refused_def Let_def cong: option.case_cong if_cong)+
  have n: "wait_checks (xe_sig E) [] = Some True" by (simp add: wait_checks_True)
  show ?thesis
  proof (cases "all_pass (xe_sig E) (k_control k)")
    case True
    then have "wait_checks (xe_sig E) (k_control k) = Some True" by (simp add: wait_checks_True)
    then show ?thesis using True by (simp add: finish_connect_def Let_def w n cong: if_cong option.case_cong bool.case_cong prod.case_cong)
  next
    case False
    then have "wait_checks (xe_sig E) (k_control k) \<noteq> Some True" by (simp add: wait_checks_True)
    then show ?thesis using False
      by (auto simp: finish_connect_def Let_def w refused split: option.splits bool.splits if_splits)
  qed
qed

definition connect_rest where
  "connect_rest Hash get best E block just pindex sc fl p2sh txs st k out =
     (case connect_txs Hash get best E pindex sc fl p2sh 0 txs st k of
        None \<Rightarrow> None
      | Some (False, state, k) \<Rightarrow> Some (False, state, out (k_view k))
      | Some (True, state, k) \<Rightarrow> finish_connect E block just pindex state k)"

lemma connect_rest_threads:
  assumes "k_control k = []"
  shows "connect_rest Hash get best (E\<lparr>xe_threads := True\<rparr>) block just pindex sc fl p2sh txs st k f = Some (True, st', out) \<longleftrightarrow>
    connect_rest Hash get best (E\<lparr>xe_threads := False\<rparr>) block just pindex sc fl p2sh txs st k f = Some (True, st', out)"
proof -
  let ?t = "connect_txs Hash get best (E\<lparr>xe_threads := True\<rparr>) pindex sc fl p2sh 0 txs"
    and ?s = "connect_txs Hash get best (E\<lparr>xe_threads := False\<rparr>) pindex sc fl p2sh 0 txs"
  have F: "threads_follow (xe_sig E) ?t ?s" by (rule connect_txs_follow)
  have k: "k\<lparr>k_control := []\<rparr> = k" using assms by (cases k) simp
  have rest: "connect_rest Hash get best E' block just pindex sc fl p2sh txs st k f = Some (True, st', out) \<longleftrightarrow>
      (\<exists>st1 k1. connect_txs Hash get best E' pindex sc fl p2sh 0 txs st k = Some (True, st1, k1) \<and>
        finish_connect E' block just pindex st1 k1 = Some (True, st', out))" for E'
    by (auto simp: connect_rest_def split: option.split bool.split)
  show ?thesis unfolding rest
  proof (intro iffI; elim exE conjE)
    fix st1 k1
    assume 1: "?t st k = Some (True, st1, k1)" and f: "finish_connect (E\<lparr>xe_threads := True\<rparr>) block just pindex st1 k1 = Some (True, st', out)"
    have "?t st (k\<lparr>k_control := []\<rparr>) = Some (True, st1, k1) \<longrightarrow>
        (\<exists>cs. k_control k1 = [] @ cs \<and> (all_pass (xe_sig E) cs \<longrightarrow> ?s st k = Some (True, st1, k1\<lparr>k_control := k_control k\<rparr>)))"
      using F unfolding threads_follow_def by (elim conjE allE)
    then show "\<exists>st1 k1. ?s st k = Some (True, st1, k1) \<and> finish_connect (E\<lparr>xe_threads := False\<rparr>) block just pindex st1 k1 = Some (True, st', out)"
      using 1 f k assms by (auto simp: finish_connect_queue)
  next
    fix st1 k1
    assume 1: "?s st k = Some (True, st1, k1)" and f: "finish_connect (E\<lparr>xe_threads := False\<rparr>) block just pindex st1 k1 = Some (True, st', out)"
    have "?s st k = Some (True, st1, k1) \<longrightarrow> k_control k1 = k_control k \<and>
        (\<exists>cs. all_pass (xe_sig E) cs \<and> ?t st (k\<lparr>k_control := []\<rparr>) = Some (True, st1, k1\<lparr>k_control := [] @ cs\<rparr>))"
      using F unfolding threads_follow_def by (elim conjE allE)
    then show "\<exists>st1 k1. ?t st k = Some (True, st1, k1) \<and> finish_connect (E\<lparr>xe_threads := True\<rparr>) block just pindex st1 k1 = Some (True, st', out)"
      using 1 f k assms by (auto simp: finish_connect_queue)
  qed
qed

text \<open>Two computations that agree on a result in every case agree on it.\<close>

lemma same_result_cases:
  "(\<And>y. f y = r \<longleftrightarrow> g y = r) \<Longrightarrow> (case x of None \<Rightarrow> n | Some y \<Rightarrow> f y) = r \<longleftrightarrow> (case x of None \<Rightarrow> n | Some y \<Rightarrow> g y) = r"
  "(\<And>a b. h a b = r \<longleftrightarrow> k a b = r) \<Longrightarrow> (case p of (a, b) \<Rightarrow> h a b) = r \<longleftrightarrow> (case p of (a, b) \<Rightarrow> k a b) = r"
  "(t = r \<longleftrightarrow> t' = r) \<Longrightarrow> (e = r \<longleftrightarrow> e' = r) \<Longrightarrow> (case c of True \<Rightarrow> t | False \<Rightarrow> e) = r \<longleftrightarrow> (case c of True \<Rightarrow> t' | False \<Rightarrow> e') = r"
  "(t = r \<longleftrightarrow> t' = r) \<Longrightarrow> (e = r \<longleftrightarrow> e' = r) \<Longrightarrow> (if c then t else e) = r \<longleftrightarrow> (if c then t' else e') = r"
  by (simp_all split: option.split prod.split bool.split)

lemma ConnectBlock_threads:
  "ConnectBlock Quark Hash get best (E\<lparr>xe_threads := True\<rparr>) mns block st pindex view just = Some (True, st', out) \<longleftrightarrow>
   ConnectBlock Quark Hash get best (E\<lparr>xe_threads := False\<rparr>) mns block st pindex view just = Some (True, st', out)"
  unfolding ConnectBlock_def Let_def connect_rest_def [symmetric]
  unfolding truncate_threads threads_fields by (intro same_result_cases refl connect_rest_threads; simp)

end
