(* ===== verification/Check_Queue.thy ===== *)
theory Check_Queue
  imports Prelude
begin

text \<open>
  The queue of checks that worker threads share (\<^verbatim>\<open>checkqueue.h\<close>). The state is that of the object and
  where each thread stands in \<^verbatim>\<open>Loop\<close>; a critical section under the mutex is one step, and so is the
  evaluation of one check outside of it. Thread 0 is the master.
\<close>

subsection \<open>The state\<close>

text \<open>
  \<open>At_Lock nNow fOk\<close> is about to take the mutex at the top of the loop, \<open>Asleep b\<close> waits on its
  condition variable and was notified if \<open>b\<close>, \<open>Working\<close> has a batch, of which the list is left.
\<close>

datatype 'c cq_thread = Outside | At_Lock u32 bool | Asleep bool | Working "'c list" bool u32

record 'c CCheckQueue =
  cq_queue :: "'c list"
  cq_nIdle :: int
  cq_nTotal :: int
  cq_fAllOk :: bool
  cq_nTodo :: u32
  cq_fQuit :: bool
  cq_nBatchSize :: u32
  cq_threads :: "'c cq_thread list"
  cq_returned :: "bool option"

definition CCheckQueue_new :: "nat \<Rightarrow> u32 \<Rightarrow> 'c CCheckQueue" where
  "CCheckQueue_new threads nBatchSizeIn =
     \<lparr>cq_queue = [], cq_nIdle = 0, cq_nTotal = 0, cq_fAllOk = True, cq_nTodo = 0, cq_fQuit = False,
      cq_nBatchSize = nBatchSizeIn, cq_threads = replicate threads Outside, cq_returned = None\<rparr>"

definition cq_set :: "nat \<Rightarrow> 'c cq_thread \<Rightarrow> 'c CCheckQueue \<Rightarrow> 'c CCheckQueue" where
  "cq_set i t s = s\<lparr>cq_threads := (cq_threads s)[i := t]\<rparr>"

definition cq_notify :: "nat \<Rightarrow> 'c CCheckQueue \<Rightarrow> 'c CCheckQueue" where
  "cq_notify i s = (if i < length (cq_threads s) \<and> cq_threads s ! i = Asleep False then cq_set i (Asleep True) s else s)"

subsection \<open>The loop\<close>

text \<open>The clean-up of the previous round, or the count of a new thread.\<close>

definition cq_settle :: "nat \<Rightarrow> u32 \<Rightarrow> bool \<Rightarrow> 'c CCheckQueue \<Rightarrow> 'c CCheckQueue" where
  "cq_settle i nNow fOk s =
     (if nNow \<noteq> 0 then
        let s = s\<lparr>cq_fAllOk := cq_fAllOk s \<and> fOk, cq_nTodo := cq_nTodo s - nNow\<rparr>
        in if cq_nTodo s = 0 \<and> i \<noteq> 0 then cq_notify 0 s else s
      else s\<lparr>cq_nTotal := cq_nTotal s + 1\<rparr>)"

text \<open>The number of checks to take.\<close>

definition cq_batch :: "'c CCheckQueue \<Rightarrow> u32" where
  "cq_batch s = max 1 (min (cq_nBatchSize s) (of_nat (length (cq_queue s)) div word_of_int (cq_nTotal s + cq_nIdle s + 1)))"

text \<open>From the test of the queue to the end of the critical section: return, sleep, or take a batch.\<close>

definition cq_head :: "nat \<Rightarrow> 'c CCheckQueue \<Rightarrow> 'c CCheckQueue" where
  "cq_head i s =
     (if cq_queue s = [] then
        (if (i = 0 \<or> cq_fQuit s) \<and> cq_nTodo s = 0
         then let fRet = cq_fAllOk s;
                  s = s\<lparr>cq_nTotal := cq_nTotal s - 1\<rparr>
              in cq_set i Outside (if i = 0 then s\<lparr>cq_fAllOk := True, cq_returned := Some fRet\<rparr> else s)
         else cq_set i (Asleep False) (s\<lparr>cq_nIdle := cq_nIdle s + 1\<rparr>))
      else let nNow = cq_batch s; n = length (cq_queue s) - unat nNow
           in cq_set i (Working (rev (drop n (cq_queue s))) (cq_fAllOk s) nNow) (s\<lparr>cq_queue := take n (cq_queue s)\<rparr>))"

text \<open>
  \<^verbatim>\<open>Add\<close>: one worker is notified for one check, all for more. Which of the workers that wait on the
  condition variable \<^verbatim>\<open>notify_one\<close> picks is open: \<open>w\<close>.
\<close>

definition cq_Add :: "'c list \<Rightarrow> nat \<Rightarrow> 'c CCheckQueue \<Rightarrow> 'c CCheckQueue" where
  "cq_Add vChecks w s =
     (let s = s\<lparr>cq_queue := cq_queue s @ vChecks, cq_nTodo := cq_nTodo s + of_nat (length vChecks)\<rparr>
      in if length vChecks = 1 then (if w \<noteq> 0 then cq_notify w s else s)
         else if length vChecks > 1 then fold cq_notify [1..<length (cq_threads s)] s
         else s)"

definition cq_IsIdle :: "'c CCheckQueue \<Rightarrow> bool" where
  "cq_IsIdle s \<longleftrightarrow> cq_nTotal s = cq_nIdle s \<and> cq_nTodo s = 0 \<and> cq_fAllOk s"

text \<open>The steps inside the loop, but for a wait that returns without a notification.\<close>

inductive cq_internal :: "('c \<Rightarrow> bool) \<Rightarrow> 'c CCheckQueue \<Rightarrow> 'c CCheckQueue \<Rightarrow> bool" for check where
  locked: "i < length (cq_threads s) \<Longrightarrow> cq_threads s ! i = At_Lock nNow fOk \<Longrightarrow>
    cq_internal check s (cq_head i (cq_settle i nNow fOk s))"
| woken: "i < length (cq_threads s) \<Longrightarrow> cq_threads s ! i = Asleep True \<Longrightarrow>
    cq_internal check s (cq_head i (s\<lparr>cq_nIdle := cq_nIdle s - 1\<rparr>))"
| checked: "i < length (cq_threads s) \<Longrightarrow> cq_threads s ! i = Working (c # cs) fOk nNow \<Longrightarrow>
    cq_internal check s (cq_set i (Working cs (if fOk then check c else fOk) nNow) s)"
| cleared: "i < length (cq_threads s) \<Longrightarrow> cq_threads s ! i = Working [] fOk nNow \<Longrightarrow>
    cq_internal check s (cq_set i (At_Lock nNow fOk) s)"

text \<open>All steps: the master also adds and waits, workers start, and a wait may return for no reason.\<close>

inductive cq_step :: "('c \<Rightarrow> bool) \<Rightarrow> 'c CCheckQueue \<Rightarrow> 'c CCheckQueue \<Rightarrow> bool" for check where
  internal: "cq_internal check s s' \<Longrightarrow> cq_step check s s'"
| spurious: "i < length (cq_threads s) \<Longrightarrow> cq_threads s ! i = Asleep False \<Longrightarrow>
    cq_step check s (cq_head i (s\<lparr>cq_nIdle := cq_nIdle s - 1\<rparr>))"
| enter: "i < length (cq_threads s) \<Longrightarrow> cq_threads s ! i = Outside \<Longrightarrow> cq_step check s (cq_set i (At_Lock 0 True) s)"

text \<open>
  The states that can be reached, with the checks that were added since the master last returned.
  Only the master adds, and not while it waits; fewer than \<open>2 ^ 32\<close> checks, so that the count of a
  32-bit integer does not wrap (the scripts of a block of a million bytes stay far below).
\<close>

inductive cq_run :: "('c \<Rightarrow> bool) \<Rightarrow> 'c list \<Rightarrow> 'c CCheckQueue \<Rightarrow> bool" for check where
  new: "0 < threads \<Longrightarrow> cq_run check [] (CCheckQueue_new threads nBatchSizeIn)"
| add: "cq_run check added s \<Longrightarrow> cq_threads s ! 0 = Outside \<Longrightarrow> length (added @ vChecks) < 2 ^ 32 \<Longrightarrow>
    cq_run check (added @ vChecks) (cq_Add vChecks w s)"
| step: "cq_run check added s \<Longrightarrow> cq_step check s s' \<Longrightarrow>
    cq_run check (if cq_threads s ! 0 \<noteq> Outside \<and> cq_threads s' ! 0 = Outside then [] else added) s'"

subsection \<open>What the threads hold\<close>

fun held :: "'c cq_thread \<Rightarrow> nat" where
  "held (At_Lock n ok) = unat n"
| "held (Working cs ok n) = unat n"
| "held _ = 0"

fun passes :: "('c \<Rightarrow> bool) \<Rightarrow> 'c cq_thread \<Rightarrow> bool" where
  "passes check (At_Lock n ok) = ok"
| "passes check (Working cs ok n) = (ok \<and> list_all check cs)"
| "passes check _ = True"

fun looping :: "'c cq_thread \<Rightarrow> int" where
  "looping Outside = 0"
| "looping (At_Lock n ok) = (if n = 0 then 0 else 1)"
| "looping _ = 1"

fun asleep :: "'c cq_thread \<Rightarrow> int" where
  "asleep (Asleep b) = 1"
| "asleep _ = 0"

fun well_placed :: "'c cq_thread \<Rightarrow> bool" where
  "well_placed (At_Lock n ok) \<longleftrightarrow> (n = 0 \<longrightarrow> ok)"
| "well_placed (Working cs ok n) \<longleftrightarrow> n \<noteq> 0"
| "well_placed _ = True"

definition over :: "('t \<Rightarrow> 'a :: comm_monoid_add) \<Rightarrow> 't list \<Rightarrow> 'a" where
  "over f ts = sum_list (map f ts)"

lemma over_update: "i < length ts \<Longrightarrow> over f (ts[i := t]) + f (ts ! i) = over f ts + (f t :: 'a :: comm_monoid_add)"
  by (induction ts arbitrary: i) (auto simp: over_def ac_simps split: nat.split)

lemma over_simps [simp]: "over f [] = 0" "over f (t # ts) = f t + over f ts"
  by (simp_all add: over_def)

lemma over_int: "i < length ts \<Longrightarrow> over f (ts[i := t]) = over f ts - f (ts ! i) + (f t :: int)"
  using over_update [of i ts f t] by simp

lemma over_ge: "i < length ts \<Longrightarrow> f (ts ! i) \<le> over f ts" for f :: "'a \<Rightarrow> nat"
proof (induction ts arbitrary: i)
  case (Cons t ts)
  then show ?case by (cases i) (auto intro: trans_le_add2)
qed simp

lemma over_nat: "i < length ts \<Longrightarrow> f (ts ! i) \<le> over f ts \<and> over f (ts[i := t]) = over f ts - f (ts ! i) + (f t :: nat)"
  using over_ge [of i ts f] over_update [of i ts f t] by linarith

lemma over_zero: "over f ts = (0 :: nat) \<longleftrightarrow> (\<forall>t \<in> set ts. f t = 0)"
  by (induction ts) auto

lemma list_all_nth: "list_all P ts \<longleftrightarrow> (\<forall>i < length ts. P (ts ! i))"
  by (simp add: list_all_length)

lemma list_all_update: "i < length ts \<Longrightarrow> list_all P (ts[i := t]) \<longleftrightarrow> P t \<and> (\<forall>j < length ts. j \<noteq> i \<longrightarrow> P (ts ! j))"
  by (auto simp: list_all_nth nth_list_update)

lemma list_all_split: "i < length ts \<Longrightarrow> list_all P ts \<longleftrightarrow> P (ts ! i) \<and> (\<forall>j < length ts. j \<noteq> i \<longrightarrow> P (ts ! j))"
  by (auto simp: list_all_nth)

subsection \<open>The invariant\<close>

definition cq_core :: "('c \<Rightarrow> bool) \<Rightarrow> 'c list \<Rightarrow> 'c CCheckQueue \<Rightarrow> bool" where
  "cq_core check added s \<longleftrightarrow>
     cq_threads s \<noteq> [] \<and> \<not> cq_fQuit s \<and> list_all well_placed (cq_threads s) \<and> length added < 2 ^ 32 \<and>
     length (cq_queue s) + over held (cq_threads s) \<le> length added \<and>
     cq_nTodo s = of_nat (length (cq_queue s) + over held (cq_threads s)) \<and>
     cq_nTotal s = over looping (cq_threads s) \<and> cq_nIdle s = over asleep (cq_threads s) \<and>
     (list_all check added \<longleftrightarrow> cq_fAllOk s \<and> list_all check (cq_queue s) \<and> list_all (passes check) (cq_threads s))"

definition cq_inv :: "('c \<Rightarrow> bool) \<Rightarrow> 'c list \<Rightarrow> 'c CCheckQueue \<Rightarrow> bool" where
  "cq_inv check added s \<longleftrightarrow> cq_core check added s \<and> (cq_threads s ! 0 = Asleep False \<longrightarrow> cq_queue s = [] \<and> cq_nTodo s \<noteq> 0)"

lemma core_set:
  assumes "cq_core check added s" "i < length (cq_threads s)" "well_placed t" "held t = held (cq_threads s ! i)"
    "looping t = looping (cq_threads s ! i)" "asleep t = asleep (cq_threads s ! i)"
    "passes check t \<longleftrightarrow> passes check (cq_threads s ! i)"
  shows "cq_core check added (cq_set i t s)"
  using assms over_nat [OF assms(2), of held t]
  by (auto simp: cq_core_def cq_set_def over_int list_all_update list_all_split [OF assms(2)])

lemma core_notify: "cq_core check added s \<Longrightarrow> cq_core check added (cq_notify i s)"
  by (auto simp: cq_notify_def intro!: core_set)

lemma notify_simps [simp]: "cq_queue (cq_notify i s) = cq_queue s" "cq_nTodo (cq_notify i s) = cq_nTodo s"
  "length (cq_threads (cq_notify i s)) = length (cq_threads s)" "cq_fAllOk (cq_notify i s) = cq_fAllOk s"
  "cq_nTotal (cq_notify i s) = cq_nTotal s" "cq_nIdle (cq_notify i s) = cq_nIdle s" "cq_fQuit (cq_notify i s) = cq_fQuit s"
  "cq_nBatchSize (cq_notify i s) = cq_nBatchSize s" "cq_returned (cq_notify i s) = cq_returned s"
  by (simp_all add: cq_notify_def cq_set_def)

lemma notify_other: "j \<noteq> i \<Longrightarrow> cq_threads (cq_notify i s) ! j = cq_threads s ! j"
  by (simp add: cq_notify_def cq_set_def)

lemma notify_self: "i < length (cq_threads s) \<Longrightarrow> cq_threads (cq_notify i s) ! i \<noteq> Asleep False"
  by (simp add: cq_notify_def cq_set_def)

lemma inv_notify: "cq_inv check added s \<Longrightarrow> cq_inv check added (cq_notify i s)"
  by (cases "i = 0") (auto simp: cq_inv_def core_notify notify_other, (auto simp: cq_notify_def cq_set_def split: if_splits)+)

lemma inv_notify_all: "cq_inv check added s \<Longrightarrow> cq_inv check added (fold cq_notify is s)"
  by (induction "is" arbitrary: s) (auto intro: inv_notify)

lemma inv_todo: "cq_core check added s \<Longrightarrow> cq_nTodo s = 0 \<longleftrightarrow> cq_queue s = [] \<and> over held (cq_threads s) = 0"
proof -
  assume c: "cq_core check added s"
  let ?m = "length (cq_queue s) + over held (cq_threads s)"
  have "?m < 2 ^ LENGTH(32)" "cq_nTodo s = of_nat ?m" using c by (simp_all add: cq_core_def)
  then have "unat (cq_nTodo s) = ?m" by (simp only: unsigned_of_nat take_bit_nat_eq_self of_nat_id)
  then have "cq_nTodo s = 0 \<longleftrightarrow> ?m = 0" by (metis unat_eq_zero)
  then show ?thesis by simp
qed

lemma inv_add:
  assumes "cq_inv check added s" "cq_threads s ! 0 = Outside" "length (added @ vChecks) < 2 ^ 32"
  shows "cq_inv check (added @ vChecks) (cq_Add vChecks w s)"
proof -
  let ?s = "s\<lparr>cq_queue := cq_queue s @ vChecks, cq_nTodo := cq_nTodo s + of_nat (length vChecks)\<rparr>"
  have "cq_inv check (added @ vChecks) ?s"
    using assms by (auto simp: cq_inv_def cq_core_def)
  then show ?thesis by (auto simp: cq_Add_def Let_def intro!: inv_notify inv_notify_all)
qed

subsection \<open>The critical section keeps it\<close>

text \<open>A thread in the critical section counts as one that was just woken.\<close>

definition cq_awake :: "nat \<Rightarrow> 'c CCheckQueue \<Rightarrow> 'c CCheckQueue" where
  "cq_awake i s = cq_set i (Asleep True) (s\<lparr>cq_nIdle := cq_nIdle s + 1\<rparr>)"

lemma head_awake: "cq_head i ((cq_awake i s)\<lparr>cq_nIdle := cq_nIdle (cq_awake i s) - 1\<rparr>) = cq_head i s"
  by (simp add: cq_head_def cq_awake_def cq_set_def cq_batch_def Let_def)

lemma core_awake:
  assumes c: "cq_core check added s" and i: "i < length (cq_threads s)" "cq_threads s ! i = At_Lock n ok"
  shows "cq_core check added (cq_awake i (cq_settle i n ok s))"
proof -
  let ?ts = "cq_threads s" and ?q = "length (cq_queue s)"
  note h = over_nat [OF i(1), of held "Asleep True", unfolded i(2)]
  have w: "well_placed (At_Lock n ok)" using c i nth_mem [OF i(1)] by (auto simp: cq_core_def list_all_iff)
  have todo: "cq_nTodo s - n = of_nat (?q + over held (?ts[i := Asleep True]))"
  proof -
    have "cq_nTodo s = of_nat (?q + over held (?ts[i := Asleep True]) + unat n)" using c h by (simp add: cq_core_def)
    then show ?thesis by simp
  qed
  let ?s = "s\<lparr>cq_fAllOk := cq_fAllOk s \<and> ok, cq_nTodo := cq_nTodo s - n, cq_nTotal := cq_nTotal s + (if n = 0 then 1 else 0)\<rparr>"
  have a: "cq_core check added (cq_awake i ?s)"
    using c h w i todo unfolding cq_core_def cq_awake_def cq_set_def
    by (auto simp: over_int list_all_update list_all_split [OF i(1)])
  have n0: "n = 0 \<Longrightarrow> cq_settle i n ok s = ?s" using w by (simp add: cq_settle_def)
  have "cq_settle i n ok s = ?s \<or> cq_settle i n ok s = cq_notify 0 ?s \<and> i \<noteq> 0" if "n \<noteq> 0"
    using that by (simp add: cq_settle_def Let_def)
  moreover have "cq_awake i (cq_notify 0 ?s) = cq_notify 0 (cq_awake i ?s)" if "i \<noteq> 0"
    using that by (auto simp: cq_awake_def cq_notify_def cq_set_def list_update_swap)
  ultimately show ?thesis using a n0 core_notify [OF a, of 0] by (cases "n = 0") auto
qed

lemma inv_awake:
  assumes c: "cq_inv check added s" and i: "i < length (cq_threads s)" "cq_threads s ! i = At_Lock n ok"
  shows "cq_inv check added (cq_awake i (cq_settle i n ok s))"
proof -
  have ne: "cq_threads s \<noteq> []" using i(1) by auto
  show ?thesis
  using core_awake [OF conjunct1 [OF c [unfolded cq_inv_def]] i] c i ne notify_self [of 0 "s\<lparr>cq_fAllOk := cq_fAllOk s \<and> ok, cq_nTodo := cq_nTodo s - n\<rparr>"]
  by (auto simp: cq_inv_def cq_awake_def cq_set_def cq_settle_def Let_def nth_list_update split: if_splits)
qed

lemma batch_bounds:
  assumes "cq_queue s \<noteq> []" "length (cq_queue s) < 2 ^ 32"
  shows "0 < unat (cq_batch s)" "unat (cq_batch s) \<le> length (cq_queue s)" "cq_batch s \<noteq> 0"
proof -
  let ?d = "(of_nat (length (cq_queue s)) :: u32) div word_of_int (cq_nTotal s + cq_nIdle s + 1)"
  have l: "unat (of_nat (length (cq_queue s)) :: u32) = length (cq_queue s)"
    using assms(2) by (simp add: unsigned_of_nat take_bit_nat_eq_self)
  have "unat ?d \<le> length (cq_queue s)" using l by (simp add: unat_div div_le_dividend)
  moreover have "1 \<le> length (cq_queue s)" using assms(1) by (cases "cq_queue s") auto
  ultimately show b: "unat (cq_batch s) \<le> length (cq_queue s)"
    by (auto simp: cq_batch_def max_def min_def word_le_nat_alt)
  have "(1 :: u32) \<le> cq_batch s" by (simp add: cq_batch_def)
  then show "0 < unat (cq_batch s)" by (simp add: word_le_nat_alt)
  then show "cq_batch s \<noteq> 0" by auto
qed

definition after_head :: "'c list \<Rightarrow> nat \<Rightarrow> 'c CCheckQueue \<Rightarrow> 'c list" where
  "after_head added i s = (if i = 0 \<and> cq_threads s ! 0 = Outside then [] else added)"

lemma inv_head:
  assumes c: "cq_inv check added s" and i: "i < length (cq_threads s)" "cq_threads s ! i = Asleep b"
  defines "t \<equiv> cq_head i (s\<lparr>cq_nIdle := cq_nIdle s - 1\<rparr>)"
  shows "cq_inv check (after_head added i t) t"
    "i = 0 \<and> cq_threads t ! 0 = Outside \<Longrightarrow> cq_returned t = Some (list_all check added)"
proof -
  note core = c [unfolded cq_inv_def, THEN conjunct1]
  note C = core [unfolded cq_core_def]
  note z = inv_todo [OF core]
  let ?ts = "cq_threads s" and ?s = "s\<lparr>cq_nIdle := cq_nIdle s - 1\<rparr>"
  have ne: "0 < length ?ts" using i(1) by auto
  have h: "held (?ts ! i) = 0" "looping (?ts ! i) = 1" "asleep (?ts ! i) = 1" "passes check (?ts ! i)" by (simp_all add: i(2))
  have hn: "over held (?ts[i := x]) = over held ?ts + held x" for x using over_nat [OF i(1), of held x] h by simp
  have oi: "over looping (?ts[i := x]) = over looping ?ts - 1 + looping x" "over asleep (?ts[i := x]) = over asleep ?ts - 1 + asleep x" for x
    using over_int [OF i(1)] h by auto
  have all: "list_all (passes check) (?ts[i := x]) \<longleftrightarrow> passes check x \<and> list_all (passes check) ?ts" for x
    using list_all_update [OF i(1)] list_all_split [OF i(1)] h(4) by metis
  have well: "list_all well_placed (?ts[i := x]) \<longleftrightarrow> well_placed x" for x
    using C list_all_update [OF i(1)] list_all_split [OF i(1)] by metis
  have idle: "cq_inv check (after_head added i t) t \<and>
      (i = 0 \<and> cq_threads t ! 0 = Outside \<longrightarrow> cq_returned t = Some (list_all check added))"
  proof (cases "cq_queue s = []")
    case q: True
    show ?thesis
    proof (cases "i = 0 \<and> cq_nTodo s = 0")
      case True
      then have t: "t = cq_set 0 Outside (s\<lparr>cq_nIdle := cq_nIdle s - 1, cq_nTotal := cq_nTotal s - 1, cq_fAllOk := True,
          cq_returned := Some (cq_fAllOk s)\<rparr>)"
        using q by (simp add: t_def cq_head_def Let_def)
      have "list_all (passes check) ?ts"
      proof -
        have "\<forall>x \<in> set ?ts. held x = 0" using z True over_zero [of held ?ts] by auto
        moreover have "\<forall>x \<in> set ?ts. well_placed x" using C by (simp add: list_all_iff)
        moreover have "held x = 0 \<Longrightarrow> well_placed x \<Longrightarrow> passes check x" for x by (cases x) (auto simp: unat_eq_zero)
        ultimately show ?thesis by (auto simp: list_all_iff)
      qed
      then show ?thesis using C True z q ne hn [of Outside] oi [of Outside] all [of Outside] well [of Outside]
        by (simp add: t after_head_def cq_inv_def cq_core_def cq_set_def)
    next
      case False
      moreover have "\<not> cq_fQuit s" using C by blast
      ultimately have t: "t = cq_set i (Asleep False) s" using q by (auto simp: t_def cq_head_def Let_def cq_set_def)
      have "cq_threads t ! 0 = Asleep False \<longrightarrow> cq_nTodo t \<noteq> 0"
        using c False i by (auto simp: t cq_set_def nth_list_update cq_inv_def split: if_splits)
      then show ?thesis using core_set [OF core i(1), of "Asleep False"] q h ne
        by (auto simp: cq_inv_def after_head_def, simp_all add: t cq_set_def split: if_splits)
    qed
  next
    case False
    have l: "length (cq_queue s) < 2 ^ 32" using C by linarith
    define n where "n = cq_batch ?s"
    note b = batch_bounds [of ?s, simplified, OF False, folded n_def]
    have b: "0 < unat n" "unat n \<le> length (cq_queue s)" "n \<noteq> 0" using b l by auto
    let ?m = "length (cq_queue s) - unat n"
    let ?w = "Working (rev (drop ?m (cq_queue s))) (cq_fAllOk s) n"
    have t: "t = cq_set i ?w (s\<lparr>cq_nIdle := cq_nIdle s - 1, cq_queue := take ?m (cq_queue s)\<rparr>)"
      using False by (simp add: t_def cq_head_def Let_def n_def)
    have q: "list_all check (cq_queue s) \<longleftrightarrow> list_all check (take ?m (cq_queue s)) \<and> list_all check (drop ?m (cq_queue s))"
      by (metis append_take_drop_id list_all_append)
    have "cq_core check added t"
      using C b hn [of ?w] oi [of ?w] all [of ?w] well [of ?w] q i
      by (auto simp: t cq_core_def cq_set_def list_all_rev)
    moreover have "cq_threads t ! 0 = Asleep False \<longrightarrow> cq_queue s = []" "cq_threads t ! 0 = Outside \<longrightarrow> i \<noteq> 0"
      using c i by (auto simp: t cq_set_def nth_list_update cq_inv_def split: if_splits)
    ultimately show ?thesis using False by (auto simp: cq_inv_def after_head_def)
  qed
  show "cq_inv check (after_head added i t) t" using idle by blast
  show "i = 0 \<and> cq_threads t ! 0 = Outside \<Longrightarrow> cq_returned t = Some (list_all check added)" using idle by blast
qed

lemma awake_thread [simp]: "i < length (cq_threads s) \<Longrightarrow> cq_threads (cq_awake i s) ! i = Asleep True"
  "length (cq_threads (cq_awake i s)) = length (cq_threads s)"
  by (simp_all add: cq_awake_def cq_set_def)

lemma settle_length [simp]: "length (cq_threads (cq_settle i n ok s)) = length (cq_threads s)"
  by (simp add: cq_settle_def Let_def)

lemma head_length [simp]: "length (cq_threads (cq_head i s)) = length (cq_threads s)"
  by (simp add: cq_head_def Let_def cq_set_def)

lemma head_other: "j \<noteq> i \<Longrightarrow> cq_threads (cq_head i s) ! j = cq_threads s ! j"
  by (simp add: cq_head_def Let_def cq_set_def)

lemma settle_other: "j \<noteq> i \<Longrightarrow> cq_threads (cq_settle i n ok s) ! j = Outside \<longleftrightarrow> cq_threads s ! j = Outside"
  by (cases "j = 0") (auto simp: cq_settle_def Let_def cq_notify_def cq_set_def)

text \<open>A step either is the end of a wait of the master, with the result of all checks, or keeps the checks.\<close>

lemma inv_step:
  assumes c: "cq_inv check added s" and st: "cq_step check s s'"
  defines "r \<equiv> cq_threads s ! 0 \<noteq> Outside \<and> cq_threads s' ! 0 = Outside"
  shows "cq_inv check (if r then [] else added) s' \<and> (r \<longrightarrow> cq_returned s' = Some (list_all check added))"
  using st
proof cases
  case internal
  then show ?thesis
  proof cases
    case (locked i n ok)
    let ?s = "cq_awake i (cq_settle i n ok s)"
    have i: "i < length (cq_threads ?s)" "cq_threads ?s ! i = Asleep True" using locked by simp_all
    have s': "s' = cq_head i (?s\<lparr>cq_nIdle := cq_nIdle ?s - 1\<rparr>)" using locked(1) head_awake by metis
    have "r \<longleftrightarrow> i = 0 \<and> cq_threads s' ! 0 = Outside"
      using locked by (cases "i = 0") (auto simp: r_def head_other settle_other)
    then show ?thesis using inv_head [OF inv_awake [OF c locked(2,3)] i] unfolding s' [symmetric] after_head_def by auto
  next
    case (woken i)
    then have "r \<longleftrightarrow> i = 0 \<and> cq_threads s' ! 0 = Outside" by (cases "i = 0") (auto simp: r_def head_other)
    then show ?thesis using inv_head [OF c woken(2,3)] unfolding woken(1) after_head_def by auto
  next
    case (checked i c1 cs ok n)
    then have "\<not> r" by (auto simp: r_def cq_set_def nth_list_update)
    moreover have "well_placed (cq_threads s ! i)" using c checked by (auto simp: cq_inv_def cq_core_def list_all_length)
    ultimately show ?thesis using core_set [of check added s i "Working cs (if ok then check c1 else ok) n"] c checked
      by (auto simp: cq_inv_def, auto simp: cq_set_def nth_list_update split: if_splits)
  next
    case (cleared i ok n)
    then have "\<not> r" by (auto simp: r_def cq_set_def nth_list_update)
    moreover have "n \<noteq> 0" using c cleared nth_mem [of i "cq_threads s"] by (auto simp: cq_inv_def cq_core_def list_all_iff)
    ultimately show ?thesis using core_set [of check added s i "At_Lock n ok"] c cleared
      by (auto simp: cq_inv_def, auto simp: cq_set_def nth_list_update split: if_splits)
  qed
next
  case (spurious i)
  then have "r \<longleftrightarrow> i = 0 \<and> cq_threads s' ! 0 = Outside" by (cases "i = 0") (auto simp: r_def head_other)
  then show ?thesis using inv_head [OF c spurious(2,3)] unfolding spurious(1) after_head_def by auto
next
  case (enter i)
  then have "\<not> r" by (cases "i = 0") (auto simp: r_def cq_set_def)
  then show ?thesis using core_set [of check added s i "At_Lock 0 True"] c enter
    by (auto simp: cq_inv_def, auto simp: cq_set_def nth_list_update split: if_splits)
qed

lemma over_outside: "f Outside = 0 \<Longrightarrow> over f (replicate n Outside) = 0"
  by (induction n) auto

lemma inv_new: "0 < threads \<Longrightarrow> cq_inv check [] (CCheckQueue_new threads b)"
  by (auto simp: cq_inv_def cq_core_def CCheckQueue_new_def over_outside list_all_iff)

lemma run_inv: "cq_run check added s \<Longrightarrow> cq_inv check added s"
proof (induction rule: cq_run.induct)
  case (step added s s')
  then show ?case using inv_step [of check added s s'] by blast
qed (auto intro: inv_new inv_add)

subsection \<open>Every wait ends\<close>

fun effort :: "'c cq_thread \<Rightarrow> nat" where
  "effort Outside = 0"
| "effort (At_Lock n ok) = 4"
| "effort (Asleep b) = (if b then 2 else 0)"
| "effort (Working cs ok n) = 2 * length cs + 5"

definition potential :: "'c CCheckQueue \<Rightarrow> nat" where
  "potential s = 8 * length (cq_queue s) + over effort (cq_threads s)"

lemma potential_set: "i < length (cq_threads s) \<Longrightarrow> potential (cq_set i t s) + effort (cq_threads s ! i) = potential s + effort t"
  using over_update [of i "cq_threads s" effort t] by (simp add: potential_def cq_set_def)

lemma potential_notify: "potential (cq_notify i s) \<le> potential s + 2"
  using potential_set [of i s "Asleep True"] by (auto simp: cq_notify_def)

lemma potential_head:
  assumes i: "i < length (cq_threads s)" and q: "length (cq_queue s) < 2 ^ 32"
  shows "potential (cq_head i s) + effort (cq_threads s ! i) \<le> potential s"
proof (cases "cq_queue s = []")
  case True
  show ?thesis using True over_update [OF i, of effort Outside] over_update [OF i, of effort "Asleep False"]
    by (auto simp: cq_head_def Let_def potential_def cq_set_def)
next
  case False
  note b = batch_bounds [OF False q]
  let ?m = "length (cq_queue s) - unat (cq_batch s)"
  have "2 * unat (cq_batch s) + 5 + 8 * ?m \<le> 8 * length (cq_queue s)" using b by linarith
  then show ?thesis
    using False b over_update [OF i, of effort "Working (rev (drop ?m (cq_queue s))) (cq_fAllOk s) (cq_batch s)"]
    by (simp add: cq_head_def Let_def potential_def cq_set_def)
qed

lemma internal_decreases:
  assumes c: "cq_inv check added s" and st: "cq_internal check s s'"
  shows "potential s' < potential s"
proof -
  have q: "length (cq_queue s) < 2 ^ 32" using c unfolding cq_inv_def cq_core_def by linarith
  from st show ?thesis
  proof cases
    case (locked i n ok)
    have "potential (cq_settle i n ok s) \<le> potential s + 2 \<and> effort (cq_threads (cq_settle i n ok s) ! i) = 4"
      using locked potential_notify [of 0 "s\<lparr>cq_fAllOk := cq_fAllOk s \<and> ok, cq_nTodo := cq_nTodo s - n\<rparr>"]
      by (auto simp: cq_settle_def Let_def notify_other potential_def)
    then show ?thesis using potential_head [of i "cq_settle i n ok s"] locked q
      by (auto simp: cq_settle_def Let_def split: if_splits)
  next
    case (woken i)
    then show ?thesis using potential_head [of i "s\<lparr>cq_nIdle := cq_nIdle s - 1\<rparr>"] q by (auto simp: potential_def)
  next
    case (checked i c cs ok n)
    then show ?thesis using potential_set [of i s "Working cs (if ok then check c else ok) n"] by auto
  next
    case (cleared i ok n)
    then show ?thesis using potential_set [of i s "At_Lock n ok"] by auto
  qed
qed

text \<open>As long as the master waits some thread can go on.\<close>

lemma internal_enabled:
  assumes c: "cq_inv check added s" and m: "cq_threads s ! 0 \<noteq> Outside"
  shows "\<exists>s'. cq_internal check s s'"
proof (cases "cq_threads s ! 0 = Asleep False")
  case True
  then have "\<not> over held (cq_threads s) = 0" using c inv_todo [of check added s] by (auto simp: cq_inv_def)
  then obtain i where i: "i < length (cq_threads s)" "held (cq_threads s ! i) \<noteq> 0" by (auto simp: over_zero in_set_conv_nth)
  then show ?thesis
    by (cases "cq_threads s ! i" rule: held.cases) (auto intro: cq_internal.intros, metis cq_internal.checked cq_internal.cleared neq_Nil_conv)
next
  case False
  have i: "0 < length (cq_threads s)" using c by (auto simp: cq_inv_def cq_core_def)
  show ?thesis
  proof (cases "cq_threads s ! 0")
    case (Working cs ok n)
    then show ?thesis using i by (cases cs) (auto intro: cq_internal.intros)
  qed (use i False m in \<open>auto intro: cq_internal.intros\<close>)
qed

text \<open>The queue can be used again once nothing is left: the assertion of \<^verbatim>\<open>CCheckQueueControl\<close> holds.\<close>

lemma inv_idle:
  assumes "cq_inv check [] s"
  shows "cq_IsIdle s"
proof -
  have h: "over held (cq_threads s) = 0" "cq_nTodo s = 0" "cq_fAllOk s"
    and n: "cq_nTotal s = over looping (cq_threads s)" "cq_nIdle s = over asleep (cq_threads s)"
    and w: "list_all well_placed (cq_threads s)"
    using assms by (auto simp: cq_inv_def cq_core_def)
  have "looping t = asleep t" if "held t = 0" "well_placed t" for t :: "'a cq_thread"
    using that by (cases t) (auto simp: unat_eq_zero)
  then have "over looping (cq_threads s) = over asleep (cq_threads s)"
    using h(1) w unfolding over_def by (intro arg_cong [of _ _ sum_list] map_cong) (auto simp: over_zero [unfolded over_def] list_all_iff)
  then show ?thesis using h n by (simp add: cq_IsIdle_def)
qed

lemma internal_run:
  "cq_inv check added s \<Longrightarrow> (cq_internal check ^^ n) s s' \<Longrightarrow>
   (\<exists>added'. cq_inv check added' s') \<and> potential s' + n \<le> potential s"
proof (induction n arbitrary: s')
  case (Suc n)
  then obtain s1 where s1: "(cq_internal check ^^ n) s s1" "cq_internal check s1 s'" by auto
  with Suc obtain a where a: "cq_inv check a s1" "potential s1 + n \<le> potential s" by blast
  show ?case using inv_step [OF a(1) cq_step.internal [OF s1(2)]] internal_decreases [OF a(1) s1(2)] a(2) by fastforce
qed auto

end
