(* ===== verification/Mempool.thy ===== *)
theory Mempool
  imports Coins_View Double Pow
begin

text \<open>
  The memory pool (\<^verbatim>\<open>txmempool.h\<close>, \<^verbatim>\<open>txmempool.cpp\<close>): the transactions of the pool by their hash,
  the index of the outputs they spend, and the removals when a transaction is confirmed, conflicts with a
  block or spends what a reorganisation made immature. A pointer to a transaction of the pool is the key of
  its entry, so a pointer that dangles has nothing to dereference: such an access is \<open>None\<close>. The maps
  keep their keys in no particular order and are put in order where the code walks through them. The fee
  estimator is left out, but what it is told when a block arrives is part of the result.
\<close>

subsection \<open>Ordered walks\<close>

fun insert_ordered :: "('k \<Rightarrow> 'k \<Rightarrow> bool) \<Rightarrow> 'k \<times> 'v \<Rightarrow> ('k \<times> 'v) list \<Rightarrow> ('k \<times> 'v) list" where
  "insert_ordered lt x [] = [x]"
| "insert_ordered lt x (y # ys) = (if lt (fst y) (fst x) then y # insert_ordered lt x ys else x # y # ys)"

text \<open>The entries of a map in the order of its keys.\<close>

definition walk :: "('k \<Rightarrow> 'k \<Rightarrow> bool) \<Rightarrow> ('k \<times> 'v) list \<Rightarrow> ('k \<times> 'v) list" where
  "walk lt m = foldr (insert_ordered lt) m []"

definition hash_less :: "uint256 \<Rightarrow> uint256 \<Rightarrow> bool" where
  "hash_less a b \<longleftrightarrow> bu_compare a b < 0"

subsection \<open>Entries\<close>

record CTxMemPoolEntry =
  pe_tx :: CTransaction
  pe_nFee :: int
  pe_nTxSize :: u64
  pe_nModSize :: u64
  pe_nTime :: int
  pe_dPriority :: double
  pe_nHeight :: u32

definition MEMPOOL_HEIGHT :: u32 where "MEMPOOL_HEIGHT = 0x7FFFFFFF"

definition CTxMemPoolEntry_new :: "CTransaction \<Rightarrow> int \<Rightarrow> int \<Rightarrow> double \<Rightarrow> u32 \<Rightarrow> CTxMemPoolEntry" where
  "CTxMemPoolEntry_new tx nFee nTime dPriority height =
     \<lparr>pe_tx = tx, pe_nFee = nFee, pe_nTxSize = of_nat (size_tx tx),
      pe_nModSize = ucast (CalculateModifiedSize tx (of_nat (size_tx tx))),
      pe_nTime = nTime, pe_dPriority = dPriority, pe_nHeight = height\<rparr>"

record CInPoint =
  ip_ptx :: "uint256 option"
  ip_n :: u32

definition CInPoint_null :: CInPoint where
  "CInPoint_null = \<lparr>ip_ptx = None, ip_n = -1\<rparr>"

definition CInPoint_IsNull :: "CInPoint \<Rightarrow> bool" where
  "CInPoint_IsNull ip \<longleftrightarrow> ip_ptx ip = None \<and> ip_n ip = -1"

record CTxMemPool =
  fSanityCheck :: bool
  nTransactionsUpdated :: u32
  pool_minRelayFee :: CFeeRate
  totalTxSize :: u64
  mapTx :: "(uint256 \<times> CTxMemPoolEntry) list"
  mapNextTx :: "(COutPoint \<times> CInPoint) list"
  mapDeltas :: "(uint256 \<times> double \<times> int) list"

definition CTxMemPool_new :: "CFeeRate \<Rightarrow> CTxMemPool" where
  "CTxMemPool_new minRelayFee =
     \<lparr>fSanityCheck = False, nTransactionsUpdated = 0, pool_minRelayFee = minRelayFee, totalTxSize = 0,
      mapTx = [], mapNextTx = [], mapDeltas = []\<rparr>"

text \<open>What a pointer of an \<^verbatim>\<open>CInPoint\<close> points to.\<close>

definition ip_tx :: "CTxMemPool \<Rightarrow> CInPoint \<Rightarrow> CTransaction option" where
  "ip_tx pool ip = (case ip_ptx ip of None \<Rightarrow> None | Some key \<Rightarrow> map_option pe_tx (map_of (mapTx pool) key))"

subsection \<open>Reading the pool\<close>

definition pool_size :: "CTxMemPool \<Rightarrow> nat" where
  "pool_size pool = length (mapTx pool)"

definition pool_exists :: "CTxMemPool \<Rightarrow> uint256 \<Rightarrow> bool" where
  "pool_exists pool hash \<longleftrightarrow> map_of (mapTx pool) hash \<noteq> None"

definition pool_lookup :: "CTxMemPool \<Rightarrow> uint256 \<Rightarrow> CTransaction option" where
  "pool_lookup pool hash = map_option pe_tx (map_of (mapTx pool) hash)"

definition queryHashes :: "CTxMemPool \<Rightarrow> uint256 list" where
  "queryHashes pool = map fst (walk hash_less (mapTx pool))"

text \<open>\<^verbatim>\<open>pruneSpent\<close>: the entries of \<^verbatim>\<open>mapNextTx\<close> for one transaction are next to each other.\<close>

fun prune_loop :: "COutPoint list \<Rightarrow> CCoins \<Rightarrow> CCoins" where
  "prune_loop [] coins = coins"
| "prune_loop (p # ps) coins =
     prune_loop ps (case Spend coins p of None \<Rightarrow> coins | Some (coins', _) \<Rightarrow> coins')"

definition pruneSpent :: "CTxMemPool \<Rightarrow> uint256 \<Rightarrow> CCoins \<Rightarrow> CCoins" where
  "pruneSpent pool hashTx coins =
     prune_loop (filter (\<lambda>p. op_hash p = hashTx) (map fst (walk COutPoint_less (mapNextTx pool)))) coins"

definition AddTransactionsUpdated :: "CTxMemPool \<Rightarrow> u32 \<Rightarrow> CTxMemPool" where
  "AddTransactionsUpdated pool n = pool\<lparr>nTransactionsUpdated := nTransactionsUpdated pool + n\<rparr>"

subsection \<open>Adding\<close>

fun next_inputs :: "uint256 \<Rightarrow> u32 \<Rightarrow> CTxIn list \<Rightarrow> (COutPoint \<times> CInPoint) list \<Rightarrow> (COutPoint \<times> CInPoint) list" where
  "next_inputs hash i [] m = m"
| "next_inputs hash i (txin # ins) m =
     next_inputs hash (i + 1) ins (AList.update (prevout txin) \<lparr>ip_ptx = Some hash, ip_n = i\<rparr> m)"

definition addUnchecked :: "CTxMemPool \<Rightarrow> uint256 \<Rightarrow> CTxMemPoolEntry \<Rightarrow> bool \<times> CTxMemPool" where
  "addUnchecked pool hash e =
     (True, pool\<lparr>mapTx := AList.update hash e (mapTx pool),
                 mapNextTx := next_inputs hash 0 (vin (pe_tx e)) (mapNextTx pool),
                 nTransactionsUpdated := nTransactionsUpdated pool + 1,
                 totalTxSize := totalTxSize pool + pe_nTxSize e\<rparr>)"

subsection \<open>Removing\<close>

text \<open>The hashes of the transactions of the pool that spend the given outputs of a transaction.\<close>

fun children :: "(bytes \<Rightarrow> bytes) \<Rightarrow> CTxMemPool \<Rightarrow> uint256 \<Rightarrow> nat list \<Rightarrow> uint256 list option" where
  "children Hash pool hash [] = Some []"
| "children Hash pool hash (i # is) =
     (case map_of (mapNextTx pool) \<lparr>op_hash = hash, op_n = of_nat i\<rparr> of
        None \<Rightarrow> children Hash pool hash is
      | Some it \<Rightarrow>
          (case ip_tx pool it of
             None \<Rightarrow> None
           | Some tx \<Rightarrow> map_option ((#) (tx_GetHash Hash tx)) (children Hash pool hash is)))"

text \<open>One transaction leaves the pool.\<close>

definition erase_tx :: "CTxMemPool \<Rightarrow> uint256 \<Rightarrow> CTxMemPoolEntry \<Rightarrow> CTxMemPool" where
  "erase_tx pool hash e =
     pool\<lparr>mapNextTx := fold (\<lambda>txin. AList.delete (prevout txin)) (vin (pe_tx e)) (mapNextTx pool),
          totalTxSize := totalTxSize pool - pe_nTxSize e,
          mapTx := AList.delete hash (mapTx pool),
          nTransactionsUpdated := nTransactionsUpdated pool + 1\<rparr>"

lemma length_alist_delete_less: "map_of m k \<noteq> None \<Longrightarrow> length (AList.delete k m) < length m"
  by (induction m) (auto simp: AList.delete_eq less_Suc_eq_le split: if_splits)

function remove_loop ::
  "(bytes \<Rightarrow> bytes) \<Rightarrow> bool \<Rightarrow> uint256 list \<Rightarrow> CTxMemPool \<Rightarrow> CTransaction list \<Rightarrow> (CTxMemPool \<times> CTransaction list) option" where
  "remove_loop Hash fRecursive [] pool removed = Some (pool, removed)"
| "remove_loop Hash fRecursive (hash # q) pool removed =
     (case map_of (mapTx pool) hash of
        None \<Rightarrow> remove_loop Hash fRecursive q pool removed
      | Some e \<Rightarrow>
          (case (if fRecursive then children Hash pool hash [0..<length (vout (pe_tx e))] else Some []) of
             None \<Rightarrow> None
           | Some hs \<Rightarrow> remove_loop Hash fRecursive (q @ hs) (erase_tx pool hash e) (removed @ [pe_tx e])))"
  by pat_completeness auto

text \<open>Each step takes a transaction out of the pool or shortens the queue.\<close>

termination
  by (relation "measures [\<lambda>(_, _, _, pool, _). length (mapTx pool), \<lambda>(_, _, q, _, _). length q]")
    (auto simp: erase_tx_def intro: length_alist_delete_less)

definition pool_remove ::
  "(bytes \<Rightarrow> bytes) \<Rightarrow> CTransaction \<Rightarrow> bool \<Rightarrow> CTxMemPool \<Rightarrow> CTransaction list \<Rightarrow> (CTxMemPool \<times> CTransaction list) option" where
  "pool_remove Hash origTx fRecursive pool removed =
     (let hash = tx_GetHash Hash origTx
      in case (if fRecursive \<and> map_of (mapTx pool) hash = None
               then children Hash pool hash [0..<length (vout origTx)] else Some []) of
           None \<Rightarrow> None
         | Some hs \<Rightarrow> remove_loop Hash fRecursive (hash # hs) pool removed)"

text \<open>Inequality of transactions compares their hashes.\<close>

fun conflicts_loop ::
  "(bytes \<Rightarrow> bytes) \<Rightarrow> CTransaction \<Rightarrow> CTxIn list \<Rightarrow> CTxMemPool \<Rightarrow> CTransaction list \<Rightarrow> (CTxMemPool \<times> CTransaction list) option" where
  "conflicts_loop Hash tx [] pool removed = Some (pool, removed)"
| "conflicts_loop Hash tx (txin # ins) pool removed =
     (case map_of (mapNextTx pool) (prevout txin) of
        None \<Rightarrow> conflicts_loop Hash tx ins pool removed
      | Some it \<Rightarrow>
          (case ip_tx pool it of
             None \<Rightarrow> None
           | Some txConflict \<Rightarrow>
               if tx_GetHash Hash txConflict \<noteq> tx_GetHash Hash tx
               then (case pool_remove Hash txConflict True pool removed of
                       None \<Rightarrow> None
                     | Some (pool, removed) \<Rightarrow> conflicts_loop Hash tx ins pool removed)
               else conflicts_loop Hash tx ins pool removed))"

definition removeConflicts ::
  "(bytes \<Rightarrow> bytes) \<Rightarrow> CTransaction \<Rightarrow> CTxMemPool \<Rightarrow> CTransaction list \<Rightarrow> (CTxMemPool \<times> CTransaction list) option" where
  "removeConflicts Hash tx pool removed = conflicts_loop Hash tx (vin tx) pool removed"

definition ClearPrioritisation :: "CTxMemPool \<Rightarrow> uint256 \<Rightarrow> CTxMemPool" where
  "ClearPrioritisation pool hash = pool\<lparr>mapDeltas := AList.delete hash (mapDeltas pool)\<rparr>"

fun block_loop ::
  "(bytes \<Rightarrow> bytes) \<Rightarrow> CTransaction list \<Rightarrow> CTxMemPool \<Rightarrow> CTransaction list \<Rightarrow> (CTxMemPool \<times> CTransaction list) option" where
  "block_loop Hash [] pool conflicts = Some (pool, conflicts)"
| "block_loop Hash (tx # txs) pool conflicts =
     (case pool_remove Hash tx False pool [] of
        None \<Rightarrow> None
      | Some (pool, _) \<Rightarrow>
     (case removeConflicts Hash tx pool conflicts of
        None \<Rightarrow> None
      | Some (pool, conflicts) \<Rightarrow>
          block_loop Hash txs (ClearPrioritisation pool (tx_GetHash Hash tx)) conflicts))"

text \<open>The first component of the result is what the fee estimator is given.\<close>

definition removeForBlock ::
  "(bytes \<Rightarrow> bytes) \<Rightarrow> CTransaction list \<Rightarrow> u32 \<Rightarrow> CTxMemPool \<Rightarrow> CTransaction list \<Rightarrow>
   ((CTxMemPoolEntry list \<times> u32 \<times> CFeeRate) \<times> CTxMemPool \<times> CTransaction list) option" where
  "removeForBlock Hash txs nBlockHeight pool conflicts =
     (let entries = List.map_filter (\<lambda>tx. map_of (mapTx pool) (tx_GetHash Hash tx)) txs
      in map_option (Pair (entries, nBlockHeight, pool_minRelayFee pool)) (block_loop Hash txs pool conflicts))"

definition pool_clear :: "CTxMemPool \<Rightarrow> CTxMemPool" where
  "pool_clear pool = pool\<lparr>mapTx := [], mapNextTx := [], totalTxSize := 0, nTransactionsUpdated := nTransactionsUpdated pool + 1\<rparr>"

definition immature :: "CChainParams \<Rightarrow> u32 \<Rightarrow> CCoins \<Rightarrow> bool" where
  "immature P nMemPoolHeight coins \<longleftrightarrow>
     (c_fCoinBase coins \<or> c_fCoinStake coins) \<and> nMemPoolHeight - c_nHeight coins < word_of_int (nMaturity P)"

text \<open>Whether an input spends an immature coinbase or coinstake, or nothing at all.\<close>

fun spends_immature ::
  "('b \<Rightarrow> uint256 \<Rightarrow> CCoins option \<times> 'b) \<Rightarrow> CChainParams \<Rightarrow> CTxMemPool \<Rightarrow> u32 \<Rightarrow> CTxIn list \<Rightarrow> 'b CCoinsViewCache \<Rightarrow>
   (bool \<times> 'b CCoinsViewCache) option" where
  "spends_immature bget P pool nMemPoolHeight [] c = Some (False, c)"
| "spends_immature bget P pool nMemPoolHeight (txin # ins) c =
     (if pool_exists pool (op_hash (prevout txin)) then spends_immature bget P pool nMemPoolHeight ins c
      else (case AccessCoins bget c (op_hash (prevout txin)) of
          (None, c) \<Rightarrow> if fSanityCheck pool then None else Some (True, c)
        | (Some coins, c) \<Rightarrow>
            if immature P nMemPoolHeight coins
            then Some (True, c)
            else spends_immature bget P pool nMemPoolHeight ins c))"

fun immature_loop ::
  "('b \<Rightarrow> uint256 \<Rightarrow> CCoins option \<times> 'b) \<Rightarrow> CChainParams \<Rightarrow> CTxMemPool \<Rightarrow> u32 \<Rightarrow> (uint256 \<times> CTxMemPoolEntry) list \<Rightarrow>
   'b CCoinsViewCache \<Rightarrow> (CTransaction list \<times> 'b CCoinsViewCache) option" where
  "immature_loop bget P pool nMemPoolHeight [] c = Some ([], c)"
| "immature_loop bget P pool nMemPoolHeight (it # its) c =
     (case spends_immature bget P pool nMemPoolHeight (vin (pe_tx (snd it))) c of
        None \<Rightarrow> None
      | Some (b, c) \<Rightarrow>
          (case immature_loop bget P pool nMemPoolHeight its c of
             None \<Rightarrow> None
           | Some (txs, c) \<Rightarrow> Some (if b then pe_tx (snd it) # txs else txs, c)))"

fun remove_all :: "(bytes \<Rightarrow> bytes) \<Rightarrow> CTransaction list \<Rightarrow> CTxMemPool \<Rightarrow> CTxMemPool option" where
  "remove_all Hash [] pool = Some pool"
| "remove_all Hash (tx # txs) pool =
     (case pool_remove Hash tx True pool [] of None \<Rightarrow> None | Some (pool, _) \<Rightarrow> remove_all Hash txs pool)"

definition removeCoinbaseSpends ::
  "(bytes \<Rightarrow> bytes) \<Rightarrow> ('b \<Rightarrow> uint256 \<Rightarrow> CCoins option \<times> 'b) \<Rightarrow> CChainParams \<Rightarrow> u32 \<Rightarrow> CTxMemPool \<Rightarrow> 'b CCoinsViewCache \<Rightarrow>
   (CTxMemPool \<times> 'b CCoinsViewCache) option" where
  "removeCoinbaseSpends Hash bget P nMemPoolHeight pool c =
     (case immature_loop bget P pool nMemPoolHeight (walk hash_less (mapTx pool)) c of
        None \<Rightarrow> None
      | Some (txs, c) \<Rightarrow> map_option (\<lambda>pool. (pool, c)) (remove_all Hash txs pool))"

subsection \<open>Priorities\<close>

definition double_add :: "double \<Rightarrow> double \<Rightarrow> double" where
  "double_add x y = (round_double (fst x * 2 ^ snd y + fst y * 2 ^ snd x), snd x + snd y)"

definition PrioritiseTransaction :: "CTxMemPool \<Rightarrow> uint256 \<Rightarrow> double \<Rightarrow> int \<Rightarrow> CTxMemPool" where
  "PrioritiseTransaction pool hash dPriorityDelta nFeeDelta =
     (let (p, f) = (case map_of (mapDeltas pool) hash of None \<Rightarrow> ((0, 0), 0) | Some d \<Rightarrow> d)
      in pool\<lparr>mapDeltas := AList.update hash (double_add p dPriorityDelta, wrap64 (f + nFeeDelta)) (mapDeltas pool)\<rparr>)"

definition ApplyDeltas :: "CTxMemPool \<Rightarrow> uint256 \<Rightarrow> double \<Rightarrow> int \<Rightarrow> double \<times> int" where
  "ApplyDeltas pool hash dPriorityDelta nFeeDelta =
     (case map_of (mapDeltas pool) hash of
        None \<Rightarrow> (dPriorityDelta, nFeeDelta)
      | Some (p, f) \<Rightarrow> (double_add dPriorityDelta p, wrap64 (nFeeDelta + f)))"

subsection \<open>The view through the pool\<close>

definition mempool_GetCoins ::
  "('b \<Rightarrow> uint256 \<Rightarrow> CCoins option \<times> 'b) \<Rightarrow> CTxMemPool \<Rightarrow> 'b \<Rightarrow> uint256 \<Rightarrow> CCoins option \<times> 'b" where
  "mempool_GetCoins bget pool b txid =
     (case pool_lookup pool txid of
        Some tx \<Rightarrow> (Some (FromTx tx MEMPOOL_HEIGHT), b)
      | None \<Rightarrow>
          (case bget b txid of
             (None, b) \<Rightarrow> (None, b)
           | (Some coins, b) \<Rightarrow> (if IsPruned coins then None else Some coins, b)))"

definition mempool_HaveCoins :: "('b \<Rightarrow> uint256 \<Rightarrow> bool) \<Rightarrow> CTxMemPool \<Rightarrow> 'b \<Rightarrow> uint256 \<Rightarrow> bool" where
  "mempool_HaveCoins bhave pool b txid \<longleftrightarrow> pool_exists pool txid \<or> bhave b txid"


subsection \<open>The invariant of the pool\<close>

text \<open>An output is indexed exactly when an input of a transaction of the pool spends it.\<close>

definition spent_by :: "(uint256 \<Rightarrow> CTxMemPoolEntry option) \<Rightarrow> COutPoint \<Rightarrow> CInPoint \<Rightarrow> bool" where
  "spent_by m p ip \<longleftrightarrow>
     (\<exists>h e i. m h = Some e \<and> i < length (vin (pe_tx e)) \<and> prevout (vin (pe_tx e) ! i) = p \<and>
        ip = \<lparr>ip_ptx = Some h, ip_n = of_nat i\<rparr>)"

definition next_ok :: "CTxMemPool \<Rightarrow> bool" where
  "next_ok pool \<longleftrightarrow> (\<forall>p ip. map_of (mapNextTx pool) p = Some ip \<longleftrightarrow> spent_by (map_of (mapTx pool)) p ip)"

definition pool_inv :: "(bytes \<Rightarrow> bytes) \<Rightarrow> CTxMemPool \<Rightarrow> bool" where
  "pool_inv Hash pool \<longleftrightarrow>
     distinct (map fst (mapTx pool)) \<and> distinct (map fst (mapNextTx pool)) \<and>
     (\<forall>h e. map_of (mapTx pool) h = Some e \<longrightarrow> tx_GetHash Hash (pe_tx e) = h \<and> distinct (map prevout (vin (pe_tx e)))) \<and>
     next_ok pool \<and> totalTxSize pool = sum_list (map (pe_nTxSize \<circ> snd) (mapTx pool))"

lemma pool_invD:
  assumes "pool_inv Hash pool"
  shows "distinct (map fst (mapTx pool))" "distinct (map fst (mapNextTx pool))" "next_ok pool"
    "totalTxSize pool = sum_list (map (pe_nTxSize \<circ> snd) (mapTx pool))"
    "map_of (mapTx pool) h = Some e \<Longrightarrow> tx_GetHash Hash (pe_tx e) = h"
    "map_of (mapTx pool) h = Some e \<Longrightarrow> distinct (map prevout (vin (pe_tx e)))"
  using assms by (auto simp: pool_inv_def)

lemma next_okD:
  "next_ok pool \<Longrightarrow> map_of (mapNextTx pool) p = Some ip \<Longrightarrow>
   \<exists>h e i. map_of (mapTx pool) h = Some e \<and> i < length (vin (pe_tx e)) \<and> prevout (vin (pe_tx e) ! i) = p \<and>
     ip = \<lparr>ip_ptx = Some h, ip_n = of_nat i\<rparr>"
  unfolding next_ok_def spent_by_def by blast

lemma next_okI:
  "next_ok pool \<Longrightarrow> map_of (mapTx pool) h = Some e \<Longrightarrow> i < length (vin (pe_tx e)) \<Longrightarrow> prevout (vin (pe_tx e) ! i) = p \<Longrightarrow>
   map_of (mapNextTx pool) p = Some \<lparr>ip_ptx = Some h, ip_n = of_nat i\<rparr>"
  unfolding next_ok_def spent_by_def by blast

lemma spent_by_update:
  "m h = None \<Longrightarrow> spent_by (m(h \<mapsto> e)) p ip \<longleftrightarrow>
     spent_by m p ip \<or> (\<exists>i<length (vin (pe_tx e)). prevout (vin (pe_tx e) ! i) = p \<and> ip = \<lparr>ip_ptx = Some h, ip_n = of_nat i\<rparr>)"
  unfolding spent_by_def by (rule iffI; elim exE disjE; simp split: if_splits) (metis option.distinct(1))+

lemma spent_by_erase:
  "spent_by (m(h := None)) p ip \<longleftrightarrow> spent_by m p ip \<and> ip_ptx ip \<noteq> Some h"
  by (force simp: spent_by_def)

lemma spent_by_prevout: "spent_by m p ip \<Longrightarrow> \<exists>h e. ip_ptx ip = Some h \<and> m h = Some e \<and> p \<in> prevout ` set (vin (pe_tx e))"
  by (force simp: spent_by_def)

text \<open>No two transactions of the pool spend the same output.\<close>

lemma no_double_spend:
  assumes "next_ok pool" "map_of (mapTx pool) h = Some e" "map_of (mapTx pool) h' = Some e'"
    "txin \<in> set (vin (pe_tx e))" "txin' \<in> set (vin (pe_tx e'))" "prevout txin = prevout txin'"
  shows "h = h'"
proof -
  obtain i where i: "i < length (vin (pe_tx e))" "prevout (vin (pe_tx e) ! i) = prevout txin"
    using assms(4) by (auto simp: in_set_conv_nth)
  obtain j where j: "j < length (vin (pe_tx e'))" "prevout (vin (pe_tx e') ! j) = prevout txin"
    using assms(5,6) by (auto simp: in_set_conv_nth)
  show ?thesis using next_okI [OF assms(1,2) i] next_okI [OF assms(1,3) j] by simp
qed

subsection \<open>Adding keeps the invariant\<close>

lemma map_of_alist_update: "map_of (AList.update k v m) = (map_of m)(k \<mapsto> v)"
  by (rule update_conv')

lemma next_inputs_distinct: "distinct (map fst m) \<Longrightarrow> distinct (map fst (next_inputs hash i ins m))"
  by (induction hash i ins m rule: next_inputs.induct) (auto simp: distinct_update)

lemma next_inputs_other: "p \<notin> prevout ` set ins \<Longrightarrow> map_of (next_inputs hash i ins m) p = map_of m p"
  by (induction hash i ins m rule: next_inputs.induct) (auto simp: update_conv)

lemma next_inputs_own:
  "distinct (map prevout ins) \<Longrightarrow> j < length ins \<Longrightarrow>
   map_of (next_inputs hash i ins m) (prevout (ins ! j)) = Some \<lparr>ip_ptx = Some hash, ip_n = i + of_nat j\<rparr>"
proof (induction hash i ins m arbitrary: j rule: next_inputs.induct)
  case (2 hash i txin ins m)
  show ?case
  proof (cases j)
    case 0
    then show ?thesis using 2 by (simp add: next_inputs_other update_conv)
  next
    case (Suc k)
    then show ?thesis using 2 by (simp add: algebra_simps)
  qed
qed simp

lemma sum_list_update_new:
  "map_of m k = None \<Longrightarrow> sum_list (map (f \<circ> snd) (AList.update k v m)) = (sum_list (map (f \<circ> snd) m) + f v :: 'a::comm_monoid_add)"
  by (induction m) (auto simp: ac_simps split: if_splits)

lemma addUnchecked_inv:
  assumes inv: "pool_inv Hash pool" and h: "tx_GetHash Hash (pe_tx e) = hash" and new: "map_of (mapTx pool) hash = None"
    and d: "distinct (map prevout (vin (pe_tx e)))" and free: "\<forall>txin\<in>set (vin (pe_tx e)). map_of (mapNextTx pool) (prevout txin) = None"
  shows "pool_inv Hash (snd (addUnchecked pool hash e))"
proof -
  note i = pool_invD [OF inv]
  let ?n = "map_of (next_inputs hash 0 (vin (pe_tx e)) (mapNextTx pool))"
  have "?n p = Some ip \<longleftrightarrow> spent_by ((map_of (mapTx pool))(hash \<mapsto> e)) p ip" for p ip
  proof (cases "p \<in> prevout ` set (vin (pe_tx e))")
    case True
    then obtain j where j: "j < length (vin (pe_tx e))" "p = prevout (vin (pe_tx e) ! j)" by (auto simp: in_set_conv_nth)
    have own: "?n p = Some \<lparr>ip_ptx = Some hash, ip_n = of_nat j\<rparr>" using next_inputs_own [OF d j(1)] j(2) by simp
    have "map_of (mapNextTx pool) p = None" using free True by auto
    then have none: "\<not> spent_by (map_of (mapTx pool)) p ip" using i(3) unfolding next_ok_def by force
    have "k = j" if "k < length (vin (pe_tx e))" "prevout (vin (pe_tx e) ! k) = p" for k
      using that j d by (auto simp: distinct_conv_nth)
    then have "(\<exists>k<length (vin (pe_tx e)). prevout (vin (pe_tx e) ! k) = p \<and> ip = \<lparr>ip_ptx = Some hash, ip_n = of_nat k\<rparr>) \<longleftrightarrow>
        ip = \<lparr>ip_ptx = Some hash, ip_n = of_nat j\<rparr>" using j by blast
    then show ?thesis using none unfolding spent_by_update [of "map_of (mapTx pool)", OF new] own by auto
  next
    case False
    then have "?n p = map_of (mapNextTx pool) p" by (rule next_inputs_other)
    moreover have "prevout (vin (pe_tx e) ! k) \<noteq> p" if "k < length (vin (pe_tx e))" for k using False that by auto
    ultimately show ?thesis using i(3) unfolding spent_by_update [of "map_of (mapTx pool)", OF new] by (auto simp: next_ok_def)
  qed
  then have "next_ok (snd (addUnchecked pool hash e))"
    by (simp add: next_ok_def addUnchecked_def map_of_alist_update)
  moreover have "totalTxSize (snd (addUnchecked pool hash e)) =
      sum_list (map (pe_nTxSize \<circ> snd) (mapTx (snd (addUnchecked pool hash e))))"
    using i(4) new by (simp add: addUnchecked_def sum_list_update_new)
  ultimately show ?thesis using i h d
    by (auto simp: pool_inv_def addUnchecked_def next_inputs_distinct distinct_update map_of_alist_update split: if_splits)
qed

subsection \<open>Erasing keeps the invariant\<close>

lemma fold_delete_map_of:
  "map_of (fold (\<lambda>txin. AList.delete (prevout txin)) ins m) p = (if p \<in> prevout ` set ins then None else map_of m p)"
  by (induction ins arbitrary: m) (auto simp: delete_conv')

lemma fold_delete_distinct:
  "distinct (map fst m) \<Longrightarrow> distinct (map fst (fold (\<lambda>txin. AList.delete (prevout txin)) ins m))"
  by (induction ins arbitrary: m) (auto simp: distinct_delete)

lemma sum_list_delete:
  "distinct (map fst m) \<Longrightarrow> map_of m k = Some v \<Longrightarrow>
   sum_list (map (f \<circ> snd) (AList.delete k m)) = (sum_list (map (f \<circ> snd) m) - f v :: 'a::ab_group_add)"
proof (induction m)
  case (Cons x m)
  show ?case
  proof (cases "fst x = k")
    case True
    then have "AList.delete k m = m" using Cons(2) by (intro delete_id) auto
    then show ?thesis using True Cons(3) by (cases x) simp
  next
    case False
    have "sum_list (map (f \<circ> snd) (AList.delete k m)) = sum_list (map (f \<circ> snd) m) - f v"
      by (rule Cons(1)) (use Cons(2,3) False in \<open>auto split: if_splits\<close>)
    then show ?thesis using False by (cases x) (simp add: algebra_simps comp_def)
  qed
qed simp

lemma erase_maps:
  "map_of (mapTx (erase_tx pool hash e)) = (map_of (mapTx pool))(hash := None)"
  "map_of (mapNextTx (erase_tx pool hash e)) p =
     (if p \<in> prevout ` set (vin (pe_tx e)) then None else map_of (mapNextTx pool) p)"
  by (auto simp: erase_tx_def delete_conv fold_delete_map_of)

lemma erase_inv:
  assumes inv: "pool_inv Hash pool" and e: "map_of (mapTx pool) hash = Some e"
  shows "pool_inv Hash (erase_tx pool hash e)"
proof -
  note i = pool_invD [OF inv]
  have key: "spent_by (map_of (mapTx pool)) p ip \<Longrightarrow> p \<in> prevout ` set (vin (pe_tx e)) \<longleftrightarrow> ip_ptx ip = Some hash" for p ip
  proof -
    assume "spent_by (map_of (mapTx pool)) p ip"
    then obtain h e' where h: "ip_ptx ip = Some h" "map_of (mapTx pool) h = Some e'" "p \<in> prevout ` set (vin (pe_tx e'))"
      using spent_by_prevout by blast
    moreover have "h = hash" if p: "p \<in> prevout ` set (vin (pe_tx e))"
    proof -
      obtain t t' where "t \<in> set (vin (pe_tx e))" "prevout t = p" "t' \<in> set (vin (pe_tx e'))" "prevout t' = p"
        using p h(3) by (elim imageE) metis
      then show ?thesis using no_double_spend [OF i(3) h(2) e] by auto
    qed
    ultimately show "p \<in> prevout ` set (vin (pe_tx e)) \<longleftrightarrow> ip_ptx ip = Some hash" using e by auto
  qed
  have "next_ok (erase_tx pool hash e)"
    using i(3) key unfolding next_ok_def erase_maps spent_by_erase by (metis option.distinct(1))
  moreover have "totalTxSize (erase_tx pool hash e) = sum_list (map (pe_nTxSize \<circ> snd) (mapTx (erase_tx pool hash e)))"
    using i(4) sum_list_delete [OF i(1) e, of pe_nTxSize] by (simp add: erase_tx_def)
  moreover have "distinct (map fst (mapTx (erase_tx pool hash e)))" "distinct (map fst (mapNextTx (erase_tx pool hash e)))"
    using i by (simp_all add: erase_tx_def distinct_delete fold_delete_distinct)
  ultimately show ?thesis using i(5,6)
    by (auto simp: pool_inv_def erase_maps split: if_splits)
qed

subsection \<open>Recursive removal takes out exactly the descendants\<close>

text \<open>\<open>child tx h e\<close>: the entry spends an existing output of the transaction \<open>tx\<close> of hash \<open>h\<close>.\<close>

definition child :: "CTransaction \<Rightarrow> uint256 \<Rightarrow> CTxMemPoolEntry \<Rightarrow> bool" where
  "child tx h e \<longleftrightarrow>
     (\<exists>txin\<in>set (vin (pe_tx e)). op_hash (prevout txin) = h \<and> unat (op_n (prevout txin)) < length (vout tx))"

definition child_edges :: "(uint256 \<Rightarrow> CTxMemPoolEntry option) \<Rightarrow> (uint256 \<times> uint256) set" where
  "child_edges m = {(h, c). \<exists>e e'. m h = Some e \<and> m c = Some e' \<and> child (pe_tx e) h e'}"

definition descendants :: "(uint256 \<Rightarrow> CTxMemPoolEntry option) \<Rightarrow> uint256 set \<Rightarrow> uint256 set" where
  "descendants m H = (child_edges m)\<^sup>* `` H"

lemma children_spec:
  assumes inv: "pool_inv Hash pool"
  shows "\<exists>hs. children Hash pool h is = Some hs \<and>
    set hs = {c. \<exists>e. map_of (mapTx pool) c = Some e \<and>
       (\<exists>txin\<in>set (vin (pe_tx e)). op_hash (prevout txin) = h \<and> op_n (prevout txin) \<in> of_nat ` set is)}"
proof (induction "is")
  case (Cons i "is")
  note p = pool_invD [OF inv]
  obtain hs where hs: "children Hash pool h is = Some hs"
    "set hs = {c. \<exists>e. map_of (mapTx pool) c = Some e \<and>
       (\<exists>txin\<in>set (vin (pe_tx e)). op_hash (prevout txin) = h \<and> op_n (prevout txin) \<in> of_nat ` set is)}"
    using Cons by blast
  let ?p = "\<lparr>op_hash = h, op_n = of_nat i\<rparr>"
  let ?C = "{c. \<exists>e. map_of (mapTx pool) c = Some e \<and> (\<exists>t\<in>set (vin (pe_tx e)). prevout t = ?p)}"
  have C: "{c. \<exists>e. map_of (mapTx pool) c = Some e \<and> (\<exists>txin\<in>set (vin (pe_tx e)). op_hash (prevout txin) = h \<and>
      op_n (prevout txin) \<in> of_nat ` set (i # is))} = ?C \<union> set hs" (is "?l = _")
  proof (rule set_eqI)
    fix c
    have split: "(op_hash q = h \<and> op_n q \<in> of_nat ` set (i # is)) \<longleftrightarrow>
       q = ?p \<or> (op_hash q = h \<and> op_n q \<in> of_nat ` set is)" for q :: COutPoint
      by (cases q) auto
    show "c \<in> ?l \<longleftrightarrow> c \<in> ?C \<union> set hs"
      unfolding hs(2) mem_Collect_eq Un_iff split by blast
  qed
  show ?case
  proof (cases "map_of (mapNextTx pool) ?p")
    case None
    have "?C = {}"
    proof (rule ccontr)
      assume "?C \<noteq> {}"
      then obtain c e t where c: "map_of (mapTx pool) c = Some e" "t \<in> set (vin (pe_tx e))" "prevout t = ?p"
        by blast
      then obtain j where j: "j < length (vin (pe_tx e))" "vin (pe_tx e) ! j = t" by (auto simp: in_set_conv_nth)
      show False using next_okI [OF p(3) c(1) j(1), of ?p] None c(3) j(2) by simp
    qed
    then have "?C \<union> set hs = set hs" by blast
    then show ?thesis using hs(1) None unfolding C by (intro exI [of _ hs]) (simp only: children.simps option.case simp_thms)
  next
    case (Some ip)
    then obtain c e j where c: "map_of (mapTx pool) c = Some e" "j < length (vin (pe_tx e))"
      "prevout (vin (pe_tx e) ! j) = ?p" "ip = \<lparr>ip_ptx = Some c, ip_n = of_nat j\<rparr>"
      using next_okD [OF p(3)] by blast
    have "c' = c" if "map_of (mapTx pool) c' = Some e'" "t \<in> set (vin (pe_tx e'))" "prevout t = ?p" for c' e' t
      using no_double_spend [OF p(3) that(1) c(1) that(2), of "vin (pe_tx e) ! j"] that(3) c(2,3) by simp
    moreover have "\<exists>t\<in>set (vin (pe_tx e)). prevout t = ?p" using c(2,3) by (metis nth_mem)
    ultimately have "?C = {c}" using c(1) by blast
    moreover have "ip_tx pool ip = Some (pe_tx e)" "tx_GetHash Hash (pe_tx e) = c"
      using c p(5) by (simp_all add: ip_tx_def)
    ultimately show ?thesis using hs Some unfolding C by simp
  qed
qed simp

lemma of_nat_below: "(n :: u32) \<in> of_nat ` set [0..<k] \<longleftrightarrow> unat n < k"
proof
  assume "n \<in> of_nat ` set [0..<k]"
  then obtain i where "i < k" "n = of_nat i" by auto
  moreover have "unat (of_nat i :: u32) \<le> i" by (simp add: unat_of_nat)
  ultimately show "unat n < k" by simp
next
  assume "unat n < k"
  then show "n \<in> of_nat ` set [0..<k]" by (intro image_eqI [of _ _ "unat n"]) auto
qed

lemma children_of:
  assumes "pool_inv Hash pool"
  shows "\<exists>hs. children Hash pool h [0..<length (vout tx)] = Some hs \<and>
    set hs = {c. \<exists>e. map_of (mapTx pool) c = Some e \<and> child tx h e}"
  using children_spec [OF assms, of h "[0..<length (vout tx)]"] unfolding of_nat_below child_def by simp

lemma descendants_step: "x \<in> descendants m Q \<Longrightarrow> (x, y) \<in> child_edges m \<Longrightarrow> y \<in> descendants m Q"
  by (auto simp: descendants_def intro: rtrancl_into_rtrancl)

lemma descendants_start: "Q \<subseteq> descendants m Q"
  by (auto simp: descendants_def)

lemma descendants_insert:
  assumes m: "m hash = Some e"
  shows "descendants m (insert hash Q) = insert hash (descendants (m(hash := None)) (Q \<union> {c. \<exists>e'. m c = Some e' \<and> child (pe_tx e) hash e'}))"
    (is "_ = insert hash (descendants ?m ?Q)")
proof (intro equalityI subsetI)
  fix x assume "x \<in> descendants m (insert hash Q)"
  then obtain q where q: "q \<in> insert hash Q" "(q, x) \<in> (child_edges m)\<^sup>*" by (auto simp: descendants_def)
  from q(2) show "x \<in> insert hash (descendants ?m ?Q)"
  proof (induction rule: rtrancl_induct)
    case base
    then show ?case using q(1) descendants_start [of ?Q ?m] by blast
  next
    case (step y z)
    show ?case
    proof (cases "z = hash \<or> y = hash")
      case True
      then have "z = hash \<or> z \<in> ?Q" using step(2) m by (auto simp: child_edges_def)
      then show ?thesis using descendants_start [of ?Q ?m] by blast
    next
      case False
      then have "(y, z) \<in> child_edges ?m" using step(2) by (auto simp: child_edges_def)
      then show ?thesis using step(3) False descendants_step [of y ?m ?Q z] by blast
    qed
  qed
next
  fix x assume x: "x \<in> insert hash (descendants ?m ?Q)"
  have mono: "(child_edges ?m)\<^sup>* \<subseteq> (child_edges m)\<^sup>*" by (rule rtrancl_mono) (auto simp: child_edges_def split: if_splits)
  show "x \<in> descendants m (insert hash Q)"
  proof (cases "x = hash")
    case False
    then obtain q where q: "q \<in> ?Q" "(q, x) \<in> (child_edges m)\<^sup>*" using x mono by (auto simp: descendants_def)
    then have "q \<in> Q \<or> (hash, q) \<in> child_edges m" using m by (auto simp: child_edges_def)
    then show ?thesis using q(2) by (auto simp: descendants_def intro: converse_rtrancl_into_rtrancl)
  qed (auto simp: descendants_def)
qed

lemma descendants_absent: "m hash = None \<Longrightarrow> descendants m (insert hash Q) = insert hash (descendants m Q)"
  by (auto simp: descendants_def child_edges_def elim: converse_rtranclE)

text \<open>The loop ends with the descendants of the queue removed, and keeps the invariant.\<close>

lemma remove_loop_recursive:
  assumes "pool_inv Hash pool"
  shows "\<exists>pool' txs. remove_loop Hash True q pool acc = Some (pool', acc @ txs) \<and> pool_inv Hash pool' \<and>
     map_of (mapTx pool') = map_of (mapTx pool) |` (- descendants (map_of (mapTx pool)) (set q)) \<and>
     tx_GetHash Hash ` set txs = descendants (map_of (mapTx pool)) (set q) \<inter> dom (map_of (mapTx pool)) \<and>
     mapDeltas pool' = mapDeltas pool"
  using assms
proof (induction Hash "True" q pool acc rule: remove_loop.induct)
  case (1 Hash pool acc)
  have "m |` UNIV = m" for m :: "uint256 \<Rightarrow> CTxMemPoolEntry option" by (auto simp: restrict_map_def)
  then show ?case using 1 by (simp add: descendants_def)
next
  case (2 Hash hash q pool acc)
  let ?m = "map_of (mapTx pool)"
  show ?case
  proof (cases "?m hash")
    case None
    then obtain pool' txs where r: "remove_loop Hash True q pool acc = Some (pool', acc @ txs)" "pool_inv Hash pool'"
      "map_of (mapTx pool') = ?m |` (- descendants ?m (set q))"
      "tx_GetHash Hash ` set txs = descendants ?m (set q) \<inter> dom ?m" "mapDeltas pool' = mapDeltas pool"
      using 2 by blast
    have "?m |` (- insert hash (descendants ?m (set q))) = ?m |` (- descendants ?m (set q))"
      using None by (auto simp: restrict_map_def fun_eq_iff)
    then show ?thesis using r None descendants_absent [of ?m hash "set q"] by auto
  next
    case (Some e)
    obtain hs where hs: "children Hash pool hash [0..<length (vout (pe_tx e))] = Some hs"
      "set hs = {c. \<exists>e'. ?m c = Some e' \<and> child (pe_tx e) hash e'}" using children_of [OF 2(3)] by blast
    let ?p = "erase_tx pool hash e" and ?D = "descendants (?m(hash := None)) (set q \<union> set hs)"
    have inv: "pool_inv Hash ?p" by (rule erase_inv [OF 2(3) Some])
    have deltas: "mapDeltas ?p = mapDeltas pool" by (simp add: erase_tx_def)
    have "(if True then children Hash pool hash [0..<length (vout (pe_tx e))] else Some []) = Some hs" using hs(1) by simp
    note IH = 2(2) [OF Some this inv]
    obtain pool' txs where r: "remove_loop Hash True (q @ hs) ?p (acc @ [pe_tx e]) = Some (pool', (acc @ [pe_tx e]) @ txs)"
      "pool_inv Hash pool'" "map_of (mapTx pool') = ?m(hash := None) |` (- ?D)"
      "tx_GetHash Hash ` set txs = ?D \<inter> dom (?m(hash := None))" "mapDeltas pool' = mapDeltas pool"
      using IH unfolding erase_maps(1) deltas set_append by blast
    have D: "descendants ?m (set (hash # q)) = insert hash ?D" using descendants_insert [of ?m hash, OF Some] hs(2) by simp
    have h: "tx_GetHash Hash (pe_tx e) = hash" using pool_invD(5) [OF 2(3) Some] .
    have "remove_loop Hash True (hash # q) pool acc = Some (pool', acc @ (pe_tx e # txs))"
      using Some hs(1) r(1) by simp
    moreover have "map_of (mapTx pool') = ?m |` (- insert hash ?D)" unfolding r(3) by (auto simp: restrict_map_def fun_eq_iff)
    moreover have "tx_GetHash Hash ` set (pe_tx e # txs) = insert hash ?D \<inter> dom ?m" using h r(4) Some by auto
    ultimately show ?thesis using r(2,5) unfolding D by blast
  qed
qed

lemma remove_loop_single:
  assumes "pool_inv Hash pool"
  shows "\<exists>pool' txs. remove_loop Hash False [h] pool acc = Some (pool', acc @ txs) \<and> pool_inv Hash pool' \<and>
     map_of (mapTx pool') = (map_of (mapTx pool))(h := None) \<and> mapDeltas pool' = mapDeltas pool"
proof (cases "map_of (mapTx pool) h")
  case None
  then show ?thesis using assms by (auto simp: fun_upd_idem)
next
  case (Some e)
  then show ?thesis using erase_inv [OF assms Some] by (auto simp: erase_maps) (simp add: erase_tx_def)
qed

text \<open>Where the removal starts.\<close>

definition removal_roots :: "(bytes \<Rightarrow> bytes) \<Rightarrow> CTransaction \<Rightarrow> CTxMemPool \<Rightarrow> uint256 set" where
  "removal_roots Hash tx pool =
     (let h = tx_GetHash Hash tx
      in if map_of (mapTx pool) h \<noteq> None then {h} else {c. \<exists>e. map_of (mapTx pool) c = Some e \<and> child tx h e})"

lemma remove_recursive:
  assumes inv: "pool_inv Hash pool"
  shows "\<exists>pool' txs. pool_remove Hash tx True pool acc = Some (pool', acc @ txs) \<and> pool_inv Hash pool' \<and>
     map_of (mapTx pool') = map_of (mapTx pool) |` (- descendants (map_of (mapTx pool)) (removal_roots Hash tx pool)) \<and>
     tx_GetHash Hash ` set txs = descendants (map_of (mapTx pool)) (removal_roots Hash tx pool) \<inter> dom (map_of (mapTx pool)) \<and>
     mapDeltas pool' = mapDeltas pool"
proof -
  let ?h = "tx_GetHash Hash tx" and ?m = "map_of (mapTx pool)"
  show ?thesis
  proof (cases "?m ?h")
    case None
    obtain hs where hs: "children Hash pool ?h [0..<length (vout tx)] = Some hs" "set hs = removal_roots Hash tx pool"
      using children_of [OF inv, of ?h tx] None by (auto simp: removal_roots_def)
    have "?m |` (- insert ?h (descendants ?m (set hs))) = ?m |` (- descendants ?m (set hs))"
      "insert ?h (descendants ?m (set hs)) \<inter> dom ?m = descendants ?m (set hs) \<inter> dom ?m"
      using None by (auto simp: restrict_map_def fun_eq_iff)
    then show ?thesis using remove_loop_recursive [OF inv, of "?h # hs" acc] hs None descendants_absent [of ?m ?h "set hs"]
      by (simp add: pool_remove_def Let_def)
  next
    case (Some e)
    then show ?thesis using remove_loop_recursive [OF inv, of "[?h]" acc] by (simp add: pool_remove_def removal_roots_def del: remove_loop.simps)
  qed
qed

lemma remove_single:
  assumes inv: "pool_inv Hash pool"
  shows "\<exists>pool' txs. pool_remove Hash tx False pool acc = Some (pool', acc @ txs) \<and> pool_inv Hash pool' \<and>
     map_of (mapTx pool') = (map_of (mapTx pool))(tx_GetHash Hash tx := None) \<and> mapDeltas pool' = mapDeltas pool"
  using remove_loop_single [OF inv] by (simp add: pool_remove_def del: remove_loop.simps)

subsection \<open>Conflicts with a block\<close>

lemma descendants_mono: "m' \<subseteq>\<^sub>m m \<Longrightarrow> Q' \<subseteq> Q \<Longrightarrow> descendants m' Q' \<subseteq> descendants m Q"
proof -
  assume "m' \<subseteq>\<^sub>m m" "Q' \<subseteq> Q"
  then have "child_edges m' \<subseteq> child_edges m" unfolding child_edges_def map_le_def dom_def by fastforce
  then have "(child_edges m')\<^sup>* \<subseteq> (child_edges m)\<^sup>*" by (rule rtrancl_mono)
  then show ?thesis using \<open>Q' \<subseteq> Q\<close> unfolding descendants_def by blast
qed

lemma descendants_Un_restrict:
  "descendants m (A \<union> B) \<subseteq> descendants m A \<union> descendants (m |` (- descendants m A)) B"
proof
  let ?m = "m |` (- descendants m A)"
  fix x assume "x \<in> descendants m (A \<union> B)"
  then obtain q where q: "q \<in> A \<union> B" "(q, x) \<in> (child_edges m)\<^sup>*" by (auto simp: descendants_def)
  from q(2) show "x \<in> descendants m A \<union> descendants ?m B"
  proof (induction rule: rtrancl_induct)
    case base
    then show ?case using q(1) descendants_start by blast
  next
    case (step y z)
    show ?case
    proof (cases "y \<in> descendants m A \<or> z \<in> descendants m A")
      case True
      then show ?thesis using descendants_step [OF _ step(2)] by blast
    next
      case False
      then have "(y, z) \<in> child_edges ?m" using step(2) by (auto simp: child_edges_def)
      then show ?thesis using step(3) False descendants_step [of y ?m B z] by blast
    qed
  qed
qed

lemma descendants_dom: "descendants m Q \<inter> dom m \<subseteq> descendants m (Q \<inter> dom m)"
proof
  fix x assume x: "x \<in> descendants m Q \<inter> dom m"
  then obtain q where q: "q \<in> Q" "(q, x) \<in> (child_edges m)\<^sup>*" by (auto simp: descendants_def)
  from q(2) have "q \<in> dom m" using x by (cases rule: converse_rtranclE) (auto simp: child_edges_def)
  then show "x \<in> descendants m (Q \<inter> dom m)" using q by (auto simp: descendants_def)
qed

lemma restrict_descendants:
  assumes "\<And>c. c \<in> dom m \<Longrightarrow> c \<notin> descendants m A \<Longrightarrow> c \<in> B' \<longleftrightarrow> c \<in> B" "B' \<subseteq> B"
  shows "m |` (- descendants m A) |` (- descendants (m |` (- descendants m A)) B') = m |` (- descendants m (A \<union> B))"
    (is "?m1 |` _ = _")
proof -
  have "x \<in> descendants ?m1 B' \<longleftrightarrow> x \<in> descendants m (A \<union> B)" if x: "x \<in> dom m" "x \<notin> descendants m A" for x
  proof
    assume "x \<in> descendants ?m1 B'"
    moreover have "descendants ?m1 B' \<subseteq> descendants m (A \<union> B)"
      using assms(2) by (intro descendants_mono) (auto simp: map_le_def)
    ultimately show "x \<in> descendants m (A \<union> B)" by blast
  next
    assume "x \<in> descendants m (A \<union> B)"
    then have "x \<in> descendants ?m1 B \<inter> dom ?m1" using descendants_Un_restrict [of m A B] x by auto
    then have "x \<in> descendants ?m1 (B \<inter> dom ?m1)" using descendants_dom by blast
    moreover have "B \<inter> dom ?m1 \<subseteq> B'" using assms(1) by (auto simp: restrict_map_def dom_def split: if_splits)
    ultimately show "x \<in> descendants ?m1 B'" using descendants_mono [of ?m1 ?m1 "B \<inter> dom ?m1" B'] by auto
  qed
  moreover have "descendants m A \<subseteq> descendants m (A \<union> B)" by (intro descendants_mono) auto
  ultimately have "(?m1 |` (- descendants ?m1 B')) x = (m |` (- descendants m (A \<union> B))) x" for x
    by (cases "m x"; cases "x \<in> descendants m A") (auto simp: restrict_map_def dom_def)
  then show ?thesis by blast
qed

definition conflicting :: "(uint256 \<Rightarrow> CTxMemPoolEntry option) \<Rightarrow> uint256 \<Rightarrow> CTxIn list \<Rightarrow> uint256 set" where
  "conflicting m h ins =
     {c. c \<noteq> h \<and> (\<exists>e. m c = Some e \<and> (\<exists>t\<in>set (vin (pe_tx e)). prevout t \<in> prevout ` set ins))}"

lemma conflicts_loop_spec:
  assumes "pool_inv Hash pool"
  shows "\<exists>pool' txs. conflicts_loop Hash tx ins pool acc = Some (pool', acc @ txs) \<and> pool_inv Hash pool' \<and>
     map_of (mapTx pool') =
       map_of (mapTx pool) |` (- descendants (map_of (mapTx pool)) (conflicting (map_of (mapTx pool)) (tx_GetHash Hash tx) ins)) \<and>
     mapDeltas pool' = mapDeltas pool"
  using assms
proof (induction ins arbitrary: pool acc)
  case Nil
  have "m |` UNIV = m" for m :: "uint256 \<Rightarrow> CTxMemPoolEntry option" by (auto simp: restrict_map_def)
  then show ?case using Nil by (simp add: conflicting_def descendants_def)
next
  case (Cons txin ins)
  let ?m = "map_of (mapTx pool)" and ?h = "tx_GetHash Hash tx"
  note p = pool_invD [OF Cons.prems]
  have split: "conflicting ?m ?h (txin # ins) = conflicting ?m ?h [txin] \<union> conflicting ?m ?h ins"
    unfolding conflicting_def list.set image_insert image_empty by blast
  show ?case
  proof (cases "map_of (mapNextTx pool) (prevout txin)")
    case None
    have "conflicting ?m ?h [txin] = {}"
    proof (rule ccontr)
      assume "conflicting ?m ?h [txin] \<noteq> {}"
      then obtain c e t where c: "?m c = Some e" "t \<in> set (vin (pe_tx e))" "prevout t = prevout txin"
        by (auto simp: conflicting_def)
      then obtain j where "j < length (vin (pe_tx e))" "vin (pe_tx e) ! j = t" by (auto simp: in_set_conv_nth)
      then show False using next_okI [OF p(3) c(1), of j "prevout txin"] None c(3) by simp
    qed
    then show ?thesis using Cons None unfolding split by simp
  next
    case (Some ip)
    then obtain c e j where c: "?m c = Some e" "j < length (vin (pe_tx e))"
      "prevout (vin (pe_tx e) ! j) = prevout txin" "ip = \<lparr>ip_ptx = Some c, ip_n = of_nat j\<rparr>"
      using next_okD [OF p(3)] by blast
    have "c' = c" if "?m c' = Some e'" "t \<in> set (vin (pe_tx e'))" "prevout t = prevout txin" for c' e' t
      using no_double_spend [OF p(3) that(1) c(1) that(2), of "vin (pe_tx e) ! j"] that(3) c(2,3) by simp
    moreover have "\<exists>t\<in>set (vin (pe_tx e)). prevout t = prevout txin" using c(2,3) by (metis nth_mem)
    ultimately have one: "conflicting ?m ?h [txin] = (if c = ?h then {} else {c})"
      using c(1) unfolding conflicting_def by auto
    have ip: "ip_tx pool ip = Some (pe_tx e)" "tx_GetHash Hash (pe_tx e) = c"
      using c p(5) by (simp_all add: ip_tx_def)
    show ?thesis
    proof (cases "c = ?h")
      case True
      then show ?thesis using Cons Some ip one unfolding split by simp
    next
      case False
      have "removal_roots Hash (pe_tx e) pool = {c}" using ip(2) c(1) by (simp add: removal_roots_def)
      then obtain pool1 txs1 where r: "pool_remove Hash (pe_tx e) True pool acc = Some (pool1, acc @ txs1)" "pool_inv Hash pool1"
        "map_of (mapTx pool1) = ?m |` (- descendants ?m {c})" "mapDeltas pool1 = mapDeltas pool"
        using remove_recursive [OF Cons.prems, of "pe_tx e" acc] by auto
      obtain pool' txs where r': "conflicts_loop Hash tx ins pool1 (acc @ txs1) = Some (pool', (acc @ txs1) @ txs)" "pool_inv Hash pool'"
        "map_of (mapTx pool') = map_of (mapTx pool1) |`
           (- descendants (map_of (mapTx pool1)) (conflicting (map_of (mapTx pool1)) ?h ins))" "mapDeltas pool' = mapDeltas pool1"
        using Cons.IH [OF r(2), of "acc @ txs1"] by blast
      have "map_of (mapTx pool') = ?m |` (- descendants ?m ({c} \<union> conflicting ?m ?h ins))"
        unfolding r'(3) r(3) by (rule restrict_descendants) (auto simp: conflicting_def restrict_map_def split: if_splits)
      then show ?thesis using Some ip False one r(1,4) r'(1,2,4) unfolding split by simp
    qed
  qed
qed

lemma removeConflicts_spec:
  assumes "pool_inv Hash pool"
  shows "\<exists>pool' txs. removeConflicts Hash tx pool acc = Some (pool', acc @ txs) \<and> pool_inv Hash pool' \<and>
     map_of (mapTx pool') =
       map_of (mapTx pool) |` (- descendants (map_of (mapTx pool)) (conflicting (map_of (mapTx pool)) (tx_GetHash Hash tx) (vin tx))) \<and>
     mapDeltas pool' = mapDeltas pool"
  unfolding removeConflicts_def by (rule conflicts_loop_spec [OF assms])

text \<open>No transaction of the pool conflicts with, or is, the given one.\<close>

definition clear_of :: "(bytes \<Rightarrow> bytes) \<Rightarrow> (uint256 \<Rightarrow> CTxMemPoolEntry option) \<Rightarrow> CTransaction \<Rightarrow> bool" where
  "clear_of Hash m tx \<longleftrightarrow>
     m (tx_GetHash Hash tx) = None \<and>
     (\<forall>h e. m h = Some e \<longrightarrow> (\<forall>t\<in>set (vin (pe_tx e)). prevout t \<notin> prevout ` set (vin tx)))"

lemma map_le_Some: "m \<subseteq>\<^sub>m m' \<Longrightarrow> m k = Some v \<Longrightarrow> m' k = Some v"
  unfolding map_le_def dom_def by auto

lemma clear_of_mono:
  assumes "clear_of Hash m tx" "m' \<subseteq>\<^sub>m m" shows "clear_of Hash m' tx"
proof -
  have le: "m' k = Some v \<Longrightarrow> m k = Some v" for k v by (rule map_le_Some [OF assms(2)])
  have "m' (tx_GetHash Hash tx) = None"
    using assms(1) le [of "tx_GetHash Hash tx"] unfolding clear_of_def by (cases "m' (tx_GetHash Hash tx)") auto
  then show ?thesis using assms(1) le unfolding clear_of_def by blast
qed

lemma clear_of_conflicts:
  assumes "m h = None" "h = tx_GetHash Hash tx"
  shows "clear_of Hash (m |` (- descendants m (conflicting m h (vin tx)))) tx"
proof -
  have "prevout t \<notin> prevout ` set (vin tx)"
    if "m c = Some e" "c \<notin> descendants m (conflicting m h (vin tx))" "t \<in> set (vin (pe_tx e))" for c e t
  proof
    assume "prevout t \<in> prevout ` set (vin tx)"
    then have "c \<in> conflicting m h (vin tx)" using that(1,3) assms(1) unfolding conflicting_def by auto
    then show False using that(2) descendants_start by blast
  qed
  then show ?thesis using assms by (auto simp: clear_of_def restrict_map_def split: if_splits)
qed

text \<open>
  After a block the pool is clear of its transactions, and only they and the descendants of what conflicts
  with them have left.
\<close>

lemma block_loop_spec:
  assumes "pool_inv Hash pool"
  shows "\<exists>pool' conflicts'. block_loop Hash txs pool conflicts = Some (pool', conflicts') \<and> pool_inv Hash pool' \<and>
     map_of (mapTx pool') \<subseteq>\<^sub>m map_of (mapTx pool) \<and>
     (\<forall>tx\<in>set txs. clear_of Hash (map_of (mapTx pool')) tx) \<and>
     map_of (mapTx pool) |` (- (tx_GetHash Hash ` set txs \<union> descendants (map_of (mapTx pool))
        (\<Union>tx\<in>set txs. conflicting (map_of (mapTx pool)) (tx_GetHash Hash tx) (vin tx)))) \<subseteq>\<^sub>m map_of (mapTx pool')"
  using assms
proof (induction txs arbitrary: pool conflicts)
  case Nil
  then show ?case by (auto simp: map_le_def)
next
  case (Cons tx txs)
  let ?h = "tx_GetHash Hash tx" and ?m = "map_of (mapTx pool)"
  let ?C = "\<lambda>m txs. \<Union>tx\<in>set txs. conflicting m (tx_GetHash Hash tx) (vin tx)"
  obtain pool1 rs where r1: "pool_remove Hash tx False pool [] = Some (pool1, [] @ rs)" "pool_inv Hash pool1"
    "map_of (mapTx pool1) = ?m(?h := None)" using remove_single [OF Cons.prems, of tx "[]"] by blast
  let ?m1 = "?m(?h := None)"
  obtain pool2 rs' where r2: "removeConflicts Hash tx pool1 conflicts = Some (pool2, conflicts @ rs')" "pool_inv Hash pool2"
    "map_of (mapTx pool2) = ?m1 |` (- descendants ?m1 (conflicting ?m1 ?h (vin tx)))"
    using removeConflicts_spec [OF r1(2), of tx conflicts] unfolding r1(3) by blast
  let ?p = "ClearPrioritisation pool2 ?h" and ?m2 = "map_of (mapTx pool2)"
  have p: "pool_inv Hash ?p" "mapTx ?p = mapTx pool2"
    using r2(2) by (simp_all add: ClearPrioritisation_def pool_inv_def next_ok_def)
  obtain pool' conflicts' where r3: "block_loop Hash txs ?p (conflicts @ rs') = Some (pool', conflicts')" "pool_inv Hash pool'"
    "map_of (mapTx pool') \<subseteq>\<^sub>m ?m2" "\<forall>tx\<in>set txs. clear_of Hash (map_of (mapTx pool')) tx"
    "?m2 |` (- (tx_GetHash Hash ` set txs \<union> descendants ?m2 (?C ?m2 txs))) \<subseteq>\<^sub>m map_of (mapTx pool')"
    using Cons.IH [OF p(1), of "conflicts @ rs'"] unfolding p(2) by blast
  have le: "?m1 \<subseteq>\<^sub>m ?m" "?m2 \<subseteq>\<^sub>m ?m" unfolding r2(3) by (auto simp: map_le_def restrict_map_def)
  have "clear_of Hash ?m2 tx" unfolding r2(3) by (rule clear_of_conflicts) simp_all
  moreover have "descendants ?m1 (conflicting ?m1 ?h (vin tx)) \<subseteq> descendants ?m (?C ?m (tx # txs))"
    using le(1) by (intro descendants_mono) (auto simp: conflicting_def split: if_splits)
  moreover have "descendants ?m2 (?C ?m2 txs) \<subseteq> descendants ?m (?C ?m (tx # txs))"
    using le(2) by (intro descendants_mono) (force simp: conflicting_def map_le_def dom_def)+
  ultimately have "?m |` (- (tx_GetHash Hash ` set (tx # txs) \<union> descendants ?m (?C ?m (tx # txs)))) \<subseteq>\<^sub>m
      ?m2 |` (- (tx_GetHash Hash ` set txs \<union> descendants ?m2 (?C ?m2 txs)))"
    unfolding r2(3) by (force simp: map_le_def restrict_map_def dom_def split: if_splits)
  then show ?case
    using r1(1) r2(1) r3 le(2) \<open>clear_of Hash ?m2 tx\<close> clear_of_mono [of Hash ?m2 tx "map_of (mapTx pool')"]
    by (auto intro: map_le_trans)
qed

subsection \<open>Immature spends\<close>

lemma set_insert_ordered: "set (insert_ordered lt x ys) = insert x (set ys)"
  by (induction ys) auto

lemma set_walk: "set (walk lt m) = set m"
  by (induction m) (simp_all add: walk_def set_insert_ordered)

text \<open>With the sanity checks on, the coins an input spends have to be there.\<close>

definition spends_known :: "CTxMemPool \<Rightarrow> (uint256 \<Rightarrow> CCoins option) \<Rightarrow> CTxIn list \<Rightarrow> bool" where
  "spends_known pool content ins \<longleftrightarrow>
     (\<forall>txin\<in>set ins. \<not> pool_exists pool (op_hash (prevout txin)) \<longrightarrow> content (op_hash (prevout txin)) \<noteq> None)"

context cache_on_view
begin

lemma AccessCoins_fetch:
  "AccessCoins get c t = (r, c') \<longleftrightarrow> (\<exists>e. FetchCoins get c t = (e, c') \<and> r = map_option e_coins e)"
  by (auto simp: AccessCoins_def split: prod.splits option.splits)

lemma spends_immature_law:
  assumes "cinv c" "spends_immature get P pool h ins c = Some (b, c')"
  shows "cinv c' \<and> ccontent c' = ccontent c \<and>
    (\<not> b \<longrightarrow> (\<forall>txin\<in>set ins. \<not> pool_exists pool (op_hash (prevout txin)) \<longrightarrow>
       (\<forall>coins. ccontent c (op_hash (prevout txin)) = Some coins \<longrightarrow> \<not> immature P h coins))) \<and>
    (b \<longrightarrow> (\<exists>txin\<in>set ins. \<not> pool_exists pool (op_hash (prevout txin)) \<and>
       (\<forall>coins. ccontent c (op_hash (prevout txin)) = Some coins \<longrightarrow> immature P h coins)))"
  using assms
proof (induction ins arbitrary: c)
  case (Cons txin ins)
  show ?case
  proof (cases "pool_exists pool (op_hash (prevout txin))")
    case True
    then show ?thesis using Cons by auto
  next
    case False
    obtain e c1 where f: "FetchCoins get c (op_hash (prevout txin)) = (e, c1)" by fastforce
    note F = FetchCoins_law [OF Cons.prems(1) f]
    have a: "AccessCoins get c (op_hash (prevout txin)) = (map_option e_coins e, c1)" using f by (simp add: AccessCoins_fetch)
    show ?thesis
    proof (cases e)
      case None
      then show ?thesis using Cons.prems(2) False a F by (auto split: if_splits)
    next
      case (Some x)
      have same: "ccontent c (op_hash (prevout txin)) = Some coins \<Longrightarrow> immature P h coins \<longleftrightarrow> immature P h (e_coins x)" for coins
        using F Some by (auto simp: live_def split: if_splits)
      show ?thesis
      proof (cases "immature P h (e_coins x)")
        case True
        then show ?thesis using Cons.prems(2) False a F Some same by auto
      next
        case m: False
        then have r: "spends_immature get P pool h ins c1 = Some (b, c')" using Cons.prems(2) False a Some by simp
        then show ?thesis using Cons.IH [OF _ r] F same m by auto
      qed
    qed
  qed
qed simp

lemma immature_loop_law:
  assumes "cinv c" "immature_loop get P pool h its c = Some (txs, c')"
  shows "cinv c' \<and> ccontent c' = ccontent c \<and>
    (\<forall>it\<in>set its. pe_tx (snd it) \<in> set txs \<or> (\<forall>txin\<in>set (vin (pe_tx (snd it))). \<not> pool_exists pool (op_hash (prevout txin)) \<longrightarrow>
       (\<forall>coins. ccontent c (op_hash (prevout txin)) = Some coins \<longrightarrow> \<not> immature P h coins))) \<and>
    (\<forall>tx\<in>set txs. \<exists>it\<in>set its. pe_tx (snd it) = tx \<and> (\<exists>txin\<in>set (vin tx). \<not> pool_exists pool (op_hash (prevout txin)) \<and>
       (\<forall>coins. ccontent c (op_hash (prevout txin)) = Some coins \<longrightarrow> immature P h coins)))"
  using assms
proof (induction its arbitrary: c txs)
  case (Cons it its)
  obtain b c1 where s: "spends_immature get P pool h (vin (pe_tx (snd it))) c = Some (b, c1)"
    using Cons.prems(2) by (auto split: option.splits)
  note S = spends_immature_law [OF Cons.prems(1) s]
  obtain txs1 where r: "immature_loop get P pool h its c1 = Some (txs1, c')" "txs = (if b then pe_tx (snd it) # txs1 else txs1)"
    using Cons.prems(2) s by (auto split: option.splits)
  have "cinv c1" using S by blast
  from Cons.IH [OF this r(1)] S r(2) show ?case by auto
qed simp

lemma spends_immature_total:
  assumes "cinv c" "fSanityCheck pool \<longrightarrow> spends_known pool (ccontent c) ins"
  shows "\<exists>b c'. spends_immature get P pool h ins c = Some (b, c')"
  using assms
proof (induction ins arbitrary: c)
  case (Cons txin ins)
  obtain e c1 where f: "FetchCoins get c (op_hash (prevout txin)) = (e, c1)" by fastforce
  have a: "AccessCoins get c (op_hash (prevout txin)) = (map_option e_coins e, c1)" using f by (simp add: AccessCoins_fetch)
  note F = FetchCoins_law [OF Cons.prems(1) f]
  have "fSanityCheck pool \<longrightarrow> spends_known pool (ccontent c1) ins" using F Cons.prems(2) by (auto simp: spends_known_def)
  then show ?case using Cons.IH [of c1] Cons.IH [of c] Cons.prems a F by (cases e) (auto simp: spends_known_def)
qed auto

lemma immature_loop_total:
  assumes "cinv c" "fSanityCheck pool \<longrightarrow> (\<forall>it\<in>set its. spends_known pool (ccontent c) (vin (pe_tx (snd it))))"
  shows "\<exists>txs c'. immature_loop get P pool h its c = Some (txs, c')"
  using assms
proof (induction its arbitrary: c)
  case (Cons it its)
  obtain b c1 where s: "spends_immature get P pool h (vin (pe_tx (snd it))) c = Some (b, c1)"
    using spends_immature_total [OF Cons.prems(1)] Cons.prems(2) by fastforce
  have "cinv c1" "ccontent c1 = ccontent c" using spends_immature_law [OF Cons.prems(1) s] by blast+
  then obtain txs c' where "immature_loop get P pool h its c1 = Some (txs, c')" using Cons by fastforce
  then show ?case using s by simp
qed auto

end

lemma remove_all_spec:
  assumes "pool_inv Hash pool" "map_of (mapTx pool) \<subseteq>\<^sub>m m"
    "\<forall>tx\<in>set txs. \<exists>e. m (tx_GetHash Hash tx) = Some e \<and> pe_tx e = tx"
  shows "\<exists>pool'. remove_all Hash txs pool = Some pool' \<and> pool_inv Hash pool' \<and>
     map_of (mapTx pool') \<subseteq>\<^sub>m map_of (mapTx pool) \<and> (\<forall>tx\<in>set txs. map_of (mapTx pool') (tx_GetHash Hash tx) = None) \<and>
     map_of (mapTx pool) |` (- descendants m (tx_GetHash Hash ` set txs)) \<subseteq>\<^sub>m map_of (mapTx pool')"
  using assms
proof (induction txs arbitrary: pool)
  case (Cons tx txs)
  let ?m = "map_of (mapTx pool)" and ?h = "tx_GetHash Hash tx"
  obtain pool1 rs where r: "pool_remove Hash tx True pool [] = Some (pool1, rs)" "pool_inv Hash pool1"
    "map_of (mapTx pool1) = ?m |` (- descendants ?m (removal_roots Hash tx pool))"
    using remove_recursive [OF Cons.prems(1), of tx "[]"] by auto
  have gone: "map_of (mapTx pool1) ?h = None"
    using r(3) descendants_start [of "removal_roots Hash tx pool" ?m]
    by (cases "?m ?h") (auto simp: removal_roots_def restrict_map_def)
  have le: "map_of (mapTx pool1) \<subseteq>\<^sub>m ?m" unfolding r(3) by (auto simp: map_le_def restrict_map_def)
  obtain e where e: "m ?h = Some e" "pe_tx e = tx" using Cons.prems(3) by auto
  have "removal_roots Hash tx pool \<subseteq> descendants m {?h}"
  proof
    fix c assume c: "c \<in> removal_roots Hash tx pool"
    show "c \<in> descendants m {?h}"
    proof (cases "?m ?h")
      case Some
      then have "c = ?h" using c by (simp add: removal_roots_def)
      then show ?thesis using descendants_start [of "{?h}" m] by blast
    next
      case None
      then obtain e' where "?m c = Some e'" "child tx ?h e'" using c by (auto simp: removal_roots_def)
      then have "(?h, c) \<in> child_edges m" using e map_le_Some [OF Cons.prems(2)] by (auto simp: child_edges_def)
      then show ?thesis using descendants_step [of ?h m "{?h}" c] descendants_start [of "{?h}" m] by blast
    qed
  qed
  then have "descendants m (removal_roots Hash tx pool) \<subseteq> descendants m {?h}"
    unfolding descendants_def by (auto dest: rtrancl_trans)
  then have d: "descendants ?m (removal_roots Hash tx pool) \<subseteq> descendants m {?h}"
    using descendants_mono [OF Cons.prems(2) order_refl] by blast
  obtain pool' where p: "remove_all Hash txs pool1 = Some pool'" "pool_inv Hash pool'"
    "map_of (mapTx pool') \<subseteq>\<^sub>m map_of (mapTx pool1)" "\<forall>tx\<in>set txs. map_of (mapTx pool') (tx_GetHash Hash tx) = None"
    "map_of (mapTx pool1) |` (- descendants m (tx_GetHash Hash ` set txs)) \<subseteq>\<^sub>m map_of (mapTx pool')"
    using Cons.IH [OF r(2) map_le_trans [OF le Cons.prems(2)]] Cons.prems(3) by auto
  have "map_of (mapTx pool') ?h = None"
    using gone map_le_Some [OF p(3), of ?h] by (cases "map_of (mapTx pool') ?h") auto
  moreover have "?m |` (- descendants m (tx_GetHash Hash ` set (tx # txs))) \<subseteq>\<^sub>m
      map_of (mapTx pool1) |` (- descendants m (tx_GetHash Hash ` set txs))"
  proof -
    have "descendants m (tx_GetHash Hash ` set (tx # txs)) = descendants m {?h} \<union> descendants m (tx_GetHash Hash ` set txs)"
      by (auto simp: descendants_def)
    then show ?thesis using d unfolding r(3) by (auto simp: map_le_def restrict_map_def split: if_splits)
  qed
  ultimately show ?case using r(1) p map_le_trans [OF p(3) le] map_le_trans [OF _ p(5)] by auto
qed (auto simp: map_le_def restrict_map_def)

text \<open>Coins of the chain below the height are immature for fewer blocks than the maturity.\<close>

lemma immature_iff:
  assumes "0 \<le> nMaturity P" "nMaturity P < 2 ^ 32" "c_nHeight coins \<le> h"
  shows "immature P h coins \<longleftrightarrow> (c_fCoinBase coins \<or> c_fCoinStake coins) \<and> uint h < uint (c_nHeight coins) + nMaturity P"
proof -
  have "uint (h - c_nHeight coins) = uint h - uint (c_nHeight coins)" using assms(3) by (simp add: uint_minus_simple_alt word_le_def)
  moreover have "uint (word_of_int (nMaturity P) :: u32) = nMaturity P" using assms(1,2) by (simp add: unsigned_of_int take_bit_int_eq_self)
  ultimately show ?thesis by (auto simp: immature_def word_less_def)
qed

text \<open>The transactions of the pool that spend an immature coinbase or coinstake, or coins that are not there.\<close>

definition unspendable_now :: "CChainParams \<Rightarrow> u32 \<Rightarrow> (uint256 \<Rightarrow> CCoins option) \<Rightarrow> CTxMemPool \<Rightarrow> uint256 set" where
  "unspendable_now P h content pool =
     {hash. \<exists>e. map_of (mapTx pool) hash = Some e \<and>
        (\<exists>txin\<in>set (vin (pe_tx e)). \<not> pool_exists pool (op_hash (prevout txin)) \<and>
           (\<forall>coins. content (op_hash (prevout txin)) = Some coins \<longrightarrow>
              (c_fCoinBase coins \<or> c_fCoinStake coins) \<and> uint h < uint (c_nHeight coins) + nMaturity P))}"

lemma removeCoinbaseSpends_law:
  assumes v: "tip_inv K v" and inv: "pool_inv Hash pool" and P: "0 \<le> nMaturity P" "nMaturity P < 2 ^ 32"
    and s: "fSanityCheck pool \<longrightarrow> (\<forall>hash e. map_of (mapTx pool) hash = Some e \<longrightarrow> spends_known pool (tip_content K v) (vin (pe_tx e)))"
    and c: "\<forall>hash coins. tip_content K v hash = Some coins \<longrightarrow> c_nHeight coins \<le> h"
  shows "\<exists>pool' v'. removeCoinbaseSpends Hash (db_GetCoins K) P h pool v = Some (pool', v') \<and> pool_inv Hash pool' \<and>
    tip_inv K v' \<and> tip_content K v' = tip_content K v \<and> map_of (mapTx pool') \<subseteq>\<^sub>m map_of (mapTx pool) \<and>
    (\<forall>hash e. map_of (mapTx pool') hash = Some e \<longrightarrow>
       (\<forall>txin\<in>set (vin (pe_tx e)). \<not> pool_exists pool (op_hash (prevout txin)) \<longrightarrow>
          (\<forall>coins. tip_content K v (op_hash (prevout txin)) = Some coins \<longrightarrow>
             c_fCoinBase coins \<or> c_fCoinStake coins \<longrightarrow> uint (c_nHeight coins) + nMaturity P \<le> uint h))) \<and>
    map_of (mapTx pool) |` (- descendants (map_of (mapTx pool)) (unspendable_now P h (tip_content K v) pool)) \<subseteq>\<^sub>m map_of (mapTx pool')"
proof -
  let ?its = "walk hash_less (mapTx pool)" and ?m = "map_of (mapTx pool)"
  have its: "?m (fst it) = Some (snd it)" if "it \<in> set ?its" for it
    using that [unfolded set_walk] pool_invD(1) [OF inv] by (intro map_of_is_SomeI) simp_all
  have "fSanityCheck pool \<longrightarrow> (\<forall>it\<in>set ?its. spends_known pool (tip_content K v) (vin (pe_tx (snd it))))" using s its by blast
  then obtain txs v' where l: "immature_loop (db_GetCoins K) P pool h ?its v = Some (txs, v')"
    using coins_tip.immature_loop_total [of K v pool ?its P h] v unfolding view_defs by blast
  have L: "tip_inv K v' \<and> tip_content K v' = tip_content K v \<and>
    (\<forall>it\<in>set ?its. pe_tx (snd it) \<in> set txs \<or> (\<forall>txin\<in>set (vin (pe_tx (snd it))). \<not> pool_exists pool (op_hash (prevout txin)) \<longrightarrow>
       (\<forall>coins. tip_content K v (op_hash (prevout txin)) = Some coins \<longrightarrow> \<not> immature P h coins))) \<and>
    (\<forall>tx\<in>set txs. \<exists>it\<in>set ?its. pe_tx (snd it) = tx \<and> (\<exists>txin\<in>set (vin tx). \<not> pool_exists pool (op_hash (prevout txin)) \<and>
       (\<forall>coins. tip_content K v (op_hash (prevout txin)) = Some coins \<longrightarrow> immature P h coins)))"
    using coins_tip.immature_loop_law [of K v P pool h ?its txs v'] v l unfolding view_defs by blast
  have i: "immature P h coins \<longleftrightarrow> (c_fCoinBase coins \<or> c_fCoinStake coins) \<and> uint h < uint (c_nHeight coins) + nMaturity P"
    if "tip_content K v hash = Some coins" for hash coins
    using immature_iff [OF P] c that by blast
  have T: "\<exists>it\<in>set ?its. pe_tx (snd it) = tx \<and> tx_GetHash Hash tx = fst it \<and> fst it \<in> unspendable_now P h (tip_content K v) pool"
    if tx: "tx \<in> set txs" for tx
  proof -
    obtain it where it: "it \<in> set ?its" "pe_tx (snd it) = tx" "\<exists>txin\<in>set (vin tx). \<not> pool_exists pool (op_hash (prevout txin)) \<and>
       (\<forall>coins. tip_content K v (op_hash (prevout txin)) = Some coins \<longrightarrow> immature P h coins)" using L tx by blast
    have "tx_GetHash Hash tx = fst it" using pool_invD(5) [OF inv its [OF it(1)]] it(2) by simp
    moreover have "fst it \<in> unspendable_now P h (tip_content K v) pool"
      unfolding unspendable_now_def using its [OF it(1)] it(2,3) i by blast
    ultimately show ?thesis using it(1,2) by blast
  qed
  have txs: "\<forall>tx\<in>set txs. \<exists>e. ?m (tx_GetHash Hash tx) = Some e \<and> pe_tx e = tx" using T its by fastforce
  obtain pool' where p: "remove_all Hash txs pool = Some pool'" "pool_inv Hash pool'"
    "map_of (mapTx pool') \<subseteq>\<^sub>m ?m" "\<forall>tx\<in>set txs. map_of (mapTx pool') (tx_GetHash Hash tx) = None"
    "?m |` (- descendants ?m (tx_GetHash Hash ` set txs)) \<subseteq>\<^sub>m map_of (mapTx pool')"
    using remove_all_spec [OF inv map_le_refl txs] by blast
  have "tx_GetHash Hash ` set txs \<subseteq> unspendable_now P h (tip_content K v) pool" using T by fastforce
  then have "descendants ?m (tx_GetHash Hash ` set txs) \<subseteq> descendants ?m (unspendable_now P h (tip_content K v) pool)"
    by (intro descendants_mono) simp_all
  then have k: "?m |` (- descendants ?m (unspendable_now P h (tip_content K v) pool)) \<subseteq>\<^sub>m map_of (mapTx pool')"
    using p(5) by (intro map_le_trans [OF _ p(5)]) (auto simp: map_le_def restrict_map_def)
  have "pe_tx e \<notin> set txs \<and> (hash, e) \<in> set ?its" if "map_of (mapTx pool') hash = Some e" for hash e
    using that p(4) pool_invD(5) [OF p(2) that] map_of_SomeD [OF map_le_Some [OF p(3) that]] by (auto simp: set_walk)
  then have stay: "\<not> immature P h coins"
    if "map_of (mapTx pool') hash = Some e" "txin \<in> set (vin (pe_tx e))" "\<not> pool_exists pool (op_hash (prevout txin))"
      "tip_content K v (op_hash (prevout txin)) = Some coins" for hash e txin coins
    using L that by fastforce
  have "removeCoinbaseSpends Hash (db_GetCoins K) P h pool v = Some (pool', v')" using l p(1) by (simp add: removeCoinbaseSpends_def)
  moreover have "c_fCoinBase coins \<or> c_fCoinStake coins \<longrightarrow> uint (c_nHeight coins) + nMaturity P \<le> uint h"
    if "map_of (mapTx pool') hash = Some e" "txin \<in> set (vin (pe_tx e))" "\<not> pool_exists pool (op_hash (prevout txin))"
      "tip_content K v (op_hash (prevout txin)) = Some coins" for hash e txin coins
    using stay [OF that] i [OF that(4)] by (auto simp: not_less)
  ultimately show ?thesis using L p(2,3) k by blast
qed

end
