(* ===== verification/Activation.thy ===== *)
theory Activation
  imports Mempool Connect
begin

text \<open>
  Choosing and activating the best chain (\<^verbatim>\<open>main.cpp\<close>): the candidates for the tip, the step from the
  active chain towards the best of them, by disconnecting and connecting blocks, and the marking of
  blocks as invalid. A pointer to a block index is the \<^typ>\<open>CBlockIndex\<close> that was entered in the block map:
  its place in the tree, its height and its work never change. The fields that do change (status,
  transaction counts, sequence number, supply, file positions) are read from a heap of entries. The block
  and undo files, what is due to be written and the acceptance of a transaction to the memory pool are
  outcomes that may depend on the state; the connecting itself is that of the theory \<^verbatim>\<open>Connect\<close>. The
  warnings about forks and old versions, the signals to the wallet, timing and logging are left out, as
  are \<^verbatim>\<open>mempool.check\<close>, which changes nothing and only asserts when the node was started with
  \<^verbatim>\<open>-checkmempool\<close>, and what other threads do while \<^verbatim>\<open>ActivateBestChain\<close> gives up \<^verbatim>\<open>cs_main\<close> between
  two rounds: the rounds follow each other.
\<close>

subsection \<open>The state of the node\<close>

record CBlockReject =
  rj_chRejectCode :: byte
  rj_strRejectReason :: string
  rj_hashBlock :: uint256

record CNodeState =
  nMisbehavior :: int
  fShouldBan :: bool
  rejects :: "CBlockReject list"

record 'b node_state =
  chainActive :: CChain
  heap :: "CBlockIndex \<Rightarrow> block_entry"
  pcoinsTip :: "'b CCoinsViewCache"
  mempool :: CTxMemPool
  masternodePayments :: mn_state
  mapBlockIndex :: "(uint256 \<times> CBlockIndex) list"
  setBlockIndexCandidates :: "CBlockIndex list"
  mapBlocksUnlinked :: "(CBlockIndex option \<times> CBlockIndex) list"
  pindexBestInvalid :: "CBlockIndex option"
  pindexBestHeader :: "CBlockIndex option"
  setDirtyBlockIndex :: "CBlockIndex list"
  nBlockSequenceId :: u32
  mapBlockSource :: "(uint256 \<times> int) list"
  mapNodeState :: "(int \<times> CNodeState) list"

datatype FlushStateMode = FLUSH_STATE_IF_NEEDED | FLUSH_STATE_PERIODIC | FLUSH_STATE_ALWAYS

text \<open>What writing comes to, with the entries that were not written and the coins that stay in the cache.\<close>

datatype write_outcome = Written | No_space | Index_failed "CBlockIndex list" | Coins_failed | Write_threw string "CBlockIndex list" CCoinsMap

record 'b node_ops =
  op_Quark :: "bytes \<Rightarrow> bytes"
  op_Hash :: "bytes \<Rightarrow> bytes"
  op_get :: "'b \<Rightarrow> uint256 \<Rightarrow> CCoins option \<times> 'b"
  op_best :: "'b \<Rightarrow> uint256 \<times> 'b"
  op_put :: "'b \<Rightarrow> CCoinsMap \<Rightarrow> uint256 \<Rightarrow> 'b option"
  op_env :: "'b node_state \<Rightarrow> connect_env"
  op_read_block :: "'b node_state \<Rightarrow> CBlockIndex \<Rightarrow> CBlock option"
  op_read_undo :: "'b node_state \<Rightarrow> CDiskBlockPos \<Rightarrow> uint256 \<Rightarrow> CBlockUndo option"
  op_due :: "'b node_state \<Rightarrow> FlushStateMode \<Rightarrow> bool"
  op_write :: "'b node_state \<Rightarrow> write_outcome"
  op_accept :: "CTransaction \<Rightarrow> 'b node_state \<Rightarrow> (bool \<times> CTxMemPool \<times> 'b CCoinsViewCache) option"
  op_address :: "CBlockIndex \<Rightarrow> nat"
  op_banscore :: int

text \<open>A block index with the current fields of itself and of the blocks it points to.\<close>

primrec current :: "(CBlockIndex \<Rightarrow> block_entry) \<Rightarrow> CBlockIndex \<Rightarrow> CBlockIndex" where
  "current hp (Index e p s) = Index (hp (Index e p s)) (map_option (current hp) p) (map_option (current hp) s)"

definition tip_env :: "'b node_ops \<Rightarrow> 'b node_state \<Rightarrow> connect_env" where
  "tip_env W st = (op_env W st)
     \<lparr>me_tip := map_option (current (heap st)) (Tip (chainActive st) False),
      me_lookup := \<lambda>h. map_option (current (heap st)) (map_of (mapBlockIndex st) h)\<rparr>"

definition set_status :: "(u32 \<Rightarrow> u32) \<Rightarrow> CBlockIndex \<Rightarrow> 'b node_state \<Rightarrow> 'b node_state" where
  "set_status f b st = st\<lparr>heap := (heap st)(b := (heap st b)\<lparr>nStatus := f (nStatus (heap st b))\<rparr>)\<rparr>"

definition set_dirty :: "CBlockIndex \<Rightarrow> 'b node_state \<Rightarrow> 'b node_state" where
  "set_dirty b st = st\<lparr>setDirtyBlockIndex := List.insert b (setDirtyBlockIndex st)\<rparr>"

definition erase_candidate :: "CBlockIndex \<Rightarrow> 'b node_state \<Rightarrow> 'b node_state" where
  "erase_candidate b st = st\<lparr>setBlockIndexCandidates := removeAll b (setBlockIndexCandidates st)\<rparr>"

definition insert_candidate :: "CBlockIndex \<Rightarrow> 'b node_state \<Rightarrow> 'b node_state" where
  "insert_candidate b st = st\<lparr>setBlockIndexCandidates := List.insert b (setBlockIndexCandidates st)\<rparr>"

definition failed :: "'b node_state \<Rightarrow> CBlockIndex \<Rightarrow> bool" where
  "failed st b \<longleftrightarrow> nStatus (heap st b) AND BLOCK_FAILED_MASK \<noteq> 0"

definition has_data :: "'b node_state \<Rightarrow> CBlockIndex \<Rightarrow> bool" where
  "has_data st b \<longleftrightarrow> nStatus (heap st b) AND BLOCK_HAVE_DATA \<noteq> 0"

subsection \<open>The order of the candidates\<close>

definition work_less :: "'b node_ops \<Rightarrow> 'b node_state \<Rightarrow> CBlockIndex \<Rightarrow> CBlockIndex \<Rightarrow> bool" where
  "work_less W st pa pb =
     (if bu_compare (nChainWork (entry pa)) (nChainWork (entry pb)) > 0 then False
      else if bu_compare (nChainWork (entry pa)) (nChainWork (entry pb)) < 0 then True
      else if nSequenceId (heap st pa) < nSequenceId (heap st pb) then False
      else if nSequenceId (heap st pa) > nSequenceId (heap st pb) then True
      else if op_address W pa < op_address W pb then False
      else if op_address W pa > op_address W pb then True
      else False)"

text \<open>The last element of the ordered set.\<close>

fun best_candidate :: "('c \<Rightarrow> 'c \<Rightarrow> bool) \<Rightarrow> 'c list \<Rightarrow> 'c option" where
  "best_candidate lt [] = None"
| "best_candidate lt (c # cs) =
     (case best_candidate lt cs of None \<Rightarrow> Some c | Some b \<Rightarrow> if lt b c then Some c else Some b)"

subsection \<open>Invalid blocks and misbehaving peers\<close>

definition Misbehaving :: "'b node_ops \<Rightarrow> int \<Rightarrow> int \<Rightarrow> 'b node_state \<Rightarrow> 'b node_state" where
  "Misbehaving W pnode howmuch st =
     (if howmuch = 0 then st
      else (case map_of (mapNodeState st) pnode of
          None \<Rightarrow> st
        | Some ns \<Rightarrow>
            let ns = ns\<lparr>nMisbehavior := nMisbehavior ns + howmuch\<rparr>;
                ns = (if nMisbehavior ns \<ge> op_banscore W \<and> nMisbehavior ns - howmuch < op_banscore W
                      then ns\<lparr>fShouldBan := True\<rparr> else ns)
            in st\<lparr>mapNodeState := AList.update pnode ns (mapNodeState st)\<rparr>))"

definition more_work :: "CBlockIndex \<Rightarrow> CBlockIndex \<Rightarrow> bool" where
  "more_work a b \<longleftrightarrow> bu_compare (nChainWork (entry a)) (nChainWork (entry b)) > 0"

text \<open>The messages it logs read the tip of the active chain.\<close>

definition InvalidChainFound :: "CBlockIndex \<Rightarrow> 'b node_state \<Rightarrow> 'b node_state option" where
  "InvalidChainFound pindexNew st =
     (if Tip (chainActive st) False = None then None
      else Some (if (case pindexBestInvalid st of None \<Rightarrow> True | Some b \<Rightarrow> more_work pindexNew b)
                 then st\<lparr>pindexBestInvalid := Some pindexNew\<rparr> else st))"

definition MAX_REJECT_MESSAGE_LENGTH :: nat where "MAX_REJECT_MESSAGE_LENGTH = 111"

definition blame_source :: "'b node_ops \<Rightarrow> CBlockIndex \<Rightarrow> block_state \<Rightarrow> int \<Rightarrow> 'b node_state \<Rightarrow> 'b node_state option" where
  "blame_source W pindex state nDoS st =
     (case GetBlockHash pindex of
        None \<Rightarrow> None
      | Some hash \<Rightarrow>
          (case map_of (mapBlockSource st) hash of
             None \<Rightarrow> Some st
           | Some node \<Rightarrow>
          (case map_of (mapNodeState st) node of
             None \<Rightarrow> Some st
           | Some ns \<Rightarrow>
               let reject = \<lparr>rj_chRejectCode = chRejectCode state,
                             rj_strRejectReason = take MAX_REJECT_MESSAGE_LENGTH (strRejectReason state), rj_hashBlock = hash\<rparr>;
                   st = st\<lparr>mapNodeState := AList.update node (ns\<lparr>rejects := rejects ns @ [reject]\<rparr>) (mapNodeState st)\<rparr>
               in Some (if nDoS > 0 then Misbehaving W node nDoS st else st))))"

definition InvalidBlockFound :: "'b node_ops \<Rightarrow> CBlockIndex \<Rightarrow> block_state \<Rightarrow> 'b node_state \<Rightarrow> 'b node_state option" where
  "InvalidBlockFound W pindex state st =
     (case (case vs_IsInvalid state of None \<Rightarrow> Some st | Some nDoS \<Rightarrow> blame_source W pindex state nDoS st) of
        None \<Rightarrow> None
      | Some st \<Rightarrow>
          if \<not> corruptionPossible state
          then InvalidChainFound pindex
                 (erase_candidate pindex (set_dirty pindex (set_status (\<lambda>s. s OR BLOCK_FAILED_VALID) pindex st)))
          else Some st)"

subsection \<open>Moving the tip\<close>

definition FlushStateToDisk ::
  "'b node_ops \<Rightarrow> block_state \<Rightarrow> FlushStateMode \<Rightarrow> 'b node_state \<Rightarrow> (bool \<times> block_state \<times> 'b node_state) option" where
  "FlushStateToDisk W state mode st =
     (let fail = (\<lambda>reason st. Some (case vs_Error reason state of (r, state) \<Rightarrow> (r, state, st)))
      in if mode = FLUSH_STATE_ALWAYS \<or> op_due W st mode then
           (case op_write W st of
              No_space \<Rightarrow> fail ''out of disk space'' st
            | Index_failed left \<Rightarrow> fail ''Failed to write to block index'' (st\<lparr>setDirtyBlockIndex := left\<rparr>)
            | Write_threw what left coins \<Rightarrow> fail (''System error while flushing: '' @ what)
                  (st\<lparr>setDirtyBlockIndex := left, pcoinsTip := (pcoinsTip st)\<lparr>cacheCoins := coins\<rparr>\<rparr>)
            | Coins_failed \<Rightarrow> fail ''Failed to write to coin database''
                  (st\<lparr>setDirtyBlockIndex := [], pcoinsTip := (pcoinsTip st)\<lparr>cacheCoins := []\<rparr>\<rparr>)
            | Written \<Rightarrow>
                (case Flush (op_put W) (pcoinsTip st) of
                   None \<Rightarrow> None
                 | Some coins \<Rightarrow> Some (True, state, st\<lparr>setDirtyBlockIndex := [], pcoinsTip := coins\<rparr>)))
         else Some (True, state, st))"

definition UpdateTip :: "CBlockIndex option \<Rightarrow> 'b node_state \<Rightarrow> 'b node_state option" where
  "UpdateTip pindexNew st =
     (case pindexNew of
        None \<Rightarrow> None
      | Some b \<Rightarrow> Some (st\<lparr>chainActive := SetTip (chainActive st) (Some b),
                           mempool := AddTransactionsUpdated (mempool st) 1\<rparr>))"

fun resurrect :: "'b node_ops \<Rightarrow> CTransaction list \<Rightarrow> 'b node_state \<Rightarrow> 'b node_state option" where
  "resurrect W [] st = Some st"
| "resurrect W (tx # txs) st =
     (case (if IsCoinBase tx \<or> IsCoinStake tx then Some (False, mempool st, pcoinsTip st) else op_accept W tx st) of
        None \<Rightarrow> None
      | Some (ok, pool, coins) \<Rightarrow>
          (case (if ok then Some pool else map_option fst (pool_remove (op_Hash W) tx True pool [])) of
             None \<Rightarrow> None
           | Some pool \<Rightarrow> resurrect W txs (st\<lparr>mempool := pool, pcoinsTip := coins\<rparr>)))"

definition DisconnectTip ::
  "'b node_ops \<Rightarrow> block_state \<Rightarrow> 'b node_state \<Rightarrow> (bool \<times> block_state \<times> 'b node_state) option" where
  "DisconnectTip W state st =
     (case Tip (chainActive st) False of
        None \<Rightarrow> None
      | Some pindexDelete \<Rightarrow>
     (case op_read_block W st pindexDelete of
        None \<Rightarrow> Some (case vs_Error ''Failed to read block'' state of (r, state) \<Rightarrow> (r, state, st))
      | Some block \<Rightarrow>
     (case DisconnectBlock (op_Hash W) (cache_GetCoins (op_get W)) (cache_GetBestBlock (op_best W)) (op_read_undo W st)
             block (current (heap st) pindexDelete) False (new_cache (pcoinsTip st)) of
        None \<Rightarrow> None
      | Some (False, _, view) \<Rightarrow> Some (False, state, st\<lparr>pcoinsTip := base view\<rparr>)
      | Some (True, _, view) \<Rightarrow>
     (case Flush cache_BatchWrite view of
        None \<Rightarrow> None
      | Some view \<Rightarrow>
     (case FlushStateToDisk W state FLUSH_STATE_ALWAYS (st\<lparr>pcoinsTip := base view\<rparr>) of
        None \<Rightarrow> None
      | Some (False, state, st) \<Rightarrow> Some (False, state, st)
      | Some (True, state, st) \<Rightarrow>
     (case resurrect W (vtx block) st of
        None \<Rightarrow> None
      | Some st \<Rightarrow>
     (case removeCoinbaseSpends (op_Hash W) (op_get W) (me_params (op_env W st)) (word_of_int (nHeight (entry pindexDelete)))
             (mempool st) (pcoinsTip st) of
        None \<Rightarrow> None
      | Some (pool, coins) \<Rightarrow>
          map_option (\<lambda>st. (True, state, st)) (UpdateTip (pprev pindexDelete) (st\<lparr>mempool := pool, pcoinsTip := coins\<rparr>)))))))))"

definition ConnectTip ::
  "'b node_ops \<Rightarrow> block_state \<Rightarrow> CBlockIndex \<Rightarrow> CBlock option \<Rightarrow> 'b node_state \<Rightarrow> (bool \<times> block_state \<times> 'b node_state) option" where
  "ConnectTip W state pindexNew pblock st =
     (if pprev pindexNew \<noteq> Tip (chainActive st) False then None
      else (case (case pblock of Some b \<Rightarrow> Some b | None \<Rightarrow> op_read_block W st pindexNew) of
        None \<Rightarrow> Some (case vs_Error ''Failed to read block'' state of (r, state) \<Rightarrow> (r, state, st))
      | Some block \<Rightarrow>
     (case GetBlockHash pindexNew of
        None \<Rightarrow> None
      | Some hash \<Rightarrow>
     (case ConnectBlock (op_Quark W) (op_Hash W) (cache_GetCoins (op_get W)) (cache_GetBestBlock (op_best W)) (tip_env W st)
             (masternodePayments st) block state (current (heap st) pindexNew) (new_cache (pcoinsTip st)) False of
        None \<Rightarrow> None
      | Some (rv, state, out) \<Rightarrow>
          let st = (if o_dirty out then set_dirty pindexNew st else st)
                     \<lparr>heap := (heap st)(pindexNew := entry (o_index out)), pcoinsTip := base (o_view out)\<rparr>
          in if \<not> rv
             then map_option (\<lambda>st. (False, state, st))
                    (if vs_IsInvalid state \<noteq> None then InvalidBlockFound W pindexNew state st else Some st)
             else
     (case Flush cache_BatchWrite (o_view out) of
        None \<Rightarrow> None
      | Some view \<Rightarrow>
          let st = st\<lparr>mapBlockSource := AList.delete hash (mapBlockSource st), pcoinsTip := base view\<rparr>;
              mode = (case pprev pindexNew of
                        Some p \<Rightarrow> if dp_nFile (GetBlockPos (current (heap st) pindexNew)) \<noteq> dp_nFile (GetBlockPos (current (heap st) p))
                                  then FLUSH_STATE_ALWAYS else FLUSH_STATE_IF_NEEDED
                      | None \<Rightarrow> FLUSH_STATE_IF_NEEDED)
          in (case FlushStateToDisk W state mode st of
            None \<Rightarrow> None
          | Some (False, state, st) \<Rightarrow> Some (False, state, st)
          | Some (True, state, st) \<Rightarrow>
         (case removeForBlock (op_Hash W) (vtx block) (word_of_int (nHeight (entry pindexNew))) (mempool st) [] of
            None \<Rightarrow> None
          | Some (_, pool, _) \<Rightarrow>
              map_option (\<lambda>st. (True, state, st)) (UpdateTip (Some pindexNew) (st\<lparr>mempool := pool\<rparr>)))))))))"

subsection \<open>The candidate with the most work\<close>

text \<open>The first block of the way to the active chain that is failed or has no data; \<open>None\<close> is a failed assertion.\<close>

fun unusable :: "'b node_state \<Rightarrow> CBlockIndex option \<Rightarrow> CBlockIndex option option" where
  "unusable st None = Some None"
| "unusable st (Some (Index e p s)) =
     (let pindexTest = Index e p s
      in if Contains (chainActive st) pindexTest then Some None
         else if nChainTx (heap st pindexTest) = 0 \<and> nHeight e \<noteq> 0 then None
         else if failed st pindexTest \<or> \<not> has_data st pindexTest then Some (Some pindexTest)
         else unusable st p)"

text \<open>From the candidate down to the unusable block.\<close>

fun reject_chain :: "bool \<Rightarrow> CBlockIndex \<Rightarrow> CBlockIndex \<Rightarrow> 'b node_state \<Rightarrow> 'b node_state option" where
  "reject_chain fFailedChain pindexTest (Index e p s) st =
     (let pindexFailed = Index e p s
      in if pindexTest = pindexFailed then Some (erase_candidate pindexTest st)
         else
           let st = (if fFailedChain then set_status (\<lambda>s. s OR BLOCK_FAILED_CHILD) pindexFailed st
                     else st\<lparr>mapBlocksUnlinked := mapBlocksUnlinked st @ [(p, pindexFailed)]\<rparr>);
               st = erase_candidate pindexFailed st
           in (case p of None \<Rightarrow> None | Some q \<Rightarrow> reject_chain fFailedChain pindexTest q st))"

lemma reject_chain_erases:
  "reject_chain ff t b st = Some st' \<Longrightarrow>
   set (setBlockIndexCandidates st') \<subseteq> set (setBlockIndexCandidates st) - {b} \<and>
   length (setBlockIndexCandidates st') \<le> length (removeAll b (setBlockIndexCandidates st))"
proof (induction ff t b st rule: reject_chain.induct)
  case (1 ff t e p s st)
  let ?b = "Index e p s"
  define st1 where "st1 = (if ff then set_status (\<lambda>s. s OR BLOCK_FAILED_CHILD) ?b st
      else st\<lparr>mapBlocksUnlinked := mapBlocksUnlinked st @ [(p, ?b)]\<rparr>)"
  have c: "setBlockIndexCandidates (erase_candidate ?b st1) = removeAll ?b (setBlockIndexCandidates st)"
    by (simp add: st1_def erase_candidate_def set_status_def)
  show ?case
  proof (cases "t = ?b")
    case True
    then show ?thesis using 1(2) by (auto simp: erase_candidate_def)
  next
    case False
    then obtain q where q: "p = Some q" "reject_chain ff t q (erase_candidate ?b st1) = Some st'"
      using 1(2) by (auto simp: st1_def Let_def split: option.splits if_splits)
    have "set (setBlockIndexCandidates st') \<subseteq> set (setBlockIndexCandidates (erase_candidate ?b st1)) - {q} \<and>
        length (setBlockIndexCandidates st') \<le> length (removeAll q (setBlockIndexCandidates (erase_candidate ?b st1)))"
      using 1(1) [OF refl False st1_def refl q] .
    then show ?thesis unfolding c
      using length_removeAll_less_eq [of q "removeAll ?b (setBlockIndexCandidates st)"] by (auto intro: le_trans)
  qed
qed

lemma best_candidate_in: "best_candidate lt cs = Some c \<Longrightarrow> c \<in> set cs"
  by (induction cs arbitrary: c) (auto split: option.splits if_splits)

function FindMostWorkChain :: "'b node_ops \<Rightarrow> 'b node_state \<Rightarrow> (CBlockIndex option \<times> 'b node_state) option" where
  "FindMostWorkChain W st =
     (case best_candidate (work_less W st) (setBlockIndexCandidates st) of
        None \<Rightarrow> Some (None, st)
      | Some pindexNew \<Rightarrow>
     (case unusable st (Some pindexNew) of
        None \<Rightarrow> None
      | Some None \<Rightarrow> Some (Some pindexNew, st)
      | Some (Some pindexTest) \<Rightarrow>
          let st = (if failed st pindexTest \<and> (case pindexBestInvalid st of None \<Rightarrow> True | Some b \<Rightarrow> more_work pindexNew b)
                    then st\<lparr>pindexBestInvalid := Some pindexNew\<rparr> else st)
          in (case reject_chain (failed st pindexTest) pindexTest pindexNew st of
                None \<Rightarrow> None
              | Some st \<Rightarrow> FindMostWorkChain W st)))"
  by pat_completeness auto

text \<open>Each round takes a candidate out.\<close>

termination
proof (relation "measure (\<lambda>(_, st). length (setBlockIndexCandidates st))", simp, goal_cases)
  case (1 W st pindexNew x pindexTest st1 st')
  then have "length (setBlockIndexCandidates st') \<le> length (removeAll pindexNew (setBlockIndexCandidates st))"
    using reject_chain_erases by (fastforce split: if_splits)
  moreover have "pindexNew \<in> set (setBlockIndexCandidates st)" by (rule best_candidate_in [OF 1(1)])
  ultimately show ?case using length_removeAll_less [of pindexNew "setBlockIndexCandidates st"] by simp
qed

declare FindMostWorkChain.simps [simp del]

text \<open>The candidates are in the order of \<^const>\<open>work_less\<close>, so those worse than the tip come first.\<close>

definition PruneBlockIndexCandidates :: "'b node_ops \<Rightarrow> 'b node_state \<Rightarrow> 'b node_state option" where
  "PruneBlockIndexCandidates W st =
     (case Tip (chainActive st) False of
        None \<Rightarrow> None
      | Some tip \<Rightarrow>
          let cs = filter (\<lambda>c. \<not> work_less W st c tip) (setBlockIndexCandidates st)
          in if cs = [] then None else Some (st\<lparr>setBlockIndexCandidates := cs\<rparr>))"

subsection \<open>A step towards the best chain\<close>

fun disconnect_to ::
  "'b node_ops \<Rightarrow> CBlockIndex option \<Rightarrow> nat \<Rightarrow> block_state \<Rightarrow> 'b node_state \<Rightarrow> (bool \<times> block_state \<times> 'b node_state) option" where
  "disconnect_to W pindexFork n state st =
     (if Tip (chainActive st) False = None \<or> Tip (chainActive st) False = pindexFork then Some (True, state, st)
      else (case n of
          0 \<Rightarrow> None
        | Suc n \<Rightarrow>
            (case DisconnectTip W state st of
               None \<Rightarrow> None
             | Some (False, state, st) \<Rightarrow> Some (False, state, st)
             | Some (True, state, st) \<Rightarrow> disconnect_to W pindexFork n state st)))"

declare disconnect_to.simps [simp del]

datatype progress = All_connected | Better_tip | Invalid_found | System_error

definition reset_state :: "block_state \<Rightarrow> block_state" where
  "reset_state state = CValidationState.extend CValidationState_new \<lparr>mapRejectedBlocks = mapRejectedBlocks state\<rparr>"

fun connect_list ::
  "'b node_ops \<Rightarrow> CBlockIndex option \<Rightarrow> CBlockIndex \<Rightarrow> CBlock option \<Rightarrow> CBlockIndex \<Rightarrow> CBlockIndex list \<Rightarrow>
   block_state \<Rightarrow> 'b node_state \<Rightarrow> (progress \<times> block_state \<times> 'b node_state) option" where
  "connect_list W pindexOldTip pindexMostWork pblock back [] state st = Some (All_connected, state, st)"
| "connect_list W pindexOldTip pindexMostWork pblock back (c # cs) state st =
     (case ConnectTip W state c (if c = pindexMostWork then pblock else None) st of
        None \<Rightarrow> None
      | Some (False, state, st) \<Rightarrow>
          if vs_IsInvalid state \<noteq> None
          then map_option (\<lambda>st. (Invalid_found, reset_state state, st))
                 (if \<not> corruptionPossible state then InvalidChainFound back st else Some st)
          else Some (System_error, state, st)
      | Some (True, state, st) \<Rightarrow>
     (case PruneBlockIndexCandidates W st of
        None \<Rightarrow> None
      | Some st \<Rightarrow>
          if (case pindexOldTip of None \<Rightarrow> True
              | Some old \<Rightarrow> (case Tip (chainActive st) False of None \<Rightarrow> False | Some tip \<Rightarrow> more_work tip old))
          then Some (Better_tip, state, st)
          else connect_list W pindexOldTip pindexMostWork pblock back cs state st))"

fun gather :: "int \<Rightarrow> CBlockIndex option \<Rightarrow> CBlockIndex list" where
  "gather h None = []"
| "gather h (Some (Index e p s)) = (if nHeight e \<noteq> h then Index e p s # gather h p else [])"

function connect_loop ::
  "'b node_ops \<Rightarrow> CBlockIndex option \<Rightarrow> CBlockIndex \<Rightarrow> CBlock option \<Rightarrow> int \<Rightarrow>
   block_state \<Rightarrow> 'b node_state \<Rightarrow> (progress \<times> block_state \<times> 'b node_state) option" where
  "connect_loop W pindexOldTip pindexMostWork pblock h state st =
     (if h = nHeight (entry pindexMostWork) then Some (All_connected, state, st)
      else let nTargetHeight = min (h + 32) (nHeight (entry pindexMostWork))
           in (case GetAncestor pindexMostWork nTargetHeight of
          None \<Rightarrow> None
        | Some pindexIter \<Rightarrow>
            let vpindexToConnect = gather h pindexIter
            in (case connect_list W pindexOldTip pindexMostWork pblock (last vpindexToConnect) (rev vpindexToConnect) state st of
              Some (All_connected, state, st) \<Rightarrow> connect_loop W pindexOldTip pindexMostWork pblock nTargetHeight state st
            | r \<Rightarrow> r)))"
  by pat_completeness auto
termination by (relation "measure (\<lambda>(_, _, most, _, h, _). nat \<bar>nHeight (entry most) - h\<bar>)") auto

declare connect_loop.simps [simp del]

definition ActivateBestChainStep ::
  "'b node_ops \<Rightarrow> block_state \<Rightarrow> CBlockIndex \<Rightarrow> CBlock option \<Rightarrow> 'b node_state \<Rightarrow> (bool \<times> block_state \<times> 'b node_state) option" where
  "ActivateBestChainStep W state pindexMostWork pblock st =
     (let pindexOldTip = Tip (chainActive st) False
      in case FindFork (chainActive st) pindexMostWork of
        None \<Rightarrow> None
      | Some pindexFork \<Rightarrow>
     (case disconnect_to W pindexFork (length (chainActive st)) state st of
        None \<Rightarrow> None
      | Some (False, state, st) \<Rightarrow> Some (False, state, st)
      | Some (True, state, st) \<Rightarrow>
     (case connect_loop W pindexOldTip pindexMostWork pblock
             (case pindexFork of None \<Rightarrow> -1 | Some f \<Rightarrow> nHeight (entry f)) state st of
        None \<Rightarrow> None
      | Some (r, state, st) \<Rightarrow> Some (r \<noteq> System_error, state, st))))"

text \<open>The loop over the steps, for so many rounds.\<close>

datatype activation_end = Aborted | Out_of_rounds

fun ActivateBestChain ::
  "'b node_ops \<Rightarrow> nat \<Rightarrow> block_state \<Rightarrow> CBlock option \<Rightarrow> 'b node_state \<Rightarrow> activation_end + bool \<times> block_state \<times> 'b node_state" where
  "ActivateBestChain W 0 state pblock st = Inl Out_of_rounds"
| "ActivateBestChain W (Suc n) state pblock st =
     (case FindMostWorkChain W st of
        None \<Rightarrow> Inl Aborted
      | Some (None, st) \<Rightarrow> Inr (True, state, st)
      | Some (Some pindexMostWork, st) \<Rightarrow>
          if Tip (chainActive st) False = Some pindexMostWork then Inr (True, state, st)
          else
     (case ActivateBestChainStep W state pindexMostWork
             (case pblock of
                Some b \<Rightarrow> if Some (CBlockHeader_GetHash (op_Quark W) b) = GetBlockHash pindexMostWork then Some b else None
              | None \<Rightarrow> None) st of
        None \<Rightarrow> Inl Aborted
      | Some (False, state, st) \<Rightarrow> Inr (False, state, st)
      | Some (True, state, st) \<Rightarrow>
          if Tip (chainActive st) False = None then Inl Aborted
          else if Tip (chainActive st) False \<noteq> Some pindexMostWork then ActivateBestChain W n state pblock st
          else (case FlushStateToDisk W state FLUSH_STATE_PERIODIC st of None \<Rightarrow> Inl Aborted | Some r \<Rightarrow> Inr r)))"

end
