(* ===== verification/Refusals.thy ===== *)
theory Refusals
  imports Activation
begin

text \<open>
  What connecting a block does to the validation state: an accepted block leaves it alone, and the
  refusal of an intact copy never marks it as a possible corruption.
\<close>

text \<open>Taking a result apart along the branches that give it.\<close>

lemma some_caseE:
  assumes "(case x of None \<Rightarrow> None | Some y \<Rightarrow> f y) = Some z" obtains y where "x = Some y" "f y = Some z"
  using assms by (cases x) auto

lemma prod_caseE:
  assumes "(case p of (a, b) \<Rightarrow> f a b) = Some z" obtains a b where "p = (a, b)" "f a b = Some z"
  using assms by (cases p) auto

lemma bool_caseE:
  assumes "(case b of True \<Rightarrow> f | False \<Rightarrow> g) = Some z" obtains "b" "f = Some z" | "\<not> b" "g = Some z"
  using assms by (cases b) auto

lemma if_someE:
  assumes "(if b then f else g) = Some z" obtains "b" "f = Some z" | "\<not> b" "g = Some z"
  using assms by (cases b) auto

lemma map_someE:
  assumes "map_option f x = Some z" obtains y where "x = Some y" "z = f y"
  using assms by (cases x) auto

lemmas some_elims = some_caseE prod_caseE bool_caseE if_someE map_someE

subsection \<open>Accepted blocks\<close>

lemma CheckBlockHeader_of_block_state: "CheckBlockHeader_of_block P Quark block s = (True, s') \<Longrightarrow> s' = s"
  by (auto simp: CheckBlockHeader_of_block_def CheckBlockHeader_def refusals split: prod.splits bool.splits if_splits)

lemma CheckTransaction_state: "CheckTransaction P tx s = (True, s') \<Longrightarrow> s' = s"
  by (auto simp: CheckTransaction_def refusals split: option.splits prod.splits if_splits)

lemma check_transactions_state: "check_transactions P txs s = (True, s') \<Longrightarrow> s' = s"
  by (induction txs arbitrary: s) (auto split: prod.splits bool.splits dest!: CheckTransaction_state)

lemma CheckBlock_state:
  assumes "CheckBlock Quark Hash E mns block s root = Some (True, s')" shows "s' = s"
proof -
  have m: "check_merkle Hash block s = (True, s') \<Longrightarrow> s' = s" for s s'
    by (auto simp: check_merkle_def refusals split: prod.splits if_splits)
  have l: "check_locks Quark Hash E block s = (True, s') \<Longrightarrow> s' = s" for s s'
    by (auto simp: check_locks_def refusals split: if_splits)
  have p: "check_payee Quark E mns block s = Some (True, s') \<Longrightarrow> s' = s" for s s'
    by (auto simp: check_payee_def refusals Let_def split: option.splits if_splits bool.splits)
  have h: "check_shape block s = (True, s') \<Longrightarrow> s' = s" for s s'
    by (simp add: check_shape_True)
  show ?thesis using assms unfolding CheckBlock_def
    by (elim some_elims)
      (auto simp: refusals split: if_splits dest!: CheckBlockHeader_of_block_state check_transactions_state m l p h)
qed

lemma check_scripts_state:
  "check_scripts bget S tx flags i ins s v c = Some (True, s', r) \<Longrightarrow> s' = s"
proof (induction ins arbitrary: i s v c)
  case (Cons txin ins)
  show ?case using Cons.prems Cons.IH
    by (auto simp: refused split: prod.splits option.splits sum.splits if_splits script_fail.splits)
qed simp

lemma check_fee_state: "check_fee P tx n s = Some (True, s') \<Longrightarrow> s' = s"
  by (auto simp: check_fee_def refusals Let_def split: sum.splits if_splits)

lemma CheckInputs_state: "CheckInputs bget bbest S E tx s v sc flags c = Some (True, s', r) \<Longrightarrow> s' = s"
  unfolding CheckInputs_def
  by (elim some_elims) (auto simp: refused split: sum.splits option.splits prod.splits bool.splits if_splits
      dest!: check_scripts_state check_fee_state)

lemma connect_inputs_state: "connect_inputs Hash bget bbest E sc flags p2sh tx s k = Some (True, s', k') \<Longrightarrow> s' = s"
  unfolding connect_inputs_def Let_def
  by (elim some_elims) (auto simp: refused split: sum.splits option.splits prod.splits bool.splits if_splits
      dest!: CheckInputs_state)

lemma connect_tx_state: "connect_tx Hash bget bbest E pindex sc flags p2sh i tx s k = Some (True, s', k') \<Longrightarrow> s' = s"
  unfolding connect_tx_def Let_def
  by (elim some_elims) (auto simp: refused split: sum.splits option.splits prod.splits bool.splits if_splits
      dest!: connect_inputs_state)

lemma connect_txs_state: "connect_txs Hash bget bbest E pindex sc flags p2sh i txs s k = Some (True, s', k') \<Longrightarrow> s' = s"
proof (induction txs arbitrary: i s k)
  case (Cons tx txs)
  show ?case using Cons.prems unfolding connect_txs.simps
    by (elim some_elims) (auto dest: Cons.IH connect_tx_state)
qed simp

lemma write_undo_state: "write_undo E us s out = Some (True, s', out') \<Longrightarrow> s' = s"
  by (auto simp: write_undo_def refused Let_def split: option.splits prod.splits bool.splits if_splits)

lemma finish_connect_state:
  assumes "finish_connect E block just pindex s k = Some (b, s', out)"
  shows "b \<longrightarrow> s' = s"
proof -
  define pi where "pi = set_entry pindex ((entry pindex)\<lparr>nMoneySupply := wrap64 (wrap64 (supply_before pindex + k_nValueOut k) - k_nValueIn k),
      nMint := wrap64 (wrap64 (wrap64 (supply_before pindex + k_nValueOut k) - k_nValueIn k) - supply_before pindex)\<rparr>)"
  define o1 where "o1 = \<lparr>o_index = pi, o_view = k_view k, o_undo = None, o_dirty = False, o_txindex = []\<rparr>"
  note d = assms [unfolded finish_connect_def Let_def pi_def [symmetric] o1_def [symmetric]]
  show ?thesis using d
    by (auto simp: refused split: option.splits if_splits bool.splits prod.splits dest: write_undo_state)
qed

lemma ConnectBlock_state:
  assumes "ConnectBlock Quark Hash bget bbest E mns block s pindex view just = Some (True, s', out)"
  shows "s' = s"
  using assms unfolding ConnectBlock_def Let_def refused prod.case
  by (elim some_elims) (auto simp: refused dest!: CheckBlock_state connect_txs_state finish_connect_state)

subsection \<open>Refused blocks\<close>

text \<open>A copy of a block that is not corrupted passes every check that asks whether it is.\<close>

definition intact_block :: "(bytes \<Rightarrow> bytes) \<Rightarrow> (bytes \<Rightarrow> bytes) \<Rightarrow> CChainParams \<Rightarrow> CBlock \<Rightarrow> bool" where
  "intact_block Quark Hash P block \<longleftrightarrow>
     (IsProofOfWork block \<longrightarrow> CheckProofOfWork P (CBlockHeader_GetHash Quark block) (bh_nBits block)) \<and>
     hashMerkleRoot block = snd (snd (BuildMerkleTree Hash block)) \<and> \<not> fst (snd (BuildMerkleTree Hash block)) \<and>
     fold (\<lambda>tx n. n + GetLegacySigOpCount tx) (vtx block) 0 \<le> MAX_BLOCK_SIGOPS"

text \<open>A block that once passed the checks is intact.\<close>

lemma CheckBlock_intact:
  assumes "CheckBlock Quark Hash E mns block s True = Some (True, s')" shows "intact_block Quark Hash (me_params E) block"
proof -
  note d = assms [unfolded CheckBlock_def]
  have "CheckBlockHeader_of_block (me_params E) Quark block s = (True, s1) \<Longrightarrow>
      IsProofOfWork block \<longrightarrow> CheckProofOfWork (me_params E) (CBlockHeader_GetHash Quark block) (bh_nBits block)" for s1
    by (auto simp: CheckBlockHeader_of_block_def CheckBlockHeader_def refusals split: prod.splits bool.splits if_splits)
  moreover have "check_merkle Hash block s1 = (True, s2) \<Longrightarrow>
      hashMerkleRoot block = snd (snd (BuildMerkleTree Hash block)) \<and> \<not> fst (snd (BuildMerkleTree Hash block))" for s1 s2
    by (auto simp: check_merkle_def refusals split: prod.splits if_splits)
  ultimately show ?thesis using d unfolding intact_block_def
    by (elim some_elims) (auto simp: refusals not_less split: if_splits)
qed

text \<open>No refusal of an intact block suspects a corruption.\<close>

lemma suspicion:
  "DoS l r c reason False s = (b, s') \<Longrightarrow> \<not> corruptionPossible s'"
  "Invalid r c reason s = (b, s') \<Longrightarrow> \<not> corruptionPossible s'"
  "vs_Error reason s = (b, s') \<Longrightarrow> corruptionPossible s' = corruptionPossible s"
  by (auto simp: DoS_def Invalid_def vs_Error_def Let_def split: if_splits)

lemma suspicion_case:
  "(case DoS l r c reason False s of (b, s) \<Rightarrow> (b, s, x)) = (b', s', y) \<Longrightarrow> \<not> corruptionPossible s'"
  "(case Invalid r c reason s of (b, s) \<Rightarrow> (b, s, x)) = (b', s', y) \<Longrightarrow> \<not> corruptionPossible s'"
  "(case vs_Error reason s of (b, s) \<Rightarrow> (b, s, x)) = (b', s', y) \<Longrightarrow> corruptionPossible s' = corruptionPossible s"
  by (auto simp: suspicion split: prod.splits)

lemma check_transactions_suspicion:
  "check_transactions P txs s = (b, s') \<Longrightarrow> \<not> corruptionPossible s \<Longrightarrow> \<not> corruptionPossible s'"
proof (induction txs arbitrary: s)
  case (Cons tx txs)
  have "CheckTransaction P tx s = (r, s1) \<Longrightarrow> \<not> corruptionPossible s1" for r s1
    using Cons.prems(2) by (auto simp: CheckTransaction_def dest: suspicion split: option.splits prod.splits if_splits)
  then show ?case using Cons by (auto split: prod.splits bool.splits)
qed simp

lemma reject_block_suspicion [simp]: "corruptionPossible (reject_block E h s) = corruptionPossible s"
  by (simp add: reject_block_def)

lemma CheckBlock_suspicion:
  assumes "CheckBlock Quark Hash E mns block s root = Some (b, s')" "intact_block Quark Hash (me_params E) block" "\<not> corruptionPossible s"
  shows "\<not> corruptionPossible s'"
proof -
  have h: "CheckBlockHeader_of_block (me_params E) Quark block s = (True, s)"
    using assms(2) by (auto simp: CheckBlockHeader_of_block_def CheckBlockHeader_def intact_block_def)
  have m: "check_merkle Hash block s = (True, s)"
    using assms(2) by (auto simp: check_merkle_def intact_block_def split: prod.splits)
  have sh: "check_shape block s = (b, s1) \<Longrightarrow> \<not> corruptionPossible s1" for b s1
    using assms(3) by (auto simp: check_shape_def dest: suspicion split: if_splits)
  have sh1: "check_shape block s = (True, s1) \<Longrightarrow> s1 = s" for s1 by (simp add: check_shape_True)
  have l: "check_locks Quark Hash E block s = (b, s1) \<Longrightarrow> \<not> corruptionPossible s1" for b s1
    using assms(3) by (auto simp: check_locks_def dest: suspicion split: if_splits)
  have l1: "check_locks Quark Hash E block s = (True, s1) \<Longrightarrow> s1 = s" for s1
    by (auto simp: check_locks_def refusals split: if_splits)
  have p: "check_payee Quark E mns block s = Some (b, s1) \<Longrightarrow> \<not> corruptionPossible s1" for b s1
    using assms(3) by (auto simp: check_payee_def Let_def dest: suspicion split: option.splits if_splits bool.splits)
  have p1: "check_payee Quark E mns block s = Some (True, s1) \<Longrightarrow> s1 = s" for s1
    by (auto simp: check_payee_def refusals Let_def split: option.splits if_splits bool.splits)
  have f: "\<not> fold (\<lambda>tx n. n + GetLegacySigOpCount tx) (vtx block) 0 > MAX_BLOCK_SIGOPS"
    using assms(2) by (simp add: intact_block_def not_less)
  show ?thesis using assms(1,3) unfolding CheckBlock_def h prod.case bool.case m if_cancel if_not_P [OF f]
    by (auto dest: sh sh1 l l1 p p1 check_transactions_suspicion suspicion split: if_splits prod.splits bool.splits option.splits)
qed

lemma check_scripts_suspicion:
  "check_scripts bget S tx flags i ins s v c = Some (b, s', r) \<Longrightarrow> \<not> corruptionPossible s \<Longrightarrow> \<not> corruptionPossible s'"
proof (induction ins arbitrary: i s v c)
  case (Cons txin ins)
  show ?case using Cons.prems Cons.IH
    by (auto dest!: suspicion_case dest: suspicion split: prod.splits option.splits sum.splits if_splits script_fail.splits)
qed simp

lemma check_fee_suspicion: "check_fee P tx n s = Some (b, s') \<Longrightarrow> \<not> corruptionPossible s \<Longrightarrow> \<not> corruptionPossible s'"
  by (auto simp: check_fee_def Let_def dest: suspicion split: sum.splits if_splits)

lemma CheckInputs_suspicion:
  "CheckInputs bget bbest S E tx s v sc flags c = Some (b, s', r) \<Longrightarrow> \<not> corruptionPossible s \<Longrightarrow> \<not> corruptionPossible s'"
  unfolding CheckInputs_def
  by (elim some_elims) (auto split: sum.splits option.splits prod.splits bool.splits if_splits
      dest: check_scripts_suspicion suspicion_case suspicion check_fee_suspicion)

lemma connect_inputs_suspicion:
  "connect_inputs Hash bget bbest E sc flags p2sh tx s k = Some (b, s', k') \<Longrightarrow> \<not> corruptionPossible s \<Longrightarrow> \<not> corruptionPossible s'"
  unfolding connect_inputs_def Let_def
  by (elim some_elims) (auto split: sum.splits option.splits prod.splits bool.splits if_splits
      dest!: suspicion_case dest: suspicion CheckInputs_suspicion)

lemma connect_tx_suspicion:
  "connect_tx Hash bget bbest E pindex sc flags p2sh i tx s k = Some (b, s', k') \<Longrightarrow> \<not> corruptionPossible s \<Longrightarrow> \<not> corruptionPossible s'"
  unfolding connect_tx_def Let_def
  by (elim some_elims) (auto split: sum.splits option.splits prod.splits bool.splits if_splits
      dest!: suspicion_case dest: suspicion connect_inputs_suspicion)

lemma connect_txs_suspicion:
  "connect_txs Hash bget bbest E pindex sc flags p2sh i txs s k = Some (b, s', k') \<Longrightarrow> \<not> corruptionPossible s \<Longrightarrow> \<not> corruptionPossible s'"
proof (induction txs arbitrary: i s k)
  case (Cons tx txs)
  show ?case using Cons.prems unfolding connect_txs.simps
    by (elim some_elims) (auto dest: Cons.IH connect_tx_suspicion)
qed simp

lemma write_undo_suspicion: "write_undo E us s out = Some (b, s', out') \<Longrightarrow> \<not> corruptionPossible s \<Longrightarrow> \<not> corruptionPossible s'"
  by (auto simp: write_undo_def Let_def dest!: suspicion_case dest: suspicion split: option.splits prod.splits bool.splits if_splits)

lemma finish_connect_suspicion:
  assumes "finish_connect E block just pindex s k = Some (b, s', out)" "\<not> corruptionPossible s"
  shows "\<not> corruptionPossible s'"
proof -
  define pi where "pi = set_entry pindex ((entry pindex)\<lparr>nMoneySupply := wrap64 (wrap64 (supply_before pindex + k_nValueOut k) - k_nValueIn k),
      nMint := wrap64 (wrap64 (wrap64 (supply_before pindex + k_nValueOut k) - k_nValueIn k) - supply_before pindex)\<rparr>)"
  define o1 where "o1 = \<lparr>o_index = pi, o_view = k_view k, o_undo = None, o_dirty = False, o_txindex = []\<rparr>"
  note d = assms(1) [unfolded finish_connect_def Let_def pi_def [symmetric] o1_def [symmetric]]
  show ?thesis using d assms(2)
    by (auto split: option.splits if_splits bool.splits dest!: suspicion_case dest: suspicion write_undo_suspicion)
qed

lemma ConnectBlock_suspicion:
  assumes "ConnectBlock Quark Hash bget bbest E mns block s pindex view just = Some (b, s', out)"
    "intact_block Quark Hash (me_params E) block" "\<not> corruptionPossible s"
  shows "\<not> corruptionPossible s'"
proof -
  have i: "intact_block Quark Hash (me_params (chain_env.truncate E)) block" using assms(2) by (simp add: chain_env.truncate_def)
  show ?thesis using assms(1,3) unfolding ConnectBlock_def Let_def prod.case
    by (elim some_elims)
      (auto split: prod.splits bool.splits if_splits dest!: suspicion_case dest: suspicion
        dest: CheckBlock_suspicion [OF _ i] connect_txs_suspicion finish_connect_suspicion)
qed

end
