(* ===== verification/Best_Chain.thy ===== *)
theory Best_Chain
  imports Refusals
begin

text \<open>
  What activating the best chain keeps and reaches: the laws of the operations of the theory
  \<^verbatim>\<open>Activation\<close>.
\<close>

subsection \<open>What connecting does to the fields of a block\<close>

text \<open>The flags that decide whether a block is usable, its sequence number and its count are kept.\<close>

definition same_use :: "block_entry \<Rightarrow> block_entry \<Rightarrow> bool" where
  "same_use e e' \<longleftrightarrow>
     nStatus e' AND BLOCK_FAILED_MASK = nStatus e AND BLOCK_FAILED_MASK \<and>
     nStatus e' AND BLOCK_HAVE_DATA = nStatus e AND BLOCK_HAVE_DATA \<and>
     nSequenceId e' = nSequenceId e \<and> nChainTx e' = nChainTx e"

lemma same_use_refl [simp, intro]: "same_use e e"
  by (simp add: same_use_def)

lemma same_use_trans: "same_use e e' \<Longrightarrow> same_use e' e'' \<Longrightarrow> same_use e e''"
  by (simp add: same_use_def)

lemma disjoint_or_and:
  assumes "b AND c = (0 :: u32)" shows "(a OR b) AND c = a AND c"
proof (rule bit_word_eqI)
  fix n
  have "\<not> (bit b n \<and> bit c n)" using arg_cong [OF assms, of "\<lambda>w. bit w n"] by (simp add: bit_simps)
  then show "bit ((a OR b) AND c) n \<longleftrightarrow> bit (a AND c) n" by (auto simp: bit_simps)
qed

lemma masked_or_and:
  assumes "u AND v = u" "v AND c = (0 :: u32)" shows "((a AND NOT v) OR u) AND c = a AND c"
proof (rule bit_word_eqI)
  fix n assume n: "n < LENGTH(32)"
  have "\<not> (bit v n \<and> bit c n)" "bit u n \<longrightarrow> bit v n"
    using arg_cong [OF assms(2), of "\<lambda>w. bit w n"] arg_cong [OF assms(1), of "\<lambda>w. bit w n"] by (auto simp: bit_simps)
  then show "bit (((a AND NOT v) OR u) AND c) n \<longleftrightarrow> bit (a AND c) n" using n by (auto simp: bit_simps)
qed

lemma included_or_and:
  assumes "b AND c = (b :: u32)" "b \<noteq> 0" shows "(a OR b) AND c \<noteq> 0"
proof
  assume z: "(a OR b) AND c = 0"
  have "b = 0"
  proof (rule bit_word_eqI)
    fix n
    show "bit b n \<longleftrightarrow> bit (0 :: u32) n"
      using arg_cong [OF z, of "\<lambda>w. bit w n"] arg_cong [OF assms(1), of "\<lambda>w. bit w n"] by (auto simp: bit_simps)
  qed
  then show False using assms(2) by simp
qed

lemma flag_masks:
  "BLOCK_HAVE_UNDO AND BLOCK_FAILED_MASK = 0" "BLOCK_HAVE_UNDO AND BLOCK_HAVE_DATA = 0"
  "BLOCK_FAILED_VALID AND BLOCK_HAVE_DATA = 0" "BLOCK_FAILED_CHILD AND BLOCK_HAVE_DATA = 0"
  "BLOCK_FAILED_VALID AND BLOCK_FAILED_MASK = BLOCK_FAILED_VALID" "BLOCK_FAILED_CHILD AND BLOCK_FAILED_MASK = BLOCK_FAILED_CHILD"
  "BLOCK_VALID_MASK AND BLOCK_FAILED_MASK = 0" "BLOCK_VALID_MASK AND BLOCK_HAVE_DATA = 0"
  "BLOCK_VALID_SCRIPTS AND BLOCK_VALID_MASK = BLOCK_VALID_SCRIPTS"
  "BLOCK_FAILED_VALID \<noteq> 0" "BLOCK_FAILED_CHILD \<noteq> 0"
  by code_simp+

lemmas status_masks = flag_masks(1-4) [THEN disjoint_or_and] included_or_and [OF flag_masks(5,10)] included_or_and [OF flag_masks(6,11)]
  masked_or_and [OF flag_masks(9,7)] masked_or_and [OF flag_masks(9,8)]

lemma RaiseValidity_use: "RaiseValidity e BLOCK_VALID_SCRIPTS = Some (b, e') \<Longrightarrow> same_use e e'"
  by (auto simp: RaiseValidity_def same_use_def status_masks split: if_splits)

lemma write_undo_use:
  assumes "write_undo E us state out = Some (b, state', out')"
  shows "same_use (entry (o_index out)) (entry (o_index out'))"
proof -
  have e: "entry (set_entry p e) = e" for p e by (simp add: set_entry_def)
  have u: "same_use e (e\<lparr>nUndoPos := n, nStatus := nStatus e OR BLOCK_HAVE_UNDO\<rparr>)" for e n
    by (simp add: same_use_def status_masks)
  show ?thesis using assms RaiseValidity_use same_use_trans [OF u] unfolding write_undo_def Let_def
    by (fastforce simp: e vs_Error_def split: if_splits option.splits bool.splits prod.splits)
qed

lemma finish_connect_use:
  assumes "finish_connect E block just pindex state k = Some (b, state', out)"
  shows "same_use (entry pindex) (entry (o_index out))"
proof -
  define pi where "pi = set_entry pindex ((entry pindex)\<lparr>nMoneySupply := wrap64 (wrap64 (supply_before pindex + k_nValueOut k) - k_nValueIn k),
      nMint := wrap64 (wrap64 (wrap64 (supply_before pindex + k_nValueOut k) - k_nValueIn k) - supply_before pindex)\<rparr>)"
  define o1 where "o1 = \<lparr>o_index = pi, o_view = k_view k, o_undo = None, o_dirty = False, o_txindex = []\<rparr>"
  have p: "same_use (entry pindex) (entry pi)" by (simp add: pi_def set_entry_def same_use_def)
  have o1: "o_index o1 = pi" by (simp add: o1_def)
  have w: "write_undo E us st o1 = Some (r, st', o2) \<Longrightarrow> same_use (entry pindex) (entry (o_index o2))" for us st r st' o2
    using write_undo_use [of E us st o1] same_use_trans [OF p] o1 by simp
  note d = assms [unfolded finish_connect_def Let_def pi_def [symmetric] o1_def [symmetric]]
  show ?thesis using d p o1 w
    by (auto simp: refused vs_Error_def split: option.splits if_splits bool.splits prod.splits)
qed

lemma ConnectBlock_use:
  assumes "ConnectBlock Quark Hash bget bbest E mns block state pindex view just = Some (b, state', out)"
  shows "same_use (entry pindex) (entry (o_index out))"
  using assms unfolding ConnectBlock_def Let_def refused prod.case
  by (elim some_elims) (use finish_connect_use in \<open>auto split: prod.splits\<close>)

subsection \<open>What every operation keeps\<close>

text \<open>The block map, the sequence numbers and the data of the blocks stay; failures stay; candidates only go.\<close>

definition tame :: "'b node_state \<Rightarrow> 'b node_state \<Rightarrow> bool" where
  "tame st st' \<longleftrightarrow>
     mapBlockIndex st' = mapBlockIndex st \<and> set (setBlockIndexCandidates st') \<subseteq> set (setBlockIndexCandidates st) \<and>
     (\<forall>b. nSequenceId (heap st' b) = nSequenceId (heap st b) \<and> nChainTx (heap st' b) = nChainTx (heap st b) \<and>
        has_data st' b = has_data st b \<and> (failed st b \<longrightarrow> failed st' b))"

named_theorems tame_rules

lemma tame_refl [simp, tame_rules]: "tame st st"
  by (simp add: tame_def)

lemma tame_trans: "tame st st' \<Longrightarrow> tame st' st'' \<Longrightarrow> tame st st''"
  by (auto simp: tame_def)

lemma failed_or: "(s :: u32) AND BLOCK_FAILED_MASK \<noteq> 0 \<Longrightarrow> (s OR f) AND BLOCK_FAILED_MASK \<noteq> 0"
proof
  assume s: "s AND BLOCK_FAILED_MASK \<noteq> 0" and z: "(s OR f) AND BLOCK_FAILED_MASK = 0"
  have "s AND BLOCK_FAILED_MASK = 0"
  proof (rule bit_word_eqI)
    fix n
    show "bit (s AND BLOCK_FAILED_MASK) n \<longleftrightarrow> bit (0 :: u32) n"
      using arg_cong [OF z, of "\<lambda>w. bit w n"] by (auto simp: bit_simps)
  qed
  then show False using s by simp
qed

lemma tame_fields [tame_rules]:
  "tame st (st\<lparr>chainActive := v\<rparr>)" "tame st (st\<lparr>pcoinsTip := c\<rparr>)" "tame st (st\<lparr>mempool := p\<rparr>)"
  "tame st (st\<lparr>mapBlocksUnlinked := u\<rparr>)" "tame st (st\<lparr>pindexBestInvalid := i\<rparr>)" "tame st (st\<lparr>setDirtyBlockIndex := d\<rparr>)"
  "tame st (st\<lparr>mapBlockSource := ms\<rparr>)" "tame st (st\<lparr>mapNodeState := ns\<rparr>)"
  by (simp_all add: tame_def failed_def has_data_def)

lemma tame_set_dirty [tame_rules]: "tame st (set_dirty b st)"
  by (simp add: set_dirty_def tame_rules)

lemma tame_erase [tame_rules]: "tame st (erase_candidate b st)"
  by (auto simp: tame_def erase_candidate_def failed_def has_data_def)

lemma tame_status [tame_rules]:
  "tame st (set_status (\<lambda>s. s OR BLOCK_FAILED_VALID) b st)" "tame st (set_status (\<lambda>s. s OR BLOCK_FAILED_CHILD) b st)"
  by (auto simp: tame_def set_status_def failed_def has_data_def status_masks failed_or)

lemma tame_entry: "same_use (heap st b) e \<Longrightarrow> tame st (st\<lparr>heap := (heap st)(b := e)\<rparr>)"
  by (auto simp: tame_def failed_def has_data_def same_use_def)

lemma Misbehaving_peers: "\<exists>ns. Misbehaving W n k st = st\<lparr>mapNodeState := ns\<rparr>"
proof (cases "k = 0 \<or> map_of (mapNodeState st) n = None")
  case True
  then have "Misbehaving W n k st = st\<lparr>mapNodeState := mapNodeState st\<rparr>" by (auto simp: Misbehaving_def)
  then show ?thesis by blast
next
  case False
  then obtain ns where ns: "k \<noteq> 0" "map_of (mapNodeState st) n = Some ns" by auto
  have "\<exists>ns'. Misbehaving W n k st = st\<lparr>mapNodeState := AList.update n ns' (mapNodeState st)\<rparr>"
    unfolding Misbehaving_def Let_def if_not_P [OF ns(1)] ns(2) option.case by (rule exI, rule refl)
  then show ?thesis by blast
qed

lemma blame_source_peers:
  assumes "blame_source W b state n st = Some st'" shows "\<exists>ns. st' = st\<lparr>mapNodeState := ns\<rparr>"
proof -
  have m: "\<exists>ns. Misbehaving W m k (st\<lparr>mapNodeState := ns0\<rparr>) = st\<lparr>mapNodeState := ns\<rparr>" for m k ns0
    using Misbehaving_peers [of W m k "st\<lparr>mapNodeState := ns0\<rparr>"] by simp
  have "\<exists>ns. st = st\<lparr>mapNodeState := ns\<rparr>" by (rule exI [of _ "mapNodeState st"]) simp
  then show ?thesis using assms m unfolding blame_source_def Let_def by (auto split: option.splits if_splits)
qed

lemma blame_source_tame:
  assumes "blame_source W b state n st = Some st'"
  shows "tame st st' \<and> chainActive st' = chainActive st \<and> heap st' = heap st \<and> mempool st' = mempool st"
proof -
  obtain ns where "st' = st\<lparr>mapNodeState := ns\<rparr>" using blame_source_peers [OF assms] by blast
  then show ?thesis by (simp add: tame_rules)
qed

lemma InvalidChainFound_tame:
  "InvalidChainFound b st = Some st' \<Longrightarrow> tame st st' \<and> chainActive st' = chainActive st \<and> heap st' = heap st \<and> mempool st' = mempool st"
  by (auto simp: InvalidChainFound_def tame_rules split: if_splits)

lemma InvalidBlockFound_tame:
  assumes "InvalidBlockFound W b state st = Some st'"
  shows "tame st st' \<and> chainActive st' = chainActive st \<and> mempool st' = mempool st \<and> (\<forall>c. c \<noteq> b \<longrightarrow> heap st' c = heap st c) \<and>
    (\<not> corruptionPossible state \<longrightarrow> failed st' b)"
proof -
  obtain st1 where s1: "(case vs_IsInvalid state of None \<Rightarrow> Some st | Some nDoS \<Rightarrow> blame_source W b state nDoS st) = Some st1"
    and r: "(if \<not> corruptionPossible state
          then InvalidChainFound b (erase_candidate b (set_dirty b (set_status (\<lambda>s. s OR BLOCK_FAILED_VALID) b st1)))
          else Some st1) = Some st'"
    using assms unfolding InvalidBlockFound_def by (elim some_caseE)
  have 1: "tame st st1" "chainActive st1 = chainActive st" "heap st1 = heap st" "mempool st1 = mempool st"
    using s1 blame_source_tame [of W b state _ st st1] by (auto split: option.splits)
  let ?st2 = "erase_candidate b (set_dirty b (set_status (\<lambda>s. s OR BLOCK_FAILED_VALID) b st1))"
  have 2: "tame st1 ?st2" by (rule tame_trans [OF tame_status(1) tame_trans [OF tame_set_dirty tame_erase]])
  have 3: "chainActive ?st2 = chainActive st1" "mempool ?st2 = mempool st1" "\<And>c. c \<noteq> b \<Longrightarrow> heap ?st2 c = heap st1 c" "failed ?st2 b"
    by (simp_all add: erase_candidate_def set_dirty_def set_status_def failed_def status_masks)
  show ?thesis
  proof (cases "corruptionPossible state")
    case True
    then show ?thesis using r 1 by simp
  next
    case False
    then have "InvalidChainFound b ?st2 = Some st'" using r by simp
    note T = this [THEN InvalidChainFound_tame]
    have "tame st st'" using T by (intro tame_trans [OF 1(1) tame_trans [OF 2]]) blast
    then show ?thesis using T 1 3 by (auto simp: failed_def)
  qed
qed

lemma FlushStateToDisk_tame:
  assumes "FlushStateToDisk W state mode st = Some (b, state', st')"
  shows "tame st st' \<and> chainActive st' = chainActive st \<and> heap st' = heap st \<and> mempool st' = mempool st \<and>
    setBlockIndexCandidates st' = setBlockIndexCandidates st \<and> (b \<longrightarrow> state' = state) \<and> (\<not> b \<longrightarrow> vs_IsInvalid state' = None)"
  using assms tame_trans [OF tame_fields(6) tame_fields(2)] unfolding FlushStateToDisk_def Let_def vs_Error_def
  by (auto simp: tame_rules vs_IsInvalid_def split: if_splits write_outcome.splits option.splits)

lemma UpdateTip_tame:
  "UpdateTip b st = Some st' \<Longrightarrow> tame st st' \<and> heap st' = heap st \<and> b \<noteq> None \<and> chainActive st' = SetTip (chainActive st) b \<and>
    setBlockIndexCandidates st' = setBlockIndexCandidates st \<and> mempool st' = AddTransactionsUpdated (mempool st) 1"
  by (auto simp: UpdateTip_def tame_def failed_def has_data_def split: option.splits)

lemma resurrect_tame:
  "resurrect W txs st = Some st' \<Longrightarrow> tame st st' \<and> heap st' = heap st \<and> chainActive st' = chainActive st \<and>
    setBlockIndexCandidates st' = setBlockIndexCandidates st"
proof (induction txs arbitrary: st)
  case (Cons tx txs)
  obtain pool coins where r: "resurrect W txs (st\<lparr>mempool := pool, pcoinsTip := coins\<rparr>) = Some st'"
    using Cons.prems unfolding resurrect.simps by (elim some_elims)
  have "tame st (st\<lparr>mempool := pool, pcoinsTip := coins\<rparr>)" by (simp add: tame_def failed_def has_data_def)
  then show ?case using Cons.IH [OF r] tame_trans by auto
qed simp

lemma DisconnectTip_tame:
  assumes "DisconnectTip W state st = Some (b, state', st')"
  shows "tame st st' \<and> heap st' = heap st \<and> setBlockIndexCandidates st' = setBlockIndexCandidates st \<and>
    (if b then state' = state \<and> (\<exists>t p. Tip (chainActive st) False = Some t \<and> pprev t = Some p \<and> chainActive st' = SetTip (chainActive st) (Some p))
     else chainActive st' = chainActive st)"
proof -
  obtain t where t: "Tip (chainActive st) False = Some t" using assms by (cases "Tip (chainActive st) False") (auto simp: DisconnectTip_def)
  note d = assms [unfolded DisconnectTip_def t option.case]
  show ?thesis
  proof (cases "op_read_block W st t")
    case None
    then show ?thesis using d by (auto simp: vs_Error_def)
  next
    case (Some block)
    note d = d [unfolded Some option.case]
    obtain r fc view where v: "DisconnectBlock (op_Hash W) (cache_GetCoins (op_get W)) (cache_GetBestBlock (op_best W)) (op_read_undo W st)
             block (current (heap st) t) False (new_cache (pcoinsTip st)) = Some (r, fc, view)"
      using d by (elim some_caseE) auto
    note d = d [unfolded v option.case prod.case]
    show ?thesis
    proof (cases r)
      case False
      then show ?thesis using d by (auto simp: tame_rules)
    next
      case True
      obtain view' where f: "Flush cache_BatchWrite view = Some view'" using d True by (auto split: option.splits)
      let ?st1 = "st\<lparr>pcoinsTip := base view'\<rparr>"
      obtain b1 state1 st2 where fl: "FlushStateToDisk W state FLUSH_STATE_ALWAYS ?st1 = Some (b1, state1, st2)"
        using d True f by (auto split: option.splits)
      note F = FlushStateToDisk_tame [OF fl]
      have s2: "tame st st2" "heap st2 = heap st" "chainActive st2 = chainActive st" "setBlockIndexCandidates st2 = setBlockIndexCandidates st"
        using F tame_trans [OF tame_fields(2)] by auto
      show ?thesis
      proof (cases b1)
        case False
        then show ?thesis using d True f fl s2 by auto
      next
        case b1: True
        note d = d [unfolded True bool.case f option.case fl prod.case b1]
        obtain st3 pool coins where r: "resurrect W (vtx block) st2 = Some st3"
          and u: "UpdateTip (pprev t) (st3\<lparr>mempool := pool, pcoinsTip := coins\<rparr>) = Some st'" and b: "b" "state' = state1"
          using d True b1 by (elim some_elims) auto
        note R = resurrect_tame [OF r] and U = UpdateTip_tame [OF u]
        have "tame st3 (st3\<lparr>mempool := pool, pcoinsTip := coins\<rparr>)" by (simp add: tame_def failed_def has_data_def)
        then have "tame st st'" using R U s2(1) tame_trans by blast
        moreover obtain p where "pprev t = Some p" using U by auto
        ultimately show ?thesis using R U s2 t b F b1 by auto
      qed
    qed
  qed
qed

lemma entry_current: "entry (current hp b) = hp b"
  by (cases b) simp

lemma ConnectTip_tame:
  assumes "ConnectTip W state c pblock st = Some (b, state', st')"
  shows "tame st st' \<and> (\<forall>d. d \<noteq> c \<longrightarrow> heap st' d = heap st d) \<and> pprev c = Tip (chainActive st) False \<and>
    (if b then chainActive st' = SetTip (chainActive st) (Some c) \<and> setBlockIndexCandidates st' = setBlockIndexCandidates st \<and>
             failed st' c = failed st c \<and> state' = state
     else chainActive st' = chainActive st \<and> (vs_IsInvalid state' \<noteq> None \<longrightarrow> \<not> corruptionPossible state' \<longrightarrow> failed st' c))"
proof -
  have p: "pprev c = Tip (chainActive st) False" using assms by (auto simp: ConnectTip_def split: if_splits)
  have "\<not> pprev c \<noteq> Tip (chainActive st) False" by (simp add: p)
  note d = assms [unfolded ConnectTip_def if_not_P [OF this]]
  show ?thesis
  proof (cases "case pblock of Some b \<Rightarrow> Some b | None \<Rightarrow> op_read_block W st c")
    case None
    then show ?thesis using d p by (auto simp: vs_Error_def vs_IsInvalid_def)
  next
    case (Some block)
    note d = d [unfolded Some option.case]
    obtain hash where h: "GetBlockHash c = Some hash" using d by (elim some_caseE)
    obtain rv state1 out where C: "ConnectBlock (op_Quark W) (op_Hash W) (cache_GetCoins (op_get W)) (cache_GetBestBlock (op_best W)) (tip_env W st)
             (masternodePayments st) block state (current (heap st) c) (new_cache (pcoinsTip st)) False = Some (rv, state1, out)"
      using d by (elim some_caseE) auto
    define st0 where "st0 = (if o_dirty out then set_dirty c st else st)"
    define st1 where "st1 = st0\<lparr>heap := (heap st)(c := entry (o_index out)), pcoinsTip := base (o_view out)\<rparr>"
    have u: "same_use (heap st c) (entry (o_index out))" using ConnectBlock_use [OF C] by (simp add: entry_current)
    have st0: "tame st st0" "heap st0 = heap st" "chainActive st0 = chainActive st" "setBlockIndexCandidates st0 = setBlockIndexCandidates st"
      by (simp_all add: st0_def tame_rules set_dirty_def)
    have "st1 = (st0\<lparr>heap := (heap st0)(c := entry (o_index out))\<rparr>)\<lparr>pcoinsTip := base (o_view out)\<rparr>"
      by (simp add: st1_def st0(2))
    then have t1: "tame st st1"
      using tame_trans [OF st0(1) tame_trans [OF tame_entry tame_fields(2)]] u st0(2) by simp
    have st1: "\<forall>d. d \<noteq> c \<longrightarrow> heap st1 d = heap st d" "chainActive st1 = chainActive st" "failed st1 c = failed st c"
        "setBlockIndexCandidates st1 = setBlockIndexCandidates st"
      using u st0 by (simp_all add: st1_def failed_def same_use_def)
    have state1: "state1 = state" if rv using ConnectBlock_state C that by auto
    note d = d [unfolded h C option.case prod.case Let_def, folded st0_def, folded st1_def]
    show ?thesis
    proof (cases rv)
      case False
      note d = d [unfolded if_P [OF False]]
      obtain st2 where s2: "(if vs_IsInvalid state1 \<noteq> None then InvalidBlockFound W c state1 st1 else Some st1) = Some st2"
        and e: "(b, state', st') = (False, state1, st2)"
        using d by (rule map_someE)
      have r: "b = False" "state' = state1" "st' = st2" using e by simp_all
      show ?thesis
      proof (cases "vs_IsInvalid state1")
        case None
        then show ?thesis using s2 r t1 st1 p by auto
      next
        case (Some n)
        then have "InvalidBlockFound W c state1 st1 = Some st2" using s2 by simp
        note I = InvalidBlockFound_tame [OF this]
        then show ?thesis using r t1 st1 p tame_trans [OF t1] by auto
      qed
    next
      case True
      have "\<not> \<not> rv" using True by simp
      note d = d [unfolded if_not_P [OF this]]
      obtain view where f: "Flush cache_BatchWrite (o_view out) = Some view" using d by (rule some_caseE)
      define st2 where "st2 = st1\<lparr>mapBlockSource := AList.delete hash (mapBlockSource st1), pcoinsTip := base view\<rparr>"
      have t2: "tame st st2" unfolding st2_def by (rule tame_trans [OF t1]) (simp add: tame_def failed_def has_data_def)
      note d = d [unfolded f option.case, folded st2_def]
      obtain x where fl': "FlushStateToDisk W state1 (case pprev c of
                        Some p \<Rightarrow> if dp_nFile (GetBlockPos (current (heap st2) c)) \<noteq> dp_nFile (GetBlockPos (current (heap st2) p))
                                  then FLUSH_STATE_ALWAYS else FLUSH_STATE_IF_NEEDED
                      | None \<Rightarrow> FLUSH_STATE_IF_NEEDED) st2 = Some x"
        and d': "(case x of (False, state, st) \<Rightarrow> Some (False, state, st)
          | (True, state, st) \<Rightarrow>
         (case removeForBlock (op_Hash W) (vtx block) (word_of_int (nHeight (entry c))) (mempool st) [] of
            None \<Rightarrow> None
          | Some (_, pool, _) \<Rightarrow>
              map_option (\<lambda>st. (True, state, st)) (UpdateTip (Some c) (st\<lparr>mempool := pool\<rparr>)))) = Some (b, state', st')"
        using d by (rule some_caseE)
      obtain b1 state2 st3 where x: "x = (b1, state2, st3)" by (cases x) auto
      note fl = fl' [unfolded x]
      note F = FlushStateToDisk_tame [OF fl]
      have s3: "tame st st3" "\<forall>d. d \<noteq> c \<longrightarrow> heap st3 d = heap st d" "chainActive st3 = chainActive st" "failed st3 c = failed st c"
          "setBlockIndexCandidates st3 = setBlockIndexCandidates st"
        using F tame_trans [OF t2] st1 by (auto simp: st2_def failed_def)
      show ?thesis
      proof (cases b1)
        case False
        then show ?thesis using d' F s3 p x by auto
      next
        case True
        obtain pool where u: "UpdateTip (Some c) (st3\<lparr>mempool := pool\<rparr>) = Some st'" and b: "b" "state' = state2"
          using True d' [unfolded x prod.case] by (elim some_elims) auto
        note U = UpdateTip_tame [OF u]
        have "tame st st'" using U tame_trans [OF s3(1) tame_trans [OF tame_fields(3)]] by blast
        then show ?thesis using U s3 p b F state1 \<open>rv\<close> True by (auto simp: failed_def)
      qed
    qed
  qed
qed

text \<open>Connecting an intact block to the tip never suspects a corruption.\<close>

lemma FlushStateToDisk_suspicion:
  "FlushStateToDisk W state mode st = Some (b, state', st') \<Longrightarrow> corruptionPossible state' = corruptionPossible state"
  by (auto simp: FlushStateToDisk_def Let_def vs_Error_def split: if_splits write_outcome.splits option.splits)

lemma ConnectTip_suspicion:
  assumes "ConnectTip W state c pb st = Some (b, state', st')" "\<not> corruptionPossible state"
    "\<And>block. (case pb of Some b \<Rightarrow> Some b | None \<Rightarrow> op_read_block W st c) = Some block \<Longrightarrow>
       intact_block (op_Quark W) (op_Hash W) (me_params (op_env W st)) block"
  shows "\<not> corruptionPossible state'"
proof (cases "case pb of Some b \<Rightarrow> Some b | None \<Rightarrow> op_read_block W st c")
  case None
  then show ?thesis using assms(1,2) by (auto simp: ConnectTip_def vs_Error_def split: if_splits)
next
  case (Some block)
  have e: "me_params (tip_env W st) = me_params (op_env W st)" by (simp add: tip_env_def)
  have C: "\<not> corruptionPossible s'" if
    "ConnectBlock (op_Quark W) (op_Hash W) (cache_GetCoins (op_get W)) (cache_GetBestBlock (op_best W)) (tip_env W st)
       (masternodePayments st) block state pi view False = Some (r, s', out)" for pi view r s' out
    by (rule ConnectBlock_suspicion [OF that assms(3) [OF Some, folded e] assms(2)])
  show ?thesis using assms(1) unfolding ConnectTip_def Let_def Some option.case
    by (elim some_elims) (auto dest!: C dest: FlushStateToDisk_suspicion)
qed

end
