(* ===== verification/Best_Tip.thy ===== *)
theory Best_Tip
  imports Best_Chain
begin

text \<open>
  Where activating the best chain ends: the invariant of the node, the search for the candidate, the
  step towards it and the rounds.
\<close>

subsection \<open>The invariant of the node\<close>

definition usable :: "'b node_state \<Rightarrow> CBlockIndex \<Rightarrow> bool" where
  "usable st b \<longleftrightarrow> \<not> failed st b \<and> has_data st b"

text \<open>
  The active chain is the path to its tip and its blocks are usable; the candidates were entered in the
  index; the blocks of the chain and on the ways to the candidates are in a set.
\<close>

definition node_in :: "CBlockIndex set \<Rightarrow> 'b node_state \<Rightarrow> bool" where
  "node_in S st \<longleftrightarrow> chain_ok (chainActive st) \<and> (\<forall>c \<in> set (setBlockIndexCandidates st). indexed c \<and> set (path c) \<subseteq> S) \<and>
     (\<forall>b. Some b \<in> set (chainActive st) \<longrightarrow> usable st b \<and> b \<in> S)"

definition node_ok :: "'b node_state \<Rightarrow> bool" where
  "node_ok st \<longleftrightarrow> node_in {b. is_uint256 (nChainWork (entry b))} st"

lemma Tip_path: "Tip (map Some (path t)) False = Some t"
proof -
  have p: "path t \<noteq> []" by (simp add: path_simp [of t])
  then have "path t ! (length (path t) - 1) = last (path t)" by (rule last_conv_nth [symmetric])
  then have n: "path t ! (length (path t) - Suc 0) = t" unfolding last_path by simp
  have "0 < length (path t)" using p by simp
  then show ?thesis by (simp add: Tip_def n)
qed

lemma path_self [simp]: "b \<in> set (path b)" "path b \<noteq> []"
  by (simp_all add: path_simp [of b])

lemma chain_okE:
  assumes "chain_ok v"
  obtains "v = []" "Tip v False = None" | t where "indexed t" "v = map Some (path t)" "Tip v False = Some t"
  using assms Tip_path by (auto simp: chain_ok_def) (auto simp: Tip_def)

lemma Tip_None: "chain_ok v \<Longrightarrow> Tip v False = None \<longleftrightarrow> v = []"
  by (erule chain_okE) auto

lemma Tip_chain:
  assumes "chain_ok v" "Tip v False = Some t" shows "indexed t" "v = map Some (path t)"
  using assms(1) by (rule chain_okE, use assms(2) in auto)+

lemma path_closed: "indexed b \<Longrightarrow> c \<in> set (path b) \<Longrightarrow> set (path c) \<subseteq> set (path b)"
  using path_take [of b c] set_take_subset by metis

lemma Contains_chain: "chain_ok v \<Longrightarrow> indexed b \<Longrightarrow> Contains v b \<longleftrightarrow> Some b \<in> set v"
  using indexed_height [of b] by (erule_tac chain_okE) (auto simp: Contains_path, auto simp: Contains_def chain_at_def split: if_splits)

lemma chain_closed: "chain_ok v \<Longrightarrow> Some b \<in> set v \<Longrightarrow> indexed b \<and> (\<forall>c \<in> set (path b). Some c \<in> set v)"
  using path_take path_closed by (erule_tac chain_okE) (auto, blast)

text \<open>A successful connection adds the block, a successful disconnection takes the tip off.\<close>

lemma connected_chain:
  assumes "chain_ok v" "indexed c" "pprev c = Tip v False"
  shows "SetTip v (Some c) = v @ [Some c]"
  using assms(1)
proof (cases rule: chain_okE)
  case 1
  then show ?thesis using SetTip_path [OF assms(1,2)] assms(3) by (simp add: path_simp [of c])
next
  case (2 t)
  then show ?thesis using SetTip_path [OF assms(1,2)] assms(3) by (simp add: path_simp [of c])
qed

lemma disconnected_chain:
  assumes "chain_ok v" "Tip v False = Some t" "pprev t = Some p"
  shows "v = SetTip v (Some p) @ [Some t]" "SetTip v (Some p) = map Some (path p)" "indexed p"
proof -
  note T = Tip_chain [OF assms(1,2)]
  show p: "indexed p" using indexed_height [OF T(1)] assms(3) by simp
  show s: "SetTip v (Some p) = map Some (path p)" by (rule SetTip_path [OF assms(1) p])
  show "v = SetTip v (Some p) @ [Some t]" unfolding s using T(2) assms(3) by (simp add: path_simp [of t])
qed

lemma tame_usable: "tame st st' \<Longrightarrow> failed st' b = failed st b \<Longrightarrow> usable st' b = usable st b"
  by (simp add: tame_def usable_def)

lemma node_in_tame:
  assumes "node_in S st" "tame st st'" "chain_ok (chainActive st')" "\<And>b. Some b \<in> set (chainActive st') \<Longrightarrow> usable st' b \<and> b \<in> S"
  shows "node_in S st'"
  using assms unfolding node_in_def tame_def by blast

lemma node_in_same_chain:
  assumes "node_in S st" "tame st st'" "chainActive st' = chainActive st" "\<And>b. Some b \<in> set (chainActive st) \<Longrightarrow> failed st' b = failed st b"
  shows "node_in S st'"
proof (rule node_in_tame [OF assms(1,2)])
  show "usable st' b \<and> b \<in> S" if "Some b \<in> set (chainActive st')" for b
    using that assms by (auto simp: node_in_def tame_usable)
qed (use assms in \<open>simp add: node_in_def\<close>)

subsection \<open>The search for the candidate\<close>

lemma unusable_None:
  assumes "unusable st (Some b) = Some None" "indexed b" "chain_ok (chainActive st)"
  shows "\<forall>c \<in> set (path b). Some c \<in> set (chainActive st) \<or> usable st c"
  using assms(1,2)
proof (induction b rule: CBlockIndex_induct)
  case (1 b)
  have u: "unusable st (Some b) = (if Contains (chainActive st) b then Some None
      else if nChainTx (heap st b) = 0 \<and> nHeight (entry b) \<noteq> 0 then None
      else if failed st b \<or> \<not> has_data st b then Some (Some b) else unusable st (pprev b))"
    by (cases b) (simp add: Let_def)
  show ?case
  proof (cases "Contains (chainActive st) b")
    case True
    then show ?thesis using Contains_chain [OF assms(3) 1(3)] chain_closed [OF assms(3)] by blast
  next
    case False
    then have r: "usable st b" "unusable st (pprev b) = Some None" using 1(2) u by (auto simp: usable_def split: if_splits)
    then show ?thesis using 1(1) indexed_height [OF 1(3)] by (cases "pprev b") (auto simp: path_simp [of b])
  qed
qed

lemma unusable_Some:
  assumes "unusable st (Some b) = Some (Some c)" "indexed b" "chain_ok (chainActive st)"
  shows "c \<in> set (path b) \<and> \<not> usable st c \<and> (\<forall>d \<in> set (path b). c \<in> set (path d) \<longrightarrow> Some d \<notin> set (chainActive st))"
  using assms(1,2)
proof (induction b rule: CBlockIndex_induct)
  case (1 b)
  have u: "unusable st (Some b) = (if Contains (chainActive st) b then Some None
      else if nChainTx (heap st b) = 0 \<and> nHeight (entry b) \<noteq> 0 then None
      else if failed st b \<or> \<not> has_data st b then Some (Some b) else unusable st (pprev b))"
    by (cases b) (simp add: Let_def)
  have n: "Some b \<notin> set (chainActive st)" using 1(2) u Contains_chain [OF assms(3) 1(3)] by (auto split: if_splits)
  have none: "\<forall>d \<in> set (path b). c \<in> set (path d) \<longrightarrow> Some d \<notin> set (chainActive st)" if "Some c \<notin> set (chainActive st)"
    using that chain_closed [OF assms(3)] by blast
  show ?case
  proof (cases "failed st b \<or> \<not> has_data st b")
    case True
    then have "c = b" using 1(2) u by (auto split: if_splits)
    then show ?thesis using True n none by (auto simp: usable_def path_simp [of b])
  next
    case False
    then have "unusable st (pprev b) = Some (Some c)" using 1(2) u by (auto split: if_splits)
    then obtain p where p: "pprev b = Some p" "unusable st (Some p) = Some (Some c)" by (cases "pprev b") auto
    then have "indexed p" using indexed_height [OF 1(3)] by blast
    note i = 1(1) [OF p this]
    then have "Some c \<notin> set (chainActive st)" by (auto simp: path_simp [of c])
    then show ?thesis using i none p(1) by (auto simp: path_simp [of b])
  qed
qed

lemma reject_chain_marks:
  "reject_chain ff t b st = Some st' \<Longrightarrow> t \<in> set (path b) \<Longrightarrow> indexed b \<Longrightarrow>
   tame st st' \<and> chainActive st' = chainActive st \<and>
   (\<forall>d. \<not> (d \<in> set (path b) \<and> t \<in> set (path d)) \<longrightarrow> heap st' d = heap st d)"
proof (induction ff t b st rule: reject_chain.induct)
  case (1 ff t e p s st)
  let ?b = "Index e p s"
  define st1 where "st1 = (if ff then set_status (\<lambda>s. s OR BLOCK_FAILED_CHILD) ?b st
      else st\<lparr>mapBlocksUnlinked := mapBlocksUnlinked st @ [(p, ?b)]\<rparr>)"
  have k: "tame st st1" "chainActive st1 = chainActive st" "\<And>d. d \<noteq> ?b \<Longrightarrow> heap st1 d = heap st d"
    by (auto simp: st1_def tame_rules) (simp_all add: set_status_def)
  have k': "tame st (erase_candidate ?b st1)" by (rule tame_trans [OF k(1) tame_erase])
  have e: "chainActive (erase_candidate d st0) = chainActive st0" "heap (erase_candidate d st0) = heap st0" for d st0
    by (simp_all add: erase_candidate_def)
  show ?case
  proof (cases "t = ?b")
    case True
    then show ?thesis using 1(2) by (auto simp: tame_rules e)
  next
    case False
    then obtain q where q: "p = Some q" "reject_chain ff t q (erase_candidate ?b st1) = Some st'"
      using 1(2) by (auto simp: st1_def Let_def split: option.splits if_splits)
    have pb: "path ?b = path q @ [?b]" unfolding q(1) by (simp add: path_simp [of "Index e (Some q) s"])
    have tq: "t \<in> set (path q)" and iq: "indexed q" using 1(3) False pb indexed_height [OF 1(4)] q(1) by auto
    note I = 1(1) [OF refl False st1_def refl q tq iq]
    have tb: "t \<in> set (path ?b)" by (rule 1(3))
    have "tame st st'" using I tame_trans [OF k'] by blast
    moreover have "heap st' d = heap st d" if "\<not> (d \<in> set (path ?b) \<and> t \<in> set (path d))" for d
    proof -
      have "?b \<in> set (path ?b)" by (simp add: pb)
      then have "d \<noteq> ?b" using that tb by blast
      then show ?thesis using that I k(3) by (simp add: e pb)
    qed
    ultimately show ?thesis using I k(2) by (simp add: e)
  qed
qed

text \<open>The search keeps the active chain and its blocks; what it finds is usable down to the active chain, and the best.\<close>

lemma FindMostWorkChain_law:
  "FindMostWorkChain W st = Some (r, st') \<Longrightarrow> node_in S st \<Longrightarrow>
   node_in S st' \<and> tame st st' \<and> chainActive st' = chainActive st \<and>
   r = best_candidate (work_less W st') (setBlockIndexCandidates st') \<and>
   (\<forall>b. r = Some b \<longrightarrow> indexed b \<and> (\<forall>c \<in> set (path b). usable st' c \<and> c \<in> S))"
proof (induction W st rule: FindMostWorkChain.induct)
  case (1 W st)
  note F = 1(2) [unfolded FindMostWorkChain.simps [of W st]]
  show ?case
  proof (cases "best_candidate (work_less W st) (setBlockIndexCandidates st)")
    case None
    then show ?thesis using F 1(3) by (auto simp: tame_rules)
  next
    case (Some b)
    note best = Some
    have b: "b \<in> set (setBlockIndexCandidates st)" by (rule best_candidate_in [OF Some])
    then have ib: "indexed b" and ck: "chain_ok (chainActive st)" and us: "\<And>c. Some c \<in> set (chainActive st) \<Longrightarrow> usable st c"
      using 1(3) by (auto simp: node_in_def)
    note F = F [unfolded Some option.case]
    obtain u where u: "unusable st (Some b) = Some u" using F by (rule some_caseE)
    note F = F [unfolded u option.case]
    show ?thesis
    proof (cases u)
      case None
      have "\<forall>c \<in> set (path b). usable st c \<and> c \<in> S"
        using unusable_None [OF u [unfolded None] ib ck] us 1(3) b unfolding node_in_def by blast
      then show ?thesis using F None 1(3) best ib by (auto simp: tame_rules)
    next
      case (Some t)
      note U = unusable_Some [OF u [unfolded Some] ib ck]
      define st1 where "st1 = (if failed st t \<and> (case pindexBestInvalid st of None \<Rightarrow> True | Some i \<Rightarrow> more_work b i)
                    then st\<lparr>pindexBestInvalid := Some b\<rparr> else st)"
      have s1: "tame st st1" "chainActive st1 = chainActive st" "heap st1 = heap st" "failed st1 = failed st"
        by (auto simp: st1_def tame_rules failed_def [abs_def])
      obtain st2 where r: "reject_chain (failed st1 t) t b st1 = Some st2" and f: "FindMostWorkChain W st2 = Some (r, st')"
        using F [unfolded Some option.case Let_def, folded st1_def] by (rule some_caseE)
      note R = reject_chain_marks [OF r _ ib]
      have t2: "tame st st2" using R U tame_trans [OF s1(1)] by blast
      have c2: "chainActive st2 = chainActive st" using R U s1 by simp
      have "failed st2 d = failed st d" if "Some d \<in> set (chainActive st)" for d
      proof -
        have "\<not> (d \<in> set (path b) \<and> t \<in> set (path d))" using U that by blast
        then show ?thesis using R U s1 by (simp add: failed_def)
      qed
      note n2 = node_in_same_chain [OF 1(3) t2 c2 this]
      note I = 1(1) [OF best u Some st1_def r f n2]
      then show ?thesis using c2 tame_trans [OF t2] by auto
    qed
  qed
qed


subsection \<open>The best candidate\<close>

text \<open>The comparator orders the candidates by work, then by age, then by address.\<close>

definition candidate_key :: "'b node_ops \<Rightarrow> 'b node_state \<Rightarrow> CBlockIndex \<Rightarrow> int \<times> int \<times> int" where
  "candidate_key W st b = (int (wval (nChainWork (entry b))), - uint (nSequenceId (heap st b)), - int (op_address W b))"

lemma work_less_key:
  assumes "is_uint256 (nChainWork (entry a))" "is_uint256 (nChainWork (entry b))"
  shows "work_less W st a b \<longleftrightarrow>
    (case (candidate_key W st a, candidate_key W st b) of ((wa, sa, aa), (wb, sb, ab)) \<Rightarrow>
       wa < wb \<or> (wa = wb \<and> (sa < sb \<or> (sa = sb \<and> aa < ab))))"
proof -
  have "bu_compare (nChainWork (entry a)) (nChainWork (entry b)) =
      (if wval (nChainWork (entry a)) < wval (nChainWork (entry b)) then -1
       else if wval (nChainWork (entry a)) > wval (nChainWork (entry b)) then 1 else 0)"
    by (rule bu_compare_val) (use assms in auto)
  then show ?thesis by (auto simp: work_less_def candidate_key_def word_less_def)
qed

lemma more_work_wval:
  assumes "is_uint256 (nChainWork (entry a))" "is_uint256 (nChainWork (entry b))"
  shows "more_work a b \<longleftrightarrow> wval (nChainWork (entry b)) < wval (nChainWork (entry a))"
proof -
  have "bu_compare (nChainWork (entry a)) (nChainWork (entry b)) =
      (if wval (nChainWork (entry a)) < wval (nChainWork (entry b)) then -1
       else if wval (nChainWork (entry a)) > wval (nChainWork (entry b)) then 1 else 0)"
    by (rule bu_compare_val) (use assms in auto)
  then show ?thesis by (auto simp: more_work_def)
qed

lemma best_candidate_max:
  assumes "\<And>x y z. x \<in> set cs \<Longrightarrow> y \<in> set cs \<Longrightarrow> z \<in> set cs \<Longrightarrow> lt x y \<Longrightarrow> \<not> lt x z \<Longrightarrow> lt z y"
    "\<And>x y. x \<in> set cs \<Longrightarrow> y \<in> set cs \<Longrightarrow> lt x y \<Longrightarrow> \<not> lt y x"
    and "best_candidate lt cs = Some b" "c \<in> set cs"
  shows "\<not> lt b c"
  using assms
proof (induction cs arbitrary: b c)
  case Nil
  show ?case using Nil(4) by simp
next
  case (Cons a cs)
  note T = Cons.prems(1) and A = Cons.prems(2)
  show ?case
  proof (cases "best_candidate lt cs")
    case None
    then have "cs = []" by (cases cs) (auto split: option.splits if_splits)
    then show ?thesis using Cons.prems A [of a a] by auto
  next
    case (Some d)
    have d: "d \<in> set cs" by (rule best_candidate_in [OF Some])
    have I: "\<not> lt d x" if "x \<in> set cs" for x
      by (rule Cons.IH [OF _ _ Some that]) (rule T, simp_all, rule A, simp_all)
    show ?thesis
    proof (cases "lt d a")
      case True
      then have b: "b = a" using Cons.prems(3) Some by simp
      show ?thesis
      proof
        assume "lt b c"
        then have ac: "lt a c" using b by simp
        show False
        proof (cases "c = a")
          case True then show ?thesis using ac A [of a a] by auto
        next
          case False
          then have c: "c \<in> set cs" using Cons.prems(4) by simp
          have "lt c a" using T [of d a c] True I [OF c] d c by simp
          then show ?thesis using A [of a c] ac c by simp
        qed
      qed
    next
      case False
      then show ?thesis using Cons.prems(3,4) Some I by auto
    qed
  qed
qed

lemma best_candidate_work:
  assumes "\<forall>c \<in> set cs. is_uint256 (nChainWork (entry c))" "best_candidate (work_less W st) cs = Some b" "c \<in> set cs"
  shows "\<not> work_less W st b c"
proof (rule best_candidate_max [OF _ _ assms(2,3)])
  fix x y z assume "x \<in> set cs" "y \<in> set cs" "z \<in> set cs" "work_less W st x y" "\<not> work_less W st x z"
  then show "work_less W st z y" using assms(1) by (auto simp: work_less_key split: prod.splits)
next
  fix x y assume "x \<in> set cs" "y \<in> set cs" "work_less W st x y"
  then show "\<not> work_less W st y x" using assms(1) by (auto simp: work_less_key split: prod.splits)
qed

lemma work_less_tame: "tame st st' \<Longrightarrow> work_less W st' = work_less W st"
  by (intro ext) (simp add: work_less_def tame_def)


subsection \<open>Moving the tip\<close>

lemma DisconnectTip_law:
  assumes "DisconnectTip W state st = Some (r, state', st')" "node_in S st"
  shows "node_in S st' \<and> tame st st' \<and> heap st' = heap st \<and> chainActive st' = take (length (chainActive st')) (chainActive st) \<and>
    chainActive st \<noteq> [] \<and> chainActive st' \<noteq> [] \<and> (r \<longrightarrow> state' = state \<and> Suc (length (chainActive st')) = length (chainActive st))"
proof -
  note D = DisconnectTip_tame [OF assms(1)]
  have c: "chain_ok (chainActive st)" using assms(2) by (simp add: node_in_def)
  obtain t where t: "Tip (chainActive st) False = Some t"
    using assms(1) by (cases "Tip (chainActive st) False") (auto simp: DisconnectTip_def)
  then have ne: "chainActive st \<noteq> []" by (auto simp: Tip_def)
  have n: "node_in S st'" if "chain_ok (chainActive st')" "set (chainActive st') \<subseteq> set (chainActive st)"
    using assms(2) D that by (intro node_in_tame [OF assms(2)]) (auto simp: node_in_def usable_def failed_def has_data_def)
  show ?thesis
  proof (cases r)
    case True
    then obtain p where p: "pprev t = Some p" "chainActive st' = SetTip (chainActive st) (Some p)" using D t by auto
    note P = disconnected_chain [OF c t p(1), folded p(2)]
    have "chain_ok (chainActive st')" using P(2,3) by (auto simp: chain_ok_def)
    moreover have "set (chainActive st') \<subseteq> set (chainActive st)" by (subst P(1)) auto
    moreover have "chainActive st' \<noteq> []" using P(2) by (simp add: path_simp [of p])
    moreover have "chainActive st' = take (length (chainActive st')) (chainActive st)" "Suc (length (chainActive st')) = length (chainActive st)"
      by (subst P(1), simp)+
    ultimately show ?thesis using n D ne True by simp
  next
    case False
    then have "chainActive st' = chainActive st" using D by simp
    then show ?thesis using n D False c ne by simp
  qed
qed

lemma disconnect_to_law:
  "disconnect_to W f n state st = Some (r, state', st') \<Longrightarrow> node_in S st \<Longrightarrow>
   node_in S st' \<and> tame st st' \<and> heap st' = heap st \<and> (chainActive st \<noteq> [] \<longrightarrow> chainActive st' \<noteq> []) \<and>
   (r \<longrightarrow> state' = state \<and> (Tip (chainActive st') False = None \<or> Tip (chainActive st') False = f))"
proof (induction n arbitrary: state st)
  case 0
  then show ?case by (auto simp: disconnect_to.simps [of W f 0] tame_rules split: if_splits)
next
  case (Suc n)
  show ?case
  proof (cases "Tip (chainActive st) False = None \<or> Tip (chainActive st) False = f")
    case True
    then show ?thesis using Suc.prems by (auto simp: disconnect_to.simps [of W f "Suc n"] tame_rules)
  next
    case False
    note d = Suc.prems(1) [unfolded disconnect_to.simps [of W f "Suc n"] if_not_P [OF False] nat.case]
    obtain x where x': "DisconnectTip W state st = Some x" using d by (rule some_caseE)
    obtain r1 state1 st1 where x: "x = (r1, state1, st1)" by (cases x) auto
    note D = DisconnectTip_law [OF x' [unfolded x] Suc.prems(2)]
    show ?thesis
    proof (cases r1)
      case True
      then have "disconnect_to W f n state1 st1 = Some (r, state', st')" using d x' x by simp
      note I = Suc.IH [OF this]
      then show ?thesis using D True tame_trans [of st st1 st'] by auto
    next
      case False
      then show ?thesis using d x' x D by auto
    qed
  qed
qed

text \<open>As many rounds as the chain has blocks are enough.\<close>

lemma disconnect_to_enough:
  assumes "node_in S st" "length (chainActive st) \<le> n"
  shows "disconnect_to W f (n + k) state st = disconnect_to W f n state st"
  using assms
proof (induction n arbitrary: state st)
  case 0
  then show ?case by (simp add: disconnect_to.simps Tip_def)
next
  case (Suc n)
  have I: "disconnect_to W f (n + k) state1 st1 = disconnect_to W f n state1 st1"
    if "DisconnectTip W state st = Some (True, state1, st1)" for state1 st1
    using DisconnectTip_law [OF that Suc.prems(1)] Suc.prems(2) by (intro Suc.IH) auto
  show ?case unfolding add_Suc disconnect_to.simps [of W f "Suc (n + k)"] disconnect_to.simps [of W f "Suc n"] nat.case
    by (auto simp: I split: option.splits bool.splits)
qed

lemma ConnectTip_law:
  assumes "ConnectTip W state c pblock st = Some (r, state', st')" "node_in S st" "indexed c" "usable st c" "c \<in> S"
  shows "node_in S st' \<and> tame st st' \<and> (\<forall>d. d \<noteq> c \<longrightarrow> failed st' d = failed st d) \<and>
    (r \<longrightarrow> state' = state \<and> chainActive st' = chainActive st @ [Some c] \<and> failed st' c = failed st c) \<and>
    (\<not> r \<longrightarrow> chainActive st' = chainActive st \<and> (vs_IsInvalid state' \<noteq> None \<longrightarrow> \<not> corruptionPossible state' \<longrightarrow> failed st' c))"
proof -
  note C = ConnectTip_tame [OF assms(1)]
  have ck: "chain_ok (chainActive st)" using assms(2) by (simp add: node_in_def)
  have f: "failed st' d = failed st d" if "d \<noteq> c" for d using C that by (simp add: failed_def)
  have nc: "Some c \<notin> set (chainActive st)"
  proof
    assume m: "Some c \<in> set (chainActive st)"
    show False using ck
    proof (cases rule: chain_okE)
      case 1
      then show ?thesis using m by simp
    next
      case (2 t)
      have "pprev c = Some t" using C 2(3) by simp
      then have "nHeight (entry c) = nHeight (entry t) + 1" using indexed_height [OF assms(3)] by blast
      moreover have "nHeight (entry c) \<le> nHeight (entry t)" using path_take [OF 2(1)] m 2(2) by auto
      ultimately show ?thesis by simp
    qed
  qed
  show ?thesis
  proof (cases r)
    case True
    then have s: "chainActive st' = SetTip (chainActive st) (Some c)" "failed st' c = failed st c" using C by auto
    have e: "chainActive st' = chainActive st @ [Some c]"
      unfolding s(1) by (rule connected_chain [OF ck assms(3)]) (use C in blast)
    have "node_in S st'"
    proof (rule node_in_tame [OF assms(2)])
      show "chain_ok (chainActive st')" unfolding s(1) by (rule SetTip_ok [OF ck]) (use assms(3) in simp)
      show "usable st' b \<and> b \<in> S" if "Some b \<in> set (chainActive st')" for b
      proof (cases "b = c")
        case True
        then show ?thesis using tame_usable [of st st' c] C s(2) assms(4,5) by simp
      next
        case False
        then have "Some b \<in> set (chainActive st)" using that e by simp
        then show ?thesis using assms(2) tame_usable [of st st' b] f [OF False] C by (simp add: node_in_def)
      qed
    qed (use C in blast)
    then show ?thesis using C True e s(2) f by simp
  next
    case False
    then have e: "chainActive st' = chainActive st" using C by simp
    have "failed st' b = failed st b" if "Some b \<in> set (chainActive st)" for b using f [of b] that nc by metis
    with e have "node_in S st'" using C by (intro node_in_same_chain [OF assms(2)]) auto
    then show ?thesis using C False f by simp
  qed
qed

lemma PruneBlockIndexCandidates_law:
  "PruneBlockIndexCandidates W st = Some st' \<Longrightarrow> node_in S st \<Longrightarrow>
   node_in S st' \<and> tame st st' \<and> heap st' = heap st \<and> chainActive st' = chainActive st"
  by (auto simp: PruneBlockIndexCandidates_def Let_def node_in_def tame_def usable_def failed_def has_data_def split: option.splits if_splits)

lemma InvalidChainFound_law:
  assumes "InvalidChainFound b st = Some st'" "node_in S st"
  shows "node_in S st' \<and> tame st st' \<and> heap st' = heap st \<and> chainActive st' = chainActive st"
  using InvalidChainFound_tame [OF assms(1)] node_in_same_chain [OF assms(2), of st'] by (simp add: failed_def)


subsection \<open>A step\<close>

text \<open>
  The blocks that are read, and the block at hand, are intact; then a validation state that suspects no
  corruption goes on so.
\<close>

definition intact_blocks :: "'b node_ops \<Rightarrow> CBlock option \<Rightarrow> bool" where
  "intact_blocks W pblock \<longleftrightarrow> (\<forall>st c block. op_read_block W st c = Some block \<or> pblock = Some block \<longrightarrow>
     intact_block (op_Quark W) (op_Hash W) (me_params (op_env W st)) block)"

definition unsuspicious :: "'b node_ops \<Rightarrow> CBlock option \<Rightarrow> block_state \<Rightarrow> bool" where
  "unsuspicious W pblock state \<longleftrightarrow> intact_blocks W pblock \<and> \<not> corruptionPossible state"

lemma ConnectTip_unsuspicious:
  "ConnectTip W state c pb st = Some (b, state', st') \<Longrightarrow> pb \<in> {None, pblock} \<Longrightarrow> unsuspicious W pblock state \<Longrightarrow>
   unsuspicious W pblock state'"
proof -
  assume c: "ConnectTip W state c pb st = Some (b, state', st')" and pb: "pb \<in> {None, pblock}" and u: "unsuspicious W pblock state"
  have "intact_block (op_Quark W) (op_Hash W) (me_params (op_env W st)) block"
    if "(case pb of Some b \<Rightarrow> Some b | None \<Rightarrow> op_read_block W st c) = Some block" for block
    using that pb u by (cases pb) (auto simp: unsuspicious_def intact_blocks_def)
  from ConnectTip_suspicion [OF c _ this] u show ?thesis by (simp add: unsuspicious_def)
qed

lemma reset_unsuspicious: "unsuspicious W pblock state \<Longrightarrow> unsuspicious W pblock (reset_state state')"
  by (simp add: unsuspicious_def reset_state_def CValidationState.defs CValidationState_new_def)

text \<open>What a step that does not fail has reached.\<close>

definition advanced :: "CBlockIndex list \<Rightarrow> CBlockIndex option \<Rightarrow> 'b node_state \<Rightarrow> 'b node_state \<Rightarrow> progress \<Rightarrow> bool" where
  "advanced bs old st st' p \<longleftrightarrow>
     (p = Better_tip \<longrightarrow> (\<exists>tip. Tip (chainActive st') False = Some tip \<and> (\<forall>t. old = Some t \<longrightarrow> more_work tip t))) \<and>
     (p = Invalid_found \<longrightarrow> (\<exists>c \<in> set bs. \<not> failed st c \<and> failed st' c))"

lemma connect_list_law:
  "connect_list W old most pblock back cs state st = Some (p, state', st') \<Longrightarrow> node_in S st \<Longrightarrow>
   \<forall>c \<in> set cs. indexed c \<and> usable st c \<and> c \<in> S \<Longrightarrow>
   node_in S st' \<and> tame st st' \<and> 
   (p = All_connected \<longrightarrow> chainActive st' = chainActive st @ map Some cs \<and> (\<forall>d. failed st' d = failed st d)) \<and>
   (unsuspicious W pblock state \<longrightarrow> advanced cs old st st' p \<and> (p \<noteq> System_error \<longrightarrow> unsuspicious W pblock state'))"
proof (induction cs arbitrary: state st)
  case Nil
  then show ?case by (auto simp: tame_rules advanced_def)
next
  case (Cons c cs)
  note d = Cons.prems(1) [unfolded connect_list.simps]
  let ?pb = "if c = most then pblock else None"
  obtain x where x': "ConnectTip W state c ?pb st = Some x" using d by (rule some_caseE)
  obtain r state1 st1 where x: "x = (r, state1, st1)" by (cases x) auto
  note d = d [unfolded x' x option.case prod.case]
  have c: "indexed c" "usable st c" "c \<in> S" using Cons.prems(3) by auto
  note C = ConnectTip_law [OF x' [unfolded x] Cons.prems(2) c]
  show ?case
  proof (cases r)
    case nr: False
    then have "r = False" by simp
    note d = d [unfolded this bool.case]
    have C': "ConnectTip W state c ?pb st = Some (False, state1, st1)" using x' x nr by simp
    show ?thesis
    proof (cases "vs_IsInvalid state1 = None")
      case True
      then show ?thesis using d C nr by (auto simp: advanced_def)
    next
      case inv: False
      note d = d [unfolded if_P [OF inv]]
      obtain st2 where s2: "(if \<not> corruptionPossible state1 then InvalidChainFound back st1 else Some st1) = Some st2"
        and e: "(p, state', st') = (Invalid_found, reset_state state1, st2)"
        using d by (rule map_someE)
      have I: "node_in S st2 \<and> tame st1 st2 \<and> heap st2 = heap st1"
        using s2 InvalidChainFound_law [of "back" st1 st2 S] C by (auto split: if_splits)
      have n: "node_in S st'" "tame st st'" using I C e tame_trans [of st st1 st2] by auto
      have "failed st' c" if b: "unsuspicious W pblock state"
      proof -
        have "unsuspicious W pblock state1" by (rule ConnectTip_unsuspicious [OF C' _ b]) simp
        then have "\<not> corruptionPossible state1" by (simp add: unsuspicious_def)
        then show ?thesis using C nr inv I e by (simp add: failed_def)
      qed
      then show ?thesis using n c(2) e reset_unsuspicious by (auto simp: advanced_def usable_def)
    qed
  next
    case True
    then have "r = True" by simp
    note d = d [unfolded this bool.case]
    obtain st2 where P': "PruneBlockIndexCandidates W st1 = Some st2" using d by (rule some_caseE)
    note d = d [unfolded P' option.case]
    have C2: "node_in S st1" "tame st st1" "chainActive st1 = chainActive st @ [Some c]" "\<forall>d. failed st1 d = failed st d" "state1 = state"
      using C True by metis+
    note P = PruneBlockIndexCandidates_law [OF P' C2(1)]
    have s2: "node_in S st2" "tame st st2" "chainActive st2 = chainActive st @ [Some c]" "\<forall>d. failed st2 d = failed st d"
      using P C2 tame_trans [of st st1 st2] by (auto simp: failed_def)
    have tip: "Tip (chainActive st2) False = Some c" using s2(3) by (simp add: Tip_def)
    show ?thesis
    proof (cases "case old of None \<Rightarrow> True | Some old \<Rightarrow> (case Tip (chainActive st2) False of None \<Rightarrow> False | Some tip \<Rightarrow> more_work tip old)")
      case True
      then show ?thesis using d s2 tip C2(5) by (auto simp: advanced_def split: option.splits)
    next
      case False
      note d = d [unfolded if_not_P [OF False]]
      have "\<forall>d \<in> set cs. indexed d \<and> usable st2 d \<and> d \<in> S"
        using Cons.prems(3) tame_usable [OF s2(2)] s2(4) by simp
      note I = Cons.IH [OF d s2(1) this]
      then show ?thesis using s2 C2(5) tame_trans [of st st2 st'] by (auto simp: advanced_def)
    qed
  qed
qed

lemma gather_path: "set (gather h (Some b)) \<subseteq> set (path b)"
proof (induction b rule: CBlockIndex_induct)
  case (1 b)
  have "gather h (Some b) = (if nHeight (entry b) \<noteq> h then b # gather h (pprev b) else [])" by (cases b) simp
  then show ?case using 1 by (cases "pprev b") (auto simp: path_simp [of b])
qed

lemma gather_hd: "nHeight (entry b) \<noteq> h \<Longrightarrow> \<exists>bs. gather h (Some b) = b # bs"
  by (cases b) simp

lemma connect_loop_law:
  "connect_loop W old most pblock h state st = Some (p, state', st') \<Longrightarrow> node_in S st \<Longrightarrow> indexed most \<Longrightarrow>
   \<forall>c \<in> set (path most). usable st c \<and> c \<in> S \<Longrightarrow> -1 \<le> h \<Longrightarrow> h \<le> nHeight (entry most) \<Longrightarrow>
   (h = nHeight (entry most) \<Longrightarrow> Tip (chainActive st) False = Some most) \<Longrightarrow>
   node_in S st' \<and> tame st st' \<and> (p = All_connected \<longrightarrow> Tip (chainActive st') False = Some most) \<and>
   (unsuspicious W pblock state \<longrightarrow> advanced (path most) old st st' p \<and> (p \<noteq> System_error \<longrightarrow> unsuspicious W pblock state'))"
proof (induction W old most pblock h state st rule: connect_loop.induct)
  case (1 W old most pblock h state st)
  note l = 1(2) [unfolded connect_loop.simps [of W old most pblock h state st]]
  show ?case
  proof (cases "h = nHeight (entry most)")
    case True
    then show ?thesis using l 1(3) 1(8) [OF True] by (auto simp: tame_rules advanced_def)
  next
    case False
    let ?t = "min (h + 32) (nHeight (entry most))"
    have "0 \<le> nHeight (entry most)" using indexed_height [OF 1(4)] by simp
    then have t: "0 \<le> ?t" "?t \<le> nHeight (entry most)" "h < ?t" using 1(6,7) False by auto
    define it where "it = path most ! nat ?t"
    note pa = path_at [OF 1(4) t(1,2), folded it_def]
    define cs where "cs = rev (gather h (Some it))"
    note l = l [unfolded if_not_P [OF False] Let_def pa(2) option.case, folded cs_def]
    obtain p1 state1 st1 where c': "connect_list W old most pblock (last (gather h (Some it))) cs state st = Some (p1, state1, st1)"
      using l by (cases "connect_list W old most pblock (last (gather h (Some it))) cs state st") auto
    have "set cs \<subseteq> set (path most)"
      using gather_path [of h it] path_closed [OF 1(4) pa(3)] by (auto simp: cs_def)
    then have cs: "\<forall>c \<in> set cs. indexed c \<and> usable st c \<and> c \<in> S" using 1(5) path_take [OF 1(4)] by blast
    note C = connect_list_law [OF c' 1(3) cs]
    note sub = \<open>set cs \<subseteq> set (path most)\<close>
    show ?thesis
    proof (cases "p1 = All_connected")
      case True
      have l': "connect_loop W old most pblock ?t state1 st1 = Some (p, state', st')" using l c' True by simp
      have C2: "node_in S st1" "tame st st1" "chainActive st1 = chainActive st @ map Some cs" "\<forall>d. failed st1 d = failed st d"
        using C True by auto
      obtain bs where "gather h (Some it) = it # bs" using gather_hd [of it h] pa(4) t(3) by auto
      then have tip: "Tip (chainActive st1) False = Some it" by (simp add: C2(3) cs_def Tip_def nth_append)
      have it: "it = most" if "?t = nHeight (entry most)"
        using path_height_eq [OF 1(4), of most] that by (simp add: it_def path_simp [of most])
      have us: "\<forall>c \<in> set (path most). usable st1 c \<and> c \<in> S" using 1(5) tame_usable [OF C2(2)] C2(4) by simp
      have "-1 \<le> ?t" using t(1) by linarith
      note I = 1(1) [OF False refl pa(2) refl c' [unfolded cs_def] refl True refl l' C2(1) 1(4) us this t(2)]
      have I: "node_in S st' \<and> tame st1 st' \<and> (p = All_connected \<longrightarrow> Tip (chainActive st') False = Some most) \<and>
          (unsuspicious W pblock state1 \<longrightarrow> advanced (path most) old st1 st' p \<and> (p \<noteq> System_error \<longrightarrow> unsuspicious W pblock state'))"
        by (rule I) (use tip it in simp)
      then show ?thesis using C True C2(4) tame_trans [OF C2(2)] by (auto simp: advanced_def)
    next
      case False
      then have "p = p1 \<and> state' = state1 \<and> st' = st1" using l c' by (cases p1) auto
      then show ?thesis using C sub False by (auto simp: advanced_def)
    qed
  qed
qed


lemma common_in: "c \<in> set (common t b) \<longleftrightarrow> c \<in> set (path t) \<and> c \<in> set (path b)"
  by (auto simp: common_def)

lemma ActivateBestChainStep_law:
  assumes "ActivateBestChainStep W state most pblock st = Some (r, state', st')" "node_in S st" "indexed most"
    "\<forall>c \<in> set (path most). usable st c \<and> c \<in> S"
  shows "node_in S st' \<and> tame st st' \<and>
    (r \<longrightarrow> unsuspicious W pblock state \<longrightarrow> unsuspicious W pblock state' \<and> (Tip (chainActive st') False = Some most \<or>
       (\<exists>p \<in> {Better_tip, Invalid_found}. advanced (path most) (Tip (chainActive st) False) st st' p)))"
proof -
  have ck: "chain_ok (chainActive st)" using assms(2) by (simp add: node_in_def)
  note d = assms(1) [unfolded ActivateBestChainStep_def Let_def]
  obtain f where f: "FindFork (chainActive st) most = Some f" using d by (rule some_caseE)
  note d = d [unfolded f option.case]
  obtain x where dis: "disconnect_to W f (length (chainActive st)) state st = Some x" using d by (rule some_caseE)
  obtain r1 state1 st1 where x: "x = (r1, state1, st1)" by (cases x) auto
  note d = d [unfolded dis x option.case prod.case]
  note D = disconnect_to_law [OF dis [unfolded x] assms(2)]
  have n1: "node_in S st1" "tame st st1" "\<forall>d. failed st1 d = failed st d" using D by (auto simp: failed_def)
  show ?thesis
  proof (cases r1)
    case False
    then show ?thesis using d D by auto
  next
    case True
    then have "r1 = True" by simp
    note d = d [unfolded this bool.case]
    let ?h = "case f of None \<Rightarrow> -1 | Some f \<Rightarrow> nHeight (entry f)"
    obtain y where loop: "connect_loop W (Tip (chainActive st) False) most pblock ?h state1 st1 = Some y"
      using d by (rule some_caseE)
    obtain p state2 st2 where y: "y = (p, state2, st2)" by (cases y) auto
    note d = d [unfolded loop y option.case prod.case]
    have fork: "f = None \<or> (\<exists>c \<in> set (path most). f = Some c \<and> Tip (chainActive st1) False = f)"
    proof (cases f)
      case (Some c)
      have "chainActive st \<noteq> [] \<and> c \<in> set (path most)" using ck
      proof (cases rule: chain_okE)
        case 1
        have "\<not> Contains [] b" for b by (auto simp: Contains_def chain_at_def)
        then have "fork_loop [] b = None" for b by (induction "[] :: CChain" b rule: fork_loop.induct) auto
        then show ?thesis using f 1 Some by (auto simp: FindFork_def split: if_splits)
      next
        case (2 t)
        have cm: "common t most \<noteq> []" "c = last (common t most)"
          using f FindFork_common [OF 2(1) assms(3)] 2(2) Some by (auto split: if_splits)
        then have "c \<in> set (common t most)" by simp
        then show ?thesis using 2(2) common_in by (auto simp: path_simp [of t])
      qed
      moreover have "Tip (chainActive st1) False \<noteq> None" if "chainActive st1 \<noteq> []"
        using n1(1) that Tip_None [of "chainActive st1"] by (simp add: node_in_def)
      ultimately show ?thesis using D True Some by auto
    qed simp
    have us: "\<forall>c \<in> set (path most). usable st1 c \<and> c \<in> S" using assms(4) tame_usable [OF n1(2)] n1(3) by simp
    have h: "-1 \<le> ?h" "?h \<le> nHeight (entry most)"
      using fork path_take [OF assms(3)] indexed_height indexed_height [OF assms(3)] by (fastforce split: option.splits)+
    have "Tip (chainActive st1) False = Some most" if hm: "?h = nHeight (entry most)"
    proof -
      have nn: "0 \<le> nHeight (entry most)" using indexed_height [OF assms(3)] by simp
      then obtain c where c: "c \<in> set (path most)" "f = Some c" "Tip (chainActive st1) False = f" using fork hm by auto
      have "nHeight (entry c) = nHeight (entry most)" using hm c(2) by simp
      then have "c = most" using path_height_eq [OF assms(3) c(1)] path_height_eq [OF assms(3) path_self(1)] by metis
      then show ?thesis using c by simp
    qed
    note L = connect_loop_law [OF loop [unfolded y] n1(1) assms(3) us h this]
    have e: "r = (p \<noteq> System_error)" "state' = state2" "st' = st2" "state1 = state" using d D True by auto
    have "advanced (path most) (Tip (chainActive st) False) st st2 p" if "unsuspicious W pblock state"
      using L that n1(3) e(4) by (simp add: advanced_def)
    then show ?thesis using L e tame_trans [OF n1(2)] by (cases p) auto
  qed
qed

subsection \<open>The activation\<close>

definition chosen_block :: "'b node_ops \<Rightarrow> CBlock option \<Rightarrow> CBlockIndex \<Rightarrow> CBlock option" where
  "chosen_block W pblock b = (case pblock of
     Some block \<Rightarrow> if Some (CBlockHeader_GetHash (op_Quark W) block) = GetBlockHash b then Some block else None | None \<Rightarrow> None)"

lemma chosen_unsuspicious:
  "unsuspicious W pblock state \<Longrightarrow> unsuspicious W (chosen_block W pblock b) state"
  by (cases pblock) (auto simp: chosen_block_def unsuspicious_def intact_blocks_def)

lemma unsuspicious_again:
  "unsuspicious W pblock state \<Longrightarrow> unsuspicious W pb state' \<Longrightarrow> unsuspicious W pblock state'"
  by (simp add: unsuspicious_def)

lemmas ActivateBestChain_Suc = ActivateBestChain.simps(2) [folded chosen_block_def]

text \<open>One round: it ends, or it goes on from a state that has advanced.\<close>

lemma ActivateBestChain_round:
  assumes "ActivateBestChain W (Suc n) state pblock st = r" "node_in S st"
  obtains "r = Inl Aborted"
  | b state' st' where "r = Inr (b, state', st')" "node_in S st'" "tame st st'"
      "b \<Longrightarrow> setBlockIndexCandidates st' = [] \<or>
         (\<exists>tip. Tip (chainActive st') False = Some tip \<and> indexed tip \<and> (S \<subseteq> {c. is_uint256 (nChainWork (entry c))} \<longrightarrow>
            (\<forall>c \<in> set (setBlockIndexCandidates st'). \<not> work_less W st' tip c)))"
  | state1 st1 where "r = ActivateBestChain W n state1 pblock st1" "node_in S st1" "tame st st1"
      "unsuspicious W pblock state \<Longrightarrow> unsuspicious W pblock state1 \<and> (\<exists>bs st0. set bs \<subseteq> S \<and> tame st st0 \<and> chainActive st0 = chainActive st \<and>
         (\<exists>p \<in> {Better_tip, Invalid_found}. advanced bs (Tip (chainActive st) False) st0 st1 p))"
proof -
  note d = assms(1) [unfolded ActivateBestChain_Suc]
  show thesis
  proof (cases "FindMostWorkChain W st")
    case None
    then show thesis using d that(1) by simp
  next
    case (Some x)
    obtain m st0 where x: "x = (m, st0)" by (cases x) auto
    note F = FindMostWorkChain_law [OF Some [unfolded x] assms(2)]
    have n0: "node_in S st0" "tame st st0" "chainActive st0 = chainActive st" using F by auto
    note d = d [unfolded Some x option.case prod.case]
    show thesis
    proof (cases m)
      case None
      then have "best_candidate (work_less W st0) (setBlockIndexCandidates st0) = None" using F by simp
      then have "setBlockIndexCandidates st0 = []" by (cases "setBlockIndexCandidates st0") (auto split: option.splits if_splits)
      then show thesis using d None by (intro that(2) [of True state st0] n0) auto
    next
      case (Some most)
      have M: "indexed most" "\<forall>c \<in> set (path most). usable st0 c \<and> c \<in> S"
          "best_candidate (work_less W st0) (setBlockIndexCandidates st0) = Some most"
        using F Some by auto
      have best: "S \<subseteq> {c. is_uint256 (nChainWork (entry c))} \<longrightarrow>
          (\<forall>c \<in> set (setBlockIndexCandidates st'). \<not> work_less W st' most c)" if "tame st0 st'" for st' :: "'a node_state"
      proof (intro impI ballI)
        fix c assume S: "S \<subseteq> {c. is_uint256 (nChainWork (entry c))}" and c: "c \<in> set (setBlockIndexCandidates st')"
        have "\<forall>c \<in> set (setBlockIndexCandidates st0). is_uint256 (nChainWork (entry c))"
          using S n0(1) path_self(1) unfolding node_in_def by blast
        moreover have "c \<in> set (setBlockIndexCandidates st0)" using c that by (auto simp: tame_def)
        ultimately show "\<not> work_less W st' most c"
          using best_candidate_work [OF _ M(3)] work_less_tame [OF that, of W] by metis
      qed
      note d = d [unfolded Some option.case]
      show thesis
      proof (cases "Tip (chainActive st0) False = Some most")
        case True
        then show thesis using d M(1) best [OF tame_refl] by (intro that(2) [of True state st0] n0) auto
      next
        case False
        note d = d [unfolded if_not_P [OF False]]
        let ?pb = "chosen_block W pblock most"
        show thesis
        proof (cases "ActivateBestChainStep W state most ?pb st0")
          case None
          then show thesis using d that(1) by simp
        next
          case (Some y)
          obtain b state1 st1 where y: "y = (b, state1, st1)" by (cases y) auto
          note A = ActivateBestChainStep_law [OF Some [unfolded y] n0(1) M(1,2)]
          have n1: "node_in S st1" "tame st st1" "tame st0 st1" using A tame_trans [OF n0(2)] by auto
          note d = d [unfolded Some y option.case prod.case]
          show thesis
          proof (cases b)
            case False
            then show thesis using d by (intro that(2) [of False state1 st1] n1) auto
          next
            case True
            then have "b = True" by simp
            note d = d [unfolded this bool.case]
            consider "Tip (chainActive st1) False = None" | "Tip (chainActive st1) False \<noteq> None" "Tip (chainActive st1) False \<noteq> Some most"
              | "Tip (chainActive st1) False = Some most" by blast
            then show thesis
            proof cases
              case 1
              then show thesis using d that(1) by simp
            next
              case 2
              have "\<exists>bs st0. set bs \<subseteq> S \<and> tame st st0 \<and> chainActive st0 = chainActive st \<and>
                  (\<exists>p \<in> {Better_tip, Invalid_found}. advanced bs (Tip (chainActive st) False) st0 st1 p)"
                if "unsuspicious W pblock state"
                using A True 2 chosen_unsuspicious [OF that, of most] M(2) n0(2,3) by (intro exI [of _ "path most"] exI [of _ st0]) auto
              moreover have "unsuspicious W pblock state1" if "unsuspicious W pblock state"
                using A True chosen_unsuspicious [OF that, of most] unsuspicious_again [OF that] by blast
              ultimately show thesis using d 2 by (intro that(3) [of state1 st1] n1) auto
            next
              case 3
              show thesis
              proof (cases "FlushStateToDisk W state1 FLUSH_STATE_PERIODIC st1")
                case None
                then show thesis using d 3 that(1) by simp
              next
                case (Some z)
                obtain b2 state2 st2 where z: "z = (b2, state2, st2)" by (cases z) auto
                note Fl = FlushStateToDisk_tame [OF Some [unfolded z]]
                have "node_in S st2" using Fl by (intro node_in_same_chain [OF n1(1)]) (auto simp: failed_def)
                moreover have "tame st st2" "tame st0 st2" using Fl tame_trans [OF n1(2)] tame_trans [OF n1(3)] by blast+
                ultimately show thesis using d 3 Some z M(1) Fl best by (intro that(2) [of b2 state2 st2]) auto
              qed
            qed
          qed
        qed
      qed
    qed
  qed
qed


lemma ActivateBestChain_ends:
  "ActivateBestChain W n state pblock st = Inr (b, state', st') \<Longrightarrow> node_in S st \<Longrightarrow> node_in S st' \<and> tame st st' \<and>
   (b \<longrightarrow> setBlockIndexCandidates st' = [] \<or>
      (\<exists>tip. Tip (chainActive st') False = Some tip \<and> indexed tip \<and> (S \<subseteq> {c. is_uint256 (nChainWork (entry c))} \<longrightarrow>
         (\<forall>c \<in> set (setBlockIndexCandidates st'). \<not> work_less W st' tip c))))"
proof (induction n arbitrary: state st)
  case (Suc n)
  show ?case
  proof (rule ActivateBestChain_round [OF Suc.prems])
    fix state1 st1
    assume r: "Inr (b, state', st') = ActivateBestChain W n state1 pblock st1" and n: "node_in S st1" "tame st st1"
    show ?thesis using Suc.IH [OF r [symmetric] n(1)] tame_trans [OF n(2)] by blast
  qed auto
qed simp

text \<open>
  The measure of the rounds: first the blocks that have not failed, then the blocks with more work than
  the tip.
\<close>

definition rounds_left :: "CBlockIndex set \<Rightarrow> 'b node_state \<Rightarrow> nat" where
  "rounds_left S st = card {b \<in> S. \<not> failed st b} * (card S + 2) +
     (case Tip (chainActive st) False of None \<Rightarrow> card S + 1 | Some t \<Rightarrow> card {b \<in> S. more_work b t})"

lemma rounds_left_bound: "finite S \<Longrightarrow> rounds_left S st < (card S + 1) * (card S + 2)"
proof -
  assume S: "finite S"
  have "card {b \<in> S. \<not> failed st b} \<le> card S" "card {b \<in> S. more_work b t} \<le> card S" for t
    using card_mono [OF S] by auto
  then have "card {b \<in> S. \<not> failed st b} * (card S + 2) \<le> card S * (card S + 2)"
    and "(case Tip (chainActive st) False of None \<Rightarrow> card S + 1 | Some t \<Rightarrow> card {b \<in> S. more_work b t}) \<le> card S + 1"
    by (auto split: option.splits intro: le_SucI mult_le_mono1 simp del: mult_Suc_right add_2_eq_Suc')
  then have "rounds_left S st \<le> card S * (card S + 2) + (card S + 1)" unfolding rounds_left_def by (rule add_mono)
  also have "\<dots> < (card S + 1) * (card S + 2)" by (simp add: algebra_simps)
  finally show ?thesis .
qed

lemma rounds_left_failed:
  assumes "finite S" "tame st st'" "c \<in> S" "\<not> failed st c" "failed st' c"
  shows "rounds_left S st' < rounds_left S st"
proof -
  have "{b \<in> S. \<not> failed st' b} \<subset> {b \<in> S. \<not> failed st b}" using assms by (auto simp: tame_def)
  then have "Suc (card {b \<in> S. \<not> failed st' b}) \<le> card {b \<in> S. \<not> failed st b}"
    using psubset_card_mono [of "{b \<in> S. \<not> failed st b}" "{b \<in> S. \<not> failed st' b}"] assms(1) by (simp add: Suc_le_eq)
  then have "Suc (card {b \<in> S. \<not> failed st' b}) * (card S + 2) \<le> card {b \<in> S. \<not> failed st b} * (card S + 2)" by (rule mult_le_mono1)
  moreover have "card {b \<in> S. more_work b t} \<le> card S" for t using card_mono [OF assms(1)] by auto
  then have "(case Tip (chainActive st') False of None \<Rightarrow> card S + 1 | Some t \<Rightarrow> card {b \<in> S. more_work b t}) < card S + 2"
    by (auto split: option.splits simp: less_Suc_eq_le intro: le_SucI)
  ultimately show ?thesis unfolding rounds_left_def by simp
qed

lemma rounds_left_work:
  assumes "finite S" "tame st st'" "Tip (chainActive st') False = Some tip" "tip \<in> S"
    "\<forall>t. Tip (chainActive st) False = Some t \<longrightarrow> t \<in> S \<and> more_work tip t" "\<forall>c \<in> S. is_uint256 (nChainWork (entry c))"
  shows "rounds_left S st' < rounds_left S st"
proof -
  have "{b \<in> S. \<not> failed st' b} \<subseteq> {b \<in> S. \<not> failed st b}" using assms(2) by (auto simp: tame_def)
  then have "card {b \<in> S. \<not> failed st' b} * (card S + 2) \<le> card {b \<in> S. \<not> failed st b} * (card S + 2)"
    using assms(1) by (intro mult_le_mono1 card_mono) auto
  moreover have "card {b \<in> S. more_work b tip} <
      (case Tip (chainActive st) False of None \<Rightarrow> card S + 1 | Some t \<Rightarrow> card {b \<in> S. more_work b t})"
  proof (cases "Tip (chainActive st) False")
    case None
    then show ?thesis using card_mono [OF assms(1), of "{b \<in> S. more_work b tip}"] by (auto simp: less_Suc_eq_le)
  next
    case (Some t)
    then have t: "t \<in> S" "more_work tip t" using assms(5) by auto
    note w = more_work_wval [OF assms(6) [rule_format] assms(6) [rule_format]]
    have "{b \<in> S. more_work b tip} \<subseteq> {b \<in> S. more_work b t}" "tip \<in> {b \<in> S. more_work b t} - {b \<in> S. more_work b tip}"
      using t assms(4) by (auto simp: w)
    then have "{b \<in> S. more_work b tip} \<subset> {b \<in> S. more_work b t}" by blast
    then show ?thesis using Some psubset_card_mono [of "{b \<in> S. more_work b t}"] assms(1) by simp
  qed
  ultimately show ?thesis unfolding rounds_left_def using assms(3) by simp
qed

lemma Tip_in: "node_in S st \<Longrightarrow> Tip (chainActive st) False = Some t \<Longrightarrow> t \<in> S"
  using Tip_chain [of "chainActive st" t] unfolding node_in_def by auto

lemma ActivateBestChain_rounds:
  assumes "finite S" "\<forall>c \<in> S. is_uint256 (nChainWork (entry c))"
  shows "node_in S st \<Longrightarrow> unsuspicious W pblock state \<Longrightarrow> rounds_left S st < n \<Longrightarrow> ActivateBestChain W n state pblock st \<noteq> Inl Out_of_rounds"
proof (induction n arbitrary: state st)
  case (Suc n)
  show ?case
  proof (rule ActivateBestChain_round [OF refl Suc.prems(1), of W n state pblock])
    fix state1 st1
    assume r: "ActivateBestChain W (Suc n) state pblock st = ActivateBestChain W n state1 pblock st1"
      and n: "node_in S st1" "tame st st1"
      and a: "unsuspicious W pblock state \<Longrightarrow> unsuspicious W pblock state1 \<and> (\<exists>bs st0. set bs \<subseteq> S \<and> tame st st0 \<and> chainActive st0 = chainActive st \<and>
         (\<exists>p \<in> {Better_tip, Invalid_found}. advanced bs (Tip (chainActive st) False) st0 st1 p))"
    obtain bs st0 p where p: "set bs \<subseteq> S" "tame st st0" "chainActive st0 = chainActive st"
        "p \<in> {Better_tip, Invalid_found}" "advanced bs (Tip (chainActive st) False) st0 st1 p" using a [OF Suc.prems(2)] by blast
    have "rounds_left S st1 < rounds_left S st"
    proof (cases "p = Invalid_found")
      case True
      then obtain c where "c \<in> set bs" "\<not> failed st0 c" "failed st1 c" using p(5) by (auto simp: advanced_def)
      then show ?thesis using rounds_left_failed [OF assms(1) n(2), of c] p(1,2) by (auto simp: tame_def)
    next
      case False
      then obtain tip where "Tip (chainActive st1) False = Some tip" "\<forall>t. Tip (chainActive st) False = Some t \<longrightarrow> more_work tip t"
        using p(4,5) by (auto simp: advanced_def)
      then show ?thesis using rounds_left_work [OF assms(1) n(2) _ _ _ assms(2)] Tip_in [OF n(1)] Tip_in [OF Suc.prems(1)] by blast
    qed
    then have "rounds_left S st1 < n" using Suc.prems(3) by simp
    then show ?thesis using Suc.IH [OF n(1), of state1] a [OF Suc.prems(2)] r by simp
  qed auto
qed simp

text \<open>The blocks of the active chain and on the ways to the candidates.\<close>

definition reachable_blocks :: "'b node_state \<Rightarrow> CBlockIndex list" where
  "reachable_blocks st = remdups (List.map_filter (\<lambda>b. b) (chainActive st) @ concat (map path (setBlockIndexCandidates st)))"

lemma reachable_blocks_in: "node_ok st \<Longrightarrow> node_in (set (reachable_blocks st)) st \<and> (\<forall>b \<in> set (reachable_blocks st). is_uint256 (nChainWork (entry b)))"
  unfolding node_ok_def node_in_def reachable_blocks_def by (fastforce simp: map_filter_def image_iff)

end
