(* ===== verification/Examples.thy ===== *)
theory Examples
  imports Merkle_Block Supply Script_Threads Check_Queue Mempool Best_Tip
begin

text \<open>
  Concrete instances: a checker, a curve, transactions, a view over a database and a block that stakes
  the one output the view offers.
\<close>

subsection \<open>Interfaces\<close>

text \<open>A checker whose digests pad or cut their input, and which accepts a signature that starts with the key.\<close>

definition example_checker :: checker where
  "example_checker =
     \<lparr>RIPEMD160 = \<lambda>b. take 20 (b @ replicate 20 0), SHA1 = \<lambda>b. take 20 (b @ replicate 20 0),
      SHA256 = \<lambda>b. take 32 (b @ replicate 32 0), CheckSig = \<lambda>sig key code. take 1 sig = take 1 key\<rparr>"

lemma example_checker_lengths: "hash_lengths example_checker"
  by (auto simp: hash_lengths_def example_checker_def)

text \<open>A curve on which the points are the even x coordinates, with y = parity.\<close>

definition example_curve :: curve where
  "example_curve =
     \<lparr>IsFullyValid = \<lambda>k. length k = 65 \<and> take 31 (drop 33 k) = replicate 31 0 \<and> k ! 64 AND 1 = k ! 64,
      DecompressKey = \<lambda>k. Some (4 # drop 1 k @ replicate 31 0 @ [hd k - 2])\<rparr>"

lemma example_curve_recovers: "curve_recovers example_curve"
proof -
  have "4 # take 32 (drop 1 pk) @ replicate 31 0 @ [pk ! 64 AND 1] = pk"
    if pk: "length pk = 65" "pk ! 0 = 4" "take 31 (drop 33 pk) = replicate 31 0" "pk ! 64 AND 1 = pk ! 64" for pk :: bytes
  proof -
    have "pk = pk ! 0 # drop 1 pk" using drop_Cons [of 0 pk] pk(1) by simp
    moreover have "drop 1 pk = take 32 (drop 1 pk) @ drop 33 pk"
      using append_take_drop_id [of 32 "drop 1 pk"] by simp
    moreover have "drop 33 pk = take 31 (drop 33 pk) @ drop 64 pk"
      using append_take_drop_id [of 31 "drop 33 pk"] by simp
    moreover have "drop 64 pk = [pk ! 64]" using drop_Cons [of 64 pk] pk(1) by simp
    ultimately show ?thesis using pk(2-4) by (metis append_Cons append_assoc)
  qed
  then show ?thesis by (simp add: curve_recovers_def example_curve_def)
qed

definition example_tx :: CTransaction where
  "example_tx = \<lparr>tx_nVersion = 1,
     vin = [\<lparr>prevout = \<lparr>op_hash = bu_of_u64 8 7, op_n = 1\<rparr>, scriptSig = [OP_TRUE], nSequence = 5\<rparr>],
     vout = [\<lparr>nValue = 1200, scriptPubKey = [OP_DUP]\<rparr>, \<lparr>nValue = 34, scriptPubKey = []\<rparr>],
     nLockTime = 0\<rparr>"

lemma example_tx_valid: "valid_tx example_tx"
  by (simp add: example_tx_def valid_tx_def valid_txin_def valid_txout_def valid_outpoint_def
      small_def MAX_SIZE_def int64_range_def)

subsection \<open>Views\<close>

text \<open>A view of a block over an empty database, and coins with one output spent.\<close>

definition example_view :: "CCoinsViewDB CCoinsViewCache CCoinsViewCache" where
  "example_view = new_cache (new_cache \<lparr>db_coins = \<lambda>_. None, db_best = None\<rparr>)"

definition example_coins :: CCoins where
  "example_coins = \<lparr>c_fCoinBase = False, c_fCoinStake = True,
     c_vout = [CTxOut_SetNull, \<lparr>nValue = 500, scriptPubKey = [OP_TRUE]\<rparr>], c_nHeight = 800, c_nVersion = 1\<rparr>"

lemma example_view_ok: "block_inv example_curve example_view" "block_content example_curve example_view = (\<lambda>_. None)"
  by (simp_all add: example_view_def view_defs new_cache_def cache_inv_def db_inv_def example_curve_recovers
      map_ok_def cache_content_def under_def db_content_def db_GetCoins_def)

lemma example_coins_good: "good_coins example_coins" "\<not> IsPruned example_coins" "Cleanup example_coins = example_coins"
  by (simp_all add: example_coins_def good_coins_def storable_def IsPruned_def CTxOut_IsNull_def Cleanup_def drop_null_def)

subsection \<open>A block\<close>

text \<open>A block of a coinbase and a coinstake on a view that offers one output, with a hash that tells the two apart.\<close>

definition example_coinbase :: CTransaction where
  "example_coinbase = \<lparr>tx_nVersion = 1, vin = [\<lparr>prevout = COutPoint_null, scriptSig = [1, 2], nSequence = 0\<rparr>],
     vout = [\<lparr>nValue = 0, scriptPubKey = []\<rparr>], nLockTime = 0\<rparr>"

definition example_stake :: CTransaction where
  "example_stake = \<lparr>tx_nVersion = 2, vin = [\<lparr>prevout = \<lparr>op_hash = bu_of_u64 8 7, op_n = 1\<rparr>, scriptSig = [OP_TRUE], nSequence = 0\<rparr>],
     vout = [\<lparr>nValue = 0, scriptPubKey = []\<rparr>, \<lparr>nValue = 600, scriptPubKey = [OP_TRUE]\<rparr>], nLockTime = 0\<rparr>"

definition example_hash :: "bytes \<Rightarrow> bytes" where
  "example_hash b = bu_bytes (if b = ser_tx example_coinbase then bu_of_u64 8 8 else bu_of_u64 8 9)"

definition example_block :: CBlock where
  "example_block = \<lparr>bh_nVersion = 1, hashPrevBlock = bu_of_u64 8 5, hashMerkleRoot = bu_of_u64 8 9, bh_nTime = 100,
     bh_nBits = 0x1e0ffff0, bh_nNonce = 0, vtx = [example_coinbase, example_stake], vchBlockSig = []\<rparr>"

definition example_prev :: CBlockIndex where
  "example_prev = Index (entry_null\<lparr>phashBlock := Some (bu_of_u64 8 5), nHeight := 899, nMoneySupply := 500\<rparr>) None None"

definition example_index :: CBlockIndex where
  "example_index = Index (entry_null\<lparr>phashBlock := Some (bu_of_u64 8 6), nHeight := 900, nStatus := 3\<rparr>) (Some example_prev) None"

definition example_funds :: CCoins where
  "example_funds = example_coins\<lparr>c_fCoinStake := False\<rparr>"

definition example_funded :: "CCoinsViewDB CCoinsViewCache CCoinsViewCache" where
  "example_funded = example_view\<lparr>cc_hashBlock := bu_of_u64 8 5, cacheCoins := [(bu_of_u64 8 7, \<lparr>e_coins = example_funds, e_dirty = True, e_fresh = True\<rparr>)]\<rparr>"

lemma example_hashes: "tx_GetHash example_hash example_coinbase = bu_of_u64 8 8" "tx_GetHash example_hash example_stake = bu_of_u64 8 9"
proof -
  have "valid_tx example_coinbase" "valid_tx example_stake"
    by (simp_all add: example_coinbase_def example_stake_def valid_tx_def valid_txin_def valid_txout_def valid_outpoint_def
        small_def MAX_SIZE_def int64_range_def COutPoint_null_def)
  then have "ser_tx example_stake \<noteq> ser_tx example_coinbase"
    using tx.ser_prefix_free [of example_stake example_coinbase "[]" "[]"] by (auto simp: example_coinbase_def example_stake_def)
  then show "tx_GetHash example_hash example_coinbase = bu_of_u64 8 8" "tx_GetHash example_hash example_stake = bu_of_u64 8 9"
    by (simp_all add: tx_GetHash_def example_hash_def bu_of_bytes_bu_bytes)
qed

lemma example_ids: "bu_of_u64 8 m = bu_of_u64 8 n \<longleftrightarrow> m = n"
  by (metis bu_of_u64_val word_unat_eq_iff)

lemma example_funds_good: "good_coins example_funds" "Cleanup example_funds = example_funds" "live example_funds = Some example_funds"
    "restorable example_funds"
  by (simp_all add: example_funds_def example_coins_def good_coins_def storable_def IsPruned_def CTxOut_IsNull_def Cleanup_def
      drop_null_def live_def restorable_def nulls_ok_def)

lemma example_funded_ok:
  "block_inv example_curve example_funded" "block_content example_curve example_funded = [bu_of_u64 8 7 \<mapsto> example_funds]"
proof -
  have b: "tip_inv example_curve (base example_view)" "tip_content example_curve (base example_view) = (\<lambda>_. None)"
    using block_inv_base [OF example_view_ok(1)]
    by (simp_all add: example_view_def new_cache_def view_defs cache_content_def under_def db_content_def db_GetCoins_def)
  show "block_inv example_curve example_funded" using b example_funds_good
    by (auto simp: block_inv_def cache_inv_def example_funded_def map_ok_def entry_ok_def example_view_def new_cache_def split: if_splits)
  show "block_content example_curve example_funded = [bu_of_u64 8 7 \<mapsto> example_funds]" using b(2) example_funds_good
    by (auto simp: block_content_def cache_content_def example_funded_def under_def fun_eq_iff example_view_def new_cache_def)
qed

lemma example_FromTx: "FromTx example_coinbase h = \<lparr>c_fCoinBase = True, c_fCoinStake = False, c_vout = vout example_coinbase, c_nHeight = h, c_nVersion = 1\<rparr>"
  "FromTx example_stake h = \<lparr>c_fCoinBase = False, c_fCoinStake = True, c_vout = vout example_stake, c_nHeight = h, c_nVersion = 2\<rparr>"
  by (simp_all add: FromTx_def example_coinbase_def example_stake_def ClearUnspendable_def Cleanup_def drop_null_def
      IsCoinBase_def IsCoinStake_def IsUnspendable_def CTxOut_IsNull_def CTxOut_IsEmpty_def COutPoint_IsNull_def COutPoint_null_def
      bu_is_null_val val_simps)

lemma example_good_FromTx: "tx \<in> set (vtx example_block) \<Longrightarrow> good_coins (FromTx tx (word_of_int 900))"
proof -
  assume "tx \<in> set (vtx example_block)"
  then consider "tx = example_coinbase" | "tx = example_stake" by (auto simp: example_block_def)
  then show ?thesis
    by cases (simp_all only: example_FromTx, simp_all add: example_coinbase_def example_stake_def good_coins_def storable_def)
qed

lemma example_ser_length: "length (ser_tx example_coinbase) = 62"
proof -
  have "valid_tx example_coinbase"
    by (simp add: example_coinbase_def valid_tx_def valid_txin_def valid_txout_def valid_outpoint_def
        small_def MAX_SIZE_def int64_range_def COutPoint_null_def)
  then show ?thesis
    by (simp add: size_tx_ok) (simp add: example_coinbase_def size_tx_def size_vector_def size_txin_def size_txout_def size_bytes_def
        GetSizeOfCompactSize_def)
qed

lemma example_merkle: "BuildMerkleTree example_hash example_block = ([bu_of_u64 8 8, bu_of_u64 8 9, bu_of_u64 8 9], False, bu_of_u64 8 9)"
proof -
  have "length (bu_bytes (bu_of_u64 8 8) @ bu_bytes (bu_of_u64 8 9)) \<noteq> length (ser_tx example_coinbase)"
    by (simp add: example_ser_length)
  then have "bu_bytes (bu_of_u64 8 8) @ bu_bytes (bu_of_u64 8 9) \<noteq> ser_tx example_coinbase" by metis
  then have "hash_pair example_hash (bu_of_u64 8 8) (bu_of_u64 8 9) = bu_of_u64 8 9"
    by (simp add: hash_pair_def example_hash_def bu_of_bytes_bu_bytes)
  then show ?thesis
    by (simp add: BuildMerkleTree_def merkle_tree_def example_block_def example_hashes merkle_loop.simps merkle_level.simps example_ids Let_def)
qed

subsection \<open>Connecting it\<close>

definition example_params :: CChainParams where
  "example_params = CMainParams\<lparr>hashGenesisBlock := bu_of_u64 8 1\<rparr>"

definition example_env :: connect_env where
  "example_env =
     \<lparr>me_params = example_params, me_tip = Some example_prev,
      me_lookup = (\<lambda>h. if h = bu_of_u64 8 5 then Some example_prev else None), me_synced = False, me_blockchain_synced = False,
      me_lite = False, me_payment_enforcement = True, me_budget_enforcement = True, me_superblocks = False,
      me_budget_cycle = 1000, me_budget_block = (\<lambda>_. False), me_budget_valid = (\<lambda>_ _. True), me_size = 10, me_stable_size = 10,
      me_enabled = 10, me_protocol = 70912, me_find = (\<lambda>_. None), me_rank = (\<lambda>_ _ _. 1), me_time = 100,
      ce_adjusted = 100, ce_swifttx_filter = False, ce_locked = (\<lambda>_. None), ce_initial_download = True,
      ce_checkpoint = (\<lambda>_ _. True), ce_last_checkpoint = None, ce_checkpoint_estimate = 0,
      xe_sig = \<lparr>se_hashes = example_checker, se_Hash = (\<lambda>b. replicate 32 0), se_IsValid = (\<lambda>_. True), se_Verify = (\<lambda>_ _ _. True)\<rparr>,
      xe_threads = False, xe_recipient_spork = False, xe_write_index = True,
      xe_undo_pos = (\<lambda>_ _. Some \<lparr>dp_nFile = 0, dp_nPos = 8\<rparr>), xe_write_undo = (\<lambda>p. Some p), xe_txindex = True, xe_write_txindex = True\<rparr>"

definition example_quark :: "bytes \<Rightarrow> bytes" where
  "example_quark b = bu_bytes (bu_of_u64 8 6)"

definition example_state :: block_state where
  "example_state = CValidationState.extend CValidationState_new (block_state.fields [])"

lemma example_sound: "sound_tx example_params example_coinbase" "sound_tx example_params example_stake"
  by (auto simp: sound_tx_def example_coinbase_def example_stake_def example_params_def CMainParams_def size_tx_def size_vector_def
      size_txin_def size_txout_def size_bytes_def GetSizeOfCompactSize_def MAX_BLOCK_SIZE_def output_sum_def COIN_def
      IsCoinBase_def IsCoinStake_def CTxOut_IsEmpty_def COutPoint_IsNull_def COutPoint_null_def bu_is_null_val val_simps)

lemma example_kinds: "IsCoinBase example_coinbase" "\<not> IsCoinBase example_stake" "IsCoinStake example_stake" "\<not> IsCoinStake example_coinbase"
  "IsProofOfStake example_block"
  by (auto simp: example_block_def IsProofOfStake_def example_coinbase_def example_stake_def
      IsCoinBase_def IsCoinStake_def CTxOut_IsEmpty_def COutPoint_IsNull_def COutPoint_null_def bu_is_null_val val_simps)

lemma example_sigops: "GetLegacySigOpCount example_coinbase = 0" "GetLegacySigOpCount example_stake = 0"
  by code_simp+

lemma example_block_checks:
  assumes "me_params E = example_params" "ce_adjusted E = 100" "\<not> ce_swifttx_filter E" "ce_initial_download E"
  shows "CheckBlock Quark example_hash E mns example_block example_state True = Some (True, example_state)"
proof -
  have P: "0 \<le> nMaxMoneyOut example_params" "nMaxMoneyOut example_params < 2 ^ 62"
    by (simp_all add: example_params_def CMainParams_def COIN_def)
  have t: "check_transactions example_params (vtx example_block) example_state = (True, example_state)"
  proof -
    have "CheckTransaction example_params tx example_state = (True, example_state)" if "sound_tx example_params tx" for tx
      using CheckTransaction_True [OF P, of tx example_state example_state] that by simp
    then show ?thesis using example_sound by (simp add: example_block_def)
  qed
  have h: "check_shape example_block example_state = (True, example_state)"
    using example_kinds
    by (simp add: check_shape_True) (auto simp: example_block_def example_coinbase_def example_stake_def size_block_def size_tx_def size_vector_def
      size_txin_def size_txout_def size_bytes_def GetSizeOfCompactSize_def MAX_BLOCK_SIZE_def CTxOut_IsEmpty_def IsCoinStake_def)
  have "CheckBlockHeader_of_block example_params Quark example_block example_state = (True, example_state)"
    using example_kinds by (simp add: CheckBlockHeader_of_block_def CheckBlockHeader_def IsProofOfWork_def)
  moreover have "GetBlockTime example_block = 100" by (simp add: GetBlockTime_def example_block_def)
  moreover have "check_merkle example_hash example_block example_state = (True, example_state)"
    by (simp add: check_merkle_def example_merkle) (simp add: example_block_def)
  moreover have "check_locks Quark example_hash E example_block example_state = (True, example_state)"
    using assms(3) by (simp add: check_locks_def)
  moreover have "check_payee Quark E mns example_block example_state = Some (True, example_state)"
    using assms(4) by (simp add: check_payee_def Let_def split: option.splits)
  moreover have "fold (\<lambda>tx n. n + GetLegacySigOpCount tx) (vtx example_block) 0 = 0"
    using example_sigops by (simp add: example_block_def)
  ultimately show ?thesis using t h assms(1,2) by (simp add: CheckBlock_def)
qed

lemma example_checked: "CheckBlock example_quark example_hash (chain_env.truncate example_env) mns example_block example_state True = Some (True, example_state)"
  by (rule example_block_checks) (simp_all add: example_env_def chain_env.truncate_def)

abbreviation "example_get \<equiv> cache_GetCoins (db_GetCoins example_curve)"

lemma example_base: "base example_funded = new_cache \<lparr>db_coins = \<lambda>_. None, db_best = None\<rparr>"
  by (simp add: example_funded_def example_view_def new_cache_def)

lemma example_access:
  "AccessCoins example_get example_funded (bu_of_u64 8 7) = (Some example_funds, example_funded)"
  "n \<noteq> 7 \<Longrightarrow> AccessCoins example_get example_funded (bu_of_u64 8 n) = (None, example_funded)"
  by (simp_all add: AccessCoins_def FetchCoins_def example_funded_def example_ids)
    (simp add: cache_GetCoins_def FetchCoins_def example_view_def new_cache_def db_GetCoins_def)

lemma example_best: "cache_GetBestBlock (cache_GetBestBlock db_GetBestBlock) example_funded = (bu_of_u64 8 5, example_funded)"
proof -
  have "bu_of_u64 8 5 \<noteq> bu_zero 8" using bu_of_u64_val [of 8 5] bu_zero_val [of 8] by (auto simp del: bu_zero_val)
  then show ?thesis by (simp add: cache_GetBestBlock_def example_funded_def)
qed

lemma example_script: "run_check (xe_sig example_env) \<lparr>cs_scriptPubKey = [OP_TRUE], cs_ptxTo = example_stake, cs_nIn = 0, cs_nFlags = 0\<rparr> = Inr ()"
  by (simp add: run_check_def example_stake_def example_env_def transaction_checker_def) code_simp

text \<open>The view after the coinbase.\<close>

definition example_after :: "CCoinsViewDB CCoinsViewCache CCoinsViewCache" where
  "example_after = example_funded\<lparr>cacheCoins := cacheCoins example_funded @
     [(bu_of_u64 8 8, \<lparr>e_coins = FromTx example_coinbase 900, e_dirty = True, e_fresh = True\<rparr>)]\<rparr>"

lemma example_update: "UpdateCoins example_hash example_get example_coinbase example_funded 900 = Some ([], example_after)"
proof -
  have m: "map_of (cacheCoins example_funded) (bu_of_u64 8 8) = None" "\<not> hasModifier example_funded"
    "example_get (base example_funded) (bu_of_u64 8 8) = (None, base example_funded)"
    by (simp_all add: example_funded_def example_ids)
      (simp_all add: cache_GetCoins_def FetchCoins_def example_view_def new_cache_def db_GetCoins_def)
  have p: "\<not> IsPruned (FromTx example_coinbase 900)" "Cleanup (FromTx example_coinbase 900) = FromTx example_coinbase 900"
    by (simp_all add: example_FromTx IsPruned_def Cleanup_def) (simp_all add: example_coinbase_def CTxOut_IsNull_def drop_null_def)
  have u: "AList.update (bu_of_u64 8 8) x (cacheCoins example_funded) = cacheCoins example_funded @ [(bu_of_u64 8 8, x)]" for x
    by (simp add: example_funded_def example_ids)
  have u2: "AList.update (bu_of_u64 8 8) x (cacheCoins example_funded @ [(bu_of_u64 8 8, y)]) = cacheCoins example_funded @ [(bu_of_u64 8 8, x)]" for x y
    by (simp add: example_funded_def example_ids)
  have mm: "map_of (cacheCoins example_funded @ [(bu_of_u64 8 8, y)]) (bu_of_u64 8 8) = Some y" for y
    using m(1) by (simp add: map_add_def)
  let ?e = "\<lparr>e_coins = CCoins_empty, e_dirty = True, e_fresh = True\<rparr>"
  let ?v = "example_funded\<lparr>hasModifier := True, cacheCoins := cacheCoins example_funded @ [(bu_of_u64 8 8, ?e)]\<rparr>"
  have "\<not> hasModifier c \<Longrightarrow> c\<lparr>hasModifier := False, cacheCoins := x\<rparr> = c\<lparr>cacheCoins := x\<rparr>"
    for c :: "CCoinsViewDB CCoinsViewCache CCoinsViewCache" and x by (cases c) simp
  then have s: "example_funded\<lparr>base := base example_funded\<rparr> = example_funded" "example_funded\<lparr>hasModifier := False, cacheCoins := x\<rparr> = example_funded\<lparr>cacheCoins := x\<rparr>" for x
    using m(2) by simp_all
  have 1: "ModifyCoins example_get example_funded (bu_of_u64 8 8) = Some (CCoins_empty, ?v)"
    unfolding ModifyCoins_def by (simp only: m if_False option.case prod.case s u Let_def CCoinsCacheEntry.simps)
  have 2: "release ?v (bu_of_u64 8 8) (FromTx example_coinbase 900) = Some example_after"
    unfolding release_def by (simp add: m(1) map_add_def p u2 Let_def s(2) example_after_def)
  show ?thesis unfolding UpdateCoins_def modifying_def example_hashes by (simp add: example_kinds 1 2)
qed

lemma example_after_access: "AccessCoins example_get example_after (bu_of_u64 8 7) = (Some example_funds, example_after)"
  by (simp add: AccessCoins_def FetchCoins_def example_after_def example_funded_def example_ids)

lemma example_after_best: "cache_GetBestBlock (cache_GetBestBlock db_GetBestBlock) example_after = (bu_of_u64 8 5, example_after)"
proof -
  have "bu_of_u64 8 5 \<noteq> bu_zero 8" using bu_of_u64_val [of 8 5] bu_zero_val [of 8] by (auto simp del: bu_zero_val)
  then show ?thesis by (simp add: cache_GetBestBlock_def example_after_def example_funded_def)
qed

lemma example_spends: "vin example_stake = [\<lparr>prevout = \<lparr>op_hash = bu_of_u64 8 7, op_n = 1\<rparr>, scriptSig = [OP_TRUE], nSequence = 0\<rparr>]"
  "c_vout example_funds = [CTxOut_SetNull, \<lparr>nValue = 500, scriptPubKey = [OP_TRUE]\<rparr>]" "\<not> c_fCoinBase example_funds" "\<not> c_fCoinStake example_funds"
  "IsAvailable example_funds 1"
  by (simp_all add: example_stake_def example_funds_def example_coins_def IsAvailable_def CTxOut_IsNull_def)

lemma example_inputs:
  "HaveInputs example_get example_after example_stake = (True, example_after)"
  "GetValueIn example_get example_after example_stake = Some (500, example_after)"
  "check_values example_get example_params h (vin example_stake) 0 example_after = (Some (Inr 500), example_after)"
  by (simp_all add: HaveInputs_def GetValueIn_def GetOutputFor_def example_kinds example_spends example_after_access wrap64_def
      MoneyRange_def example_params_def CMainParams_def COIN_def Let_def)

lemma example_check_inputs:
  "CheckInputs example_get (cache_GetBestBlock db_GetBestBlock) (xe_sig example_env) (chain_env.truncate example_env) example_stake example_state
     example_after True 0 None = Some (True, example_state, example_after, None)"
proof -
  have "check_scripts example_get (xe_sig example_env) example_stake 0 0 (vin example_stake) example_state example_after None =
      Some (True, example_state, example_after, None)"
    using example_script by (simp add: example_spends(1) example_after_access CScriptCheck_new_def) (simp add: example_spends)
  moreover have "me_lookup (chain_env.truncate example_env) (bu_of_u64 8 5) = Some example_prev"
    "me_params (chain_env.truncate example_env) = example_params"
    by (simp_all add: chain_env.truncate_def example_env_def)
  ultimately show ?thesis using example_inputs example_kinds example_after_best by (simp add: CheckInputs_def check_fee_def)
qed

lemma example_connect_coinbase:
  "connect_tx example_hash example_get (cache_GetBestBlock db_GetBestBlock) example_env example_index True 0 False 0 example_coinbase example_state
     (k\<lparr>k_view := example_funded, k_nSigOps := 0\<rparr>) =
   Some (True, example_state, k\<lparr>k_view := example_after, k_nSigOps := 0, k_nValueOut := wrap64 (k_nValueOut k),
     k_vPos := k_vPos k @ [(bu_of_u64 8 8, GetBlockPos example_index, k_nTxOffset k)], k_nTxOffset := k_nTxOffset k + of_nat (size_tx example_coinbase)\<rparr>)"
proof -
  have "GetValueOut example_coinbase = Inr 0" by (simp add: example_coinbase_def GetValueOut_def wrap64_def)
  moreover have "nHeight (entry example_index) = 900" by (simp add: example_index_def)
  ultimately show ?thesis
    by (simp add: connect_tx_def Let_def example_sigops connect_inputs_def example_kinds example_update example_hashes MAX_BLOCK_SIGOPS_def
        MAX_BLOCK_SIZE_def)
qed

lemma example_flags: "script_flags example_params example_block example_index = 0" "bi_GetBlockTime example_index = 0" "enforce_bip30 example_index"
  by (simp_all add: script_flags_def example_index_def bi_GetBlockTime_def entry_null_def example_block_def enforce_bip30_def GetBlockHash_def)

lemma example_stake_good: "live (FromTx example_stake 900) = Some x \<Longrightarrow> good_coins x"
  using example_good_FromTx [of example_stake] live_FromTx by (auto simp: example_block_def)

lemma example_after_ok: "block_inv example_curve example_after"
    "apply_tx example_hash 900 [bu_of_u64 8 7 \<mapsto> example_funds] example_coinbase = Some ([], block_content example_curve example_after)"
proof -
  have g: "live (FromTx example_coinbase (word_of_int 900)) = Some x \<Longrightarrow> good_coins x" for x
    using example_good_FromTx [of example_coinbase] live_FromTx by (auto simp: example_block_def)
  have "block_view.cinv example_curve example_funded" using example_funded_ok unfolding view_defs by simp
  from block_changes.UpdateCoins_law [OF this, where tx = example_coinbase and h = 900 and Hash = example_hash] g
  show "block_inv example_curve example_after"
    "apply_tx example_hash 900 [bu_of_u64 8 7 \<mapsto> example_funds] example_coinbase = Some ([], block_content example_curve example_after)"
    using example_update example_funded_ok(2) unfolding view_defs by (auto split: option.splits)
qed

lemma example_connect_stake:
  "\<exists>u x. connect_tx example_hash example_get (cache_GetBestBlock db_GetBestBlock) example_env example_index True 0 False 1 example_stake example_state
     (k\<lparr>k_view := example_after, k_nSigOps := 0\<rparr>) =
   Some (True, example_state, k\<lparr>k_view := x, k_nSigOps := 0, k_nValueOut := wrap64 (k_nValueOut k + 600),
     k_nValueIn := wrap64 (k_nValueIn k + 500), k_vtxundo := k_vtxundo k @ [[u]],
     k_vPos := k_vPos k @ [(bu_of_u64 8 9, GetBlockPos example_index, k_nTxOffset k)],
     k_nTxOffset := k_nTxOffset k + of_nat (size_tx example_stake)\<rparr>) \<and> \<not> u_fCoinStake u"
proof -
  have vo: "GetValueOut example_stake = Inr 600" by (simp add: example_stake_def GetValueOut_def wrap64_def)
  have h: "nHeight (entry example_index) = 900" by (simp add: example_index_def)
  have t: "xe_threads example_env = False" by (simp add: example_env_def)
  have s: "Spend example_funds \<lparr>op_hash = bu_of_u64 8 7, op_n = 1\<rparr> =
      Some (Cleanup (example_funds\<lparr>c_vout := [CTxOut_SetNull, CTxOut_SetNull]\<rparr>),
        \<lparr>u_txout = \<lparr>nValue = 500, scriptPubKey = [OP_TRUE]\<rparr>, u_fCoinBase = False, u_fCoinStake = False, u_nHeight = 800, u_nVersion = 1\<rparr>)"
    by (simp add: Spend_def example_funds_def example_coins_def CTxOut_IsNull_def CTxOut_SetNull_def Cleanup_def drop_null_def Let_def)
  have c: "block_content example_curve example_after (bu_of_u64 8 7) = Some example_funds"
    using example_after_ok(2) [symmetric] by (auto simp: apply_tx_def example_kinds example_hashes example_ids dest: fun_cong [of _ _ "bu_of_u64 8 7"])
  obtain \<sigma>' u where "apply_tx example_hash 900 (block_content example_curve example_after) example_stake = Some ([u], \<sigma>')" "\<not> u_fCoinStake u"
    using s c by (auto simp: apply_tx_def example_kinds example_hashes spend_def example_spends)
  moreover from example_after_ok(1) have i: "block_view.cinv example_curve example_after" unfolding view_defs by simp
  moreover from block_changes.UpdateCoins_law [OF i, where tx = example_stake and h = 900 and Hash = example_hash] example_stake_good
  have "case apply_tx example_hash 900 (block_content example_curve example_after) example_stake of
      None \<Rightarrow> UpdateCoins example_hash example_get example_stake example_after 900 = None
    | Some (us, \<sigma>) \<Rightarrow> \<exists>c'. UpdateCoins example_hash example_get example_stake example_after 900 = Some (us, c')"
    unfolding view_defs by (auto split: option.splits)
  ultimately obtain x where u: "UpdateCoins example_hash example_get example_stake example_after 900 = Some ([u], x)" "\<not> u_fCoinStake u" by auto
  show ?thesis
    using u vo h t example_check_inputs
    by (intro exI [of _ u] exI [of _ x]) (simp add: example_hashes connect_tx_def Let_def example_sigops connect_inputs_def example_kinds example_inputs MAX_BLOCK_SIGOPS_def MAX_BLOCK_SIZE_def)
qed

definition example_votes :: mn_state where
  "example_votes = CMasternodePayments.extend
     \<lparr>nLastBlockHeight = 0, mapMasternodePayeeVotes = [], mapMasternodeBlocks = [], mapMasternodesLastVote = []\<rparr>
     (mn_state.fields [] [] 0)"

definition example_connected :: "CTxInUndo \<Rightarrow> CCoinsViewDB CCoinsViewCache connected \<Rightarrow> bool" where
  "example_connected undo out \<longleftrightarrow> \<not> u_fCoinStake undo \<and>
     ConnectBlock example_quark example_hash example_get (cache_GetBestBlock db_GetBestBlock) example_env example_votes example_block example_state
       example_index example_funded False = Some (True, example_state, out) \<and>
     o_undo out = Some (\<lparr>dp_nFile = 0, dp_nPos = 8\<rparr>, [[undo]], bu_of_u64 8 5) \<and>
     nMoneySupply (entry (o_index out)) = 600 \<and> \<not> CDiskBlockPos_IsNull (GetUndoPos (o_index out))"

lemma example_connects: "\<exists>undo out. example_connected undo out"
proof -
  have m: "me_params (chain_env.truncate example_env) = example_params" "me_params example_env = example_params"
    "ce_checkpoint_estimate example_env = 0" by (simp_all add: chain_env.truncate_def example_env_def)
  have i: "pprev example_index = Some example_prev" "GetBlockHash example_prev = Some (bu_of_u64 8 5)" "nHeight (entry example_index) = 900"
    by (simp_all add: example_index_def example_prev_def GetBlockHash_def)
  have g: "CBlockHeader_GetHash example_quark example_block = bu_of_u64 8 6"
    by (simp add: CBlockHeader_GetHash_def example_quark_def bu_of_bytes_bu_bytes)
  have p: "hashGenesisBlock example_params = bu_of_u64 8 1" "nLastPOWBlock example_params = 750"
    by (simp_all add: example_params_def CMainParams_def)
  have b: "check_bip30 example_hash example_get (vtx example_block) example_funded = (True, example_funded)"
    by (simp add: example_block_def example_hashes example_access)
  have txs: "vtx example_block = [example_coinbase, example_stake]" by (simp add: example_block_def)
  define k0 :: "CCoinsViewDB CCoinsViewCache connecting" where
    "k0 = \<lparr>k_nSigOps = 0, k_nFees = 0, k_nValueOut = 0, k_nValueIn = 0, k_vtxundo = [],
              k_nTxOffset = of_nat (GetSizeOfCompactSize (of_nat (length (vtx example_block)))), k_vPos = [],
              k_control = [], k_view = example_funded\<rparr>"
  have k0: "k0 = k0\<lparr>k_view := example_funded, k_nSigOps := 0\<rparr>" by (simp add: k0_def)
  define k1 where "k1 = k0\<lparr>k_view := example_after, k_nSigOps := 0, k_nValueOut := wrap64 (k_nValueOut k0),
     k_vPos := k_vPos k0 @ [(bu_of_u64 8 8, GetBlockPos example_index, k_nTxOffset k0)],
     k_nTxOffset := k_nTxOffset k0 + of_nat (size_tx example_coinbase)\<rparr>"
  have k1: "k1 = k1\<lparr>k_view := example_after, k_nSigOps := 0\<rparr>" by (simp add: k1_def k0_def)
  have c1: "connect_tx example_hash example_get (cache_GetBestBlock db_GetBestBlock) example_env example_index True 0 False 0 example_coinbase
      example_state k0 = Some (True, example_state, k1)"
    by (subst k0) (simp add: example_connect_coinbase k1_def)
  obtain u x where u: "\<not> u_fCoinStake u" and c2: "connect_tx example_hash example_get (cache_GetBestBlock db_GetBestBlock) example_env example_index True 0
      False 1 example_stake example_state k1 =
    Some (True, example_state, k1\<lparr>k_view := x, k_nSigOps := 0, k_nValueOut := wrap64 (k_nValueOut k1 + 600),
     k_nValueIn := wrap64 (k_nValueIn k1 + 500), k_vtxundo := k_vtxundo k1 @ [[u]],
     k_vPos := k_vPos k1 @ [(bu_of_u64 8 9, GetBlockPos example_index, k_nTxOffset k1)],
     k_nTxOffset := k_nTxOffset k1 + of_nat (size_tx example_stake)\<rparr>)"
    using example_connect_stake [of k1] k1 by metis
  define k2 where "k2 = k1\<lparr>k_view := x, k_nSigOps := 0, k_nValueOut := wrap64 (k_nValueOut k1 + 600),
     k_nValueIn := wrap64 (k_nValueIn k1 + 500), k_vtxundo := k_vtxundo k1 @ [[u]],
     k_vPos := k_vPos k1 @ [(bu_of_u64 8 9, GetBlockPos example_index, k_nTxOffset k1)],
     k_nTxOffset := k_nTxOffset k1 + of_nat (size_tx example_stake)\<rparr>"
  have k2: "k_nValueOut k2 = 600" "k_nValueIn k2 = 500" "k_vtxundo k2 = [[u]]" "k_control k2 = []" "k_nFees k2 = 0"
    by (simp_all add: k2_def k1_def k0_def wrap64_def)
  have txs: "connect_txs example_hash example_get (cache_GetBestBlock db_GetBestBlock) example_env example_index True 0 False 0 (vtx example_block)
      example_state k0 = Some (True, example_state, k2)"
    using c1 c2 by (simp add: example_block_def k2_def del: One_nat_def)
  have C: "ConnectBlock example_quark example_hash example_get (cache_GetBestBlock db_GetBestBlock) example_env example_votes example_block example_state
      example_index example_funded False = finish_connect example_env example_block False example_index example_state k2"
    using txs i by (simp add: ConnectBlock_def example_checked m g p b example_flags example_best example_ids example_kinds IsProofOfWork_def k0_def)
  have v: "mn_block_value (mn_env.truncate example_env) 900 = Some 1000000000"
    by (simp add: mn_block_value_def mn_env.truncate_def example_env_def example_prev_def GetBlockValue_subsidy block_subsidy_schedule
        example_params_def CMainParams_def COIN_def)
  have w: "IsBlockValueValid (mn_env.truncate example_env) example_block 1000000000 100"
    by (simp add: IsBlockValueValid_def mn_env.truncate_def example_env_def)
  have sb: "supply_before example_index = 500" by (simp add: supply_before_def i) (simp add: example_prev_def)
  define e where "e = (entry example_index)\<lparr>nMoneySupply := 600, nMint := 100\<rparr>"
  define e' where "e' = e\<lparr>nUndoPos := 8, nStatus := 21\<rparr>"
  have e: "nHeight e = 900" "phashBlock e = Some (bu_of_u64 8 6)" "nStatus e = 3" "nFile e = 0"
    by (simp_all add: e_def example_index_def entry_null_def)
  have f: "xe_write_index example_env" "\<not> xe_recipient_spork example_env" "xe_txindex example_env" "xe_write_txindex example_env"
    "xe_undo_pos example_env n us = Some \<lparr>dp_nFile = 0, dp_nPos = 8\<rparr>" "xe_write_undo example_env pos = Some pos" for n us pos
    by (simp_all add: example_env_def)
  have wc: "wait_checks (xe_sig example_env) [] = Some True" by (simp add: wait_checks_def)
  have up: "CDiskBlockPos_IsNull (GetUndoPos (Index e (Some example_prev) None))"
    by (simp add: GetUndoPos_def e CDiskBlockPos_IsNull_def CDiskBlockPos_null_def BLOCK_HAVE_UNDO_def)
  have rv: "RaiseValidity (e\<lparr>nUndoPos := 8, nStatus := nStatus e OR BLOCK_HAVE_UNDO\<rparr>) BLOCK_VALID_SCRIPTS = Some (True, e')"
    by (simp add: RaiseValidity_def e e'_def BLOCK_VALID_SCRIPTS_def BLOCK_VALID_MASK_def BLOCK_FAILED_MASK_def BLOCK_HAVE_UNDO_def
        BLOCK_VALID_HEADER_def BLOCK_VALID_TREE_def BLOCK_VALID_TRANSACTIONS_def BLOCK_VALID_CHAIN_def BLOCK_FAILED_VALID_def BLOCK_FAILED_CHILD_def)
  have wu: "write_undo example_env us st (o1\<lparr>o_index := Index e (Some example_prev) None\<rparr>) =
      Some (True, st, o1\<lparr>o_index := Index e' (Some example_prev) None, o_undo := Some (\<lparr>dp_nFile = 0, dp_nPos = 8\<rparr>, us, bu_of_u64 8 5), o_dirty := True\<rparr>)"
    for us st and o1 :: "CCoinsViewDB CCoinsViewCache connected"
    using rv by (simp add: write_undo_def Let_def up f i set_entry_def)
  have se: "set_entry example_index e = Index e (Some example_prev) None" by (simp add: set_entry_def example_index_def)
  let ?o = "\<lparr>o_index = Index e (Some example_prev) None, o_view = k_view k2, o_undo = None, o_dirty = False, o_txindex = []\<rparr>"
  have F: "finish_connect example_env example_block False example_index example_state k2 =
      Some (True, example_state, ?o\<lparr>o_index := Index e' (Some example_prev) None, o_undo := Some (\<lparr>dp_nFile = 0, dp_nPos = 8\<rparr>, [[u]], bu_of_u64 8 5),
        o_dirty := True, o_txindex := k_vPos k2, o_view := SetBestBlock (bu_of_u64 8 6) (k_view k2)\<rparr>)"
    using wu [of "[[u]]" example_state ?o] e
    by (simp add: finish_connect_def Let_def k2 sb wrap64_def e_def [symmetric] se f v w wc example_kinds IsProofOfWork_def GetBlockHash_def e'_def)
  have e': "nMoneySupply e' = 600" "\<not> CDiskBlockPos_IsNull (GetUndoPos (Index e' (Some example_prev) None))"
    by (simp_all add: e'_def e e_def GetUndoPos_def BLOCK_HAVE_UNDO_def CDiskBlockPos_IsNull_def) (simp add: example_index_def entry_null_def)
  show ?thesis unfolding example_connected_def C F by (intro exI conjI, rule u, rule refl) (simp_all add: e')
qed

subsection \<open>Newly active masternodes\<close>

text \<open>Forty-five of fifty masternodes are newly active, and six votes are for one payee.\<close>

definition example_crowd :: mn_env where
  "example_crowd = (mn_env.truncate example_env)\<lparr>me_params := CMainParams,
     me_tip := Some (Index (entry_null\<lparr>nHeight := 200000, nMoneySupply := 45000000 * COIN\<rparr>) None None),
     me_size := 50, me_stable_size := 5\<rparr>"

definition example_elected :: mn_state where
  "example_elected = example_votes\<lparr>mapMasternodeBlocks := [(200001, \<lparr>bp_nBlockHeight = 200001,
     vecPayments = [\<lparr>py_script = [OP_TRUE], py_nVotes = 6\<rparr>]\<rparr>)]\<rparr>"

lemma example_steps: "\<exists>st. later_steps = ((1, 100), (90, 100)) # ((2, 100), (88, 100)) # st"
  by (simp add: later_steps_def)

lemma example_shares:
  "GetMasternodePayment CMainParams (45000000 * COIN) 50 200001 (9 * COIN) 0 = 792000000"
  "GetMasternodePayment CMainParams (45000000 * COIN) 50 200001 (9 * COIN) 25 = 810000000"
proof -
  obtain st where st: "later_steps = ((1, 100), (90, 100)) # ((2, 100), (88, 100)) # st" using example_steps by blast
  show "GetMasternodePayment CMainParams (45000000 * COIN) 50 200001 (9 * COIN) 0 = 792000000"
    by (simp add: GetMasternodePayment_def st CMainParams_def GetCurrentCollateral_def COIN_def wrap64_def Let_def
      times_literal_def double_mult_def double_of_def double_le_def double_trunc_def double_lit_def
      round_double_def round53_def round_shift_def bit_length_numeral bit_length_1)
  show  "GetMasternodePayment CMainParams (45000000 * COIN) 50 200001 (9 * COIN) 25 = 810000000"
    by (simp add: GetMasternodePayment_def st CMainParams_def GetCurrentCollateral_def COIN_def wrap64_def Let_def
      times_literal_def double_mult_def double_of_def double_le_def double_trunc_def double_lit_def
      round_double_def round53_def round_shift_def bit_length_numeral bit_length_1)
qed

lemma example_underpaid:
  "\<exists>tx'. FillBlockPayee example_crowd example_elected None example_stake True = Some tx' \<and>
     mp_IsTransactionValid example_crowd example_elected tx' 200001 = Some False"
proof -
  have e: "me_tip example_crowd = Some (Index (entry_null\<lparr>nHeight := 200000, nMoneySupply := 45000000 * COIN\<rparr>) None None)"
    "me_params example_crowd = CMainParams" "me_size example_crowd = 50" "me_stable_size example_crowd = 5" "me_payment_enforcement example_crowd"
    by (simp_all add: example_crowd_def) (simp_all add: mn_env.truncate_def example_env_def)
  have s: "mapMasternodeBlocks example_elected = [(200001, \<lparr>bp_nBlockHeight = 200001, vecPayments = [\<lparr>py_script = [OP_TRUE], py_nVotes = 6\<rparr>]\<rparr>)]"
    by (simp add: example_elected_def)
  have v: "GetBlockValue CMainParams (45000000 * COIN) 200001 = 9 * COIN"
    by (simp add: GetBlockValue_def block_subsidy_schedule CMainParams_def COIN_def Let_def)
  have d: "nMasternodeCountDrift CMainParams = 20" by (simp add: CMainParams_def)
  have b: "mn_block_value example_crowd 200001 = Some (9 * COIN)" by (simp add: mn_block_value_def e v)
  have p: "mn_payment example_crowd 200001 (9 * COIN) 0 = Some 792000000" "mn_payment example_crowd 200001 (9 * COIN) 25 = Some 810000000"
    using example_shares by (simp_all add: mn_payment_def e)
  show ?thesis
    by (simp add: FillBlockPayee_def e GetBlockPayee_def s GetPayee_def MNPAYMENTS_SIGNATURES_REQUIRED_def b p Let_def
        mp_IsTransactionValid_def bp_IsTransactionValid_def d pays_some_iff) (simp add: example_stake_def)
qed

subsection \<open>A memory pool\<close>

text \<open>A transaction of the pool, one that spends its second output, and a hash that tells the two apart.\<close>

definition example_spend :: CTransaction where
  "example_spend = \<lparr>tx_nVersion = 1, vin = [\<lparr>prevout = \<lparr>op_hash = bu_of_u64 8 9, op_n = 1\<rparr>, scriptSig = [], nSequence = 0\<rparr>],
     vout = [\<lparr>nValue = 500, scriptPubKey = [OP_TRUE]\<rparr>], nLockTime = 0\<rparr>"

definition example_pool_hash :: "bytes \<Rightarrow> bytes" where
  "example_pool_hash b = bu_bytes (if b = ser_tx example_spend then bu_of_u64 8 10 else bu_of_u64 8 9)"

definition example_pool :: CTxMemPool where
  "example_pool = snd (addUnchecked (snd (addUnchecked (CTxMemPool_new (CFeeRate 1000)) (bu_of_u64 8 9)
     (CTxMemPoolEntry_new example_stake 10 0 (0, 0) 900))) (bu_of_u64 8 10) (CTxMemPoolEntry_new example_spend 10 0 (0, 0) 900))"

lemma example_pool_hashes:
  "tx_GetHash example_pool_hash example_spend = bu_of_u64 8 10" "tx_GetHash example_pool_hash example_stake = bu_of_u64 8 9"
proof -
  have "valid_tx example_spend" "valid_tx example_stake"
    by (simp_all add: example_spend_def example_stake_def valid_tx_def valid_txin_def valid_txout_def valid_outpoint_def
        small_def MAX_SIZE_def int64_range_def)
  then have "ser_tx example_stake \<noteq> ser_tx example_spend"
    using tx.ser_prefix_free [of example_stake example_spend "[]" "[]"] by (auto simp: example_spend_def example_stake_def)
  then show "tx_GetHash example_pool_hash example_spend = bu_of_u64 8 10" "tx_GetHash example_pool_hash example_stake = bu_of_u64 8 9"
    by (simp_all add: tx_GetHash_def example_pool_hash_def bu_of_bytes_bu_bytes)
qed

lemma example_pool_inv: "pool_inv example_pool_hash example_pool"
proof -
  have "pool_inv example_pool_hash (CTxMemPool_new (CFeeRate 1000))"
    by (simp add: pool_inv_def CTxMemPool_new_def next_ok_def spent_by_def)
  then have "pool_inv example_pool_hash (snd (addUnchecked (CTxMemPool_new (CFeeRate 1000)) (bu_of_u64 8 9)
     (CTxMemPoolEntry_new example_stake 10 0 (0, 0) 900)))"
    by (rule addUnchecked_inv)
      (simp_all add: CTxMemPoolEntry_new_def example_pool_hashes, simp_all add: CTxMemPool_new_def example_stake_def)
  then show ?thesis unfolding example_pool_def
    by (rule addUnchecked_inv)
      (simp_all add: CTxMemPoolEntry_new_def example_pool_hashes, simp_all add: addUnchecked_def CTxMemPool_new_def example_stake_def example_spend_def example_ids)
qed

lemma example_pool_entries:
  "map_of (mapTx example_pool) (bu_of_u64 8 9) = Some (CTxMemPoolEntry_new example_stake 10 0 (0, 0) 900)"
  "map_of (mapTx example_pool) (bu_of_u64 8 10) = Some (CTxMemPoolEntry_new example_spend 10 0 (0, 0) 900)"
proof -
  have ne: "(bu_of_u64 8 9 :: uint256) \<noteq> bu_of_u64 8 10" by (simp add: example_ids)
  then show "map_of (mapTx example_pool) (bu_of_u64 8 9) = Some (CTxMemPoolEntry_new example_stake 10 0 (0, 0) 900)"
    "map_of (mapTx example_pool) (bu_of_u64 8 10) = Some (CTxMemPoolEntry_new example_spend 10 0 (0, 0) 900)"
    by (simp_all add: example_pool_def addUnchecked_def CTxMemPool_new_def)
qed

subsection \<open>A node that starts\<close>

text \<open>The active chain is empty; there is a genesis block and a block after it that comes from the future.\<close>

definition example_root :: CBlockIndex where
  "example_root = Index (entry_null\<lparr>phashBlock := Some (bu_of_u64 8 1), nStatus := 11\<rparr>) None None"

definition example_fork :: CBlockIndex where
  "example_fork = Index (entry_null\<lparr>phashBlock := Some (bu_of_u64 8 2), nHeight := 1, nChainWork := bu_of_u64 8 1, nChainTx := 1,
     nStatus := 11\<rparr>) (Some example_root) (Some example_root)"

definition example_late :: CBlock where
  "example_late = example_block\<lparr>bh_nTime := 10000\<rparr>"

definition example_start :: "CCoinsViewDB node_state" where
  "example_start = \<lparr>chainActive = [], heap = entry, pcoinsTip = base example_funded, mempool = CTxMemPool_new (CFeeRate 1000),
     masternodePayments = example_votes, mapBlockIndex = [(bu_of_u64 8 1, example_root), (bu_of_u64 8 2, example_fork)],
     setBlockIndexCandidates = [example_root, example_fork], mapBlocksUnlinked = [], pindexBestInvalid = None,
     pindexBestHeader = Some example_fork, setDirtyBlockIndex = [], nBlockSequenceId = 1, mapBlockSource = [], mapNodeState = []\<rparr>"

definition example_node_ops :: "CCoinsViewDB node_ops" where
  "example_node_ops = \<lparr>op_Quark = (\<lambda>b. bu_bytes (bu_of_u64 8 1)), op_Hash = example_hash, op_get = (\<lambda>db h. (None, db)),
     op_best = (\<lambda>db. (bu_zero 8, db)), op_put = (\<lambda>db m h. Some db), op_env = (\<lambda>_. example_env),
     op_read_block = (\<lambda>_ b. Some (if nHeight (entry b) = 0 then example_block else example_late)), op_read_undo = (\<lambda>_ _ _. None),
     op_due = (\<lambda>_ _. False), op_write = (\<lambda>_. Written), op_accept = (\<lambda>_ st. Some (False, mempool st, pcoinsTip st)),
     op_address = (\<lambda>b. nat (nHeight (entry b))), op_banscore = 100\<rparr>"

lemma example_root_indexed: "indexed example_root"
  unfolding example_root_def by (rule indexed.genesis) (simp add: entry_null_def)

lemma example_fork_indexed: "indexed example_fork"
proof (rule indexed.successor [OF example_root_indexed])
  show "BuildSkip (Index (entry example_fork) (Some example_root) None) = Some example_fork"
    by code_simp
qed code_simp

lemma example_branch_paths: "path example_root = [example_root]" "path example_fork = [example_root, example_fork]"
  by (simp_all add: path_simp example_root_def example_fork_def)

lemma example_start_ok: "node_ok example_start"
proof -
  have "is_uint256 (nChainWork (entry example_root))" "is_uint256 (nChainWork (entry example_fork))" by code_simp+
  then show ?thesis using example_root_indexed example_fork_indexed
    by (simp add: node_ok_def node_in_def example_branch_paths) (simp add: example_start_def example_branch_paths chain_ok_def)
qed

lemma example_intact: "unsuspicious example_node_ops None example_state"
proof -
  have "CheckBlock Quark example_hash (chain_env.truncate example_env) example_votes example_block example_state True = Some (True, example_state)" for Quark
    by (rule example_block_checks) (simp_all add: example_env_def chain_env.truncate_def)
  from CheckBlock_intact [OF this] have b: "intact_block Quark example_hash example_params example_block" for Quark
    by (simp add: chain_env.truncate_def) (simp add: example_env_def)
  have "IsProofOfWork example_late = IsProofOfWork example_block" "\<not> IsProofOfWork example_block"
    using example_kinds by (simp_all add: IsProofOfWork_def IsProofOfStake_def example_late_def)
  then have "intact_block Quark example_hash example_params example_late" for Quark
    using b [of Quark] by (simp add: intact_block_def BuildMerkleTree_def example_late_def)
  then show ?thesis using b
    by (auto simp: unsuspicious_def intact_blocks_def example_node_ops_def example_env_def example_state_def CValidationState.defs CValidationState_new_def)
qed

lemma example_fields:
  "pprev example_root = None" "nHeight (entry example_root) = 0" "GetBlockHash example_root = Some (bu_of_u64 8 1)"
  "pprev example_fork = Some example_root" "nHeight (entry example_fork) = 1" "GetBlockHash example_fork = Some (bu_of_u64 8 2)"
  "example_fork \<noteq> example_root"
  by (simp_all add: example_root_def example_fork_def entry_null_def GetBlockHash_def)

lemma example_work:
  "bu_compare (nChainWork (entry example_fork)) (nChainWork (entry example_root)) > 0"
  "\<not> bu_compare (nChainWork (entry example_root)) (nChainWork (entry example_root)) > 0"
  "\<not> bu_compare (nChainWork (entry example_root)) (nChainWork (entry example_root)) < 0"
  by code_simp+

lemma example_order:
  "\<not> work_less W st example_fork example_root" "\<not> work_less W st example_root example_root"
  using example_work by (simp_all add: work_less_def)

text \<open>The chain with the genesis block.\<close>

definition example_begun :: "CCoinsViewDB node_state" where
  "example_begun = example_start\<lparr>chainActive := [Some example_root],
     pcoinsTip := (pcoinsTip example_start)\<lparr>cc_hashBlock := bu_of_u64 8 1\<rparr>,
     mempool := AddTransactionsUpdated (mempool example_start) 1\<rparr>"

lemma empty_pool_block:
  assumes "mapTx pool = []" "mapNextTx pool = []" "mapDeltas pool = []"
  shows "removeForBlock Hash txs h pool [] = Some (([], h, pool_minRelayFee pool), pool, [])"
proof -
  have r: "pool_remove Hash tx False pool [] = Some (pool, [])" for tx
    by (simp add: pool_remove_def remove_loop.simps assms)
  have c: "conflicts_loop Hash tx ins pool [] = Some (pool, [])" for tx ins
    by (induction ins) (simp_all add: assms)
  have d: "ClearPrioritisation pool k = pool" for k
    using assms(3) by (simp add: ClearPrioritisation_def)
  have "block_loop Hash txs pool [] = Some (pool, [])"
    by (induction txs) (simp_all add: r c d removeConflicts_def)
  then show ?thesis by (simp add: removeForBlock_def assms(1) map_filter_def)
qed

lemma example_ops:
  "op_Quark example_node_ops b = bu_bytes (bu_of_u64 8 1)" "op_Hash example_node_ops = example_hash"
  "op_get example_node_ops = (\<lambda>db h. (None, db))" "op_best example_node_ops = (\<lambda>db. (bu_zero 8, db))"
  "op_env example_node_ops st = example_env" "op_due example_node_ops st mode = False"
  "op_read_block example_node_ops st i = Some (if nHeight (entry i) = 0 then example_block else example_late)"
  by (simp_all add: example_node_ops_def)

lemma example_tip_env:
  "me_params (tip_env example_node_ops st) = example_params"
  "CheckBlock Quark example_hash (chain_env.truncate (tip_env example_node_ops st)) mns example_block example_state True = Some (True, example_state)"
  "ce_adjusted (chain_env.truncate (tip_env example_node_ops st)) = 100"
  "me_params (chain_env.truncate (tip_env example_node_ops st)) = example_params"
  using example_block_checks [of "chain_env.truncate (tip_env example_node_ops st)"]
  by (simp_all add: tip_env_def example_ops example_env_def chain_env.truncate_def)

lemma example_connect_genesis:
  "ConnectTip example_node_ops example_state example_root None example_start = Some (True, example_state, example_begun)"
proof -
  have c: "current entry example_root = example_root" by (simp add: example_root_def)
  have h: "CBlockHeader_GetHash (op_Quark example_node_ops) example_block = hashGenesisBlock example_params"
    by (simp add: CBlockHeader_GetHash_def example_ops bu_of_bytes_bu_bytes example_params_def)
  let ?v = "new_cache (pcoinsTip example_start)"
  have b: "cache_GetBestBlock (cache_GetBestBlock (op_best example_node_ops)) ?v = (bu_zero 8, ?v)"
    by (simp add: cache_GetBestBlock_def example_ops new_cache_def example_start_def example_base)
  have "ConnectBlock (op_Quark example_node_ops) example_hash (cache_GetCoins (op_get example_node_ops)) (cache_GetBestBlock (op_best example_node_ops))
      (tip_env example_node_ops example_start) mns example_block example_state example_root ?v False =
    Some (True, example_state, \<lparr>o_index = example_root, o_view = SetBestBlock (bu_of_u64 8 1) ?v, o_undo = None, o_dirty = False, o_txindex = []\<rparr>)" for mns
    by (simp add: ConnectBlock_def example_tip_env example_fields b h)
  moreover have "Flush cache_BatchWrite (SetBestBlock (bu_of_u64 8 1) ?v) =
      Some ((SetBestBlock (bu_of_u64 8 1) ?v)\<lparr>base := (pcoinsTip example_start)\<lparr>cc_hashBlock := bu_of_u64 8 1\<rparr>, cacheCoins := []\<rparr>)"
    by (simp add: Flush_def SetBestBlock_def cache_BatchWrite_def new_cache_def example_start_def example_base)
  moreover have "Tip (chainActive example_start) False = None" "heap example_start = entry" "mapBlockSource example_start = []"
    "chainActive example_start = []" "mempool example_start = CTxMemPool_new (CFeeRate 1000)"
    by (simp_all add: example_start_def Tip_def)
  moreover have "SetTip [] (Some example_root) = [Some example_root]" by code_simp
  moreover have "base ((SetBestBlock (bu_of_u64 8 1) ?v)\<lparr>base := c, cacheCoins := []\<rparr>) = c" for c
    by (simp add: SetBestBlock_def new_cache_def)
  moreover have "example_start\<lparr>heap := entry, mapBlockSource := [], pcoinsTip := c, chainActive := v, mempool := p\<rparr> =
      example_start\<lparr>chainActive := v, pcoinsTip := c, mempool := p\<rparr>" for c v p
    by (simp add: example_start_def)
  moreover have "removeForBlock example_hash (vtx example_block) h (CTxMemPool_new (CFeeRate 1000)) [] =
      Some (([], h, CFeeRate 1000), CTxMemPool_new (CFeeRate 1000), [])" for h
    using empty_pool_block [of "CTxMemPool_new (CFeeRate 1000)"] by (simp add: CTxMemPool_new_def)
  ultimately show ?thesis
    by (simp add: ConnectTip_def example_fields example_ops c FlushStateToDisk_def UpdateTip_def example_begun_def)
qed

text \<open>The same chain with the later block marked as failed.\<close>

definition example_refusal :: block_state where
  "example_refusal = snd (Invalid False REJECT_INVALID ''time-too-new'' example_state)"

definition example_end :: "CCoinsViewDB node_state" where
  "example_end = (erase_candidate example_fork (set_dirty example_fork (set_status (\<lambda>s. s OR BLOCK_FAILED_VALID) example_fork example_begun)))
     \<lparr>pindexBestInvalid := Some example_fork\<rparr>"

lemma example_begun_fields:
  "chainActive example_begun = [Some example_root]" "heap example_begun = entry" "Tip [Some example_root] False = Some example_root"
  "mapBlockSource example_begun = []" "setBlockIndexCandidates example_begun = [example_root, example_fork]" "pindexBestInvalid example_begun = None"
  by (simp_all add: example_begun_def example_start_def Tip_def)

lemma example_refusal_fields: "vs_IsInvalid example_refusal = Some 0" "\<not> corruptionPossible example_refusal"
  by (simp_all add: example_refusal_def Invalid_def DoS_def Let_def vs_IsInvalid_def example_state_def CValidationState.defs CValidationState_new_def)

lemma example_refuse_fork:
  "ConnectTip example_node_ops example_state example_fork None example_begun = Some (False, example_refusal, example_end)"
proof -
  have c: "current entry example_fork = example_fork" by (simp add: example_fork_def example_root_def)
  have t: "GetBlockTime example_late = 10000" "IsProofOfStake example_late" "\<not> IsProofOfWork example_late"
    using example_kinds by (simp_all add: GetBlockTime_def example_late_def IsProofOfStake_def IsProofOfWork_def)
  have "CheckBlock Quark example_hash (chain_env.truncate (tip_env example_node_ops example_begun)) mns example_late example_state True =
      Some (Invalid False REJECT_INVALID ''time-too-new'' example_state)" for Quark mns
    by (simp add: CheckBlock_def CheckBlockHeader_of_block_def CheckBlockHeader_def t example_tip_env)
  moreover have "Invalid False REJECT_INVALID ''time-too-new'' example_state = (False, example_refusal)"
    by (simp add: example_refusal_def Invalid_def DoS_def Let_def)
  ultimately have C: "ConnectBlock (op_Quark example_node_ops) example_hash get best (tip_env example_node_ops example_begun) mns example_late example_state
      example_fork v False = Some (False, example_refusal, \<lparr>o_index = example_fork, o_view = v, o_undo = None, o_dirty = False, o_txindex = []\<rparr>)"
    for get best mns and v :: "CCoinsViewDB CCoinsViewCache CCoinsViewCache"
    by (simp add: ConnectBlock_def)
  have b: "base (new_cache (pcoinsTip example_begun)) = pcoinsTip example_begun" by (simp add: new_cache_def)
  have e: "example_begun\<lparr>heap := entry, pcoinsTip := pcoinsTip example_begun\<rparr> = example_begun"
    by (simp add: example_begun_def example_start_def)
  have I: "InvalidBlockFound example_node_ops example_fork example_refusal example_begun = Some example_end"
    using example_refusal_fields
    by (simp add: InvalidBlockFound_def blame_source_def example_fields example_begun_fields InvalidChainFound_def erase_candidate_def
        set_dirty_def set_status_def example_end_def)
  show ?thesis using example_refusal_fields
    by (simp add: ConnectTip_def example_fields example_ops example_begun_fields c C b e I)
qed

lemma example_end_fields:
  "chainActive example_end = [Some example_root]" "setBlockIndexCandidates example_end = [example_root]" "failed example_end example_fork"
  "pindexBestInvalid example_end = Some example_fork"
  using example_fields(7)
  by (simp_all add: example_end_def erase_candidate_def set_dirty_def set_status_def example_begun_fields failed_def status_masks)

lemma example_prune: "PruneBlockIndexCandidates example_node_ops example_begun = Some example_begun"
  by (simp add: PruneBlockIndexCandidates_def example_begun_fields example_order)

lemma example_step1:
  "ActivateBestChainStep example_node_ops example_state example_fork None example_start = Some (True, example_state, example_begun)"
proof -
  have t: "Tip [] False = None" "chainActive example_start = []" by (simp_all add: example_start_def Tip_def)
  have "FindFork [] example_fork = Some None" by code_simp
  moreover have "GetAncestor example_fork 1 = Some (Some example_fork)" by code_simp
  moreover have "gather (-1) (Some example_fork) = [example_fork, example_root]" by code_simp
  ultimately show ?thesis
    by (simp add: ActivateBestChainStep_def t disconnect_to.simps connect_loop.simps example_fields example_connect_genesis example_prune)
qed

lemma example_step2:
  "ActivateBestChainStep example_node_ops example_state example_fork None example_begun = Some (True, reset_state example_refusal, example_end)"
proof -
  have "FindFork [Some example_root] example_fork = Some (Some example_root)" by code_simp
  moreover have "GetAncestor example_fork 1 = Some (Some example_fork)" by code_simp
  moreover have "gather 0 (Some example_fork) = [example_fork]" by code_simp
  moreover have "InvalidChainFound example_fork example_end = Some example_end"
    by (simp add: InvalidChainFound_def example_end_fields example_begun_fields)
  ultimately show ?thesis using example_refusal_fields
    by (simp add: ActivateBestChainStep_def example_begun_fields disconnect_to.simps connect_loop.simps example_fields example_refuse_fork)
qed

lemma example_unusable:
  "unusable example_start (Some example_fork) = Some None" "unusable example_begun (Some example_fork) = Some None"
  "unusable example_end (Some example_root) = Some None"
  by code_simp+

lemma example_searches:
  "FindMostWorkChain example_node_ops example_start = Some (Some example_fork, example_start)"
  "FindMostWorkChain example_node_ops example_begun = Some (Some example_fork, example_begun)"
  "FindMostWorkChain example_node_ops example_end = Some (Some example_root, example_end)"
proof -
  have "setBlockIndexCandidates example_start = [example_root, example_fork]" by (simp add: example_start_def)
  then show "FindMostWorkChain example_node_ops example_start = Some (Some example_fork, example_start)"
    "FindMostWorkChain example_node_ops example_begun = Some (Some example_fork, example_begun)"
    "FindMostWorkChain example_node_ops example_end = Some (Some example_root, example_end)"
    by (subst FindMostWorkChain.simps, simp add: example_begun_fields example_end_fields example_order example_unusable)+
qed

text \<open>The genesis block is connected, the later block refused, and the third round finds nothing better.\<close>

lemma example_activation:
  "ActivateBestChain example_node_ops 13 example_state None example_start = Inr (True, reset_state example_refusal, example_end)"
proof -
  have t: "Tip (chainActive example_start) False = None" by (simp add: example_start_def Tip_def)
  have "ActivateBestChain example_node_ops (Suc n) (reset_state example_refusal) None example_end =
      Inr (True, reset_state example_refusal, example_end)" for n
    by (simp add: example_searches example_end_fields example_begun_fields)
  then have "ActivateBestChain example_node_ops (Suc (Suc n)) example_state None example_begun =
      Inr (True, reset_state example_refusal, example_end)" for n
    using example_fields(7)
    by (simp add: ActivateBestChain.simps(2) [of _ "Suc n"] example_searches example_begun_fields example_step2 example_end_fields del: ActivateBestChain.simps)
  then have "ActivateBestChain example_node_ops (Suc (Suc (Suc n))) example_state None example_start =
      Inr (True, reset_state example_refusal, example_end)" for n
    using example_fields(7) t
    by (simp add: ActivateBestChain.simps(2) [of _ "Suc (Suc n)"] example_searches example_begun_fields example_step1 del: ActivateBestChain.simps)
  from this [of 10] show ?thesis by simp
qed

text \<open>Two rounds are not enough.\<close>

lemma example_two_rounds: "ActivateBestChain example_node_ops 2 example_state None example_start = Inl Out_of_rounds"
proof -
  have "Tip (chainActive example_start) False = None" by (simp add: example_start_def Tip_def)
  then show ?thesis using example_fields(7)
    by (simp add: eval_nat_numeral example_searches example_begun_fields example_end_fields example_step1 example_step2)
qed

end
