(* ===== verification/Spec2Isabelle.thy ===== *)
theory Spec2Isabelle
  imports Examples Mn_Payments
begin

text \<open>
  A model of the consensus code of the Scrypta node (the daemon \<^verbatim>\<open>lyrad\<close>, a descendant of Bitcoin and PIVX
  written in C++) and proofs of what it promises. A block reaches \<^verbatim>\<open>CheckBlock\<close>, which looks at the block
  alone, then \<^verbatim>\<open>ContextualCheckBlock\<close> and \<^verbatim>\<open>CheckWork\<close>, which look at its predecessors, and is connected
  to the tip by \<^verbatim>\<open>ConnectBlock\<close>: every transaction is checked against the unspent outputs of a view,
  its scripts are run, at once or on the threads of a check queue, its inputs are spent and its outputs
  added. The view is a stack of caches over the chain state database. \<^verbatim>\<open>DisconnectBlock\<close> takes a block
  back with the undo data that connecting it wrote. Which blocks are disconnected and connected is decided
  by \<^verbatim>\<open>ActivateBestChain\<close>, which moves the tip to the candidate with the most work and brings the memory
  pool in line with the chain.

  \<^bold>\<open>Theories and code.\<close> Paths are under \<^verbatim>\<open>src/\<close>.

  \<^item> \<^verbatim>\<open>Prelude\<close>: lists, words and maps; the collections of simplification rules the components share.
  \<^item> \<^verbatim>\<open>Base_Uint\<close>, \<^verbatim>\<open>Uint256\<close> (\<^verbatim>\<open>uint256.h\<close>, \<^verbatim>\<open>uint256.cpp\<close>): integers as lists of 32-bit limbs, hex, compact
    targets. \<^verbatim>\<open>Double\<close>: the operations on IEEE doubles that the rewards use, exactly rounded.
  \<^item> \<^verbatim>\<open>Serialize\<close> (\<^verbatim>\<open>serialize.h\<close>): the interface of a codec is the locale \<open>codec\<close>, interpreted for each type.
  \<^item> \<^verbatim>\<open>Script\<close>, \<^verbatim>\<open>Interpreter\<close> (\<^verbatim>\<open>script/script.h\<close>, \<^verbatim>\<open>script/interpreter.cpp\<close>): the container, its numbers, every
    opcode, the limits, the encodings of signatures and keys. \<^verbatim>\<open>Sighash\<close>: what a signature signs.
  \<^item> \<^verbatim>\<open>Transaction\<close>, \<^verbatim>\<open>Block\<close>, \<^verbatim>\<open>Merkle_Block\<close> (\<^verbatim>\<open>primitives/\<close>, \<^verbatim>\<open>merkleblock.cpp\<close>): the data, its form on the wire,
    merkle trees and partial trees.
  \<^item> \<^verbatim>\<open>Compressor\<close>, \<^verbatim>\<open>Coins\<close>, \<^verbatim>\<open>Coins_View\<close> (\<^verbatim>\<open>compressor.cpp\<close>, \<^verbatim>\<open>coins.cpp\<close>, \<^verbatim>\<open>txdb.cpp\<close>, \<^verbatim>\<open>undo.h\<close>): unspent outputs, their
    database form, and the views. The locale \<open>coins_view\<close> is what a view promises its user; a cache on a
    view is again a view (\<open>cache_on_view\<close> and its sublocale), the database is the base instance.
  \<^item> \<^verbatim>\<open>Chain\<close>, \<^verbatim>\<open>Pow\<close> (\<^verbatim>\<open>chain.h\<close>, \<^verbatim>\<open>chain.cpp\<close>, \<^verbatim>\<open>pow.cpp\<close>, \<^verbatim>\<open>chainparams.cpp\<close>): the block index, skip list, active chain,
    retargeting and work.
  \<^item> \<^verbatim>\<open>Chain_Coins\<close> (\<^verbatim>\<open>main.cpp\<close>): \<^verbatim>\<open>UpdateCoins\<close>, \<^verbatim>\<open>DisconnectBlock\<close>. The locale \<open>coins_changes\<close> adds to a cache that
    spending keeps coins storable; the laws of every step of validation are proved in it and hold for
    the view of a block on the database by interpretation (\<open>block_changes\<close>).
  \<^item> \<^verbatim>\<open>Reward\<close>, \<^verbatim>\<open>Mn_Payments\<close> (\<^verbatim>\<open>main.cpp\<close>, \<^verbatim>\<open>masternode-payments.cpp\<close>): subsidies, the share of masternodes, votes on
    whom to pay and the checks of a block against them.
  \<^item> \<^verbatim>\<open>Consensus\<close>, \<^verbatim>\<open>Connect\<close> (\<^verbatim>\<open>main.cpp\<close>): the rules of transactions and blocks, \<^verbatim>\<open>CheckInputs\<close> and
    \<^verbatim>\<open>ConnectBlock\<close>. \<^verbatim>\<open>Check_Queue\<close> (\<^verbatim>\<open>checkqueue.h\<close>): the queue as a step relation over its threads.
  \<^item> \<^verbatim>\<open>Supply\<close>, \<^verbatim>\<open>Script_Threads\<close>: what connecting does to the unspent outputs and the money supply, and that the
    threads do not matter.
  \<^item> \<^verbatim>\<open>Mempool\<close> (\<^verbatim>\<open>txmempool.h\<close>, \<^verbatim>\<open>txmempool.cpp\<close>): the entries of the memory pool, adding, removing with the
    dependants, and what a block or a reorganisation takes out.
  \<^item> \<^verbatim>\<open>Activation\<close> (\<^verbatim>\<open>main.cpp\<close>): the state of the node, the candidates and their order, \<^verbatim>\<open>ConnectTip\<close>,
    \<^verbatim>\<open>DisconnectTip\<close>, \<^verbatim>\<open>FindMostWorkChain\<close>, the step and the loop of \<^verbatim>\<open>ActivateBestChain\<close>. \<^verbatim>\<open>Refusals\<close>: what
    connecting does to the validation state. \<^verbatim>\<open>Best_Chain\<close>, \<^verbatim>\<open>Best_Tip\<close>: what every operation keeps, the
    invariant of the node, and the measure that falls with every round.
  \<^item> \<^verbatim>\<open>Examples\<close>: the concrete instances the witnesses use.

  \<^bold>\<open>State and effects.\<close> C++ objects are records and methods return the changed record. A failed assertion, an
  exception, a null pointer and an access out of range are \<open>None\<close> (or a value of \<open>script_fail\<close>); a refusal is
  the result \<open>False\<close> with the validation state that tells why. Globals that are only read (parameters, tip,
  sporks, clock, the masternode list) are the records \<open>mn_env\<close>, \<open>chain_env\<close> and \<open>connect_env\<close>, each extending the
  last. Unsigned integers are words; signed 64-bit sums wrap (\<open>wrap64\<close>); heights and times are integers.

  \<^bold>\<open>Parameters.\<close> Hash functions, the operations on public keys, signature verification, the outcome of
  writes to disk and the masternode list are arguments. Hypotheses about them: a digest has its length
  (\<open>hash_lengths\<close>), a compressed key is recovered by decompression (\<open>curve_recovers\<close>).

  \<^bold>\<open>What the lemmas show.\<close> Round trips of every codec; the laws of the view interface for caches and the
  database; each step of \<^verbatim>\<open>ConnectBlock\<close> as a change of the abstract map from transactions to unspent
  outputs (\<open>apply_txs\<close>), from which follow the cap on the supply and that disconnecting is the inverse;
  that the memory pool stays consistent and clear of what the chain conflicts with; that activation keeps the
  invariant of the node, ends, and stops at the best candidate;
  equivalence of the optimised routines with their plain definitions (skip list, compressed amounts,
  removal of operations, retargets); that every wait of the check queue ends with the right answer; that
  votes are counted once.

  \<^bold>\<open>Bounds.\<close> Loops recurse on lists or have a termination proof, with two exceptions. \<open>ActivateBestChain\<close> takes a
  number of rounds, since a block that is refused without being marked would be tried for ever: what holds of a
  result holds for every number, and \<open>activation_ends\<close> gives one that is enough. \<open>disconnect_to\<close> takes the length
  of the active chain, which \<open>disconnect_to_enough\<close> shows to be enough. The check queue is
  given fewer than \<open>2 ^ 32\<close> checks between two waits, as the count is a 32-bit integer; the statements about
  money ask for a cap below \<open>2 ^ 62\<close>, which the parameters satisfy.

  \<^bold>\<open>Not modelled.\<close> The graphical interface, the RPC and REST servers, sockets and the message loop, logging,
  start-up and the libraries under \<^verbatim>\<open>leveldb\<close>, \<^verbatim>\<open>secp256k1\<close>, \<^verbatim>\<open>univalue\<close>, \<^verbatim>\<open>json\<close> and \<^verbatim>\<open>minizip\<close> do input and
  output or are third-party code. The wallet, mixing, the budget and InstantSend, the acceptance of headers and
  blocks into the index, the block files, \<^verbatim>\<open>AcceptToMemoryPool\<close> (an argument of the activation), the fee
  estimator and the self-check of the memory pool are not modelled. The cache of valid signatures and the
  timing statistics do not change results and are left out. Rounds of the activation follow each other: what
  other threads do while \<^verbatim>\<open>cs_main\<close> is free between two rounds is not modelled.
\<close>

section \<open>Scripts\<close>

text \<open>
  C5: A pay-to-pubkey-hash output is spent by a signature and a key, pushed the way \<^verbatim>\<open>operator<<\<close> pushes them, under
  whatever flags, if and only if both may be pushed (at most 520 bytes, and where \<^verbatim>\<open>MINIMALDATA\<close> is asked not one of
  the single bytes that have an opcode of their own), the key has the committed hash, both are encoded as the flags
  ask, and the signature check of the key accepts the signature for the output's script. When the signature is the
  committed hash itself, the code cuts its push out of the script that is signed.
\<close>

theorem p2pkh_spend:
  assumes "length h = 20"
  shows "VerifyScript C flags (push_data sig @ push_data pubkey) (pay_to_pubkey_hash h) = Inr () \<longleftrightarrow>
    pushable flags sig \<and> pushable flags pubkey \<and> CHash160 C pubkey = h \<and> CheckSignatureEncoding sig flags = Inr () \<and>
    CheckPubKeyEncoding pubkey flags = Inr () \<and> CheckSig C sig pubkey (p2pkh_code h sig)"
  using assms by (rule VerifyScript_p2pkh)

theorem p2pkh_spend_witness:
  "VerifyScript example_checker (SCRIPT_VERIFY_P2SH OR SCRIPT_VERIFY_MINIMALDATA) (push_data [7, 1] @ push_data [7, 5])
     (pay_to_pubkey_hash ([7, 5] @ replicate 18 0)) = Inr () \<and>
   VerifyScript example_checker (SCRIPT_VERIFY_P2SH OR SCRIPT_VERIFY_MINIMALDATA) (push_data [7] @ push_data [7, 5])
     (pay_to_pubkey_hash ([7, 5] @ replicate 18 0)) \<noteq> Inr ()"
  by (simp add: p2pkh_spend pushable_def minimal_push_def p2pkh_code_def MAX_SCRIPT_ELEMENT_SIZE_def has_flag_def SCRIPT_VERIFY_P2SH_def
      SCRIPT_VERIFY_MINIMALDATA_def CHash160_def example_checker_def CheckSignatureEncoding_def
      CheckPubKeyEncoding_def SCRIPT_VERIFY_DERSIG_def SCRIPT_VERIFY_LOW_S_def SCRIPT_VERIFY_STRICTENC_def)

text \<open>
  C16: The check of \<^verbatim>\<open>CHECKMULTISIG\<close> walks signatures and keys from the top. Unless it meets a signature or a key that
  is not encoded as the flags ask, it succeeds exactly when the signatures can be matched, in order, to a
  subsequence of the keys that verify them; otherwise it stops with the error of that encoding, match or not.
\<close>

theorem multisig_matches_in_order:
  "case multisig_loop C flags code sigs keys of
     Inr b \<Rightarrow> b \<longleftrightarrow> sig_match C code sigs keys
   | Inl e \<Rightarrow> \<exists>sig \<in> set sigs. \<exists>key \<in> set keys. CheckSignatureEncoding sig flags = Inl e \<or> CheckPubKeyEncoding key flags = Inl e"
  by (rule multisig_loop_spec)

theorem multisig_matches_in_order_witness:
  "sig_match example_checker [] [[7, 1], [9, 1]] [[7], [8], [9]]"
proof -
  have "multisig_loop example_checker 0 [] [[7, 1], [9, 1]] [[7], [8], [9]] = Inr True"
    by (simp add: example_checker_def CheckSignatureEncoding_def CheckPubKeyEncoding_def has_flag_def)
  then show ?thesis using multisig_matches_in_order [where C = example_checker and flags = 0 and code = "[]" and sigs = "[[7, 1], [9, 1]]" and keys = "[[7], [8], [9]]"] by simp
qed

text \<open>
  C17: The evaluation of a script keeps the stack within 1000 elements of at most 520 bytes.
\<close>

theorem script_evaluation_bounded:
  assumes "hash_lengths C" "small_stack st" "length st \<le> 1000" "EvalScript C flags st script = Inr st'"
  shows "small_stack st' \<and> length st' \<le> 1000"
  using assms by (rule EvalScript_bounds)

theorem script_evaluation_bounded_witness: "small_stack [[5], [1, 2]]"
proof -
  have "EvalScript example_checker 0 [[1, 2]] [OP_2, OP_3, OP_ADD] = Inr [[5], [1, 2]]" by code_simp
  from script_evaluation_bounded [OF example_checker_lengths _ _ this] show ?thesis
    by (simp add: MAX_SCRIPT_ELEMENT_SIZE_def)
qed

text \<open>
  C10: Script verification never reaches a failed assertion of the code, whatever the two
  scripts and the flags.
\<close>

theorem verification_never_aborts:
  assumes "hash_lengths C"
  shows "VerifyScript C flags sig pubkey \<noteq> Inl Assert_failed"
  using assms by (rule VerifyScript_no_abort)

theorem verification_never_aborts_witness:
  "VerifyScript example_checker SCRIPT_VERIFY_P2SH [OP_TRUE, OP_DUP] [OP_HASH160, OP_FROMALTSTACK] \<noteq> Inl Assert_failed"
  by (rule verification_never_aborts [OF example_checker_lengths])

text \<open>
  C18: A script that evaluates without an error has at most 10000 bytes, parses to its end,
  holds none of the forbidden operations and at most 201 operations above \<^verbatim>\<open>OP_16\<close>, in executed and
  unexecuted branches alike. Forbidden are \<^verbatim>\<open>OP_VERIF\<close> and \<^verbatim>\<open>OP_VERNOTIF\<close> and the fifteen disabled operations on
  strings, bits and numbers, by their codes.
\<close>

theorem evaluated_script_is_legal:
  assumes "EvalScript C flags st s = Inr st'"
  shows "length s \<le> 10000 \<and> snd (chunks s) = [] \<and>
    (\<forall>c \<in> set (fst (chunks s)). \<not> forbidden_opcode (hd c)) \<and>
    length (filter (\<lambda>c. hd c > OP_16) (fst (chunks s))) \<le> 201"
  using assms by (rule EvalScript_static)

theorem evaluated_script_is_legal_witness:
  "snd (chunks [OP_0, OP_IF, OP_DUP, OP_ENDIF]) = [] \<and> \<not> forbidden_opcode OP_DUP"
proof -
  let ?s = "[OP_0, OP_IF, OP_DUP, OP_ENDIF]"
  have "EvalScript example_checker 0 [] ?s = Inr []" by code_simp
  note legal = evaluated_script_is_legal [OF this]
  have "[OP_DUP] \<in> set (fst (chunks ?s))" by code_simp
  with legal show ?thesis by force
qed

text \<open>
  A step of the interpreter inside a branch that is not taken leaves both stacks and the
  start of the signed code alone, whatever the operation.
\<close>

theorem untaken_branch_has_no_effect:
  assumes "False \<in> set (vfExec m)" "eval_step C flags m pc = Inr (m', pc')"
  shows "stack m' = stack m \<and> altstack m' = altstack m \<and> pbegincodehash m' = pbegincodehash m"
  using assms by (rule unexecuted_step)

theorem untaken_branch_has_no_effect_witness:
  "\<exists>m'. eval_step example_checker 0
     \<lparr>stack = [[1]], altstack = [], vfExec = [True, False], nOpCount = 3, pbegincodehash = [OP_DUP]\<rparr> [OP_DUP] = Inr (m', []) \<and>
     stack m' = [[1]]"
proof -
  let ?m = "\<lparr>stack = [[1]], altstack = [], vfExec = [True, False], nOpCount = 3, pbegincodehash = [OP_DUP]\<rparr>"
  have "eval_step example_checker 0 ?m [OP_DUP] = Inr (?m\<lparr>nOpCount := 4\<rparr>, [])" by code_simp
  moreover from untaken_branch_has_no_effect [OF _ this] have "stack (?m\<lparr>nOpCount := 4\<rparr>) = [[1]]" by simp
  ultimately show ?thesis by blast
qed

text \<open>
  Removing a single operation from a script removes exactly its occurrences at operation
  boundaries, counts them, and keeps every other byte.
\<close>

theorem find_and_delete_at_boundaries:
  assumes "single_op b"
  shows "FindAndDelete s b =
    (concat (filter (\<lambda>c. c \<noteq> b) (fst (chunks s))) @ snd (chunks s), count_list (fst (chunks s)) b)"
  using assms by (rule FindAndDelete_chunks)

theorem find_and_delete_at_boundaries_witness:
  "FindAndDelete [2, OP_CODESEPARATOR, OP_DUP, OP_CODESEPARATOR, OP_ADD] [OP_CODESEPARATOR] =
     ([2, OP_CODESEPARATOR, OP_DUP, OP_ADD], 1)"
  unfolding find_and_delete_at_boundaries [OF separator_op] by code_simp

text \<open>
  Numbers of at most four bytes and the integers below 2 to the 31 in magnitude are in
  bijection: what is serialised is read back as minimal, and a minimal encoding is the serialisation.
\<close>

theorem script_number_bijection:
  "(\<forall>v. \<bar>v\<bar> < 2 ^ 31 \<longrightarrow> CScriptNum_of (scriptnum_serialize v) True = Inr v) \<and>
   (\<forall>b v. CScriptNum_of b True = Inr v \<longrightarrow> scriptnum_serialize v = b)"
  using CScriptNum_serialize CScriptNum_canonical by blast

theorem script_number_bijection_witness: "CScriptNum_of [0x80, 0x81] True = Inr (-384)"
proof -
  have "scriptnum_serialize (-384) = [0x80, 0x81]" by code_simp
  moreover have "\<bar>-384\<bar> < (2 :: int) ^ 31" by simp
  ultimately show ?thesis using script_number_bijection by metis
qed

text \<open>
  C37: The encoding check on signatures accepts exactly the strict DER encodings: a sequence of
  two minimal non-negative integers, then one hash type byte, in at most 73 bytes.
\<close>

theorem signature_encoding_is_strict_der:
  "IsValidSignatureEncoding sig \<longleftrightarrow>
     (\<exists>R S hashtype. sig = der_signature R S hashtype \<and> der_int R \<and> der_int S \<and> length sig \<le> 73)"
  by (rule IsValidSignatureEncoding_der)

text \<open>
  The big-endian comparison used for low S accepts S exactly when it is positive and at
  most half the group order of secp256k1 (or the order less one, without the restriction).
\<close>

theorem signature_element_range:
  "CheckSignatureElement S half \<longleftrightarrow>
     0 < wval (rev S) \<and> wval (rev S) \<le> (if half then (secp256k1_order - 1) div 2 else secp256k1_order - 1)"
  by (rule CheckSignatureElement_val)

section \<open>Transactions\<close>

text \<open>
  C21: Reading a serialised transaction from a stream gives the transaction back and stops
  exactly at its end, and two serialised transactions that start the same stream are equal.
\<close>

theorem transaction_round_trip:
  assumes "valid_tx tx"
  shows "unser_tx (ser_tx tx @ s) = Inr (tx, s) \<and> length (ser_tx tx) = size_tx tx \<and>
    (\<forall>tx' t. valid_tx tx' \<longrightarrow> ser_tx tx @ s = ser_tx tx' @ t \<longrightarrow> tx = tx' \<and> s = t)"
  using assms tx.unser_ser size_tx_ok tx.ser_prefix_free by blast

theorem transaction_round_trip_witness:
  "unser_tx (ser_tx example_tx @ [1, 2, 3]) = Inr (example_tx, [1, 2, 3])"
  using transaction_round_trip [OF example_tx_valid] by blast

text \<open>
  C11: What \<^verbatim>\<open>SignatureHash\<close> hashes is, for every hash type, the serialisation of an ordinary
  transaction: the one signed, with the scripts, inputs and outputs the type leaves out blanked.
\<close>

theorem sighash_is_a_transaction:
  assumes "snd (chunks code) = []" "nIn < length (vin tx)"
    and "fHashSingle ht \<Longrightarrow> nIn < length (vout tx)"
  shows "SerializeSighash tx code nIn ht = ser_tx (signed_tx tx code nIn ht)"
  using assms by (rule SerializeSighash_signed)

theorem sighash_is_a_transaction_witness:
  "SerializeSighash example_tx [OP_CHECKSIG] 0 0x83 = ser_tx (signed_tx example_tx [OP_CHECKSIG] 0 0x83)"
proof (rule sighash_is_a_transaction)
  show "snd (chunks [OP_CHECKSIG]) = []" by code_simp
qed (simp_all add: example_tx_def)

text \<open>
  C12: A signature of type \<^verbatim>\<open>SIGHASH_ALL\<close> commits to the version, the lock time, every output,
  every outpoint and sequence number, and the script code without its separators.
\<close>

theorem sighash_all_commits_to_everything:
  assumes "valid_tx tx" "valid_tx tx'" "small code" "small code'"
    and "snd (chunks code) = []" "snd (chunks code') = []"
    and "nIn < length (vin tx)" "nIn < length (vin tx')"
    and "\<not> fAnyoneCanPay ht" "\<not> fHashSingle ht" "\<not> fHashNone ht"
    and "SerializeSighash tx code nIn ht = SerializeSighash tx' code' nIn ht"
  shows "tx_nVersion tx = tx_nVersion tx' \<and> nLockTime tx = nLockTime tx' \<and> vout tx = vout tx' \<and>
    map prevout (vin tx) = map prevout (vin tx') \<and> map nSequence (vin tx) = map nSequence (vin tx') \<and>
    strip_separators code = strip_separators code'"
  using assms by (rule sighash_all_commits)

theorem sighash_all_commits_to_everything_witness:
  "strip_separators [OP_CHECKSIG] = strip_separators [OP_CODESEPARATOR, OP_CHECKSIG]"
proof -
  have c: "snd (chunks [OP_CHECKSIG]) = []" "snd (chunks [OP_CODESEPARATOR, OP_CHECKSIG]) = []"
    "SerializeSighash example_tx [OP_CHECKSIG] 0 1 = SerializeSighash example_tx [OP_CODESEPARATOR, OP_CHECKSIG] 0 1"
    "0 < length (vin example_tx)"
    by code_simp+
  have "strip_separators [OP_CHECKSIG] = strip_separators [OP_CODESEPARATOR, OP_CHECKSIG] \<and>
      tx_nVersion example_tx = tx_nVersion example_tx"
    using sighash_all_commits_to_everything [OF example_tx_valid example_tx_valid _ _ c(1,2,4,4) _ _ _ c(3)]
    by (simp add: small_def MAX_SIZE_def fAnyoneCanPay_def fHashSingle_def fHashNone_def)
  then show ?thesis by blast
qed

text \<open>
  C38: \<^verbatim>\<open>GetValueOut\<close> returns exactly when no output is negative and the true sum fits in 63
  bits, and then it returns the true sum: the wrap-around check misses nothing.
\<close>

theorem value_out_is_exact:
  assumes "\<forall>out \<in> set (vout tx). int64_range (nValue out)"
  shows "GetValueOut tx = Inr t \<longleftrightarrow>
    (\<forall>out \<in> set (vout tx). 0 \<le> nValue out) \<and> output_sum (vout tx) < 2 ^ 63 \<and> t = output_sum (vout tx)"
  using assms by (rule GetValueOut_exact)

theorem value_out_is_exact_witness: "GetValueOut example_tx = Inr 1234"
  by (subst value_out_is_exact) (simp_all add: example_tx_def int64_range_def)

text \<open>
  C22: An output written to the coin database in compressed form is read back unchanged, for
  every amount below 2 to the 60 and every script, whichever of the six special encodings it takes.
\<close>

theorem compressed_output_round_trip:
  assumes "curve_recovers K" "0 \<le> nValue out" "nValue out < 2 ^ 60" "length (scriptPubKey out) < 2 ^ 31"
  shows "\<exists>b. ser_txout_compressed K out = Some b \<and> unser_txout_compressed K (b @ t) = Inr (out, t)"
  using assms by (rule unser_txout_compressed_ser)

theorem compressed_output_round_trip_witness:
  "\<exists>b. ser_txout_compressed example_curve \<lparr>nValue = 12300, scriptPubKey = [OP_HASH160, 20] @ replicate 20 9 @ [OP_EQUAL]\<rparr> = Some b \<and>
     unser_txout_compressed example_curve b = Inr (\<lparr>nValue = 12300, scriptPubKey = [OP_HASH160, 20] @ replicate 20 9 @ [OP_EQUAL]\<rparr>, [])"
  using compressed_output_round_trip [OF example_curve_recovers,
      of "\<lparr>nValue = 12300, scriptPubKey = [OP_HASH160, 20] @ replicate 20 9 @ [OP_EQUAL]\<rparr>" "[]"]
  by simp

section \<open>Arithmetic and encodings\<close>

text \<open>
  The compact form of a target: encoding a 256-bit number and decoding it again loses at most
  one part in 2 to the 15, never rounds up, sets neither flag, and is stable under encoding again.
\<close>

theorem compact_round_trip:
  assumes "is_uint256 a"
  shows "\<exists>c b. get_compact a False = Some c \<and> set_compact c = (b, False, False) \<and> is_uint256 b \<and>
    wval b \<le> wval a \<and> (wval a - wval b) * 2 ^ 15 \<le> wval b \<and> get_compact b False = Some c"
  using assms by (rule get_compact_set_compact)

theorem compact_round_trip_witness:
  "\<exists>c b. get_compact (bu_of_u64 8 0x123456789) False = Some c \<and> set_compact c = (b, False, False) \<and>
     wval b \<le> wval (bu_of_u64 8 0x123456789) \<and> get_compact b False = Some c"
proof -
  have "is_uint256 (bu_of_u64 8 0x123456789)" by simp
  from compact_round_trip [OF this] show ?thesis by blast
qed

text \<open>
  The long division of \<^verbatim>\<open>base_uint\<close> computes the quotient of the numbers its limbs stand
  for, and the exception is raised exactly for a zero divisor.
\<close>

theorem division_is_exact:
  assumes "length a = length b"
  shows "if wval b = 0 then bu_div a b = Inl Division_by_zero
    else \<exists>q. bu_div a b = Inr q \<and> length q = length a \<and> wval q = wval a div wval b"
  using bu_div_val [OF assms] bu_div_by_zero by simp

theorem division_is_exact_witness: "\<exists>q. bu_div (bu_of_u64 8 1000) (bu_of_u64 8 7) = Inr q \<and> wval q = 142"
proof -
  have "length (bu_of_u64 8 1000) = length (bu_of_u64 8 7)" by simp
  from division_is_exact [OF this] show ?thesis by (auto simp: bu_of_u64_val)
qed

text \<open>
  Arithmetic on \<^verbatim>\<open>base_uint\<close> is arithmetic modulo 2 to the number of bits: the sum, the
  difference, the product and the shifts.
\<close>

theorem arithmetic_is_modular:
  assumes "length a = length b"
  shows "wval (bu_add a b) = (wval a + wval b) mod 2 ^ (32 * length b) \<and>
    int (wval (bu_sub a b)) = (int (wval a) - int (wval b)) mod 2 ^ (32 * length b) \<and>
    wval (bu_mul a b) = (wval a * wval b) mod 2 ^ (32 * length b) \<and>
    wval (bu_shl a n) = (wval a * 2 ^ n) mod 2 ^ (32 * length b) \<and>
    wval (bu_shr a n) = wval a div 2 ^ n"
  using assms by (simp add: bu_add_val bu_sub_val_int bu_mul_val bu_shl_val bu_shr_val)

theorem arithmetic_is_modular_witness: "wval (bu_mul (bu_of_u64 8 0xffffffff) (bu_of_u64 8 0x100000001)) = 0xffffffffffffffff"
proof -
  have "length (bu_of_u64 8 0xffffffff) = length (bu_of_u64 8 0x100000001)" by simp
  from arithmetic_is_modular [OF this] show ?thesis by (simp add: bu_of_u64_val)
qed

text \<open>
  The two variable-length integer encodings are read back exactly where they were written,
  and a size that is read is canonical and at most \<^verbatim>\<open>MAX_SIZE\<close>.
\<close>

theorem variable_length_integers_round_trip:
  "ReadVarInt (WriteVarInt (n :: u32) @ s) = Inr (n, s) \<and> ReadVarInt (WriteVarInt (k :: u64) @ s) = Inr (k, s) \<and>
   (ReadCompactSize b = Inr (m, s) \<longleftrightarrow> m \<le> MAX_SIZE \<and> b = WriteCompactSize m @ s)"
  using ReadCompactSize_Inr ReadCompactSize_WriteCompactSize varint32.unser_ser varint64.unser_ser by blast

text \<open>
  The hexadecimal form of a 256-bit number is read back as the number.
\<close>

theorem hexadecimal_round_trip:
  "set_hex (length a) (get_hex a) = a"
  by (rule set_hex_get_hex)

section \<open>Unspent outputs\<close>



text \<open>
  C6: Coins changed through the view of a block reach the database when the view is flushed into
  the chain's cache and that into the database, and nothing else changes: no assertion of
  \<^verbatim>\<open>BatchWrite\<close> fails, whichever entries are fresh or dirty.
\<close>

theorem changes_reach_the_database:
  assumes "block_inv K view" "\<And>x. live coins' = Some x \<Longrightarrow> good_coins x"
  shows "\<exists>coins view1 view2 view3 coinsTip.
    ModifyCoins (cache_GetCoins (db_GetCoins K)) view t = Some (coins, view1) \<and> live coins = block_content K view t \<and>
    release view1 t coins' = Some view2 \<and> Flush cache_BatchWrite view2 = Some view3 \<and>
    Flush (db_BatchWrite K) (base view3) = Some coinsTip \<and>
    db_content K (base coinsTip) = (block_content K view)(t := live coins')"
proof -
  from modify_block_view [OF assms(1), of t] assms(2) obtain coins view1 view2 where
    m: "ModifyCoins (cache_GetCoins (db_GetCoins K)) view t = Some (coins, view1)" "live coins = block_content K view t"
      "release view1 t coins' = Some view2" "block_inv K view2"
      "block_content K view2 = (block_content K view)(t := live coins')" by blast
  from flush_to_database [OF m(4)] m show ?thesis by metis
qed

theorem changes_reach_the_database_witness:
  "\<exists>view2 view3 coinsTip. Flush cache_BatchWrite view2 = Some view3 \<and>
     Flush (db_BatchWrite example_curve) (base view3) = Some coinsTip \<and>
     db_content example_curve (base coinsTip) (bu_zero 8) = Some example_coins"
proof -
  have l: "live example_coins = Some example_coins" using example_coins_good by (simp add: live_def)
  then have g: "good_coins x" if "live example_coins = Some x" for x using that example_coins_good by simp
  from changes_reach_the_database [where coins' = example_coins and t = "bu_zero 8", OF example_view_ok(1) g]
  show ?thesis unfolding l by fastforce
qed

text \<open>
  C7: \<^verbatim>\<open>HaveInputs\<close> on the view of a block says whether every input spends an output that is in
  the unspent set, and \<^verbatim>\<open>GetOutputFor\<close> returns that output; both leave the content as it is.
\<close>

theorem inputs_are_the_unspent_outputs:
  assumes "block_inv K view"
  shows "(\<exists>view'. HaveInputs (cache_GetCoins (db_GetCoins K)) view tx =
      (IsCoinBase tx \<or> (\<forall>i \<in> set (vin tx). utxo (block_content K view) (prevout i) \<noteq> None), view') \<and>
      block_inv K view' \<and> block_content K view' = block_content K view) \<and>
    map_option fst (GetOutputFor (cache_GetCoins (db_GetCoins K)) view input) = utxo (block_content K view) (prevout input)"
proof -
  obtain b view' where h: "HaveInputs (cache_GetCoins (db_GetCoins K)) view tx = (b, view')" by fastforce
  have i: "cache_inv (cache_inv (db_inv K) (db_content K) (\<lambda>_. UNIV) good_coins) (cache_content (db_content K)) cache_known good_coins view"
    using assms by (simp add: view_defs)
  have "map_option fst (GetOutputFor (cache_GetCoins (db_GetCoins K)) view input) = utxo (block_content K view) (prevout input)"
    using block_view.GetOutputFor_law [OF i, of input] by (auto simp: view_defs split: option.splits)
  then show ?thesis using block_view.HaveInputs_law [OF i h] h by (auto simp: view_defs)
qed

theorem inputs_are_the_unspent_outputs_witness:
  "\<not> fst (HaveInputs (cache_GetCoins (db_GetCoins example_curve)) example_view example_tx)"
proof -
  have "\<not> (IsCoinBase example_tx \<or> (\<forall>i \<in> set (vin example_tx). utxo (\<lambda>_. None) (prevout i) \<noteq> None))"
    by (simp add: utxo_def example_tx_def IsCoinBase_def COutPoint_IsNull_def)
  then show ?thesis
    using inputs_are_the_unspent_outputs [OF example_view_ok(1), of example_tx] unfolding example_view_ok(2) by fastforce
qed

text \<open>
  C2: A block that \<^verbatim>\<open>ConnectBlock\<close> accepts can be taken back: with the undo data it wrote,
  \<^verbatim>\<open>DisconnectBlock\<close> restores the unspent outputs to what they were, reports a clean disconnection and
  makes the predecessor the best block, when no coins the block spent to the end were those of a
  coinstake. The duplicate check is on, the hashes of the transactions differ, and what they leave can be
  stored, which excludes negative versions; the height is not zero, the block had no undo data before, and the
  undo file gives back what was written.
\<close>

theorem disconnect_undoes_connect:
  assumes "ConnectBlock Quark Hash (cache_GetCoins (db_GetCoins K)) (cache_GetBestBlock db_GetBestBlock) E mns block st pindex view False =
      Some (True, st', out)"
    and "0 \<le> nMaxMoneyOut (me_params E)" "nMaxMoneyOut (me_params E) < 2 ^ 62"
    and "block_inv K view" "sound good_coins (block_content K view)"
    and "CBlockHeader_GetHash Quark block \<noteq> hashGenesisBlock (me_params E)"
    and "enforce_bip30 pindex" "distinct (map (tx_GetHash Hash) (vtx block))"
    and "\<forall>tx \<in> set (vtx block). good_coins (FromTx tx (word_of_int (nHeight (entry pindex))))"
    and "word_of_int (nHeight (entry pindex)) \<noteq> (0 :: u32)"
    and "GetBlockHash pindex \<noteq> Some (bu_zero 8)" "hashPrev \<noteq> bu_zero 8"
    and "CDiskBlockPos_IsNull (GetUndoPos pindex)" "o_undo out = Some (pos, undo, hashPrev)"
    and "\<forall>us \<in> set undo. \<forall>u \<in> set us. \<not> u_fCoinStake u"
    and "\<not> CDiskBlockPos_IsNull (GetUndoPos (o_index out))" "ReadUndo (GetUndoPos (o_index out)) hashPrev = Some undo"
  shows "\<exists>view2. DisconnectBlock Hash (cache_GetCoins (db_GetCoins K)) (cache_GetBestBlock db_GetBestBlock) ReadUndo block (o_index out) True
      (o_view out) = Some (True, Some True, view2) \<and>
    block_inv K view2 \<and> block_content K view2 = block_content K view \<and>
    fst (cache_GetBestBlock (cache_GetBestBlock db_GetBestBlock) view2) = hashPrev"
proof -
  have ok: "\<forall>tx \<in> set (vtx block). \<forall>x. live (FromTx tx (word_of_int (nHeight (entry pindex)))) = Some x \<longrightarrow> good_coins x"
    using assms(9) live_FromTx by metis
  from block_changes.Disconnect_Connect_law [where K = K and ReadUndo = ReadUndo, OF assms(1-3) _ _ assms(6-8) ok assms(10-17)] assms(4,5)
  obtain c2 where c2: "DisconnectBlock Hash (cache_GetCoins (db_GetCoins K)) (cache_GetBestBlock db_GetBestBlock) ReadUndo block (o_index out) True
      (o_view out) = Some (True, Some True, c2)" "block_view.cinv K c2" "block_view.ccontent K c2 = block_view.ccontent K view"
      "cache_tip (cache_tip (\<lambda>db. fst (db_GetBestBlock db))) c2 = hashPrev"
    unfolding view_defs by blast
  then show ?thesis using block_view.cache_best_law [OF c2(2)] unfolding view_defs
    by (cases "cache_GetBestBlock (cache_GetBestBlock db_GetBestBlock) c2") auto
qed

lemma example_fits:
  "\<forall>tx \<in> set (vtx example_block). good_coins (FromTx tx (word_of_int (nHeight (entry example_index))))"
  "0 \<le> nMaxMoneyOut (me_params example_env)" "nMaxMoneyOut (me_params example_env) < 2 ^ 62"
  "CBlockHeader_GetHash example_quark example_block \<noteq> hashGenesisBlock (me_params example_env)"
  "GetBlockHash example_index = Some (bu_of_u64 8 6)" "bu_of_u64 8 6 \<noteq> bu_zero 8" "bu_of_u64 8 5 \<noteq> bu_zero 8"
  "distinct (map (tx_GetHash example_hash) (vtx example_block))" "word_of_int (nHeight (entry example_index)) \<noteq> (0 :: u32)"
  "sound good_coins (block_content example_curve example_funded)" "CDiskBlockPos_IsNull (GetUndoPos example_index)"
proof -
  have "nHeight (entry example_index) = 900" by (simp add: example_index_def)
  then show "\<forall>tx \<in> set (vtx example_block). good_coins (FromTx tx (word_of_int (nHeight (entry example_index))))"
    "word_of_int (nHeight (entry example_index)) \<noteq> (0 :: u32)"
    using example_good_FromTx by simp_all
  show "CBlockHeader_GetHash example_quark example_block \<noteq> hashGenesisBlock (me_params example_env)"
    by (simp add: CBlockHeader_GetHash_def example_quark_def bu_of_bytes_bu_bytes example_env_def example_params_def CMainParams_def example_ids)
  show "bu_of_u64 8 6 \<noteq> bu_zero 8" "bu_of_u64 8 5 \<noteq> bu_zero 8"
    using bu_of_u64_val [of 8 6] bu_of_u64_val [of 8 5] bu_zero_val [of 8] by (auto simp del: bu_zero_val)
  show "sound good_coins (block_content example_curve example_funded)"
    using example_funds_good by (auto simp: sound_def example_funded_ok(2) split: if_splits)
  show "distinct (map (tx_GetHash example_hash) (vtx example_block))"
    by (simp add: example_block_def example_hashes example_ids)
qed (simp_all add: example_env_def example_params_def CMainParams_def COIN_def example_index_def GetBlockHash_def entry_null_def
  GetUndoPos_def CDiskBlockPos_IsNull_def CDiskBlockPos_null_def BLOCK_HAVE_UNDO_def)

theorem disconnect_undoes_connect_witness:
  "\<exists>undo out view2. example_connected undo out \<and>
     DisconnectBlock example_hash example_get (cache_GetBestBlock db_GetBestBlock) (\<lambda>_ _. Some [[undo]]) example_block (o_index out) True
       (o_view out) = Some (True, Some True, view2) \<and>
     block_content example_curve view2 = [bu_of_u64 8 7 \<mapsto> example_funds]"
proof -
  obtain undo out where c: "example_connected undo out" using example_connects by blast
  note C = c [unfolded example_connected_def]
  have h: "GetBlockHash example_index \<noteq> Some (bu_zero 8)" using example_fits(5,6) by simp
  have u: "\<forall>us \<in> set [[undo]]. \<forall>u \<in> set us. \<not> u_fCoinStake u" using C by simp
  have "\<exists>view2. DisconnectBlock example_hash example_get (cache_GetBestBlock db_GetBestBlock) (\<lambda>_ _. Some [[undo]]) example_block (o_index out) True
       (o_view out) = Some (True, Some True, view2) \<and> block_content example_curve view2 = block_content example_curve example_funded"
    using disconnect_undoes_connect [where ReadUndo = "\<lambda>_ _. Some [[undo]]", OF C [THEN conjunct2, THEN conjunct1] example_fits(2,3)
      example_funded_ok(1) example_fits(10,4) example_flags(3) example_fits(8,1,9) h example_fits(7,11) _ u] C by blast
  then show ?thesis using c example_funded_ok(2) by auto
qed

text \<open>
  C20: What connecting and disconnecting does to one spent output: the coins come back exactly,
  except that the coinstake flag of coins that were spent to the end is lost; the disconnection
  is still reported as clean.
\<close>

theorem disconnect_drops_the_coinstake_flag:
  assumes "restorable c" "Spend c p = Some (c', u)" "live coins = live c'" "Cleanup coins = coins"
  shows "\<exists>r. restore_input u p True coins = Some (r, True) \<and>
    live r = Some (if IsPruned c' then c\<lparr>c_fCoinStake := False\<rparr> else c)"
proof -
  have "(if u_fCoinStake u then c\<lparr>c_fCoinStake := False\<rparr> else c) = (if IsPruned c' then c\<lparr>c_fCoinStake := False\<rparr> else c)"
    using Spend_SomeD(7) [OF assms(2)] by (cases c) auto
  then show ?thesis using restore_spend_flag [OF assms] by simp
qed

theorem disconnect_drops_the_coinstake_flag_witness:
  "\<exists>c' u r. Spend example_coins \<lparr>op_hash = bu_zero 8, op_n = 1\<rparr> = Some (c', u) \<and> c_fCoinStake example_coins \<and>
     restore_input u \<lparr>op_hash = bu_zero 8, op_n = 1\<rparr> True c' = Some (r, True) \<and>
     live r = Some (example_coins\<lparr>c_fCoinStake := False\<rparr>)"
proof -
  have r: "restorable example_coins"
    using example_coins_good by (auto simp: restorable_def) (simp_all add: example_coins_def nulls_ok_def CTxOut_IsNull_def)
  obtain c' u where s: "Spend example_coins \<lparr>op_hash = bu_zero 8, op_n = 1\<rparr> = Some (c', u)" "IsPruned c'"
    by (simp add: Spend_def example_coins_def CTxOut_IsNull_def CTxOut_SetNull_def Let_def Cleanup_def drop_null_def IsPruned_def)
  have "Cleanup c' = c'" using Spend_SomeD(1) [OF s(1)] by simp
  from disconnect_drops_the_coinstake_flag [OF r s(1) refl this] s show ?thesis
    by (auto simp: example_coins_def)
qed

text \<open>
  The size computed for a record of unspent outputs is not always that of its bytes: the two put a
  different factor before the number of mask bytes, so the header code is counted short here.
\<close>

definition example_wide :: CCoins where
  "example_wide = \<lparr>c_fCoinBase = False, c_fCoinStake = False,
     c_vout = replicate 66 \<lparr>nValue = 0, scriptPubKey = []\<rparr>, c_nHeight = 1, c_nVersion = 1\<rparr>"

lemma coins_size_one_short:
  "map_option length (ser_coins example_curve example_wide) = map_option Suc (size_coins example_curve example_wide)"
  by code_simp

section \<open>Blocks\<close>

section \<open>Validation\<close>

text \<open>
  C1: A stake block that is connected on the tip keeps the money supply under its cap. If the unspent
  outputs are worth at most the supply that the index records for the predecessor, and that is at most
  the cap, then the same holds after the block; the mint that the index records is the growth of the
  supply, and it is at most the subsidy of the height. This holds where the value of the block is checked:
  on a synced node unless superblocks are enabled and the budget pays at the height, on a node that is not
  synced except at the first hundred heights of a budget cycle (there the code accepts any value of an
  ordinary block). The transactions have a version that is not negative; one with a negative version
  cannot be stored.
\<close>

theorem supply_is_capped:
  assumes "ConnectBlock Quark Hash (cache_GetCoins (db_GetCoins K)) (cache_GetBestBlock db_GetBestBlock) E mns block st pindex view just =
      Some (True, st', out)"
    and "nMaxMoneyOut (me_params E) < 2 ^ 60"
    and "block_inv K view" "CBlockHeader_GetHash Quark block \<noteq> hashGenesisBlock (me_params E)"
    and "\<forall>tx \<in> set (vtx block). 0 \<le> sint (tx_nVersion tx)" "0 \<le> nHeight (entry pindex)" "nHeight (entry pindex) < 2 ^ 31"
    and "me_tip E = pprev pindex" "nHeight (entry pindex) > nLastPOWBlock (me_params E)" "value_check_on E block"
    and "funds_ok (block_content K view)" "total_value (block_content K view) \<le> supply_before pindex"
      "supply_before pindex \<le> nMaxMoneyOut (me_params E)"
  shows "funds_ok (block_content K (o_view out)) \<and>
    total_value (block_content K (o_view out)) \<le> nMoneySupply (entry (o_index out)) \<and>
    nMoneySupply (entry (o_index out)) \<le> nMaxMoneyOut (me_params E) \<and>
    nMint (entry (o_index out)) = nMoneySupply (entry (o_index out)) - supply_before pindex \<and>
    nMint (entry (o_index out)) \<le> GetBlockValue (me_params E) (supply_before pindex) (nHeight (entry pindex))"
proof -
  have P: "0 \<le> nMaxMoneyOut (me_params E)" "nMaxMoneyOut (me_params E) < 2 ^ 62"
    using total_nonneg [OF assms(11)] assms(2,12,13) by simp_all
  have "sound_block Hash (me_params E) block" by (rule ConnectBlock_sound [OF assms(1) P assms(4)])
  then have "\<forall>tx \<in> set (vtx block). good_coins (FromTx tx (word_of_int (nHeight (entry pindex))))"
    using assms(5,6,7) by (auto simp: sound_block_def signed_of_int signed_take_bit_int_eq_self intro!: sound_tx_good_coins [OF _ assms(2)])
  then have ok: "\<forall>tx \<in> set (vtx block). \<forall>x. live (FromTx tx (word_of_int (nHeight (entry pindex)))) = Some x \<longrightarrow> good_coins x"
    using live_FromTx by metis
  show ?thesis
    using block_changes.supply_capped [where K = K, OF assms(1) P(2) _ assms(4) ok assms(8-10)] assms(3,11-13)
    unfolding view_defs by blast
qed

theorem supply_is_capped_witness:
  "\<exists>out. ConnectBlock example_quark example_hash example_get (cache_GetBestBlock db_GetBestBlock) example_env example_votes example_block
       example_state example_index example_funded False = Some (True, example_state, out) \<and>
     total_value (block_content example_curve example_funded) = 500 \<and>
     total_value (block_content example_curve (o_view out)) \<le> 600 \<and> nMint (entry (o_index out)) = 100"
proof -
  obtain undo out where c: "example_connected undo out" using example_connects by blast
  note C = c [unfolded example_connected_def, THEN conjunct2, THEN conjunct1]
  have t: "total_value (block_content example_curve example_funded) = 500"
    by (simp add: total_value_def example_funded_ok(2) outs_value_def) (simp add: example_funds_def example_coins_def CTxOut_IsNull_def CTxOut_SetNull_def)
  have f: "funds_ok (block_content example_curve example_funded)"
    by (auto simp: funds_ok_def example_funded_ok(2) good_values_def split: if_splits) (auto simp: example_funds_def example_coins_def CTxOut_IsNull_def CTxOut_SetNull_def)
  have s: "supply_before example_index = 500" by (simp add: supply_before_def example_index_def example_prev_def)
  have v: "value_check_on example_env example_block"
    by (simp add: value_check_on_def mn_env.truncate_def example_env_def height_of_def example_prev_def
        GetBlockHash_def example_block_def signed_modulo_int_def Let_def)
  have e: "me_tip example_env = pprev example_index" "nHeight (entry example_index) > nLastPOWBlock (me_params example_env)"
    "supply_before example_index \<le> nMaxMoneyOut (me_params example_env)" "nMaxMoneyOut (me_params example_env) < 2 ^ 60"
    "0 \<le> nHeight (entry example_index)" "nHeight (entry example_index) < 2 ^ 31"
    using s by (simp_all add: example_env_def example_index_def example_params_def CMainParams_def COIN_def)
  have n: "\<forall>tx \<in> set (vtx example_block). 0 \<le> sint (tx_nVersion tx)"
    by (simp add: example_block_def example_coinbase_def example_stake_def)
  have "total_value (block_content example_curve (o_view out)) \<le> nMoneySupply (entry (o_index out)) \<and>
      nMint (entry (o_index out)) = nMoneySupply (entry (o_index out)) - supply_before example_index"
    using supply_is_capped [OF C e(4) example_funded_ok(1) example_fits(4) n e(5,6,1,2) v f _ e(3)] t s by simp
  moreover have "nMoneySupply (entry (o_index out)) = 600" using c by (simp add: example_connected_def)
  ultimately show ?thesis using C t s by auto
qed

text \<open>
  C3: Checking scripts on other threads changes nothing: \<^verbatim>\<open>ConnectBlock\<close> that queues the checks and waits
  for them accepts exactly the blocks that \<^verbatim>\<open>ConnectBlock\<close> accepts that checks each script as it meets it,
  and leaves the same state, index entry, view and writes.
\<close>

theorem connecting_is_thread_independent:
  "ConnectBlock Quark Hash get best (E\<lparr>xe_threads := True\<rparr>) mns block st pindex view just = Some (True, st', out) \<longleftrightarrow>
   ConnectBlock Quark Hash get best (E\<lparr>xe_threads := False\<rparr>) mns block st pindex view just = Some (True, st', out)"
  by (rule ConnectBlock_threads)

text \<open>
  C4: When a wait on the check queue returns, whatever the workers did in between and in whichever
  order, its result is whether all checks hold that were added since the last wait, and the queue is
  idle again, so that the assertion before the next block holds.
\<close>

theorem check_queue_answers:
  assumes "cq_run check added s" "cq_step check s s'"
    and "cq_threads s ! 0 \<noteq> Outside" "cq_threads s' ! 0 = Outside"
  shows "cq_returned s' = Some (list_all check added) \<and> cq_IsIdle s'"
  using inv_step [OF run_inv [OF assms(1)] assms(2)] assms(3,4) inv_idle [of check s'] by simp

definition example_even :: "nat \<Rightarrow> bool" where
  "example_even n \<longleftrightarrow> n mod 2 = 0"

definition example_queue :: "nat cq_thread \<Rightarrow> nat list \<Rightarrow> u32 \<Rightarrow> int \<Rightarrow> nat CCheckQueue" where
  "example_queue t queue todo n =
     \<lparr>cq_queue = queue, cq_nIdle = 0, cq_nTotal = n, cq_fAllOk = True, cq_nTodo = todo, cq_fQuit = False, cq_nBatchSize = 128,
      cq_threads = [t], cq_returned = None\<rparr>"

lemma example_queue_run: "cq_run example_even [4, 7] (example_queue (At_Lock 0 True) [4, 7] 2 0)"
    "cq_run example_even [4] (example_queue (At_Lock 1 True) [] 1 1)"
proof -
  have a: "cq_run example_even cs (cq_Add cs 0 (CCheckQueue_new 1 128))" if "length cs < 100" for cs
    using cq_run.add [OF cq_run.new [of 1 example_even 128], where vChecks = cs and w = 0] that by (simp add: CCheckQueue_new_def)
  have e: "cq_run example_even cs (example_queue (At_Lock 0 True) cs (of_nat (length cs)) 0)" if "length cs < 100" for cs
  proof -
    have "cq_Add cs 0 (CCheckQueue_new 1 128) = example_queue Outside cs (of_nat (length cs)) 0"
      by (simp add: cq_Add_def CCheckQueue_new_def example_queue_def Let_def)
    then have q: "cq_run example_even cs (example_queue Outside cs (of_nat (length cs)) 0)" using a [OF that] by simp
    have "cq_step example_even (example_queue Outside cs (of_nat (length cs)) 0) (cq_set 0 (At_Lock 0 True) (example_queue Outside cs (of_nat (length cs)) 0))"
      by (rule cq_step.enter) (simp_all add: example_queue_def)
    from cq_run.step [OF q this] show ?thesis by (simp add: example_queue_def cq_set_def)
  qed
  show "cq_run example_even [4, 7] (example_queue (At_Lock 0 True) [4, 7] 2 0)" using e [of "[4, 7]"] by simp
  have 1: "cq_run example_even [4] (example_queue (At_Lock 0 True) [4] 1 0)" using e [of "[4]"] by simp
  have "cq_internal example_even (example_queue (At_Lock 0 True) [4] 1 0) (cq_head 0 (cq_settle 0 0 True (example_queue (At_Lock 0 True) [4] 1 0)))"
    by (rule cq_internal.locked) (simp_all add: example_queue_def)
  also have "cq_head 0 (cq_settle 0 0 True (example_queue (At_Lock 0 True) [4] 1 0)) = example_queue (Working [4] True 1) [] 1 1"
    by (simp add: cq_head_def cq_settle_def example_queue_def cq_batch_def cq_set_def Let_def)
  finally have i: "cq_internal example_even (example_queue (At_Lock 0 True) [4] 1 0) (example_queue (Working [4] True 1) [] 1 1)" .
  from cq_run.step [OF 1 cq_step.internal [OF i]]
  have 2: "cq_run example_even [4] (example_queue (Working [4] True 1) [] 1 1)" by (simp add: example_queue_def)
  have "cq_internal example_even (example_queue (Working [4] True 1) [] 1 1) (cq_set 0 (Working [] (if True then example_even 4 else True) 1) (example_queue (Working [4] True 1) [] 1 1))"
    by (rule cq_internal.checked) (simp_all add: example_queue_def)
  from cq_run.step [OF 2 cq_step.internal [OF this]]
  have 3: "cq_run example_even [4] (example_queue (Working [] True 1) [] 1 1)"
    by (simp add: example_queue_def cq_set_def example_even_def)
  have "cq_internal example_even (example_queue (Working [] True 1) [] 1 1) (cq_set 0 (At_Lock 1 True) (example_queue (Working [] True 1) [] 1 1))"
    by (rule cq_internal.cleared) (simp_all add: example_queue_def)
  from cq_run.step [OF 3 cq_step.internal [OF this]]
  show "cq_run example_even [4] (example_queue (At_Lock 1 True) [] 1 1)" by (simp add: example_queue_def cq_set_def)
qed

theorem check_queue_answers_witness:
  "\<exists>s'. cq_step example_even (example_queue (At_Lock 1 True) [] 1 1) s' \<and> cq_returned s' = Some True"
proof -
  let ?s = "cq_head 0 (cq_settle 0 1 True (example_queue (At_Lock 1 True) [] 1 1))"
  have s: "cq_step example_even (example_queue (At_Lock 1 True) [] 1 1) ?s"
    by (rule cq_step.internal, rule cq_internal.locked) (simp_all add: example_queue_def)
  have "cq_returned ?s = Some (list_all example_even [4])"
    by (rule check_queue_answers [OF example_queue_run(2) s, THEN conjunct1])
      (simp_all add: example_queue_def cq_head_def cq_settle_def cq_set_def Let_def)
  then show ?thesis using s by (auto simp: example_even_def)
qed

text \<open>
  C15: Every wait ends: while the master waits some thread can go on, no sequence of steps of the
  threads is longer than a bound that the state gives, and when none can go on the master has returned.
  Here a thread that sleeps goes on only if it was notified, so no notification is lost.
\<close>

theorem check_queue_waits_end:
  assumes "cq_run check added s" "cq_threads s ! 0 \<noteq> Outside"
  shows "(\<exists>s'. cq_internal check s s') \<and>
    (\<forall>n s'. (cq_internal check ^^ n) s s' \<longrightarrow>
       n \<le> potential s \<and> ((\<forall>t. \<not> cq_internal check s' t) \<longrightarrow> cq_threads s' ! 0 = Outside))"
proof (intro conjI allI impI)
  note i = run_inv [OF assms(1)]
  show "\<exists>s'. cq_internal check s s'" by (rule internal_enabled [OF i assms(2)])
  fix n s' assume "(cq_internal check ^^ n) s s'"
  note r = internal_run [OF i this]
  then show "n \<le> potential s" by simp
  show "\<forall>t. \<not> cq_internal check s' t \<Longrightarrow> cq_threads s' ! 0 = Outside" using r internal_enabled by blast
qed

theorem check_queue_waits_end_witness:
  "\<exists>s'. cq_internal example_even (example_queue (At_Lock 0 True) [4, 7] 2 0) s'"
  using check_queue_waits_end [OF example_queue_run(1)] by (simp add: example_queue_def)

text \<open>
  C8: \<^verbatim>\<open>CheckTransaction\<close> passes exactly the transactions with inputs and outputs, within the size of a
  block, with outputs that are not negative and sum to at most the cap, none of them empty in the
  transaction of a user, with distinct inputs, and with a coinbase script of 2 to 150 bytes or inputs
  that refer to an output; then it leaves the state as it was.
\<close>

theorem transaction_rules:
  assumes "0 \<le> nMaxMoneyOut P" "nMaxMoneyOut P < 2 ^ 62"
  shows "CheckTransaction P tx st = (True, st') \<longleftrightarrow>
    vin tx \<noteq> [] \<and> vout tx \<noteq> [] \<and> size_tx tx \<le> MAX_BLOCK_SIZE \<and>
    (\<forall>out \<in> set (vout tx). 0 \<le> nValue out) \<and> output_sum (vout tx) \<le> nMaxMoneyOut P \<and>
    (\<not> IsCoinBase tx \<and> \<not> IsCoinStake tx \<longrightarrow> (\<forall>out \<in> set (vout tx). \<not> CTxOut_IsEmpty out)) \<and>
    distinct (map prevout (vin tx)) \<and>
    (if IsCoinBase tx then 2 \<le> length (scriptSig (vin tx ! 0)) \<and> length (scriptSig (vin tx ! 0)) \<le> 150
     else \<forall>i \<in> set (vin tx). \<not> COutPoint_IsNull (prevout i)) \<and> st' = st"
  using CheckTransaction_True [OF assms] unfolding sound_tx_def by blast

theorem transaction_rules_witness: "CheckTransaction example_params example_stake example_state = (True, example_state)"
proof -
  have P: "0 \<le> nMaxMoneyOut example_params" "nMaxMoneyOut example_params < 2 ^ 62"
    by (simp_all add: example_params_def CMainParams_def COIN_def)
  show ?thesis using example_sound(2) unfolding transaction_rules [OF P] sound_tx_def by blast
qed

text \<open>
  C9: A block that passes \<^verbatim>\<open>CheckBlock\<close> starts with a coinbase, has no other, and consists of transactions
  that pass the rules; a proof-of-stake block has a coinbase that pays nothing and one coinstake, its
  second transaction. The block is within the size limit, at most 3 minutes (2 hours for proof of work)
  ahead of time and within the count of signature operations, and the merkle root in its header is that
  of its transactions, in a tree without duplicates.
\<close>

theorem checked_block_is_sound:
  assumes "CheckBlock Quark Hash E mns block st root = Some (True, st')"
    and "0 \<le> nMaxMoneyOut (me_params E)" "nMaxMoneyOut (me_params E) < 2 ^ 62"
  shows "(\<exists>coinbase txs. vtx block = coinbase # txs \<and> IsCoinBase coinbase \<and> (\<forall>tx \<in> set txs. \<not> IsCoinBase tx)) \<and>
    (IsProofOfStake block \<longrightarrow> output_sum (vout (vtx block ! 0)) = 0 \<and> IsCoinStake (vtx block ! 1) \<and>
       (\<forall>tx \<in> set (drop 2 (vtx block)). \<not> IsCoinStake tx)) \<and>
    (\<forall>tx \<in> set (vtx block). sound_tx (me_params E) tx) \<and> size_block block \<le> MAX_BLOCK_SIZE \<and>
    GetBlockTime block \<le> ce_adjusted E + (if IsProofOfStake block then 180 else 7200) \<and>
    fold (\<lambda>tx n. n + GetLegacySigOpCount tx) (vtx block) 0 \<le> MAX_BLOCK_SIGOPS \<and>
    (root \<longrightarrow> hashMerkleRoot block = snd (snd (BuildMerkleTree Hash block)) \<and> \<not> fst (snd (BuildMerkleTree Hash block)))"
  using CheckBlock_True [OF assms] unfolding sound_block_def IsProofOfStake_def by blast

theorem checked_block_is_sound_witness:
  "hashMerkleRoot example_block = snd (snd (BuildMerkleTree example_hash example_block)) \<and> size_block example_block \<le> MAX_BLOCK_SIZE"
proof -
  have e: "me_params (chain_env.truncate example_env) = me_params example_env" by (simp add: chain_env.truncate_def)
  have P: "0 \<le> nMaxMoneyOut (me_params (chain_env.truncate example_env))" "nMaxMoneyOut (me_params (chain_env.truncate example_env)) < 2 ^ 62"
    unfolding e by (simp_all add: example_env_def example_params_def CMainParams_def COIN_def)
  show ?thesis using checked_block_is_sound [OF example_checked [of example_votes] P] by simp
qed

text \<open>
  C13: In every state the masternode payments can reach by votes over the network, votes of their own for
  new blocks, cleaning and clearing, each payee of each height has exactly as many votes in the tally
  as there are recorded votes for it, and no vote is recorded twice.
\<close>

theorem votes_are_counted_once:
  assumes "(mn_step Hash)\<^sup>*\<^sup>* s s'" "mn_initial s"
  shows "votes_of s' h payee =
      int (length (filter (\<lambda>(k, w). w_nBlockHeight w = h \<and> w_payee w = payee) (mapMasternodePayeeVotes s'))) \<and>
    distinct (map (\<lambda>(k, w). winner_GetHash Hash w) (mapMasternodePayeeVotes s'))"
proof -
  have i: "votes_inv Hash s'" by (rule votes_inv_reachable [OF assms])
  then have e: "map (\<lambda>(k, w). winner_GetHash Hash w) (mapMasternodePayeeVotes s') = map fst (mapMasternodePayeeVotes s')"
    by (auto simp: votes_inv_def)
  show ?thesis unfolding e using i by (simp add: votes_inv_def votes_cast_def)
qed

text \<open>The vote of a masternode of rank 1 for a block a hundred heights above the tip's successor.\<close>

definition example_voted :: mn_state where
  "example_voted = example_votes\<lparr>nLastBlockHeight := 1000, mapCacheBlockHashes := [(900, bu_of_u64 8 5)],
     mapMasternodePayeeVotes := [(bu_of_u64 8 9, \<lparr>w_vinMasternode = vin example_stake ! 0, w_nBlockHeight = 1000, w_payee = [OP_TRUE], w_vchSig = [7]\<rparr>)],
     mapMasternodeBlocks := [(1000, \<lparr>bp_nBlockHeight = 1000, vecPayments = [\<lparr>py_script = [OP_TRUE], py_nVotes = 1\<rparr>]\<rparr>)]\<rparr>"

lemma example_vote: "mn_ProcessBlock (\<lambda>b. bu_bytes (bu_of_u64 8 9)) (\<lambda>w. Some [7]) (mn_env.truncate example_env) True (vin example_stake ! 0)
    (Some [OP_TRUE]) example_votes 1000 = Some (True, example_voted, [RelayWinner (bu_of_u64 8 9)])"
proof -
  have "mn_GetBlockHash (Some example_prev) [] 900 = Some (Some (bu_of_u64 8 5), [(900, bu_of_u64 8 5)])"
    by (simp add: mn_GetBlockHash_def example_prev_def GetBlockHash_def)
  then show ?thesis
    by (simp add: mn_ProcessBlock_def mn_env.truncate_def example_env_def AddWinningMasternode_def example_votes_def example_voted_def
        MNPAYMENTS_SIGNATURES_TOTAL_def winner_GetHash_def bu_of_bytes_bu_bytes CMasternodePayments.extend_def mn_state.fields_def AddPayee_def Let_def)
qed

theorem votes_are_counted_once_witness: "votes_of example_voted 1000 [OP_TRUE] = 1"
proof -
  have "(mn_step (\<lambda>b. bu_bytes (bu_of_u64 8 9)))\<^sup>*\<^sup>* example_votes example_voted"
    by (rule r_into_rtranclp, rule mn_step.block, rule example_vote)
  moreover have "mn_initial example_votes" by (simp add: mn_initial_def example_votes_def CMasternodePayments.extend_def mn_state.fields_def)
  ultimately have "votes_of example_voted 1000 [OP_TRUE] =
      int (length (filter (\<lambda>(k, w). w_nBlockHeight w = 1000 \<and> w_payee w = [OP_TRUE]) (mapMasternodePayeeVotes example_voted)))"
    by (rule votes_are_counted_once [THEN conjunct1])
  then show ?thesis by (simp add: example_voted_def)
qed

text \<open>
  C14: A block that the node fills with \<^verbatim>\<open>FillBlockPayee\<close> passes the payee check of every node that has
  seen the same votes and counts the same masternodes, as long as the masternodes in the list are at most
  those the check counts: with payments enforced the ones that are not newly active, otherwise all of
  them, plus the allowance of \<^verbatim>\<open>MasternodeCountDrift\<close>. Then the output it adds pays the winner at least what
  \<^verbatim>\<open>IsTransactionValid\<close> requires, since a share falls with the count. There is at least one masternode, the
  collateral is positive and its product with the count fits into 63 bits, and the supply of the tip is
  within the cap. Without the condition on the counts the check may fail; the theorem after this one shows it.
\<close>

theorem filled_block_passes_the_payee_check:
  assumes "(mn_step Hash)\<^sup>*\<^sup>* s0 s" "mn_initial s0" "FillBlockPayee E s cur tx stake = Some tx'"
    and "me_tip E = Some tip" "0 < me_size E" "me_size E \<le> counted_masternodes E"
    and "0 < nMasternodeCollateralAmt (me_params E)" "nMoneySupply (entry tip) \<le> nMaxMoneyOut (me_params E)"
      "counted_masternodes E * nMasternodeCollateralAmt (me_params E) * COIN < 2 ^ 63"
  shows "mp_IsTransactionValid E s tx' (nHeight (entry tip) + 1) = Some True"
  by (rule filled_block_is_paid [OF votes_inv_reachable [OF assms(1,2)] assms(3-9)])

theorem filled_block_passes_the_payee_check_witness:
  "\<exists>tx'. FillBlockPayee (mn_env.truncate example_env) example_votes (Some [OP_TRUE]) example_stake True = Some tx' \<and>
     mp_IsTransactionValid (mn_env.truncate example_env) example_votes tx' 900 = Some True"
proof -
  let ?E = "mn_env.truncate example_env"
  have e: "me_tip ?E = Some example_prev" "me_size ?E = 10" "me_stable_size ?E = 10" "me_payment_enforcement ?E" "me_params ?E = example_params"
    by (simp_all add: mn_env.truncate_def example_env_def)
  have "\<exists>tx'. FillBlockPayee ?E example_votes (Some [OP_TRUE]) example_stake True = Some tx'"
    using e by (auto simp: FillBlockPayee_def GetBlockPayee_def example_votes_def CMasternodePayments.extend_def mn_state.fields_def mn_block_value_def
        mn_payment_def Let_def example_stake_def)
  then obtain tx' where t: "FillBlockPayee ?E example_votes (Some [OP_TRUE]) example_stake True = Some tx'" by blast
  have i: "mn_initial example_votes" by (simp add: mn_initial_def example_votes_def CMasternodePayments.extend_def mn_state.fields_def)
  have h: "nHeight (entry example_prev) + 1 = 900" "nMoneySupply (entry example_prev) = 500" by (simp_all add: example_prev_def)
  show ?thesis
    using filled_block_passes_the_payee_check [OF rtranclp.rtrancl_refl i t e(1)] t h e
    by (simp add: counted_masternodes_def example_params_def CMainParams_def COIN_def)
qed

text \<open>
  When more masternodes are newly active than the allowance, the node fills a block that its own check refuses:
  of fifty masternodes forty-five are new, the block pays the share for fifty, and the check asks for the share
  for twenty-five.
\<close>

theorem newly_active_masternodes_break_the_check:
  "\<exists>E s tx tx'. me_size E > counted_masternodes E \<and> FillBlockPayee E s None tx True = Some tx' \<and>
     mp_IsTransactionValid E s tx' 200001 = Some False"
proof -
  have "me_size example_crowd > counted_masternodes example_crowd"
    by (simp add: counted_masternodes_def example_crowd_def CMainParams_def) (simp add: mn_env.truncate_def example_env_def)
  then show ?thesis using example_underpaid by blast
qed

text \<open>
  C29: What a masternode is paid, computed with 64-bit floating point numbers over the table of shares, is
  never negative, at most the value of the block, and falls or stays when more masternodes are counted.
\<close>

theorem masternode_payment_is_bounded:
  assumes "0 \<le> v" "v < 2 ^ 53" "0 < c" "c \<le> c'"
    and "0 < nMasternodeCollateralAmt P" "c' * nMasternodeCollateralAmt P * COIN < 2 ^ 63"
  shows "0 \<le> GetMasternodePayment P s n h v c' \<and> GetMasternodePayment P s n h v c' \<le> GetMasternodePayment P s n h v c \<and>
    GetMasternodePayment P s n h v c \<le> v"
  using GetMasternodePayment_bounds [OF assms(1,2)] GetMasternodePayment_antimono [OF assms(1-4)] assms(5,6)
  by (simp add: GetCurrentCollateral_def)

theorem masternode_payment_is_bounded_witness:
  "GetMasternodePayment CMainParams (20000000 * COIN) 100 200000 (10 * COIN) 500 \<le> GetMasternodePayment CMainParams (20000000 * COIN) 100 200000 (10 * COIN) 400"
  using masternode_payment_is_bounded [of "10 * COIN" 400 500 CMainParams "20000000 * COIN" 100 200000]
  by (simp add: CMainParams_def COIN_def)

text \<open>
  C30: The subsidy of a block is never negative and never takes the supply past its cap. It is what the emission
  plan adds at the height, or what is left to the cap when that is less, so blocks that mint their subsidies
  make the plan's supply up to the cap. The plan: 450000 coins for each of the heights 12 to 31, together 18
  percent of the cap of the main chain; nothing up to height 500; then 2, 10, 9, 8.1, 6.5, 5.2 and 3.1 coins
  up to the heights 751, 180302, 698703, 1217104, 2253905, 3290706 and 5364307; nothing for the thousand heights
  from 5364308 to 5365307, which no condition of the code covers; 1.9 coins up to 7437908 and 1.1 coins after it.
\<close>

theorem block_subsidy_is_capped:
  assumes "s \<le> nMaxMoneyOut P" "0 \<le> nMaxMoneyOut P" "1 \<le> h"
  shows "0 \<le> GetBlockValue P s h \<and> s + GetBlockValue P s h \<le> nMaxMoneyOut P \<and>
    GetBlockValue P s h = min (planned_supply h - planned_supply (h - 1)) (nMaxMoneyOut P - s) \<and>
    minted_supply P n = min (nMaxMoneyOut P) (planned_supply (int n))"
proof -
  have "planned_supply h - planned_supply (h - 1) = block_subsidy (h - 1)"
    using planned_supply_step [of "h - 1"] assms(3) by simp
  then show ?thesis
    using GetBlockValue_cap [OF assms(1), of h] block_subsidy_bounds [of "h - 1"] assms(1) minted_supply_planned [OF assms(2), of n]
    by (auto simp: GetBlockValue_def Let_def min_def)
qed

theorem block_subsidy_is_capped_witness:
  "GetBlockValue CMainParams (30000000 * COIN) 5364400 = 0 \<and> GetBlockValue CMainParams 0 20 = 450000 * COIN \<and>
   minted_supply CMainParams 31 = 9000000 * COIN \<and> minted_supply CMainParams 14567593 < 50000000 * COIN \<and>
   minted_supply CMainParams 14567594 = 50000000 * COIN"
proof -
  have c: "nMaxMoneyOut CMainParams = 50000000 * COIN" by (simp add: CMainParams_def)
  have m: "minted_supply CMainParams n = min (50000000 * COIN) (planned_supply (int n))" for n
    using block_subsidy_is_capped [of 0 CMainParams 1 n] by (simp add: c COIN_def)
  show ?thesis
    using block_subsidy_is_capped [of "30000000 * COIN" CMainParams 5364400] block_subsidy_is_capped [of 0 CMainParams 20]
    unfolding m by (simp add: c planned_supply_def emission_plan_def COIN_def)
qed

section \<open>Blocks and the chain\<close>

text \<open>
  The branch that \<^verbatim>\<open>GetMerkleBranch\<close> gives for a transaction of a block leads
  \<^verbatim>\<open>CheckMerkleBranch\<close> from the hash of the transaction to the root of \<^verbatim>\<open>BuildMerkleTree\<close>.
\<close>

theorem merkle_branch_leads_to_the_root:
  assumes "i < length (vtx b)"
  shows "CheckMerkleBranch Hash (tx_GetHash Hash (vtx b ! i)) (GetMerkleBranch Hash b i) (int i) =
    snd (snd (BuildMerkleTree Hash b))"
  using assms by (rule CheckMerkleBranch_GetMerkleBranch)

theorem merkle_branch_leads_to_the_root_witness:
  "CheckMerkleBranch example_hash (tx_GetHash example_hash example_stake) (GetMerkleBranch example_hash example_block 1) 1 =
     snd (snd (BuildMerkleTree example_hash example_block))"
  using merkle_branch_leads_to_the_root [of 1 example_block example_hash] by (simp add: example_block_def)

text \<open>
  C25: Two blocks with the same merkle root and trees of the same height have the same transaction
  hashes, or one of them is reported as mutated, unless two different pairs that occur in the trees
  hash to the same value: the flag catches every way of repeating transactions.
\<close>

theorem merkle_root_commits:
  assumes "vtx b \<noteq> []" "vtx b' \<noteq> []" "snd (snd (BuildMerkleTree Hash b)) = snd (snd (BuildMerkleTree Hash b'))"
    and "length (levels (hash_pair Hash) (map (tx_GetHash Hash) (vtx b))) = length (levels (hash_pair Hash) (map (tx_GetHash Hash) (vtx b')))"
    and "inj_on (\<lambda>(x, y). hash_pair Hash x y)
      (hashed_pairs (hash_pair Hash) (map (tx_GetHash Hash) (vtx b)) \<union> hashed_pairs (hash_pair Hash) (map (tx_GetHash Hash) (vtx b')))"
  shows "map (tx_GetHash Hash) (vtx b) = map (tx_GetHash Hash) (vtx b') \<or>
    fst (snd (BuildMerkleTree Hash b)) \<or> fst (snd (BuildMerkleTree Hash b'))"
  using merkle_root_inject [of "map (tx_GetHash Hash) (vtx b)" "map (tx_GetHash Hash) (vtx b')" "hash_pair Hash"] assms
  by (simp add: BuildMerkleTree_root BuildMerkleTree_mutated)

theorem merkle_root_commits_witness:
  "map (tx_GetHash example_hash) (vtx example_block) = map (tx_GetHash example_hash) (vtx (example_block\<lparr>bh_nNonce := 7\<rparr>)) \<or>
     fst (snd (BuildMerkleTree example_hash example_block)) \<or>
     fst (snd (BuildMerkleTree example_hash (example_block\<lparr>bh_nNonce := 7\<rparr>)))"
proof (rule merkle_root_commits)
  let ?H = "hash_pair example_hash" and ?L = "[bu_of_u64 8 8, bu_of_u64 8 9]"
  have L: "map (tx_GetHash example_hash) (vtx example_block) = ?L"
    "map (tx_GetHash example_hash) (vtx (example_block\<lparr>bh_nNonce := 7\<rparr>)) = ?L"
    by (simp_all add: example_block_def example_hashes)
  have "hashed_pairs ?H ?L = {(bu_of_u64 8 8, bu_of_u64 8 9)}"
    by (simp add: hashed_pairs_up) (simp add: hashed_pairs_def levels.simps)
  then show "inj_on (\<lambda>(x, y). ?H x y)
      (hashed_pairs ?H (map (tx_GetHash example_hash) (vtx example_block)) \<union>
       hashed_pairs ?H (map (tx_GetHash example_hash) (vtx (example_block\<lparr>bh_nNonce := 7\<rparr>))))"
    unfolding L by simp
  show "snd (snd (BuildMerkleTree example_hash example_block)) =
      snd (snd (BuildMerkleTree example_hash (example_block\<lparr>bh_nNonce := 7\<rparr>)))"
    "length (levels ?H (map (tx_GetHash example_hash) (vtx example_block))) =
      length (levels ?H (map (tx_GetHash example_hash) (vtx (example_block\<lparr>bh_nNonce := 7\<rparr>))))"
    by (simp_all only: BuildMerkleTree_root L)
qed (simp_all add: example_block_def)

text \<open>
  C26: A partial merkle tree built for a selection of the transactions, sent and received, yields
  the root of the block and exactly the selected hashes.
\<close>

theorem partial_tree_yields_the_selection:
  assumes "txids \<noteq> []" "length txids \<le> MAX_BLOCK_SIZE div 60" "list_all is_uint256 txids"
    and "list_all is_uint256 (vHash (new_partial_tree H txids m))"
    and "length (vBits (new_partial_tree H txids m)) < 2 ^ 20"
  shows "\<exists>t. unser_partial_tree (ser_partial_tree (new_partial_tree H txids m) @ s) = Inr (t, s) \<and>
    ExtractMatches H t = (merkle_root H txids, selected txids m [0..<length txids])"
  using assms by (rule partial_tree_over_the_wire)

theorem partial_tree_yields_the_selection_witness:
  "\<exists>t. ExtractMatches (\<lambda>a b. bu_add a b) t =
     (merkle_root (\<lambda>a b. bu_add a b) [bu_of_u64 8 1, bu_of_u64 8 2, bu_of_u64 8 3], [bu_of_u64 8 2])"
proof -
  let ?L = "[bu_of_u64 8 1, bu_of_u64 8 2, bu_of_u64 8 3]" and ?m = "[False, True, False]"
  have "list_all is_uint256 (vHash (new_partial_tree bu_add ?L ?m)) \<and> length (vBits (new_partial_tree bu_add ?L ?m)) < 20"
    by code_simp
  moreover have "list_all is_uint256 ?L" by (simp add: len_simps)
  ultimately show ?thesis
    using partial_tree_yields_the_selection [of ?L bu_add ?m "[]"] by (auto simp: MAX_BLOCK_SIZE_def selected_def upt_conv_Cons)
qed

text \<open>
  A block read from a stream is the block that was written, with its signature when it is a
  proof-of-stake block, and reading stops at its end.
\<close>

theorem block_round_trip:
  assumes "valid_block b"
  shows "unser_block (ser_block b @ s) = Inr (b, s)"
  using assms by (rule block.unser_ser)

theorem block_round_trip_witness: "unser_block (ser_block example_block @ [1, 2]) = Inr (example_block, [1, 2])"
proof (rule block_round_trip)
  show "valid_block example_block"
    by (simp add: valid_block_def valid_header_def example_block_def example_coinbase_def example_stake_def IsProofOfStake_def
        IsCoinStake_def valid_tx_def valid_txin_def valid_txout_def valid_outpoint_def small_def MAX_SIZE_def int64_range_def
        COutPoint_null_def CTxOut_IsEmpty_def len_simps)
qed

section \<open>The block index\<close>

text \<open>A chain of two indexed blocks.\<close>

definition example_genesis :: CBlockIndex where
  "example_genesis = Index (entry_null\<lparr>phashBlock := Some (bu_of_u64 8 1), bi_nBits := 0x1d0ffff0\<rparr>) None None"

definition example_next :: CBlockIndex where
  "example_next = Index (entry_null\<lparr>phashBlock := Some (bu_of_u64 8 2), nHeight := 1, bi_nBits := 0x1d0ffff0\<rparr>)
     (Some example_genesis) (Some example_genesis)"

lemma example_indexed: "indexed example_genesis" "indexed example_next"
proof -
  show g: "indexed example_genesis" by (simp add: example_genesis_def entry_null_def indexed.genesis)
  show "indexed example_next"
    by (rule indexed.successor [OF g, where e = "entry example_next"])
      (simp_all add: BuildSkip_def GetSkipHeight_def GetAncestor_def ancestor_loop.simps example_next_def
        example_genesis_def entry_null_def)
qed

lemma example_paths: "path example_genesis = [example_genesis]" "path example_next = [example_genesis, example_next]"
proof -
  show g: "path example_genesis = [example_genesis]" by (simp add: path_simp [of example_genesis]) (simp add: example_genesis_def)
  have "pprev example_next = Some example_genesis" by (simp add: example_next_def)
  then show "path example_next = [example_genesis, example_next]" by (simp add: path_simp [of example_next] g)
qed

text \<open>
  C24: \<^verbatim>\<open>GetAncestor\<close> reaches, over the skip pointers that \<^verbatim>\<open>BuildSkip\<close> set, the block that the
  predecessor pointers lead to, for every height, and never dereferences a null pointer.
\<close>

theorem skip_list_finds_the_ancestor:
  assumes "indexed b"
  shows "GetAncestor b height =
    Some (if 0 \<le> height \<and> height \<le> nHeight (entry b) then walk_back (nat (nHeight (entry b) - height)) b else None)"
  using assms by (rule GetAncestor_back)

theorem skip_list_finds_the_ancestor_witness: "GetAncestor example_next 0 = Some (Some example_genesis)"
  by (subst skip_list_finds_the_ancestor [OF example_indexed(2)]) (simp add: example_next_def)

text \<open>
  C23: \<^verbatim>\<open>SetTip\<close> makes the active chain the path to the new tip, whatever path it was before, and
  \<^verbatim>\<open>FindFork\<close> then gives the last block of a path that is on the active chain, if there is one.
\<close>

theorem active_chain_is_the_path_to_the_tip:
  assumes "chain_ok vChain" "indexed t" "indexed b"
  shows "SetTip vChain (Some t) = map Some (path t) \<and> chain_ok (SetTip vChain (Some t)) \<and>
    FindFork (SetTip vChain (Some t)) b =
      Some (let both = filter (\<lambda>c. c \<in> set (path t)) (path b) in if both = [] then None else Some (last both))"
  using SetTip_path [OF assms(1,2)] FindFork_common [OF assms(2,3)] assms(2) by (auto simp: chain_ok_def common_def)

theorem active_chain_is_the_path_to_the_tip_witness:
  "FindFork (SetTip [] (Some example_genesis)) example_next = Some (Some example_genesis)"
proof -
  have "chain_ok []" by (simp add: chain_ok_def)
  moreover have "example_next \<noteq> example_genesis" by (simp add: example_next_def example_genesis_def entry_null_def)
  ultimately show ?thesis
    using active_chain_is_the_path_to_the_tip [THEN conjunct2, THEN conjunct2, OF _ example_indexed(1,2), of "[]"]
    unfolding example_paths by simp
qed

text \<open>
  C39: \<^verbatim>\<open>GetLocator\<close> ends, lists the hashes of ancestors at heights that step back one by one and
  then in doubling steps, ends with the genesis block, and is of logarithmic length.
\<close>

theorem locator_ends_at_the_genesis_block:
  assumes "indexed t" "indexed b" "hashed b" "nHeight (entry b) + 1 < 2 ^ k"
  shows "GetLocator (map Some (path t)) (Some b) = Some (map (hash_at b) (locator_heights (nHeight (entry b)) 1 0)) \<and>
    last (locator_heights (nHeight (entry b)) 1 0) = 0 \<and> length (locator_heights (nHeight (entry b)) 1 0) \<le> k + 11"
proof -
  have "0 \<le> nHeight (entry b)" using indexed_height [OF assms(2)] by simp
  then show ?thesis using GetLocator_heights [OF assms(1-3)] locator_heights_last locator_heights_length [of _ 0 k] assms(4) by auto
qed

theorem locator_ends_at_the_genesis_block_witness:
  "\<exists>hs. GetLocator (map Some (path example_genesis)) (Some example_next) = Some hs \<and> length hs \<le> 13"
proof -
  have "hashed example_next" by (simp add: hashed_def example_paths) (simp add: example_next_def example_genesis_def)
  from locator_ends_at_the_genesis_block [OF example_indexed this, of 2] show ?thesis by (simp add: example_next_def)
qed

section \<open>Proof of work\<close>


text \<open>
  C28: In the proof-of-work phase, with a target spacing of 60 seconds, the next target is the moving average of the
  targets of the last 24 blocks times the time from the 24th last block to the last one, clamped between a third
  and three times the expected 1440 seconds, over the expected time, rounded down and capped at the limit. In the
  moving average the \<open>k\<close>-th block, counted back from the tip, joins the average of the blocks after it, which is
  weighted \<open>k\<close>, with weight one, rounded down each time; it lies between the least and the greatest of the 24
  targets. The targets are at most the limit and the times of the blocks positive.
\<close>

theorem work_retarget_is_exact:
  assumes "bs = ancestors 24 (Some b)" "indexed b" "24 \<le> nHeight (entry b)" "nHeight (entry b) \<le> nLastPOWBlock P"
    and "nTargetSpacing P = 60" "length (bnProofOfWorkLimit P) = 8" "wval (bnProofOfWorkLimit P) < 2 ^ 240"
    and "\<forall>c \<in> set bs. block_target c \<le> wval (bnProofOfWorkLimit P) \<and> bi_GetBlockTime c > 0"
  shows "length bs = 24 \<and>
    (\<exists>c. GetNextWorkRequired P (Some b) = Some c \<and>
      compact_of (min (int (wval (bnProofOfWorkLimit P)))
        (int (moving_average (map block_target bs)) * clamp 1440 (bi_GetBlockTime b - bi_GetBlockTime (last bs)) div 1440)) c) \<and>
    Min (set (map block_target bs)) \<le> moving_average (map block_target bs) \<and>
    moving_average (map block_target bs) \<le> Max (set (map block_target bs))"
proof -
  have l: "length bs = 24" unfolding assms(1) by (rule length_ancestors [OF assms(2)]) (use assms(3) in simp)
  then have "map block_target bs \<noteq> []" by auto
  from moving_average_bounds [OF this, of "Min (set (map block_target bs))" "Max (set (map block_target bs))"]
  show ?thesis using GetNextWorkRequired_pow [OF assms(2-7) assms(8) [unfolded assms(1)]] l unfolding assms(1) by simp
qed

text \<open>A chain of any height, with 60 seconds between blocks.\<close>

fun example_chain :: "nat \<Rightarrow> CBlockIndex" where
  "example_chain 0 = example_genesis"
| "example_chain (Suc n) = the (BuildSkip (Index (entry_null\<lparr>phashBlock := Some (bu_of_u64 8 2), nHeight := int (Suc n),
     bi_nBits := 0x1d0ffff0, bi_nTime := of_nat (60 * Suc n)\<rparr>) (Some (example_chain n)) None))"

lemma example_chain_indexed:
  "indexed (example_chain n) \<and> nHeight (entry (example_chain n)) = int n \<and> bi_nBits (entry (example_chain n)) = 0x1d0ffff0 \<and>
   (\<forall>c \<in> set (path (example_chain n)). bi_nBits (entry c) = 0x1d0ffff0) \<and> bi_nTime (entry (example_chain n)) = of_nat (60 * n) \<and>
   (n > 0 \<longrightarrow> pprev (example_chain n) = Some (example_chain (n - 1)))"
proof (induction n)
  case 0
  then show ?case by (simp add: example_indexed example_paths) (simp add: example_genesis_def entry_null_def)
next
  case (Suc n)
  let ?e = "entry_null\<lparr>phashBlock := Some (bu_of_u64 8 2), nHeight := int (Suc n),
     bi_nBits := 0x1d0ffff0, bi_nTime := of_nat (60 * Suc n)\<rparr>"
  have "nHeight ?e = nHeight (entry (example_chain n)) + 1" using Suc by (simp add: entry_null_def)
  from BuildSkip_indexed [OF _ this] Suc obtain b where
    b: "BuildSkip (Index ?e (Some (example_chain n)) None) = Some b" "indexed b" by blast
  then have "example_chain (Suc n) = b" by simp
  moreover have "entry b = ?e" "pprev b = Some (example_chain n)" using BuildSkip_Some [OF b(1)] by simp_all
  ultimately show ?case using b(2) Suc by (simp add: path_simp [of b])
qed

lemma example_target: "target 0x1d0ffff0 = 0xffff0 * 2 ^ 208"
proof -
  have "wval (fst (set_compact 0x1d0ffff0)) = compact_decode (29, 0xffff0) mod 2 ^ 256"
    by (rule set_compact_val) simp_all
  then show ?thesis by (simp add: target_def compact_decode_def)
qed

lemma example_chain_times: "n < 1000 \<Longrightarrow> bi_GetBlockTime (example_chain n) = 60 * int n"
proof -
  assume n: "n < 1000"
  have "bi_nTime (entry (example_chain n)) = of_nat (60 * n)" using example_chain_indexed by blast
  then have "bi_GetBlockTime (example_chain n) = uint (of_nat (60 * n) :: u32)" by (simp only: bi_GetBlockTime_def)
  also have "\<dots> = int (60 * n)" using n by (simp add: unsigned_of_nat take_bit_nat_eq_self del: of_nat_mult)
  finally show ?thesis by simp
qed


lemma main_limit: "length (bnProofOfWorkLimit CMainParams) = 8" "wval (bnProofOfWorkLimit CMainParams) = 2 ^ 236 - 1"
  by (simp_all add: CMainParams_def len_simps val_simps)

lemma example_chain_ancestors: "k \<le> Suc n \<Longrightarrow> ancestors k (Some (example_chain n)) = map example_chain (rev [Suc n - k..<Suc n])"
proof (induction k arbitrary: n)
  case (Suc k)
  show ?case
  proof (cases n)
    case 0
    then have "k = 0" using Suc.prems by simp
    then show ?thesis using 0 by simp
  next
    case (Suc m)
    then have "pprev (example_chain n) = Some (example_chain m)" using example_chain_indexed [of n] by simp
    then show ?thesis using Suc.IH [of m] Suc.prems Suc by (simp del: example_chain.simps)
  qed
qed simp

theorem work_retarget_is_exact_witness:
  "\<exists>c. GetNextWorkRequired CMainParams (Some (example_chain 30)) = Some c \<and> compact_of (0xffff0 * 2 ^ 208 * 1380 div 1440) c"
proof -
  let ?bs = "ancestors 24 (Some (example_chain 30))"
  note e = example_chain_indexed [of 30]
  have bs: "?bs = map example_chain (rev [7..<31])" using example_chain_ancestors [of 24 30] by simp
  have t: "block_target (example_chain n) = 0xffff0 * 2 ^ 208" for n
    using example_chain_indexed [of n] by (simp add: block_target_def example_target)
  have a: "set (map block_target ?bs) = {0xffff0 * 2 ^ 208}" unfolding bs by (auto simp: t)
  have h: "24 \<le> nHeight (entry (example_chain 30))" "nHeight (entry (example_chain 30)) \<le> nLastPOWBlock CMainParams"
    "nTargetSpacing CMainParams = 60" "wval (bnProofOfWorkLimit CMainParams) < 2 ^ 240"
    using e by (simp_all add: main_limit) (simp_all add: CMainParams_def)
  have m: "\<forall>c \<in> set ?bs. block_target c \<le> wval (bnProofOfWorkLimit CMainParams) \<and> bi_GetBlockTime c > 0"
    unfolding bs by (auto simp: t main_limit example_chain_times)
  have "last ?bs = example_chain 7" unfolding bs by (simp add: last_map last_rev)
  then have s: "bi_GetBlockTime (example_chain 30) - bi_GetBlockTime (last ?bs) = 1380" by (simp add: example_chain_times)
  have i: "indexed (example_chain 30)" using e by blast
  note W = work_retarget_is_exact [OF refl i h(1-3) main_limit(1) h(4) m, unfolded a s]
  then have v: "moving_average (map block_target ?bs) = 0xffff0 * 2 ^ 208" by simp
  have "min (2 ^ 236 - 1) (0xffff0 * 2 ^ 208 * clamp 1440 1380 div 1440) = (0xffff0 * 2 ^ 208 * 1380 div 1440 :: int)" by (simp add: clamp_def)
  then show ?thesis using W unfolding v main_limit by auto
qed

text \<open>
  C40: The work of a block is 2 to the 256 over its target plus one, rounded down, for every
  target that is neither zero, negative nor out of range; the trust score of a proof-of-stake block,
  meant to be the same, is zero, because 2 to the 256 is not a 256-bit number.
\<close>

theorem block_proof_is_exact:
  assumes "\<not> fst (snd (set_compact (bi_nBits (entry b))))" "\<not> snd (snd (set_compact (bi_nBits (entry b))))"
    and "target (bi_nBits (entry b)) \<noteq> 0"
  shows "(\<exists>w. GetBlockProof b = Some w \<and> wval w = 2 ^ 256 div (target (bi_nBits (entry b)) + 1)) \<and>
    (bi_IsProofOfStake b \<longrightarrow> map_option wval (GetBlockTrust b) = Some 0)"
  using GetBlockProof_exact [OF assms] GetBlockTrust_stake [of b] by auto

theorem block_proof_is_exact_witness:
  "map_option wval (GetBlockProof example_genesis) = Some (2 ^ 256 div (0xffff0 * 2 ^ 208 + 1))"
proof -
  have "\<not> fst (snd (set_compact 0x1d0ffff0)) \<and> \<not> snd (snd (set_compact 0x1d0ffff0))" by code_simp
  then show ?thesis using block_proof_is_exact [of example_genesis] example_target by (auto simp: example_genesis_def)
qed

subsection \<open>The memory pool\<close>

text \<open>
  C32: Removing a transaction from the memory pool with its dependants returns, whatever the pool holds,
  takes out exactly the transactions that descend from it by spending outputs of one another, reports
  exactly these, and leaves a consistent pool: the index of spent outputs, the hashes and the total size
  agree with the transactions that stay.
\<close>

theorem removal_takes_the_descendants:
  assumes "pool_inv Hash pool"
  shows "\<exists>pool' txs. pool_remove Hash tx True pool removed = Some (pool', removed @ txs) \<and> pool_inv Hash pool' \<and>
    map_of (mapTx pool') = map_of (mapTx pool) |` (- descendants (map_of (mapTx pool)) (removal_roots Hash tx pool)) \<and>
    tx_GetHash Hash ` set txs = descendants (map_of (mapTx pool)) (removal_roots Hash tx pool) \<inter> dom (map_of (mapTx pool))"
  using remove_recursive [OF assms] by blast

theorem removal_takes_the_descendants_witness:
  "\<exists>pool'. map_option fst (pool_remove example_pool_hash example_stake True example_pool []) = Some pool' \<and>
    map_of (mapTx pool') (bu_of_u64 8 10) = None"
proof -
  let ?m = "map_of (mapTx example_pool)"
  have "(bu_of_u64 8 9, bu_of_u64 8 10) \<in> child_edges ?m"
    by (auto simp: child_edges_def example_pool_entries CTxMemPoolEntry_new_def child_def example_spend_def example_stake_def)
  moreover have "removal_roots example_pool_hash example_stake example_pool = {bu_of_u64 8 9}"
    by (simp add: removal_roots_def example_pool_hashes example_pool_entries)
  ultimately have "bu_of_u64 8 10 \<in> descendants ?m (removal_roots example_pool_hash example_stake example_pool)"
    by (auto simp: descendants_def)
  then show ?thesis
    using removal_takes_the_descendants [OF example_pool_inv, of example_stake "[]"] by (auto simp: restrict_map_def)
qed

text \<open>
  C31: When a block is connected, the memory pool is cleared of its transactions and of everything that
  conflicts with them, whatever the pool holds: the removal returns, no transaction that stays spends an
  output that the block spends, and a transaction that is neither in the block nor descends from a
  conflict stays; the pool is consistent again.
\<close>

theorem block_clears_the_pool:
  assumes "pool_inv Hash pool"
  shows "\<exists>told pool' conflicts'. removeForBlock Hash txs n pool conflicts = Some (told, pool', conflicts') \<and> pool_inv Hash pool' \<and>
    map_of (mapTx pool') \<subseteq>\<^sub>m map_of (mapTx pool) \<and>
    (\<forall>tx\<in>set txs. clear_of Hash (map_of (mapTx pool')) tx) \<and>
    map_of (mapTx pool) |` (- (tx_GetHash Hash ` set txs \<union> descendants (map_of (mapTx pool))
      (\<Union>tx\<in>set txs. conflicting (map_of (mapTx pool)) (tx_GetHash Hash tx) (vin tx)))) \<subseteq>\<^sub>m map_of (mapTx pool')"
  using block_loop_spec [OF assms, of txs conflicts] by (auto simp: removeForBlock_def)

theorem block_clears_the_pool_witness:
  "\<exists>told pool' conflicts. removeForBlock example_pool_hash [example_stake] 900 example_pool [] = Some (told, pool', conflicts) \<and>
    pool_inv example_pool_hash pool' \<and> clear_of example_pool_hash (map_of (mapTx pool')) example_stake"
  using block_clears_the_pool [OF example_pool_inv, of "[example_stake]" 900 "[]"] by auto

text \<open>
  C33: After a reorganisation no transaction that spends a coinbase or coinstake of the chain which is not deep enough
  stays in the memory pool: what stays and spends coins of the chain from a coinbase or coinstake has at least the
  maturity between the height of the coins and the given height, that of the block taken off. Nothing else leaves but
  the transactions that depend on one that spends such coins, or coins that are not there. The walk returns, keeps
  the pool consistent and does not change what the view of the chain state holds. The coins of the view are not
  above the given height; with the sanity checks of the pool on, where the code asserts that coins are there, every
  input spends the pool or coins of the view.
\<close>

theorem immature_spends_leave_the_pool:
  assumes "tip_inv K v" "pool_inv Hash pool" "0 \<le> nMaturity P" "nMaturity P < 2 ^ 32"
    and "fSanityCheck pool \<longrightarrow> (\<forall>hash e. map_of (mapTx pool) hash = Some e \<longrightarrow> spends_known pool (tip_content K v) (vin (pe_tx e)))"
    and "\<forall>hash coins. tip_content K v hash = Some coins \<longrightarrow> c_nHeight coins \<le> h"
  shows "\<exists>pool' v'. removeCoinbaseSpends Hash (db_GetCoins K) P h pool v = Some (pool', v') \<and> pool_inv Hash pool' \<and>
    tip_inv K v' \<and> tip_content K v' = tip_content K v \<and> map_of (mapTx pool') \<subseteq>\<^sub>m map_of (mapTx pool) \<and>
    (\<forall>hash e. map_of (mapTx pool') hash = Some e \<longrightarrow>
       (\<forall>txin\<in>set (vin (pe_tx e)). \<not> pool_exists pool (op_hash (prevout txin)) \<longrightarrow>
          (\<forall>coins. tip_content K v (op_hash (prevout txin)) = Some coins \<longrightarrow>
             c_fCoinBase coins \<or> c_fCoinStake coins \<longrightarrow> uint (c_nHeight coins) + nMaturity P \<le> uint h))) \<and>
    map_of (mapTx pool) |` (- descendants (map_of (mapTx pool)) (unspendable_now P h (tip_content K v) pool)) \<subseteq>\<^sub>m map_of (mapTx pool')"
  by (rule removeCoinbaseSpends_law [OF assms])

theorem immature_spends_leave_the_pool_witness:
  "\<exists>pool' v'. removeCoinbaseSpends example_pool_hash (db_GetCoins example_curve) CMainParams 901 example_pool (base example_view) = Some (pool', v') \<and>
    pool_inv example_pool_hash pool'"
proof -
  have "tip_inv example_curve (base example_view)" using example_view_ok(1) by (rule block_inv_base)
  moreover have "\<not> fSanityCheck example_pool" by (simp add: example_pool_def addUnchecked_def CTxMemPool_new_def)
  moreover have "0 \<le> nMaturity CMainParams" "nMaturity CMainParams < 2 ^ 32" by (simp_all add: CMainParams_def)
  moreover have "tip_content example_curve (base example_view) = (\<lambda>_. None)"
    by (simp add: example_view_def new_cache_def view_defs cache_content_def under_def db_content_def db_GetCoins_def)
  ultimately show ?thesis
    using immature_spends_leave_the_pool [OF _ example_pool_inv, of example_curve "base example_view" CMainParams 901] by force
qed

subsection \<open>Activating chains\<close>

text \<open>
  C34: Activating the best chain keeps the invariant of the node, whether it succeeds or fails: the active
  chain is the path to its tip, its blocks have data and have not failed, and the candidates were entered in
  the index. It does not touch the block map, forgets no data and forgives no failure.
\<close>

theorem activation_keeps_the_chain_usable:
  assumes "node_ok st" "ActivateBestChain W n state pblock st = Inr (ok, state', st')"
  shows "node_ok st' \<and> tame st st'"
  using ActivateBestChain_ends [OF assms(2)] assms(1) unfolding node_ok_def by blast

theorem activation_keeps_the_chain_usable_witness:
  "\<exists>state' st'. ActivateBestChain example_node_ops 13 example_state None example_start = Inr (True, state', st') \<and> node_ok st' \<and>
     chainActive st' = [Some example_root] \<and> failed st' example_fork"
  using activation_keeps_the_chain_usable [OF example_start_ok example_activation] example_activation example_end_fields by auto

text \<open>
  C36: When activating the best chain returns success, the tip is the best of the candidates: no candidate is
  after it in the order by work, sequence number and address; or no candidate is left.
\<close>

theorem activation_reaches_the_best_candidate:
  assumes "node_ok st" "ActivateBestChain W n state pblock st = Inr (True, state', st')"
  shows "setBlockIndexCandidates st' = [] \<or>
    (\<exists>tip. Tip (chainActive st') False = Some tip \<and> (\<forall>c \<in> set (setBlockIndexCandidates st'). \<not> work_less W st' tip c))"
  using ActivateBestChain_ends [OF assms(2)] assms(1) unfolding node_ok_def by blast

theorem activation_reaches_the_best_candidate_witness:
  "\<exists>state' st' tip. ActivateBestChain example_node_ops 13 example_state None example_start = Inr (True, state', st') \<and>
     Tip (chainActive st') False = Some tip \<and> (\<forall>c \<in> set (setBlockIndexCandidates st'). \<not> work_less example_node_ops st' tip c)"
  using activation_reaches_the_best_candidate [OF example_start_ok example_activation] example_activation example_end_fields by auto

text \<open>
  C35: Activating the best chain ends. Let the blocks that are read from disk, and the block at hand, be intact:
  their merkle root is that of their transactions, without a repetition, the legacy signature operations are
  within the limit and the hash of a proof-of-work block meets its target, as the checks before a block is stored
  establish; and let the validation state at the start not suspect a corruption. Then the number of rounds is
  bounded by the square of the number of blocks on the active chain and on the ways to the candidates, since
  every round finds a block that fails or a tip with more work.
\<close>

theorem activation_ends:
  assumes "node_ok st" "intact_blocks W pblock" "\<not> corruptionPossible state"
    "(length (reachable_blocks st) + 1) * (length (reachable_blocks st) + 2) \<le> n"
  shows "ActivateBestChain W n state pblock st \<noteq> Inl Out_of_rounds"
proof -
  let ?S = "set (reachable_blocks st)"
  have "card ?S = length (reachable_blocks st)" by (rule distinct_card) (simp add: reachable_blocks_def)
  then have "rounds_left ?S st < n" using rounds_left_bound [of ?S st] assms(4) by simp
  moreover have "unsuspicious W pblock state" using assms(2,3) by (simp add: unsuspicious_def)
  ultimately show ?thesis using ActivateBestChain_rounds [of ?S st W pblock state n] reachable_blocks_in [OF assms(1)] by blast
qed

theorem activation_ends_witness:
  "intact_blocks example_node_ops None \<and> ActivateBestChain example_node_ops 13 example_state None example_start \<noteq> Inl Out_of_rounds \<and>
   ActivateBestChain example_node_ops 2 example_state None example_start = Inl Out_of_rounds"
proof -
  have i: "intact_blocks example_node_ops None" "\<not> corruptionPossible example_state"
    using example_intact by (simp_all add: unsuspicious_def)
  have "(length (reachable_blocks example_start) + 1) * (length (reachable_blocks example_start) + 2) \<le> 13" by code_simp
  from activation_ends [OF example_start_ok i this] i(1) example_two_rounds show ?thesis by simp
qed

end
